(* ===== verification/XK_Prelude.thy ===== *)
theory XK_Prelude
  imports Complex_Main "HOL-Library.Word"
begin

text \<open>
  The prelude of the XKBlas development: the conventions for C integers and for
  errors, and the generic facts about loops, sums over tiles and rectangular
  index blocks that the component theories share.

  \<^item> C \<open>int\<close> arguments of the BLAS entry points are Isabelle integers; their conversion
    to \<open>size_t\<close> in mixed comparisons is written out as \<open>size_of_int\<close>.
  \<^item> \<open>kaapi_error\<close> prints a message and calls \<open>abort()\<close>; an aborted call is the
    outcome \<open>Aborted c\<close>, where \<open>return -c\<close> is the statement that follows the call.
  \<^item> \<open>for (k = 0; k < n; k++) body\<close> over a state is \<open>for_loop n body\<close>.
\<close>

named_theorems tile_simps \<open>facts about tile numbers, tile sizes and tile addresses\<close>
named_theorems enum_simps \<open>the numeric values of the CBLAS enumerations\<close>
named_theorems exec_simps \<open>symbolic execution of the task bodies\<close>

section \<open>Outcomes of a call\<close>

text \<open>\<open>Aborted c\<close>: \<open>kaapi_error\<close> was called, the statement after it is \<open>return -c\<close>;
  \<open>Trapped\<close>: a failed \<open>kaapi_assert\<close> or a division by zero; \<open>Returned r\<close>: the call returned.\<close>

datatype 'a outcome = Aborted nat | Trapped | Returned 'a

section \<open>C integers\<close>

definition SIZE_MOD :: int where
  "SIZE_MOD = 2 ^ 64"

definition size_of_int :: "int \<Rightarrow> nat" where
  "size_of_int x = nat (x mod SIZE_MOD)"

definition kaapi_max :: "nat \<Rightarrow> nat \<Rightarrow> nat" where
  "kaapi_max a b = (if a < b then b else a)"

definition kaapi_min :: "nat \<Rightarrow> nat \<Rightarrow> nat" where
  "kaapi_min a b = (if a > b then b else a)"

lemma kaapi_max_is_max [simp]: "kaapi_max a b = max a b"
  by (simp add: kaapi_max_def)

lemma kaapi_min_is_min [simp]: "kaapi_min a b = min a b"
  by (simp add: kaapi_min_def)

lemma size_of_int_nonneg: "0 \<le> x \<Longrightarrow> x < SIZE_MOD \<Longrightarrow> size_of_int x = nat x"
  by (simp add: size_of_int_def)

lemma size_of_int_neg: "x < 0 \<Longrightarrow> - SIZE_MOD \<le> x \<Longrightarrow> size_of_int x = nat (SIZE_MOD + x)"
proof -
  assume a: "x < 0" "- SIZE_MOD \<le> x"
  have "x mod SIZE_MOD = (x + SIZE_MOD) mod SIZE_MOD" by simp
  also have "\<dots> = x + SIZE_MOD" using a by (intro mod_pos_pos_trivial) auto
  finally show ?thesis by (simp add: size_of_int_def algebra_simps)
qed

section \<open>Loops\<close>

definition for_loop :: "nat \<Rightarrow> (nat \<Rightarrow> 's \<Rightarrow> 's) \<Rightarrow> 's \<Rightarrow> 's" where
  "for_loop n body s = fold body [0..<n] s"

lemma for_loop_0 [simp]: "for_loop 0 body s = s"
  by (simp add: for_loop_def)

lemma for_loop_Suc [simp]: "for_loop (Suc n) body s = body n (for_loop n body s)"
  by (simp add: for_loop_def)

lemma for_loop_rule:
  assumes "P 0 s" "\<And>k t. k < n \<Longrightarrow> P k t \<Longrightarrow> P (Suc k) (body k t)"
  shows "P n (for_loop n body s)"
proof -
  have "k \<le> n \<Longrightarrow> P k (for_loop k body s)" for k
    by (induction k) (auto intro: assms)
  then show ?thesis by simp
qed

lemma for_loop_cong:
  "n = n' \<Longrightarrow> (\<And>k t. k < n \<Longrightarrow> body k t = body' k t) \<Longrightarrow> for_loop n body s = for_loop n' body' s"
  unfolding for_loop_def by (rule fold_cong) auto

lemma fold_concat_map: "fold f (concat (map g xs)) s = fold (\<lambda>x. fold f (g x)) xs s"
  by (induction xs arbitrary: s) auto

lemma fold_map_comp: "fold f (map g xs) s = fold (\<lambda>x. f (g x)) xs s"
  by (induction xs arbitrary: s) auto

lemma fold_invariant_list:
  "P s \<Longrightarrow> (\<And>x t. x \<in> set xs \<Longrightarrow> P t \<Longrightarrow> P (f x t)) \<Longrightarrow> P (fold f xs s)"
  by (induction xs arbitrary: s) auto

text \<open>A loop whose body may abort.\<close>

definition for_opt :: "nat \<Rightarrow> (nat \<Rightarrow> 's \<Rightarrow> 's option) \<Rightarrow> 's \<Rightarrow> 's option" where
  "for_opt n body s = fold (\<lambda>k r. Option.bind r (body k)) [0..<n] (Some s)"

lemma for_opt_0 [simp]: "for_opt 0 body s = Some s"
  by (simp add: for_opt_def)

lemma for_opt_Suc [simp]: "for_opt (Suc n) body s = Option.bind (for_opt n body s) (body n)"
  by (simp add: for_opt_def)

lemma for_opt_rule:
  assumes "P 0 s" "\<And>k t. k < n \<Longrightarrow> P k t \<Longrightarrow> \<exists>t'. body k t = Some t' \<and> P (Suc k) t'"
  shows "\<exists>t. for_opt n body s = Some t \<and> P n t"
proof -
  have "k \<le> n \<Longrightarrow> \<exists>t. for_opt k body s = Some t \<and> P k t" for k
  proof (induction k)
    case (Suc k)
    then obtain t where "for_opt k body s = Some t" "P k t" by auto
    with assms(2) [of k t] Suc.prems show ?case by auto
  qed (simp add: assms(1))
  then show ?thesis by simp
qed

lemma for_opt_inv:
  assumes "for_opt n body s = Some t" "P s" "\<And>k u v. body k u = Some v \<Longrightarrow> P u \<Longrightarrow> P v"
  shows "P t"
  using assms(1)
proof (induction n arbitrary: t)
  case 0 then show ?case using assms(2) by simp
next
  case (Suc n) then show ?case using assms(3) by (auto simp: bind_eq_Some_conv)
qed

section \<open>Tiles of an index range\<close>

text \<open>\<open>xkblas_num_of_tiles(M,NB)\<close> of \<open>common.gen\<close>, and the size of tile \<open>k\<close> as every loop
  computes it: \<open>temp = k == kt-1 ? M-k*NB : NB\<close>.\<close>

definition xkblas_num_of_tiles :: "nat \<Rightarrow> nat \<Rightarrow> nat" where
  "xkblas_num_of_tiles M NB = (M + NB - 1) div NB"

definition tile_dim :: "nat \<Rightarrow> nat \<Rightarrow> nat \<Rightarrow> nat \<Rightarrow> nat" where
  "tile_dim kt M NB k = (if k = kt - 1 then M - k * NB else NB)"

lemma num_tiles_0 [simp]: "0 < NB \<Longrightarrow> xkblas_num_of_tiles 0 NB = 0"
  by (simp add: xkblas_num_of_tiles_def)

lemma num_tiles_pos [tile_simps]:
  "0 < NB \<Longrightarrow> 0 < xkblas_num_of_tiles M NB \<longleftrightarrow> 0 < M"
  by (auto simp: xkblas_num_of_tiles_def div_greater_zero_iff)

lemma tile_index_less [tile_simps]:
  assumes "0 < NB" shows "k < xkblas_num_of_tiles M NB \<longleftrightarrow> k * NB < M"
proof -
  have "k < (M + NB - 1) div NB \<longleftrightarrow> Suc k * NB \<le> M + NB - 1"
    using assms by (metis Suc_le_eq less_eq_div_iff_mult_less_eq)
  also have "\<dots> \<longleftrightarrow> k * NB < M"
    using assms by auto
  finally show ?thesis by (simp add: xkblas_num_of_tiles_def)
qed

lemma tiles_cover: "0 < NB \<Longrightarrow> M \<le> xkblas_num_of_tiles M NB * NB"
  using tile_index_less [of NB "xkblas_num_of_tiles M NB" M] by simp

lemma tile_dim_min [tile_simps]:
  assumes "0 < NB" "k < xkblas_num_of_tiles M NB"
  shows "tile_dim (xkblas_num_of_tiles M NB) M NB k = min NB (M - k * NB)"
proof (cases "k = xkblas_num_of_tiles M NB - 1")
  case True
  have "M \<le> xkblas_num_of_tiles M NB * NB" using tiles_cover assms by simp
  also have "\<dots> = k * NB + NB" using True assms(2) by (cases "xkblas_num_of_tiles M NB") auto
  finally have "M - k * NB \<le> NB" by simp
  then show ?thesis using True by (simp add: tile_dim_def)
next
  case False
  then have "Suc k < xkblas_num_of_tiles M NB" using assms(2) by simp
  then have "Suc k * NB < M" using assms by (simp only: tile_index_less)
  then show ?thesis using False by (simp add: tile_dim_def)
qed

lemma tile_dim_pos:
  "0 < NB \<Longrightarrow> k < xkblas_num_of_tiles M NB \<Longrightarrow> 0 < tile_dim (xkblas_num_of_tiles M NB) M NB k"
  by (simp add: tile_dim_min) (simp add: tile_index_less)

lemma tile_dim_le:
  "0 < NB \<Longrightarrow> k < xkblas_num_of_tiles M NB \<Longrightarrow> tile_dim (xkblas_num_of_tiles M NB) M NB k \<le> NB"
  by (simp add: tile_dim_min)

lemma tile_dim_bound:
  "0 < NB \<Longrightarrow> k < xkblas_num_of_tiles M NB \<Longrightarrow> k * NB + tile_dim (xkblas_num_of_tiles M NB) M NB k \<le> M"
  by (simp add: tile_dim_min) (simp add: tile_index_less)

lemma tile_of_index:
  assumes "0 < NB" "i < M"
  shows "i div NB < xkblas_num_of_tiles M NB"
    and "i mod NB < tile_dim (xkblas_num_of_tiles M NB) M NB (i div NB)"
    and "(i div NB) * NB + i mod NB = i"
proof -
  show e: "(i div NB) * NB + i mod NB = i" by simp
  show l: "i div NB < xkblas_num_of_tiles M NB"
    using assms e by (metis le_add1 le_less_trans tile_index_less)
  show "i mod NB < tile_dim (xkblas_num_of_tiles M NB) M NB (i div NB)"
  proof -
    have "i - i div NB * NB < M - i div NB * NB"
      using assms(2) by (rule diff_less_mono) simp
    then show ?thesis using assms(1) l by (simp add: tile_dim_min minus_div_mult_eq_mod)
  qed
qed

lemma in_tile_iff:
  assumes "0 < NB" "k < xkblas_num_of_tiles M NB" "i < M"
  shows "(k * NB \<le> i \<and> i < k * NB + tile_dim (xkblas_num_of_tiles M NB) M NB k) \<longleftrightarrow> i div NB = k"
proof
  assume a: "k * NB \<le> i \<and> i < k * NB + tile_dim (xkblas_num_of_tiles M NB) M NB k"
  then have "i < k * NB + NB" using tile_dim_le [OF assms(1,2)] by linarith
  with a show "i div NB = k"
    using assms(1) by (metis add.commute div_nat_eqI mult.commute mult_Suc)
next
  assume "i div NB = k"
  with tile_of_index [OF assms(1,3)] show
    "k * NB \<le> i \<and> i < k * NB + tile_dim (xkblas_num_of_tiles M NB) M NB k"
    by (metis add_less_cancel_left le_add1)
qed

lemma div_less_less: "i div NB < j div NB \<Longrightarrow> i < (j::nat)"
  by (meson div_le_mono leD leI)

lemma tile_index_div:
  fixes k NB l :: nat
  assumes "l < NB"
  shows "(k * NB + l) div NB = k"
  using assms by simp

section \<open>Sums over the tiles of a range\<close>

lemma sum_shift_tile:
  fixes f :: "nat \<Rightarrow> 'a::comm_monoid_add"
  shows "(\<Sum>l<a + b. f l) = (\<Sum>l<a. f l) + (\<Sum>l<b. f (a + l))"
proof (induction b)
  case (Suc b) then show ?case by (simp add: add.assoc)
qed simp

text \<open>The part of a range already summed when the loop over tiles reaches tile \<open>k\<close>.\<close>

lemma tile_prefix_step:
  assumes "0 < NB" "k < xkblas_num_of_tiles M NB"
  shows "min (Suc k * NB) M = k * NB + tile_dim (xkblas_num_of_tiles M NB) M NB k"
    and "min (k * NB) M = k * NB"
  using assms by (auto simp: tile_dim_min tile_index_less min_def)

lemma tile_prefix_end:
  "0 < NB \<Longrightarrow> min (xkblas_num_of_tiles M NB * NB) M = M"
  using tiles_cover [of NB M] by simp

lemma sum_tile_step:
  fixes f :: "nat \<Rightarrow> 'a::comm_monoid_add"
  assumes "0 < NB" "k < xkblas_num_of_tiles M NB"
  shows "(\<Sum>l<min (Suc k * NB) M. f l)
       = (\<Sum>l<min (k * NB) M. f l) + (\<Sum>l<tile_dim (xkblas_num_of_tiles M NB) M NB k. f (k * NB + l))"
  by (simp only: tile_prefix_step [OF assms] sum_shift_tile)

section \<open>Matrices and blocks\<close>

type_synonym cmat = "nat \<Rightarrow> nat \<Rightarrow> complex"

text \<open>\<open>upd_block r c m n F X\<close> is \<open>X\<close> with its \<open>m\<close> by \<open>n\<close> block at \<open>(r,c)\<close> replaced by \<open>F\<close>,
  whose indexes are relative to the block; \<open>sub_block r c X\<close> is \<open>X\<close> seen from \<open>(r,c)\<close>.\<close>

definition upd_block :: "nat \<Rightarrow> nat \<Rightarrow> nat \<Rightarrow> nat \<Rightarrow> cmat \<Rightarrow> cmat \<Rightarrow> cmat" where
  "upd_block r c m n F X =
     (\<lambda>i j. if r \<le> i \<and> i < r + m \<and> c \<le> j \<and> j < c + n then F (i - r) (j - c) else X i j)"

definition sub_block :: "nat \<Rightarrow> nat \<Rightarrow> cmat \<Rightarrow> cmat" where
  "sub_block r c X = (\<lambda>i j. X (r + i) (c + j))"

lemma upd_block_apply:
  "upd_block r c m n F X i j =
     (if r \<le> i \<and> i < r + m \<and> c \<le> j \<and> j < c + n then F (i - r) (j - c) else X i j)"
  by (simp add: upd_block_def)

lemma sub_block_apply [simp]: "sub_block r c X i j = X (r + i) (c + j)"
  by (simp add: sub_block_def)

end
