(* ===== verification/LocalityDomain.thy ===== *)
theory LocalityDomain
  imports XK_Prelude
begin

text \<open>
  The registry of locality domains of \<open>kaapi/kaapi_ld.c\<close>: the tables
  \<open>kaapi_all_lddomains\<close> (the domains of each type, in attachment order), \<open>map_ldid2ld\<close>
  and the counter \<open>kaapi_ldid\<close>, with attach, deattach, finalize and the lookups
  that the mapping functions of \<open>blas/xkblas.c\<close> use.

  A pointer to a \<open>kaapi_localitydomain_t\<close> is the name (a natural number) of an object of
  \<open>lr_obj\<close>; the null pointer is \<open>None\<close>. The type argument is the \<open>unsigned int\<close> the
  code tests. Allocations are assumed to succeed. \<open>None\<close> as the result of an operation is
  an abort of \<open>kaapi_assert\<close>.
\<close>

section \<open>Types of domains\<close>

definition KAAPI_LD_CORE :: nat where "KAAPI_LD_CORE = 1"
definition KAAPI_LD_NUMA :: nat where "KAAPI_LD_NUMA = 2"
definition KAAPI_LD_SOCKET :: nat where "KAAPI_LD_SOCKET = 4"
definition KAAPI_LD_BOARD :: nat where "KAAPI_LD_BOARD = 8"
definition KAAPI_LD_GPU :: nat where "KAAPI_LD_GPU = 16"
definition KAAPI_LD_ALLTYPE :: nat where "KAAPI_LD_ALLTYPE = 31"
definition KAAPI_LD_COUNTTYPE :: nat where "KAAPI_LD_COUNTTYPE = 5"

lemmas ld_type_defs = KAAPI_LD_CORE_def KAAPI_LD_NUMA_def KAAPI_LD_SOCKET_def KAAPI_LD_BOARD_def
  KAAPI_LD_GPU_def KAAPI_LD_ALLTYPE_def KAAPI_LD_COUNTTYPE_def

fun popcount_n :: "nat \<Rightarrow> nat \<Rightarrow> nat" where
  "popcount_n 0 x = 0"
| "popcount_n (Suc w) x = x mod 2 + popcount_n w (x div 2)"

text \<open>\<open>__builtin_ffs\<close>: one plus the index of the lowest set bit among \<open>w\<close> bits, 0 for none.\<close>

fun ffs_n :: "nat \<Rightarrow> nat \<Rightarrow> nat" where
  "ffs_n 0 x = 0"
| "ffs_n (Suc w) x =
     (if x mod 2 = 1 then 1 else (let r = ffs_n w (x div 2) in if r = 0 then 0 else Suc r))"

text \<open>The test every function starts with; \<open>type & KAAPI_LD_ALLTYPE\<close> is \<open>mod 32\<close>.\<close>

definition ld_type_rejected :: "nat \<Rightarrow> bool" where
  "ld_type_rejected type \<longleftrightarrow>
     popcount_n 5 (type mod (KAAPI_LD_ALLTYPE + 1)) \<noteq> 1 \<and>
     type - type mod (KAAPI_LD_ALLTYPE + 1) \<noteq> 0"

definition ld_type_index :: "nat \<Rightarrow> nat option" where
  "ld_type_index type = (let idx = ffs_n 32 type in if idx = 0 then None else Some (idx - 1))"

definition ld_valid_type :: "nat \<Rightarrow> bool" where
  "ld_valid_type type \<longleftrightarrow>
     type \<in> {KAAPI_LD_CORE, KAAPI_LD_NUMA, KAAPI_LD_SOCKET, KAAPI_LD_BOARD, KAAPI_LD_GPU}"

lemma ffs_n_numeral [simp]:
  "ffs_n (numeral w) x =
     (if x mod 2 = 1 then 1
      else if ffs_n (pred_numeral w) (x div 2) = 0 then 0 else Suc (ffs_n (pred_numeral w) (x div 2)))"
  by (simp add: numeral_eq_Suc Let_def)

lemma popcount_n_numeral [simp]:
  "popcount_n (numeral w) x = x mod 2 + popcount_n (pred_numeral w) (x div 2)"
  by (simp add: numeral_eq_Suc)

lemma ld_type_rejected_simps [simp]:
  "\<not> ld_type_rejected (Suc 0)" "\<not> ld_type_rejected 2" "\<not> ld_type_rejected 4"
  "\<not> ld_type_rejected 8" "\<not> ld_type_rejected 16"
  by (simp_all add: ld_type_rejected_def ld_type_defs)

lemma ld_type_index_simps [simp]:
  "ld_type_index (Suc 0) = Some 0" "ld_type_index 2 = Some 1" "ld_type_index 4 = Some 2"
  "ld_type_index 8 = Some 3" "ld_type_index 16 = Some 4"
  by (simp_all add: ld_type_index_def)

lemma ld_valid_type_cases:
  assumes "ld_valid_type type"
  obtains idx where "\<not> ld_type_rejected type" "ld_type_index type = Some idx" "idx < 5"
  using assms by (auto simp: ld_valid_type_def ld_type_defs)

section \<open>State\<close>

record lddom =
  ldm_type :: nat
  ldm_ldid :: nat
  ldm_idx :: nat
  ldm_parent :: "nat option"
  ldm_subld :: "nat list"
  ldm_lid :: nat      \<comment> \<open>the local address-space number of \<open>device->memdev.asid\<close>\<close>

record ldreg =
  lr_tab :: "nat option list list option"   \<comment> \<open>kaapi_all_lddomains[i].ld, of length count; None when null\<close>
  lr_map :: "nat \<Rightarrow> nat option option"       \<comment> \<open>map_ldid2ld; None for an entry never written\<close>
  lr_ldid :: nat                            \<comment> \<open>kaapi_ldid\<close>
  lr_obj :: "nat \<Rightarrow> lddom"

definition UINT_MAX1 :: nat where "UINT_MAX1 = 4294967295"

definition EINVAL :: nat where "EINVAL = 22"

definition lr_init_tab :: "ldreg \<Rightarrow> nat option list list" where
  "lr_init_tab R = (case lr_tab R of None \<Rightarrow> replicate KAAPI_LD_COUNTTYPE [] | Some t \<Rightarrow> t)"

section \<open>Operations\<close>

definition kaapi_localitydomain_finalize :: "ldreg \<Rightarrow> nat \<times> ldreg" where
  "kaapi_localitydomain_finalize R =
     (0, R\<lparr>lr_tab := None, lr_map := (\<lambda>_. None), lr_ldid := 1\<rparr>)"

definition kaapi_localitydomain_attach ::
  "nat \<Rightarrow> nat option \<Rightarrow> nat \<Rightarrow> ldreg \<Rightarrow> (nat \<times> ldreg) option" where
  "kaapi_localitydomain_attach type parent ld R =
     (if ld_type_rejected type then Some (EINVAL, R)
      else case ld_type_index type of
        None \<Rightarrow> None
      | Some idx \<Rightarrow>
          (let tab = lr_init_tab R;
               row = tab ! idx;
               id = lr_ldid R;
               o1 = (lr_obj R)(ld := (lr_obj R ld)\<lparr>ldm_type := type, ldm_idx := length row,
                                                  ldm_ldid := id, ldm_parent := parent\<rparr>);
               o2 = (case parent of
                       None \<Rightarrow> o1
                     | Some p \<Rightarrow> o1(p := (o1 p)\<lparr>ldm_subld := ldm_subld (o1 p) @ [ld]\<rparr>))
           in Some (0, R\<lparr>lr_tab := Some (tab[idx := row @ [Some ld]]),
                         lr_map := (lr_map R)(id := Some (Some ld)),
                         lr_ldid := Suc id, lr_obj := o2\<rparr>)))"

definition kaapi_localitydomain_deattach :: "nat \<Rightarrow> nat \<Rightarrow> ldreg \<Rightarrow> (nat \<times> ldreg) option" where
  "kaapi_localitydomain_deattach type ld R =
     (if ld_type_rejected type then Some (EINVAL, R)
      else case ld_type_index type of
        None \<Rightarrow> None
      | Some idx \<Rightarrow>
          (case lr_tab R of
             None \<Rightarrow> None
           | Some tab \<Rightarrow>
               let L = lr_obj R ld;
                   o1 = (lr_obj R)(ld := L\<lparr>ldm_idx := UINT_MAX1\<rparr>);
                   o2 = (case ldm_parent L of
                           None \<Rightarrow> o1
                         | Some p \<Rightarrow> o1(p := (o1 p)\<lparr>ldm_subld := remove1 ld (ldm_subld (o1 p))\<rparr>))
               in Some (0, R\<lparr>lr_tab := Some (tab[idx := (tab ! idx)[ldm_idx L := None]]),
                             lr_map := (lr_map R)(ldm_ldid L := Some None),
                             lr_obj := o2\<rparr>)))"

definition kaapi_localitydomain_get :: "nat \<Rightarrow> ldreg \<Rightarrow> nat option option" where
  "kaapi_localitydomain_get ldid R = (if ldid \<ge> lr_ldid R then Some None else lr_map R ldid)"

definition kaapi_localitydomain_count :: "nat \<Rightarrow> ldreg \<Rightarrow> nat option" where
  "kaapi_localitydomain_count type R =
     (case lr_tab R of
        None \<Rightarrow> Some UINT_MAX1
      | Some tab \<Rightarrow>
          if ld_type_rejected type then Some UINT_MAX1
          else map_option (\<lambda>idx. length (tab ! idx)) (ld_type_index type))"

definition kaapi_localitydomain_get_bytype :: "nat \<Rightarrow> nat \<Rightarrow> ldreg \<Rightarrow> nat option option" where
  "kaapi_localitydomain_get_bytype type ith R =
     (case lr_tab R of
        None \<Rightarrow> Some None
      | Some tab \<Rightarrow>
          if ld_type_rejected type then Some None
          else map_option (\<lambda>idx. if ith \<ge> length (tab ! idx) then None else tab ! idx ! ith)
                 (ld_type_index type))"

definition kaapi_localitydomain_get_num :: "nat \<Rightarrow> nat \<Rightarrow> ldreg \<Rightarrow> nat option" where
  "kaapi_localitydomain_get_num type i R =
     map_option (\<lambda>p. case p of None \<Rightarrow> UINT_MAX1 | Some ld \<Rightarrow> ldm_ldid (lr_obj R ld))
       (kaapi_localitydomain_get_bytype type i R)"

section \<open>Invariant\<close>

text \<open>The registry is well formed: five rows, and every domain in a row knows its type, its
  position in the row and its identifier, which maps back to it.\<close>

definition ld_entry_ok :: "ldreg \<Rightarrow> nat \<Rightarrow> nat \<Rightarrow> nat \<Rightarrow> bool" where
  "ld_entry_ok R t i ld \<longleftrightarrow>
     ld_type_index (ldm_type (lr_obj R ld)) = Some t \<and> ldm_idx (lr_obj R ld) = i \<and>
     ldm_ldid (lr_obj R ld) < lr_ldid R \<and> lr_map R (ldm_ldid (lr_obj R ld)) = Some (Some ld)"

definition ldreg_inv :: "ldreg \<Rightarrow> bool" where
  "ldreg_inv R \<longleftrightarrow>
     (case lr_tab R of
        None \<Rightarrow> True
      | Some tab \<Rightarrow> length tab = 5 \<and>
          (\<forall>t<5. \<forall>i<length (tab ! t). \<forall>ld. tab ! t ! i = Some ld \<longrightarrow> ld_entry_ok R t i ld))"

definition ld_attached :: "ldreg \<Rightarrow> nat \<Rightarrow> bool" where
  "ld_attached R ld \<longleftrightarrow>
     (case lr_tab R of None \<Rightarrow> False | Some tab \<Rightarrow> (\<exists>t<5. Some ld \<in> set (tab ! t)))"

definition ldreg_empty :: "(nat \<Rightarrow> lddom) \<Rightarrow> ldreg" where
  "ldreg_empty obj = \<lparr>lr_tab = None, lr_map = (\<lambda>_. None), lr_ldid = 0, lr_obj = obj\<rparr>"

lemma ldreg_inv_empty [simp]: "ldreg_inv (ldreg_empty obj)"
  by (simp add: ldreg_inv_def ldreg_empty_def)

lemma ldreg_inv_finalize: "ldreg_inv (snd (kaapi_localitydomain_finalize R))"
  by (simp add: ldreg_inv_def kaapi_localitydomain_finalize_def)

lemma length_lr_init_tab: "ldreg_inv R \<Longrightarrow> length (lr_init_tab R) = 5"
  by (auto simp: ldreg_inv_def lr_init_tab_def KAAPI_LD_COUNTTYPE_def split: option.splits)

lemma ldreg_inv_entry:
  assumes "ldreg_inv R" "t < 5" "i < length (lr_init_tab R ! t)" "lr_init_tab R ! t ! i = Some ld"
  shows "ld_entry_ok R t i ld" "ld_attached R ld"
  using assms
  by (auto simp: ldreg_inv_def lr_init_tab_def ld_attached_def KAAPI_LD_COUNTTYPE_def
           split: option.splits intro: nth_mem)
     (metis nth_mem)


lemma ld_attach_ok:
  assumes "ld_valid_type type" "kaapi_localitydomain_attach type parent ld R = Some (err, R')"
  obtains idx where "ld_type_index type = Some idx" "idx < 5" "err = 0"
    "lr_tab R' = Some ((lr_init_tab R)[idx := lr_init_tab R ! idx @ [Some ld]])"
    "lr_map R' = (lr_map R)(lr_ldid R := Some (Some ld))" "lr_ldid R' = Suc (lr_ldid R)"
    "\<And>x. x \<noteq> ld \<Longrightarrow> ldm_type (lr_obj R' x) = ldm_type (lr_obj R x) \<and>
       ldm_idx (lr_obj R' x) = ldm_idx (lr_obj R x) \<and> ldm_ldid (lr_obj R' x) = ldm_ldid (lr_obj R x)"
    "ldm_type (lr_obj R' ld) = type" "ldm_idx (lr_obj R' ld) = length (lr_init_tab R ! idx)"
    "ldm_ldid (lr_obj R' ld) = lr_ldid R"
proof -
  obtain idx where i: "\<not> ld_type_rejected type" "ld_type_index type = Some idx" "idx < 5"
    using assms(1) by (rule ld_valid_type_cases)
  show thesis
    using assms(2) i(1,2)
    by (intro that [OF i(2,3)])
       (auto simp: kaapi_localitydomain_attach_def Let_def split: option.splits)
qed

lemma ldreg_inv_attach:
  assumes inv: "ldreg_inv R" and v: "ld_valid_type type" and fresh: "\<not> ld_attached R ld"
    and att: "kaapi_localitydomain_attach type parent ld R = Some (err, R')"
  shows "ldreg_inv R'"
  using v att
proof (rule ld_attach_ok)
  fix idx
  assume idx: "ld_type_index type = Some idx" "idx < 5"
    and tab: "lr_tab R' = Some ((lr_init_tab R)[idx := lr_init_tab R ! idx @ [Some ld]])"
    and map: "lr_map R' = (lr_map R)(lr_ldid R := Some (Some ld))" and id: "lr_ldid R' = Suc (lr_ldid R)"
    and oth: "\<And>x. x \<noteq> ld \<Longrightarrow> ldm_type (lr_obj R' x) = ldm_type (lr_obj R x) \<and>
       ldm_idx (lr_obj R' x) = ldm_idx (lr_obj R x) \<and> ldm_ldid (lr_obj R' x) = ldm_ldid (lr_obj R x)"
    and own: "ldm_type (lr_obj R' ld) = type" "ldm_idx (lr_obj R' ld) = length (lr_init_tab R ! idx)"
      "ldm_ldid (lr_obj R' ld) = lr_ldid R"
  have len: "length (lr_init_tab R) = 5" by (rule length_lr_init_tab [OF inv])
  have old: "ld_entry_ok R' t i x"
    if "t < 5" "i < length (lr_init_tab R ! t)" "lr_init_tab R ! t ! i = Some x" for t i x
  proof -
    have e: "ld_entry_ok R t i x" and "x \<noteq> ld"
      using ldreg_inv_entry [OF inv that] fresh by auto
    then show ?thesis using oth [of x] map id by (auto simp: ld_entry_ok_def)
  qed
  have new: "ld_entry_ok R' idx (length (lr_init_tab R ! idx)) ld"
    using own idx map id by (simp add: ld_entry_ok_def)
  show ?thesis
    unfolding ldreg_inv_def tab option.case
  proof (intro conjI allI impI)
    fix t i x
    assume "t < 5" and i: "i < length ((lr_init_tab R)[idx := lr_init_tab R ! idx @ [Some ld]] ! t)"
      and x: "(lr_init_tab R)[idx := lr_init_tab R ! idx @ [Some ld]] ! t ! i = Some x"
    show "ld_entry_ok R' t i x"
    proof (cases "t = idx \<and> i = length (lr_init_tab R ! idx)")
      case True then show ?thesis using new x idx(2) len by (simp add: nth_append)
    next
      case False
      then have "i < length (lr_init_tab R ! t)" "lr_init_tab R ! t ! i = Some x"
        using i x idx(2) len by (auto simp: nth_list_update nth_append split: if_splits)
      then show ?thesis using old \<open>t < 5\<close> by blast
    qed
  qed (simp add: len)
qed

lemma ldreg_inv_deattach:
  assumes inv: "ldreg_inv R" and v: "ld_valid_type type"
    and det: "kaapi_localitydomain_deattach type ld R = Some (err, R')"
    and own: "lr_tab R = Some tab" "ld_type_index type = Some t" "Some ld \<in> set (tab ! t)"
  shows "ldreg_inv R'"
proof -
  have t5: "t < 5" and rej: "\<not> ld_type_rejected type"
    using v own(2) by (auto elim: ld_valid_type_cases)
  have len: "length tab = 5" using inv own(1) by (simp add: ldreg_inv_def)
  have ent: "ld_entry_ok R s i x" if "s < 5" "i < length (tab ! s)" "tab ! s ! i = Some x" for s i x
    using inv own(1) that by (simp add: ldreg_inv_def)
  obtain k where k: "k < length (tab ! t)" "tab ! t ! k = Some ld"
    using own(3) by (auto simp: in_set_conv_nth)
  have ldk: "ldm_idx (lr_obj R ld) = k" "ld_type_index (ldm_type (lr_obj R ld)) = Some t"
    "lr_map R (ldm_ldid (lr_obj R ld)) = Some (Some ld)"
    using ent [OF t5 k] by (auto simp: ld_entry_ok_def)
  have tab': "lr_tab R' = Some (tab[t := (tab ! t)[k := None]])"
    and map': "lr_map R' = (lr_map R)(ldm_ldid (lr_obj R ld) := Some None)"
    and id': "lr_ldid R' = lr_ldid R"
    and oth: "\<And>x. x \<noteq> ld \<Longrightarrow> ldm_type (lr_obj R' x) = ldm_type (lr_obj R x) \<and>
       ldm_idx (lr_obj R' x) = ldm_idx (lr_obj R x) \<and> ldm_ldid (lr_obj R' x) = ldm_ldid (lr_obj R x)"
    using det rej own ldk by (auto simp: kaapi_localitydomain_deattach_def Let_def split: option.splits)
  show ?thesis
    unfolding ldreg_inv_def tab' option.case
  proof (intro conjI allI impI)
    fix s i x
    assume s5: "s < 5" and i: "i < length (tab[t := (tab ! t)[k := None]] ! s)"
      and x: "tab[t := (tab ! t)[k := None]] ! s ! i = Some x"
    have o: "i < length (tab ! s)" "tab ! s ! i = Some x" "\<not> (s = t \<and> i = k)"
      using i x t5 len by (cases "s = t"; cases "i = k"; auto simp: nth_list_update)+
    have e: "ld_entry_ok R s i x" by (rule ent [OF s5 o(1,2)])
    have ne: "x \<noteq> ld"
      using e ldk o(3) by (auto simp: ld_entry_ok_def)
    then have "ldm_ldid (lr_obj R x) \<noteq> ldm_ldid (lr_obj R ld)"
      using e ldk(3) by (auto simp: ld_entry_ok_def)
    then show "ld_entry_ok R' s i x"
      using e oth [OF ne] map' id' by (simp add: ld_entry_ok_def)
  qed (simp add: len)
qed

section \<open>Lookups after an attachment\<close>

lemma ld_attach_lookups:
  assumes inv: "ldreg_inv R" and v: "ld_valid_type type"
    and att: "kaapi_localitydomain_attach type parent ld R = Some (err, R')"
  shows "\<exists>n. kaapi_localitydomain_count type R' = Some (Suc n) \<and>
             (lr_tab R \<noteq> None \<longrightarrow> kaapi_localitydomain_count type R = Some n) \<and>
             kaapi_localitydomain_get_bytype type n R' = Some (Some ld) \<and>
             kaapi_localitydomain_get_num type n R' = Some (lr_ldid R) \<and>
             kaapi_localitydomain_get (lr_ldid R) R' = Some (Some ld)"
  using v att
proof (rule ld_attach_ok)
  fix idx
  assume idx: "ld_type_index type = Some idx" "idx < 5"
    and tab: "lr_tab R' = Some ((lr_init_tab R)[idx := lr_init_tab R ! idx @ [Some ld]])"
    and map: "lr_map R' = (lr_map R)(lr_ldid R := Some (Some ld))" and id: "lr_ldid R' = Suc (lr_ldid R)"
    and own: "ldm_ldid (lr_obj R' ld) = lr_ldid R"
  have len: "length (lr_init_tab R) = 5" by (rule length_lr_init_tab [OF inv])
  have rej: "\<not> ld_type_rejected type" using v by (auto elim: ld_valid_type_cases)
  have b: "kaapi_localitydomain_get_bytype type (length (lr_init_tab R ! idx)) R' = Some (Some ld)"
    using idx tab len rej by (simp add: kaapi_localitydomain_get_bytype_def)
  show ?thesis
    using idx tab map id own len rej b
    by (intro exI [of _ "length (lr_init_tab R ! idx)"])
       (auto simp: kaapi_localitydomain_count_def kaapi_localitydomain_get_num_def
          kaapi_localitydomain_get_def lr_init_tab_def)
qed

lemma ld_deattach_lookups:
  assumes inv: "ldreg_inv R" and v: "ld_valid_type type"
    and own: "lr_tab R = Some tab" "ld_type_index type = Some t" "k < length (tab ! t)" "tab ! t ! k = Some ld"
  shows "\<exists>R'. kaapi_localitydomain_deattach type ld R = Some (0, R') \<and>
    kaapi_localitydomain_count type R' = kaapi_localitydomain_count type R \<and>
    kaapi_localitydomain_get_bytype type k R' = Some None \<and> kaapi_localitydomain_get_num type k R' = Some UINT_MAX1 \<and>
    kaapi_localitydomain_get (ldm_ldid (lr_obj R ld)) R' = Some None"
proof -
  have t5: "t < 5" and rej: "\<not> ld_type_rejected type"
    using v own(2) by (auto elim: ld_valid_type_cases)
  have "ld_entry_ok R t k ld" and "length tab = 5" using inv own t5 by (auto simp: ldreg_inv_def)
  then show ?thesis
    using own rej t5 by (simp add: kaapi_localitydomain_deattach_def Let_def kaapi_localitydomain_count_def
        kaapi_localitydomain_get_bytype_def kaapi_localitydomain_get_num_def kaapi_localitydomain_get_def ld_entry_ok_def)
qed

section \<open>Properties\<close>

text \<open>The registry as a state machine: the runtime attaches a domain that is not in the registry, detaches one
  that is, under its own type, and finalizes.\<close>

inductive ld_step :: "ldreg \<Rightarrow> ldreg \<Rightarrow> bool" where
  attach: "ld_valid_type type \<Longrightarrow> \<not> ld_attached R ld \<Longrightarrow>
    kaapi_localitydomain_attach type parent ld R = Some (err, R') \<Longrightarrow> ld_step R R'"
| deattach: "ld_valid_type type \<Longrightarrow> lr_tab R = Some tab \<Longrightarrow> ld_type_index type = Some t \<Longrightarrow> Some ld \<in> set (tab ! t) \<Longrightarrow>
    kaapi_localitydomain_deattach type ld R = Some (err, R') \<Longrightarrow> ld_step R R'"
| finalize: "ld_step R (snd (kaapi_localitydomain_finalize R))"

lemma ld_step_inv: "ld_step R R' \<Longrightarrow> ldreg_inv R \<Longrightarrow> ldreg_inv R'"
  by (induction rule: ld_step.induct) (auto intro: ldreg_inv_attach ldreg_inv_deattach ldreg_inv_finalize)

lemma ld_first_gpu:
  "\<exists>R. kaapi_localitydomain_attach KAAPI_LD_GPU None 7 (ldreg_empty obj) = Some (0, R) \<and> lr_ldid R = 1 \<and>
     lr_tab R = Some [[], [], [], [], [Some 7]] \<and> ld_step (ldreg_empty obj) R"
proof -
  let ?E = "ldreg_empty obj"
  have rows: "(replicate 5 ([] :: nat option list))[4 := [Some 7]] = [[], [], [], [], [Some 7]]"
    "replicate 5 ([] :: nat option list) ! 4 = []" by (simp_all add: numeral_eq_Suc)
  obtain R where R: "kaapi_localitydomain_attach KAAPI_LD_GPU None 7 ?E = Some (0, R)" "lr_ldid R = 1"
    "lr_tab R = Some [[], [], [], [], [Some 7]]"
    using rows by (simp add: kaapi_localitydomain_attach_def ld_type_defs ldreg_empty_def Let_def lr_init_tab_def)
  moreover have "ld_step ?E R" using R(1)
    by (rule ld_step.attach [rotated 2]) (auto simp: ld_valid_type_def ld_attached_def ldreg_empty_def)
  ultimately show ?thesis by blast
qed

text \<open>C22. In every state the registry can reach, each registered domain stands under its type, at the index it
  records, and its identifier is smaller than the counter and maps back to it.\<close>

theorem ld_registry_invariant:
  assumes "ld_step\<^sup>*\<^sup>* (ldreg_empty obj) R"
  shows "ldreg_inv R"
  using assms by (induction rule: rtranclp_induct) (auto intro: ld_step_inv)

theorem ld_registry_invariant_witness:
  "\<exists>R. kaapi_localitydomain_attach KAAPI_LD_GPU None 7 (ldreg_empty undefined) = Some (0, R) \<and> lr_ldid R = 1 \<and> ldreg_inv R"
  using ld_first_gpu [of undefined] ld_registry_invariant [OF r_into_rtranclp [of ld_step]] by blast

text \<open>C23. What \<open>kaapi_localitydomain_attach\<close> registers is what the lookups return: the count of the type grows by
  one, and the new domain is found by type and index, and by the identifier that was given to it.\<close>

theorem ld_attach_get:
  assumes "ldreg_inv R" "ld_valid_type type" "kaapi_localitydomain_attach type parent ld R = Some (err, R')"
  shows "\<exists>n. kaapi_localitydomain_count type R' = Some (Suc n) \<and>
             (lr_tab R \<noteq> None \<longrightarrow> kaapi_localitydomain_count type R = Some n) \<and>
             kaapi_localitydomain_get_bytype type n R' = Some (Some ld) \<and>
             kaapi_localitydomain_get_num type n R' = Some (lr_ldid R) \<and>
             kaapi_localitydomain_get (lr_ldid R) R' = Some (Some ld)"
  using assms by (rule ld_attach_lookups)

theorem ld_attach_get_witness:
  "\<exists>R n. kaapi_localitydomain_attach KAAPI_LD_GPU None 7 (ldreg_empty undefined) = Some (0, R) \<and>
     kaapi_localitydomain_get_bytype KAAPI_LD_GPU n R = Some (Some 7)"
  using ld_first_gpu [of undefined] ld_attach_get [OF ldreg_inv_empty, of KAAPI_LD_GPU None 7]
  by (fastforce simp: ld_valid_type_def)

text \<open>\<open>kaapi_localitydomain_deattach\<close> of a registered domain succeeds; its slot and its identifier then give no
  domain, and the indices of the other domains of the type do not shift.\<close>

theorem ld_deattach_get:
  assumes "ldreg_inv R" "ld_valid_type type" "lr_tab R = Some tab" "ld_type_index type = Some t"
    and "k < length (tab ! t)" "tab ! t ! k = Some ld"
  shows "\<exists>R'. kaapi_localitydomain_deattach type ld R = Some (0, R') \<and>
    kaapi_localitydomain_count type R' = kaapi_localitydomain_count type R \<and>
    kaapi_localitydomain_get_bytype type k R' = Some None \<and> kaapi_localitydomain_get_num type k R' = Some UINT_MAX1 \<and>
    kaapi_localitydomain_get (ldm_ldid (lr_obj R ld)) R' = Some None"
  using assms by (rule ld_deattach_lookups)

theorem ld_deattach_get_witness:
  "\<exists>R R'. kaapi_localitydomain_attach KAAPI_LD_GPU None 7 (ldreg_empty undefined) = Some (0, R) \<and>
     kaapi_localitydomain_deattach KAAPI_LD_GPU 7 R = Some (0, R') \<and>
     kaapi_localitydomain_get_bytype KAAPI_LD_GPU 0 R' = Some None"
proof -
  obtain R where R: "kaapi_localitydomain_attach KAAPI_LD_GPU None 7 (ldreg_empty undefined) = Some (0, R)"
    "lr_tab R = Some [[], [], [], [], [Some 7]]" "ldreg_inv R"
    using ld_first_gpu [of undefined] ld_step_inv [OF _ ldreg_inv_empty] by blast
  then show ?thesis
    using ld_deattach_get [OF R(3) _ R(2), of KAAPI_LD_GPU 4 0 7] by (auto simp: ld_valid_type_def KAAPI_LD_GPU_def)
qed

text \<open>A union of two types is not rejected although it names no single type, and is taken for the smaller one:
  the test of the code joins its two conditions with a conjunction.\<close>

theorem ld_union_type_accepted:
  "\<not> ld_type_rejected (KAAPI_LD_CORE + KAAPI_LD_NUMA) \<and>
   ld_type_index (KAAPI_LD_CORE + KAAPI_LD_NUMA) = ld_type_index KAAPI_LD_CORE"
  by (simp add: ld_type_rejected_def ld_type_index_def ld_type_defs)

end
