(* ===== verification/Tiling.thy ===== *)
theory Tiling
  imports XK_Prelude
begin

text \<open>
  Matrices and their tiles (\<open>blas/common.gen\<close>, \<open>blas/xkblas.c\<close>): the matrix descriptor, the
  table of descriptors of a context, \<open>xkblas_find\<close>, \<open>xkblas_init_matrix_handle\<close> and the
  accessors, together with the flat memory the tile pointers point into. Column-major
  element \<open>(i,j)\<close> of an array at \<open>p\<close> with leading dimension \<open>ld\<close> is at byte \<open>p + (i+j*ld)*16\<close>.

  A handle is named by its matrix and its position in the descriptor's array; its \<open>h_data\<close> is
  the tile pointer \<open>kaapi_handle_init\<close> stores in \<open>sync0.data\<close>.
\<close>

section \<open>Memory of complex elements\<close>

type_synonym mem = "nat \<Rightarrow> complex"

definition ELTSIZE :: nat where "ELTSIZE = 16"

definition elt_addr :: "nat \<Rightarrow> nat \<Rightarrow> nat \<Rightarrow> nat \<Rightarrow> nat" where
  "elt_addr p ld i j = p + (i + j * ld) * ELTSIZE"

definition view :: "mem \<Rightarrow> nat \<Rightarrow> nat \<Rightarrow> cmat" where
  "view mem p ld = (\<lambda>i j. mem (elt_addr p ld i j))"

definition store_block :: "nat \<Rightarrow> nat \<Rightarrow> nat \<Rightarrow> nat \<Rightarrow> cmat \<Rightarrow> mem \<Rightarrow> mem" where
  "store_block p ld m n F mem =
     for_loop n (\<lambda>j. for_loop m (\<lambda>i mem. mem(elt_addr p ld i j := F i j))) mem"

definition arrays_disjoint :: "nat \<Rightarrow> nat \<Rightarrow> nat \<Rightarrow> nat \<Rightarrow> nat \<Rightarrow> nat \<Rightarrow> nat \<Rightarrow> nat \<Rightarrow> bool" where
  "arrays_disjoint a lda ma na c ldc mc nc \<longleftrightarrow>
     (\<forall>i<ma. \<forall>j<na. \<forall>i'<mc. \<forall>j'<nc. elt_addr a lda i j \<noteq> elt_addr c ldc i' j')"

definition in_block :: "nat \<Rightarrow> nat \<Rightarrow> nat \<Rightarrow> nat \<Rightarrow> nat \<Rightarrow> bool" where
  "in_block p ld m n x \<longleftrightarrow> (\<exists>i<m. \<exists>j<n. x = elt_addr p ld i j)"

lemma elt_addr_inj:
  assumes "i < ld" "i' < ld"
  shows "elt_addr p ld i j = elt_addr p ld i' j' \<longleftrightarrow> i = i' \<and> j = j'"
proof
  assume "elt_addr p ld i j = elt_addr p ld i' j'"
  then have e: "i + j * ld = i' + j' * ld" by (simp add: elt_addr_def ELTSIZE_def)
  then have "(i + j * ld) mod ld = (i' + j' * ld) mod ld" by simp
  then have "i = i'" using assms by simp
  moreover have "j = j'" using e \<open>i = i'\<close> assms(1) by simp
  ultimately show "i = i' \<and> j = j'" by simp
qed simp

lemma elt_addr_tile [tile_simps]:
  "elt_addr (p + (r + c * ld) * ELTSIZE) ld i j = elt_addr p ld (r + i) (c + j)"
  by (simp add: elt_addr_def algebra_simps)

text \<open>Arrays in separate address ranges are disjoint.\<close>

lemma arrays_disjoint_ranges:
  assumes "a + lda * na * ELTSIZE \<le> c \<or> c + ldc * nc * ELTSIZE \<le> a" "ma \<le> lda" "mc \<le> ldc"
  shows "arrays_disjoint a lda ma na c ldc mc nc"
proof -
  have inside: "p \<le> elt_addr p ld i j \<and> elt_addr p ld i j < p + ld * n * ELTSIZE"
    if "i < ld" "j < n" for p ld n i j
  proof -
    have "i + j * ld < Suc j * ld" using that(1) by simp
    also have "\<dots> \<le> n * ld" using that(2) by (intro mult_le_mono1) simp
    finally show ?thesis by (simp add: elt_addr_def ELTSIZE_def mult.commute)
  qed
  show ?thesis
    unfolding arrays_disjoint_def
  proof (intro allI impI)
    fix i j i' j' assume "i < ma" "j < na" "i' < mc" "j' < nc"
    then show "elt_addr a lda i j \<noteq> elt_addr c ldc i' j'"
      using inside [of i lda j na a] inside [of i' ldc j' nc c] assms by auto
  qed
qed

lemma store_column:
  assumes "m \<le> ld"
  shows "for_loop m (\<lambda>i mem. mem(elt_addr p ld i j := F i j)) mem x =
           (if \<exists>i<m. x = elt_addr p ld i j then F (THE i. i < m \<and> x = elt_addr p ld i j) j else mem x)"
  using assms
proof (induction m)
  case (Suc m)
  have uniq: "(THE i. i < Suc m \<and> x = elt_addr p ld i j) = i"
    if "i < Suc m" "x = elt_addr p ld i j" for i
    using that Suc.prems by (intro the_equality) (auto simp: elt_addr_inj)
  have uniq': "(THE i. i < m \<and> x = elt_addr p ld i j) = i"
    if "i < m" "x = elt_addr p ld i j" for i
    using that Suc.prems by (intro the_equality) (auto simp: elt_addr_inj)
  show ?case
  proof (cases "x = elt_addr p ld m j")
    case True then show ?thesis using uniq [of m] by (auto simp del: elt_addr_def)
  next
    case False
    then have "(\<exists>i<Suc m. x = elt_addr p ld i j) \<longleftrightarrow> (\<exists>i<m. x = elt_addr p ld i j)"
      using less_Suc_eq by auto
    then show ?thesis using False Suc uniq uniq' by auto
  qed
qed simp

lemma store_block_hit:
  assumes "m \<le> ld" "i < m" "j < n"
  shows "store_block p ld m n F mem (elt_addr p ld i j) = F i j"
  using assms(3)
proof (induction n)
  case (Suc n)
  have i: "i < ld" using assms by simp
  have col: "(THE i'. i' < m \<and> elt_addr p ld i n = elt_addr p ld i' n) = i"
    using assms by (intro the_equality) (auto simp: elt_addr_inj)
  show ?case
  proof (cases "j = n")
    case True then show ?thesis
      using assms col by (auto simp: store_block_def store_column)
  next
    case False
    then have "j < n" using Suc.prems by simp
    have "\<not> (\<exists>i'<m. elt_addr p ld i j = elt_addr p ld i' n)"
      using assms i False by (auto simp: elt_addr_inj)
    then show ?thesis
      using Suc.IH [OF \<open>j < n\<close>] assms by (auto simp: store_block_def store_column)
  qed
qed simp

lemma store_block_miss:
  assumes "m \<le> ld" "\<not> in_block p ld m n x"
  shows "store_block p ld m n F mem x = mem x"
  using assms(2)
proof (induction n)
  case (Suc n)
  then have "\<not> in_block p ld m n x" "\<not> (\<exists>i<m. x = elt_addr p ld i n)"
    by (auto simp: in_block_def less_Suc_eq)
  then show ?case using Suc.IH assms(1) by (auto simp: store_block_def store_column)
qed (simp add: store_block_def)

lemma store_block_eqI:
  assumes "m \<le> ld"
    and "\<And>i j. i < m \<Longrightarrow> j < n \<Longrightarrow> mem' (elt_addr p ld i j) = F i j"
    and "\<And>x. \<not> in_block p ld m n x \<Longrightarrow> mem' x = mem x"
  shows "mem' = store_block p ld m n F mem"
proof
  fix x
  show "mem' x = store_block p ld m n F mem x"
    using assms store_block_hit store_block_miss by (cases "in_block p ld m n x") (auto simp: in_block_def)
qed

lemma store_block_cong:
  assumes "m \<le> ld" "\<And>i j. i < m \<Longrightarrow> j < n \<Longrightarrow> F i j = G i j"
  shows "store_block p ld m n F mem = store_block p ld m n G mem"
  by (rule store_block_eqI)
     (auto simp: assms store_block_hit [OF assms(1)] store_block_miss [OF assms(1)])

lemma store_block_self:
  "m \<le> ld \<Longrightarrow> store_block p ld m n (view mem p ld) mem = mem"
  by (rule sym, rule store_block_eqI) (auto simp: view_def)

lemma view_store_block [simp]:
  "m \<le> ld \<Longrightarrow> i < m \<Longrightarrow> j < n \<Longrightarrow> view (store_block p ld m n F mem) p ld i j = F i j"
  by (simp add: view_def store_block_hit)

lemma view_store_disjoint:
  assumes "mc \<le> ldc" "arrays_disjoint a lda ma na c ldc mc nc" "i < ma" "j < na"
  shows "view (store_block c ldc mc nc F mem) a lda i j = view mem a lda i j"
proof -
  have "\<not> in_block c ldc mc nc (elt_addr a lda i j)"
    using assms by (auto simp: in_block_def arrays_disjoint_def)
  then show ?thesis using assms(1) by (simp add: view_def store_block_miss)
qed

text \<open>Storing a block inside an array whose content is known.\<close>

lemma store_inner_block:
  assumes M: "M \<le> ld" and r: "r + m \<le> M" and c: "c + n \<le> N"
  shows "store_block (p + (r + c * ld) * ELTSIZE) ld m n F (store_block p ld M N X mem) =
         store_block p ld M N (upd_block r c m n F X) mem"
proof (rule store_block_eqI [OF M])
  let ?q = "p + (r + c * ld) * ELTSIZE"
  have m: "m \<le> ld" using M r by simp
  fix i j assume ij: "i < M" "j < N"
  show "store_block ?q ld m n F (store_block p ld M N X mem) (elt_addr p ld i j) = upd_block r c m n F X i j"
  proof (cases "r \<le> i \<and> i < r + m \<and> c \<le> j \<and> j < c + n")
    case True
    then have "elt_addr p ld i j = elt_addr ?q ld (i - r) (j - c)" by (simp add: elt_addr_tile)
    moreover have "i - r < m" "j - c < n" using True by auto
    ultimately show ?thesis using True m by (auto simp: store_block_hit upd_block_apply)
  next
    case False
    have "\<not> in_block ?q ld m n (elt_addr p ld i j)"
      using False ij M r by (auto simp: in_block_def elt_addr_tile elt_addr_inj)
    then show ?thesis using False m ij M by (auto simp: store_block_miss store_block_hit upd_block_apply)
  qed
next
  let ?q = "p + (r + c * ld) * ELTSIZE"
  fix x assume x: "\<not> in_block p ld M N x"
  have "\<not> in_block ?q ld m n x"
  proof
    assume "in_block ?q ld m n x"
    then obtain i j where "i < m" "j < n" "x = elt_addr p ld (r + i) (c + j)"
      by (auto simp: in_block_def elt_addr_tile)
    moreover from this have "r + i < M" "c + j < N" using r c by auto
    ultimately show False using x unfolding in_block_def by blast
  qed
  then show "store_block ?q ld m n F (store_block p ld M N X mem) x = mem x"
    using x M r by (simp add: store_block_miss)
qed

lemma view_tile:
  "view mem (p + (r + c * ld) * ELTSIZE) ld = sub_block r c (view mem p ld)"
  by (simp add: view_def sub_block_def elt_addr_tile)


section \<open>Enumerations of the CBLAS interface\<close>

definition CblasNoTrans :: int where "CblasNoTrans = 111"
definition CblasTrans :: int where "CblasTrans = 112"
definition CblasConjTrans :: int where "CblasConjTrans = 113"
definition CblasUpper :: int where "CblasUpper = 121"
definition CblasLower :: int where "CblasLower = 122"
definition CblasNonUnit :: int where "CblasNonUnit = 131"
definition CblasUnit :: int where "CblasUnit = 132"
definition CblasLeft :: int where "CblasLeft = 141"
definition CblasRight :: int where "CblasRight = 142"

lemmas cblas_defs = CblasNoTrans_def CblasTrans_def CblasConjTrans_def CblasUpper_def
  CblasLower_def CblasNonUnit_def CblasUnit_def CblasLeft_def CblasRight_def

declare cblas_defs [enum_simps]

section \<open>Handles, descriptors and the context\<close>

record handle =
  h_mat :: nat    \<comment> \<open>key of the matrix\<close>
  h_idx :: nat    \<comment> \<open>position in the descriptor's array\<close>
  h_data :: nat   \<comment> \<open>sync0.data: the tile pointer\<close>

record matrix_descr =
  d_addr :: nat
  d_eltsize :: nat
  d_ld :: nat
  d_M :: nat
  d_N :: nat
  d_mb :: nat
  d_nb :: nat
  d_mt :: nat
  d_nt :: nat
  d_ldid :: "nat list"
  d_handle :: "handle list"
  d_capacity :: nat
  d_gen :: nat

record xk_ctx =
  xc_NB :: nat
  xc_ngpus :: nat
  xc_descr :: "nat \<Rightarrow> matrix_descr option"   \<comment> \<open>xkblas_ptr2handle\<close>
  xc_list_sync0 :: "handle list"
  xc_gen :: nat                              \<comment> \<open>xkblas_generation_cache\<close>
  xc_wish :: "nat \<Rightarrow> nat option"              \<comment> \<open>the wish bit of the metadata of a tile, by tile pointer\<close>

definition LDID_NONE :: nat where "LDID_NONE = 65535"

text \<open>A descriptor fresh from \<open>xkblas_find\<close>: only \<open>handle\<close>, \<open>addr\<close> and \<open>capacity\<close> are
  assigned there; nothing reads the other fields before \<open>xkblas_init_matrix_handle\<close>.\<close>

definition descr_blank :: matrix_descr where
  "descr_blank = \<lparr>d_addr = 0, d_eltsize = 0, d_ld = 0, d_M = 0, d_N = 0, d_mb = 0, d_nb = 0,
     d_mt = 0, d_nt = 0, d_ldid = [], d_handle = [], d_capacity = 0, d_gen = 0\<rparr>"

definition xkblas_matrix_descr_isinit :: "matrix_descr \<Rightarrow> bool" where
  "xkblas_matrix_descr_isinit Ah \<longleftrightarrow> d_addr Ah \<noteq> 0"

definition xkblas_find :: "nat \<Rightarrow> xk_ctx \<Rightarrow> matrix_descr \<times> xk_ctx" where
  "xkblas_find A ctxt =
     (case xc_descr ctxt A of
        Some Ah \<Rightarrow> (Ah, ctxt)
      | None \<Rightarrow> (descr_blank, ctxt\<lparr>xc_descr := (xc_descr ctxt)(A \<mapsto> descr_blank)\<rparr>))"

definition xkblas_get_handle :: "matrix_descr \<Rightarrow> nat \<Rightarrow> nat \<Rightarrow> handle" where
  "xkblas_get_handle Ah m n = d_handle Ah ! (m * d_nt Ah + n)"

definition xkblas_get_ldid :: "matrix_descr \<Rightarrow> nat \<Rightarrow> nat \<Rightarrow> nat" where
  "xkblas_get_ldid Ah m n = d_ldid Ah ! (m * d_nt Ah + n)"

definition xkblas_set_ldid :: "matrix_descr \<Rightarrow> nat \<Rightarrow> nat \<Rightarrow> nat \<Rightarrow> matrix_descr" where
  "xkblas_set_ldid Ah m n v = Ah\<lparr>d_ldid := (d_ldid Ah)[m * d_nt Ah + n := v]\<rparr>"

text \<open>The macro \<open>ADDR_\<close> of \<open>xkblas_init_matrix_handle\<close>.\<close>

definition tile_ptr :: "nat \<Rightarrow> nat \<Rightarrow> nat \<Rightarrow> nat \<Rightarrow> nat \<Rightarrow> nat \<Rightarrow> nat \<Rightarrow> nat" where
  "tile_ptr A MB NB LD eltsize m n = A + (m * MB + n * NB * LD) * eltsize"

definition xkblas_init_matrix_handle ::
  "nat \<Rightarrow> nat \<Rightarrow> nat \<Rightarrow> nat \<Rightarrow> nat \<Rightarrow> nat \<Rightarrow> nat \<Rightarrow> nat \<Rightarrow> xk_ctx \<Rightarrow> xk_ctx" where
  "xkblas_init_matrix_handle key A M N LD eltsize MB NB ctxt =
     (let mt = xkblas_num_of_tiles M MB;
          nt = xkblas_num_of_tiles N NB;
          Ah = (case xc_descr ctxt key of Some d \<Rightarrow> d | None \<Rightarrow> descr_blank);
          hs = concat (map (\<lambda>m. map (\<lambda>n. \<lparr>h_mat = key, h_idx = m * nt + n,
                                          h_data = tile_ptr A MB NB LD eltsize m n\<rparr>) [0..<nt]) [0..<mt]);
          Ah' = Ah\<lparr>d_addr := A, d_eltsize := eltsize, d_ld := LD, d_M := M, d_N := N,
                   d_mb := MB, d_nb := NB,
                   d_capacity := (if mt * nt \<ge> d_capacity Ah then mt * nt else d_capacity Ah),
                   d_mt := mt, d_nt := nt, d_handle := hs,
                   d_ldid := replicate (mt * nt) LDID_NONE, d_gen := xc_gen ctxt\<rparr>
      in ctxt\<lparr>xc_descr := (xc_descr ctxt)(key \<mapsto> Ah'),
              xc_list_sync0 := rev hs @ xc_list_sync0 ctxt\<rparr>)"

text \<open>What a caller knows of a descriptor it has just found or initialised: its tiles are those
  of an \<open>M\<close> by \<open>N\<close> array at \<open>A\<close>, cut in \<open>MB\<close> by \<open>NB\<close> tiles.\<close>

definition descr_of :: "matrix_descr \<Rightarrow> nat \<Rightarrow> nat \<Rightarrow> nat \<Rightarrow> nat \<Rightarrow> nat \<Rightarrow> nat \<Rightarrow> bool" where
  "descr_of d A M N LD MB NB \<longleftrightarrow>
     d_addr d = A \<and> d_ld d = LD \<and> d_M d = M \<and> d_N d = N \<and> d_mb d = MB \<and> d_nb d = NB \<and>
     d_mt d = xkblas_num_of_tiles M MB \<and> d_nt d = xkblas_num_of_tiles N NB \<and>
     (\<forall>m<d_mt d. \<forall>n<d_nt d.
        xkblas_get_handle d m n = \<lparr>h_mat = A, h_idx = m * d_nt d + n,
                                   h_data = A + (m * MB + n * NB * LD) * ELTSIZE\<rparr>)"

lemma length_concat_rect:
  "length (concat (map (\<lambda>m. map (f m) [0..<nt]) [0..<mt])) = mt * nt"
  by (induction mt) auto

lemma nth_concat_rect:
  assumes "m < mt" "n < nt"
  shows "concat (map (\<lambda>m. map (f m) [0..<nt]) [0..<mt]) ! (m * nt + n) = f m n"
  using assms(1)
proof (induction mt)
  case (Suc mt)
  show ?case
  proof (cases "m = mt")
    case True then show ?thesis using assms(2) by (simp add: nth_append length_concat_rect)
  next
    case False
    then have "m < mt" using Suc.prems by simp
    have "m * nt + n < Suc m * nt" using assms(2) by simp
    also have "\<dots> \<le> mt * nt" using \<open>m < mt\<close> by (intro mult_le_mono1) simp
    finally show ?thesis using Suc.IH [OF \<open>m < mt\<close>] by (simp add: nth_append length_concat_rect)
  qed
qed simp

lemma init_matrix_descr:
  "xc_descr (xkblas_init_matrix_handle key A M N LD e MB NB ctxt) k =
     (if k = key then Some (the (xc_descr (xkblas_init_matrix_handle key A M N LD e MB NB ctxt) key))
      else xc_descr ctxt k)"
  by (simp add: xkblas_init_matrix_handle_def Let_def)

lemma descr_of_init:
  "xc_descr (xkblas_init_matrix_handle A A M N LD ELTSIZE MB NB ctxt) A = Some d \<Longrightarrow>
   descr_of d A M N LD MB NB"
  by (auto simp: xkblas_init_matrix_handle_def Let_def descr_of_def xkblas_get_handle_def
        nth_concat_rect tile_ptr_def)

lemma init_matrix_other:
  "key \<noteq> k \<Longrightarrow> xc_descr (xkblas_init_matrix_handle key A M N LD e MB NB ctxt) k = xc_descr ctxt k"
  by (simp add: xkblas_init_matrix_handle_def Let_def)

lemma init_matrix_self:
  "xc_descr (xkblas_init_matrix_handle key A M N LD e MB NB ctxt) key \<noteq> None"
  by (simp add: xkblas_init_matrix_handle_def Let_def)

lemma descr_of_data:
  assumes "descr_of d A M N LD MB NB" "m < d_mt d" "n < d_nt d"
  shows "h_data (xkblas_get_handle d m n) = A + (m * MB + n * NB * LD) * ELTSIZE"
  using assms by (simp add: descr_of_def)

lemma descr_of_dims:
  "descr_of d A M N LD MB NB \<Longrightarrow> d_mt d = xkblas_num_of_tiles M MB \<and> d_nt d = xkblas_num_of_tiles N NB
     \<and> d_mb d = MB \<and> d_nb d = NB"
  by (simp add: descr_of_def)

text \<open>Two tiles of one matrix name different handles and occupy different memory.\<close>

lemma rect_index_inj:
  assumes "n < nt" "n' < (nt::nat)"
  shows "m * nt + n = m' * nt + n' \<longleftrightarrow> m = m' \<and> n = n'"
proof
  assume e: "m * nt + n = m' * nt + n'"
  then have "(m * nt + n) mod nt = (m' * nt + n') mod nt" by simp
  then have "n = n'" using assms by simp
  with e show "m = m' \<and> n = n'" using assms by auto
qed simp

lemma descr_of_handle_inj:
  assumes "descr_of d A M N LD MB NB" "m < d_mt d" "n < d_nt d" "m' < d_mt d" "n' < d_nt d"
  shows "xkblas_get_handle d m n = xkblas_get_handle d m' n' \<longleftrightarrow> m = m' \<and> n = n'"
  using assms rect_index_inj [of n "d_nt d" n' m m'] by (auto simp: descr_of_def)

text \<open>C19. \<open>xkblas_init_matrix_handle\<close> cuts an \<open>M\<close> by \<open>N\<close> array without holes or overlaps: every element lies in
  exactly one tile, within that tile's dimensions, at the address that the tile's handle and the leading dimension
  give it, and different tiles have different handles.\<close>

theorem init_matrix_tiles:
  assumes "0 < MB" "0 < NB" and "xc_descr (xkblas_init_matrix_handle A A M N LD ELTSIZE MB NB ctxt) A = Some d"
  shows "(\<forall>i<M. \<forall>j<N. \<exists>!(m, n). m < d_mt d \<and> n < d_nt d \<and> m * MB \<le> i \<and> i < m * MB + tile_dim (d_mt d) M MB m \<and>
      n * NB \<le> j \<and> j < n * NB + tile_dim (d_nt d) N NB n \<and>
      elt_addr A LD i j = elt_addr (h_data (xkblas_get_handle d m n)) LD (i - m * MB) (j - n * NB)) \<and>
    inj_on (\<lambda>(m, n). xkblas_get_handle d m n) ({..<d_mt d} \<times> {..<d_nt d})"
proof (intro conjI)
  note d = descr_of_init [OF assms(3)]
  note dims = descr_of_dims [OF d]
  show "inj_on (\<lambda>(m, n). xkblas_get_handle d m n) ({..<d_mt d} \<times> {..<d_nt d})"
    by (auto simp: inj_on_def descr_of_handle_inj [OF d])
  show "\<forall>i<M. \<forall>j<N. \<exists>!(m, n). m < d_mt d \<and> n < d_nt d \<and> m * MB \<le> i \<and> i < m * MB + tile_dim (d_mt d) M MB m \<and>
      n * NB \<le> j \<and> j < n * NB + tile_dim (d_nt d) N NB n \<and>
      elt_addr A LD i j = elt_addr (h_data (xkblas_get_handle d m n)) LD (i - m * MB) (j - n * NB)"
  proof (intro allI impI)
    fix i j assume ij: "i < M" "j < N"
    have iff: "m < d_mt d \<and> n < d_nt d \<and> m * MB \<le> i \<and> i < m * MB + tile_dim (d_mt d) M MB m \<and>
        n * NB \<le> j \<and> j < n * NB + tile_dim (d_nt d) N NB n \<longleftrightarrow> m = i div MB \<and> n = j div NB" for m n
      using in_tile_iff [OF assms(1) _ ij(1), of m] in_tile_iff [OF assms(2) _ ij(2), of n]
        tile_of_index(1) [OF assms(1) ij(1)] tile_of_index(1) [OF assms(2) ij(2)] dims by auto
    have "elt_addr A LD i j = elt_addr (h_data (xkblas_get_handle d (i div MB) (j div NB))) LD
        (i - i div MB * MB) (j - j div NB * NB)"
      using iff [of "i div MB" "j div NB"]
      by (simp add: descr_of_data [OF d] elt_addr_tile)
    then show "\<exists>!(m, n). m < d_mt d \<and> n < d_nt d \<and> m * MB \<le> i \<and> i < m * MB + tile_dim (d_mt d) M MB m \<and>
      n * NB \<le> j \<and> j < n * NB + tile_dim (d_nt d) N NB n \<and>
      elt_addr A LD i j = elt_addr (h_data (xkblas_get_handle d m n)) LD (i - m * MB) (j - n * NB)"
      using iff by (intro ex1I [of _ "(i div MB, j div NB)"]) auto
  qed
qed

theorem init_matrix_tiles_witness:
  "\<exists>d. xc_descr (xkblas_init_matrix_handle 16 16 3 2 4 ELTSIZE 2 2 \<lparr>xc_NB = 2, xc_ngpus = 1, xc_descr = Map.empty,
      xc_list_sync0 = [], xc_gen = 0, xc_wish = Map.empty\<rparr>) 16 = Some d \<and>
    inj_on (\<lambda>(m, n). xkblas_get_handle d m n) ({..<d_mt d} \<times> {..<d_nt d})"
proof -
  obtain d where d: "xc_descr (xkblas_init_matrix_handle 16 16 3 2 4 ELTSIZE 2 2 \<lparr>xc_NB = 2, xc_ngpus = 1, xc_descr = Map.empty,
      xc_list_sync0 = [], xc_gen = 0, xc_wish = Map.empty\<rparr>) 16 = Some d"
    using init_matrix_self by blast
  from init_matrix_tiles [OF _ _ d] d show ?thesis by simp
qed

end
