(* ===== verification/Mapping_Gpu.thy ===== *)
theory Mapping_Gpu
  imports Tiling LocalityDomain
begin

text \<open>
  Tile size and placement of tiles (\<open>blas/xkblas.c\<close>): \<open>xkblas_auto_tilesize\<close>, the cyclic
  mapping functions and \<open>xkblas_auto_map\<close>, for the build the source selects
  (\<open>XKBLAS_ADAPTATIVE\<close> is 0, so \<open>use_partition_thread_strategy\<close> stays 0).
  A mapping writes in \<open>d_ldid\<close> the identifier of the locality domain each tile is bound to and,
  in the build with owner-computes scheduling (\<open>KAAPI_USE_OCR\<close> is 1), the wish bit of the
  tile's metadata, which \<open>kaapi_thread_push\<close> reads to place the tasks that write the tile. \<open>None\<close> is an abort or a trap (a failed
  \<open>kaapi_assert\<close>, a null domain dereferenced, a division by zero).
\<close>

section \<open>Tile size\<close>

datatype kernel = KERN_VOID | KERN_GEMM | KERN_GEMMT | KERN_TRMM | KERN_TRSM | KERN_SYMM
  | KERN_SYRK | KERN_SYR2K | KERN_HEMM | KERN_HERK | KERN_HER2K | KERN_SWAP | KERN_COPYSCALE

text \<open>\<open>x & ~(a-1)\<close> for a power of two \<open>a\<close>, and the rounding \<open>(x+63) & ~63\<close>.\<close>

definition align_down :: "nat \<Rightarrow> nat \<Rightarrow> nat" where
  "align_down a x = x - x mod a"

definition round64 :: "nat \<Rightarrow> nat" where
  "round64 x = align_down 64 (x + 63)"

text \<open>The two \<open>redo\<close> loops: the result is the pair \<open>(NB, fct)\<close> with which they are left.\<close>

definition tilesize_syrk_loop :: "nat \<Rightarrow> nat \<Rightarrow> nat \<times> nat" where
  "tilesize_syrk_loop M g =
     (let step = (\<lambda>fct. let NB = M div (fct * g) in if NB \<ge> 2048 then align_down 2048 NB else NB)
      in if step 2 \<le> 1024 then (step 1, 1) else (step 2, 2))"

fun tilesize_syr2k_loop :: "nat \<Rightarrow> nat \<Rightarrow> nat \<Rightarrow> nat \<times> nat" where
  "tilesize_syr2k_loop M g fct =
     (let NB = round64 (M div (fct * g))
      in if NB \<le> 2048 \<and> fct > 2 then tilesize_syr2k_loop M g (fct - 1) else (NB, fct))"

declare tilesize_syr2k_loop.simps [simp del]

definition tilesize_syrk :: "nat \<Rightarrow> nat \<Rightarrow> nat" where
  "tilesize_syrk M g =
     (let (NB, fct) = tilesize_syrk_loop M g;
          NB' = (if NB > 4096 then M div (2 * fct * g) else NB)
      in if NB' < 512 then 512 else NB')"

definition tilesize_syr2k :: "nat \<Rightarrow> nat \<Rightarrow> nat" where
  "tilesize_syr2k M g =
     (let (NB, fct) = tilesize_syr2k_loop M g 4;
          NB' = (if NB > 4096 then M div (2 * fct * g) else NB)
      in if NB' < 512 then 512 else NB')"

definition tilesize_symm :: "nat \<Rightarrow> nat \<Rightarrow> nat" where
  "tilesize_symm M g =
     (let NB = align_down 1024 (M div g); NB1 = (if NB < 1024 then 1024 else NB)
      in if NB1 < 4096 then NB1 * 2 else NB1)"

definition tilesize_trmm :: "nat \<Rightarrow> nat \<Rightarrow> nat" where
  "tilesize_trmm M g = (let NB = round64 (M div (2 * g)) in if NB < 2048 then 2048 else NB)"

definition tilesize_gemm :: "nat \<Rightarrow> nat \<Rightarrow> nat" where
  "tilesize_gemm M g =
     (let NB = M div g;
          NB1 = (if M > g \<and> M > 16384 \<and> NB < 2048 then 2048 else NB);
          NB2 = (if NB1 > 4096 then M div (2 * g) else NB1)
      in round64 (if NB2 < 512 then 512 else NB2))"

definition tilesize_default :: "nat \<Rightarrow> nat \<Rightarrow> nat" where
  "tilesize_default M g =
     (let NB = M div g;
          NB1 = (if NB \<ge> 4096 then M div (2 * g) else NB)
      in round64 (if NB1 < 1024 then 1024 else NB1))"

definition xkblas_auto_tilesize :: "xk_ctx \<Rightarrow> kernel \<Rightarrow> nat \<Rightarrow> nat \<Rightarrow> nat \<Rightarrow> nat option" where
  "xkblas_auto_tilesize ctxt kern M0 N K =
     (if xc_NB ctxt \<noteq> 0 then Some (xc_NB ctxt)
      else let M = (if N > M0 then N else M0); g = xc_ngpus ctxt in
        if g = 0 then None
        else Some (case kern of
            KERN_HERK \<Rightarrow> tilesize_syrk M g
          | KERN_SYRK \<Rightarrow> tilesize_syrk M g
          | KERN_HER2K \<Rightarrow> tilesize_syr2k M g
          | KERN_SYR2K \<Rightarrow> tilesize_syr2k M g
          | KERN_HEMM \<Rightarrow> tilesize_symm M g
          | KERN_SYMM \<Rightarrow> tilesize_symm M g
          | KERN_TRMM \<Rightarrow> tilesize_trmm M g
          | KERN_TRSM \<Rightarrow> tilesize_trmm M g
          | KERN_GEMMT \<Rightarrow> tilesize_gemm M g
          | KERN_GEMM \<Rightarrow> tilesize_gemm M g
          | _ \<Rightarrow> tilesize_default M g))"

lemma round64_dvd: "64 dvd round64 x"
  by (simp add: round64_def align_down_def minus_mod_eq_mult_div)

lemma round64_ge: "x \<le> round64 x"
proof -
  have "(x + 63) mod 64 \<le> 63" by (simp add: less_Suc_eq_le [symmetric])
  then show ?thesis by (simp add: round64_def align_down_def)
qed

lemma align_down_dvd: "a dvd align_down a x"
  by (simp add: align_down_def minus_mod_eq_mult_div)

lemma tilesize_ge:
  "512 \<le> tilesize_syrk M g" "512 \<le> tilesize_syr2k M g" "512 \<le> tilesize_symm M g"
  "512 \<le> tilesize_trmm M g" "512 \<le> tilesize_gemm M g" "512 \<le> tilesize_default M g"
  by (auto simp: tilesize_syrk_def tilesize_syr2k_def tilesize_symm_def tilesize_trmm_def
        tilesize_gemm_def tilesize_default_def Let_def split: prod.splits
        intro: order_trans [OF _ round64_ge])

lemma tilesize_aligned:
  "1024 dvd tilesize_symm M g" "64 dvd tilesize_trmm M g" "64 dvd tilesize_gemm M g"
  "64 dvd tilesize_default M g"
  using align_down_dvd [of 1024 "M div g"]
  by (auto simp: tilesize_symm_def tilesize_trmm_def tilesize_gemm_def tilesize_default_def
        Let_def round64_dvd dvd_mult2)

lemma auto_tilesize_param: "xc_NB ctxt \<noteq> 0 \<Longrightarrow> xkblas_auto_tilesize ctxt k M N K = Some (xc_NB ctxt)"
  by (simp add: xkblas_auto_tilesize_def)

lemma auto_tilesize_total:
  "0 < xc_ngpus ctxt \<Longrightarrow> \<exists>NB. xkblas_auto_tilesize ctxt k M N K = Some NB"
  by (simp add: xkblas_auto_tilesize_def Let_def)

lemma auto_tilesize_pos:
  "xkblas_auto_tilesize ctxt k M N K = Some NB \<Longrightarrow> 0 < NB"
  using tilesize_ge [of "if N > M then N else M" "xc_ngpus ctxt"]
  by (cases k) (auto simp: xkblas_auto_tilesize_def Let_def split: if_splits)

lemma auto_tilesize_some: "0 < xc_ngpus ctxt \<Longrightarrow> \<exists>NB. xkblas_auto_tilesize ctxt k M N K = Some NB \<and> 0 < NB"
  using auto_tilesize_total auto_tilesize_pos by blast


section \<open>Placement of tiles\<close>

definition hlevel_type :: "nat \<Rightarrow> nat option" where
  "hlevel_type hlevel =
     (if hlevel = 0 then Some KAAPI_LD_BOARD else if hlevel = 1 then Some KAAPI_LD_GPU
      else if hlevel = 2 then Some KAAPI_LD_CORE else None)"

text \<open>The body of the loops: a tile that has no domain yet, or any tile when \<open>force\<close>, is bound
  to the domain numbered \<open>r\<close> of the type; \<open>set_ldid\<close> takes a \<open>uint16_t\<close>. The first form
  dereferences the domain, the second uses \<open>kaapi_localitydomain_get_num\<close>.\<close>

type_synonym tile_map = "matrix_descr \<times> (nat \<Rightarrow> nat option)"

definition map_tile_deref :: "ldreg \<Rightarrow> nat \<Rightarrow> bool \<Rightarrow> nat \<Rightarrow> nat \<Rightarrow> nat \<Rightarrow> tile_map \<Rightarrow> tile_map option" where
  "map_tile_deref R type force r i j s =
     (let (Ah, wish) = s in
      if xkblas_get_ldid Ah i j = LDID_NONE \<or> force then
        (case kaapi_localitydomain_get_bytype type r R of
           Some (Some ld) \<Rightarrow>
             (let ldid = ldm_ldid (lr_obj R ld) mod 65536; lid = ldm_lid (lr_obj R ld) in
              if ldid \<noteq> lid then None
              else Some (xkblas_set_ldid Ah i j ldid,
                         wish(h_data (xkblas_get_handle Ah i j) \<mapsto> lid)))
         | _ \<Rightarrow> None)
      else Some s)"

definition map_tile_num :: "ldreg \<Rightarrow> nat \<Rightarrow> bool \<Rightarrow> nat \<Rightarrow> nat \<Rightarrow> nat \<Rightarrow> tile_map \<Rightarrow> tile_map option" where
  "map_tile_num R type force r i j s =
     (let (Ah, wish) = s in
      if xkblas_get_ldid Ah i j = LDID_NONE \<or> force then
        map_option (\<lambda>v. (xkblas_set_ldid Ah i j (v mod 65536), wish))
          (kaapi_localitydomain_get_num type r R)
      else Some s)"

text \<open>The frame the mapping functions share: find the descriptor, check it, translate the level,
  count the domains, then visit the tiles row by row.\<close>

definition map_tiles ::
  "(nat \<Rightarrow> nat \<Rightarrow> nat \<Rightarrow> nat \<Rightarrow> tile_map \<Rightarrow> tile_map option) \<Rightarrow> nat \<Rightarrow> nat \<Rightarrow> ldreg \<Rightarrow> xk_ctx
     \<Rightarrow> (nat \<times> xk_ctx) option" where
  "map_tiles visit hlevel A R ctxt0 =
     (let (Ah, ctxt) = xkblas_find A ctxt0 in
      if \<not> xkblas_matrix_descr_isinit Ah then Some (EINVAL, ctxt)
      else case hlevel_type hlevel of
        None \<Rightarrow> Some (EINVAL, ctxt)
      | Some type \<Rightarrow>
        (case kaapi_localitydomain_count type R of
           None \<Rightarrow> None
         | Some count \<Rightarrow>
             if count = 0 then Some (EINVAL, ctxt)
             else map_option (\<lambda>(Ah', w). (0, ctxt\<lparr>xc_descr := (xc_descr ctxt)(A \<mapsto> Ah'), xc_wish := w\<rparr>))
               (for_opt (d_mt Ah) (\<lambda>i. for_opt (d_nt Ah) (\<lambda>j. visit type count i j)) (Ah, xc_wish ctxt))))"

definition xkblas_map_all :: "nat \<Rightarrow> nat \<Rightarrow> nat \<Rightarrow> bool \<Rightarrow> ldreg \<Rightarrow> xk_ctx \<Rightarrow> (nat \<times> xk_ctx) option" where
  "xkblas_map_all hlevel A gpu force R =
     map_tiles (\<lambda>type count i j. map_tile_deref R type force gpu i j) hlevel A R"

definition rank_2Dblock_cyclic :: "nat \<Rightarrow> nat \<Rightarrow> nat \<Rightarrow> nat \<Rightarrow> nat \<Rightarrow> nat \<Rightarrow> nat" where
  "rank_2Dblock_cyclic Bp Bq Gp Gq i j = ((i div Bp) mod Gp) * Gq + (j div Bq) mod Gq"

definition xkblas_map_2Dblock_cyclic ::
  "nat \<Rightarrow> nat \<Rightarrow> nat \<Rightarrow> nat \<Rightarrow> nat \<Rightarrow> nat \<Rightarrow> bool \<Rightarrow> ldreg \<Rightarrow> xk_ctx \<Rightarrow> (nat \<times> xk_ctx) option" where
  "xkblas_map_2Dblock_cyclic hlevel A Bp Bq Gp Gq force R =
     map_tiles (\<lambda>type count i j s.
        if (xkblas_get_ldid (fst s) i j = LDID_NONE \<or> force) \<and> (Bp = 0 \<or> Bq = 0 \<or> Gp = 0 \<or> Gq = 0)
        then None
        else map_tile_deref R type force (rank_2Dblock_cyclic Bp Bq Gp Gq i j mod count) i j s)
       hlevel A R"

definition xkblas_map_1Dblock_cyclic ::
  "nat \<Rightarrow> bool \<Rightarrow> nat \<Rightarrow> nat \<Rightarrow> nat \<Rightarrow> nat \<Rightarrow> nat \<Rightarrow> bool \<Rightarrow> ldreg \<Rightarrow> xk_ctx \<Rightarrow> (nat \<times> xk_ctx) option" where
  "xkblas_map_1Dblock_cyclic hlevel colrow m n A B G force R ctxt =
     (let NB = xc_NB ctxt in
      if NB = 0 then None
      else if \<not> colrow
      then xkblas_map_2Dblock_cyclic hlevel A ((m + NB - 1) div NB) B 1 G force R ctxt
      else xkblas_map_2Dblock_cyclic hlevel A B ((n + NB - 1) div NB) G 1 force R ctxt)"

definition xkblas_map_cyclic :: "nat \<Rightarrow> nat \<Rightarrow> bool \<Rightarrow> ldreg \<Rightarrow> xk_ctx \<Rightarrow> (nat \<times> xk_ctx) option" where
  "xkblas_map_cyclic hlevel A force R ctxt =
     map_tiles (\<lambda>type count i j s. map_tile_num R type force ((i * d_nt (fst s) + j) mod count) i j s)
       hlevel A R ctxt"

definition xkblas_map_ij_cyclic :: "nat \<Rightarrow> nat \<Rightarrow> bool \<Rightarrow> ldreg \<Rightarrow> xk_ctx \<Rightarrow> (nat \<times> xk_ctx) option" where
  "xkblas_map_ij_cyclic hlevel A force R =
     map_tiles (\<lambda>type count i j. map_tile_num R type force ((i + j) mod count) i j) hlevel A R"

section \<open>The automatic grid\<close>

text \<open>\<open>size_t Gm = sqrt(ngpus)\<close>: the integer part of the root, and the search downwards for
  a divisor from \<open>Gm+1\<close>.\<close>

fun isqrt_from :: "nat \<Rightarrow> nat \<Rightarrow> nat" where
  "isqrt_from n 0 = 0"
| "isqrt_from n (Suc g) = (if Suc g * Suc g \<le> n then Suc g else isqrt_from n g)"

definition isqrt :: "nat \<Rightarrow> nat" where "isqrt n = isqrt_from n n"

fun grid_search :: "nat \<Rightarrow> nat \<Rightarrow> nat" where
  "grid_search ngpus 0 = 0"
| "grid_search ngpus (Suc g) = (if ngpus mod Suc g = 0 then Suc g else grid_search ngpus g)"

definition auto_grid :: "nat \<Rightarrow> nat \<times> nat" where
  "auto_grid ngpus =
     (let Gm = isqrt ngpus in
      if Gm = 0 then (1, ngpus)
      else let g = grid_search ngpus (Gm + 1)
           in if g = 0 then (ngpus, 1) else (g, ngpus div g))"

definition EBUSY :: nat where "EBUSY = 16"

definition xkblas_auto_map :: "kernel \<Rightarrow> nat \<Rightarrow> ldreg \<Rightarrow> xk_ctx \<Rightarrow> (nat \<times> xk_ctx) option" where
  "xkblas_auto_map kern A R ctxt =
     (if xc_ngpus ctxt = 0 then Some (EBUSY, ctxt)
      else if kern = KERN_SWAP \<or> kern = KERN_VOID then Some (0, ctxt)
      else let (Gm, Gn) = auto_grid (xc_ngpus ctxt)
           in map_option (\<lambda>(_, c). (0, c)) (xkblas_map_2Dblock_cyclic 1 A 1 1 Gm Gn False R ctxt))"

lemma isqrt_from_sq: "isqrt_from n k * isqrt_from n k \<le> n"
  by (induction k) auto

lemma isqrt_from_max: "m \<le> k \<Longrightarrow> m * m \<le> n \<Longrightarrow> m \<le> isqrt_from n k"
proof (induction k)
  case (Suc k) then show ?case by (cases "m = Suc k") auto
qed simp

lemma isqrt_bounds: "isqrt n * isqrt n \<le> n" "n < Suc (isqrt n) * Suc (isqrt n)"
proof -
  show "isqrt n * isqrt n \<le> n" by (simp add: isqrt_def isqrt_from_sq)
  show "n < Suc (isqrt n) * Suc (isqrt n)"
  proof (rule ccontr)
    assume "\<not> ?thesis"
    then have "Suc (isqrt n) * Suc (isqrt n) \<le> n" by simp
    moreover from this have "Suc (isqrt n) \<le> n" by (rule order_trans [rotated]) simp
    ultimately have "Suc (isqrt n) \<le> isqrt n"
      unfolding isqrt_def by (intro isqrt_from_max) (simp_all add: isqrt_def)
    then show False by simp
  qed
qed

lemma grid_search_divides: "0 < g \<Longrightarrow> 0 < grid_search n g \<and> n mod grid_search n g = 0 \<and> grid_search n g \<le> g"
proof (induction g)
  case (Suc g) then show ?case by (cases "g = 0") auto
qed simp

lemma auto_grid_product:
  assumes "0 < ngpus" "auto_grid ngpus = (Gm, Gn)"
  shows "Gm * Gn = ngpus \<and> 0 < Gm \<and> 0 < Gn \<and> Gm \<le> isqrt ngpus + 1"
proof -
  have "isqrt ngpus \<noteq> 0" using isqrt_bounds(2) [of ngpus] assms(1) by (metis One_nat_def less_one mult_1 not_gr0)
  moreover have "0 < grid_search ngpus (isqrt ngpus + 1)" "grid_search ngpus (isqrt ngpus + 1) dvd ngpus"
    "grid_search ngpus (isqrt ngpus + 1) \<le> isqrt ngpus + 1"
    using grid_search_divides [of "isqrt ngpus + 1" ngpus] by (auto simp: mod_eq_0_iff_dvd)
  ultimately show ?thesis
    using assms by (auto simp: auto_grid_def Let_def dvd_mult_div_cancel div_greater_zero_iff dvd_imp_le)
qed


section \<open>What the block-cyclic mapping does\<close>

text \<open>The registry holds \<open>c\<close> live domains of a type whose identifier is the address-space
  number of their device, as start-up attaches them.\<close>

definition gpus_registered :: "ldreg \<Rightarrow> nat \<Rightarrow> nat \<Rightarrow> (nat \<Rightarrow> nat) \<Rightarrow> bool" where
  "gpus_registered R type c f \<longleftrightarrow>
     0 < c \<and> kaapi_localitydomain_count type R = Some c \<and>
     (\<forall>r<c. \<exists>ld. kaapi_localitydomain_get_bytype type r R = Some (Some ld) \<and>
        ldm_ldid (lr_obj R ld) = f r \<and> ldm_lid (lr_obj R ld) = f r \<and> f r < LDID_NONE)"

definition ldids_of :: "matrix_descr \<Rightarrow> nat \<Rightarrow> nat \<Rightarrow> (nat \<Rightarrow> nat \<Rightarrow> nat) \<Rightarrow> bool" where
  "ldids_of d mt nt g \<longleftrightarrow> d_nt d = nt \<and> length (d_ldid d) = mt * nt \<and>
     (\<forall>i<mt. \<forall>j<nt. xkblas_get_ldid d i j = g i j)"

lemma rect_index_less: "i < mt \<Longrightarrow> j < nt \<Longrightarrow> i * nt + j < mt * (nt::nat)"
proof -
  assume "i < mt" "j < nt"
  then have "i * nt + j < Suc i * nt" by simp
  also have "\<dots> \<le> mt * nt" using \<open>i < mt\<close> by (intro mult_le_mono1) simp
  finally show ?thesis .
qed

lemma ldids_of_set:
  assumes "ldids_of d mt nt g" "i < mt" "j < nt"
  shows "ldids_of (xkblas_set_ldid d i j v) mt nt (\<lambda>i' j'. if i' = i \<and> j' = j then v else g i' j')"
  using assms rect_index_less [OF assms(2,3)]
  by (auto simp: ldids_of_def xkblas_set_ldid_def xkblas_get_ldid_def nth_list_update rect_index_inj)

lemma map_tile_deref_ok:
  assumes "gpus_registered R type c f" "r < c" "ldids_of d mt nt g" "i < mt" "j < nt"
    "g i j = LDID_NONE \<or> force"
  shows "\<exists>d' w'. map_tile_deref R type force r i j (d, w) = Some (d', w') \<and>
           ldids_of d' mt nt (\<lambda>i' j'. if i' = i \<and> j' = j then f r else g i' j')"
proof -
  obtain ld where ld: "kaapi_localitydomain_get_bytype type r R = Some (Some ld)"
    "ldm_ldid (lr_obj R ld) = f r" "ldm_lid (lr_obj R ld) = f r" "f r < LDID_NONE"
    using assms(1,2) by (auto simp: gpus_registered_def)
  have "xkblas_get_ldid d i j = g i j" using assms by (auto simp: ldids_of_def)
  then show ?thesis
    using ld assms ldids_of_set [OF assms(3-5), of "f r"]
    by (simp add: map_tile_deref_def LDID_NONE_def Let_def)
qed

lemma map_2D_loops:
  assumes reg: "gpus_registered R type c f" and pos: "0 < Bp" "0 < Bq" "0 < Gp" "0 < Gq"
    and init: "ldids_of d mt nt g" and free: "force \<or> (\<forall>i<mt. \<forall>j<nt. g i j = LDID_NONE)"
  shows "\<exists>d' w'. for_opt mt (\<lambda>i. for_opt nt (\<lambda>j s.
            if (xkblas_get_ldid (fst s) i j = LDID_NONE \<or> force) \<and> (Bp = 0 \<or> Bq = 0 \<or> Gp = 0 \<or> Gq = 0)
            then None
            else map_tile_deref R type force (rank_2Dblock_cyclic Bp Bq Gp Gq i j mod c) i j s)) (d, w)
          = Some (d', w') \<and>
        ldids_of d' mt nt (\<lambda>i j. f (rank_2Dblock_cyclic Bp Bq Gp Gq i j mod c))"
proof -
  let ?v = "\<lambda>i j. f (rank_2Dblock_cyclic Bp Bq Gp Gq i j mod c)"
  let ?body = "\<lambda>i j s. if (xkblas_get_ldid (fst s) i j = LDID_NONE \<or> force) \<and> (Bp = 0 \<or> Bq = 0 \<or> Gp = 0 \<or> Gq = 0)
            then None
            else map_tile_deref R type force (rank_2Dblock_cyclic Bp Bq Gp Gq i j mod c) i j s"
  let ?P = "\<lambda>i j (s::tile_map). ldids_of (fst s) mt nt
              (\<lambda>i' j'. if i' < i \<or> i' = i \<and> j' < j then ?v i' j' else g i' j')"
  have c: "0 < c" using reg by (simp add: gpus_registered_def)
  have step: "\<exists>t'. ?body i j t = Some t' \<and> ?P i (Suc j) t'"
    if a: "i < mt" "j < nt" "?P i j t" for i j t
  proof -
    obtain d1 w1 where t: "t = (d1, w1)" by (cases t)
    have gij: "(if i < i \<or> i = i \<and> j < j then ?v i j else g i j) = LDID_NONE \<or> force"
      using free that by auto
    obtain d' w' where 1: "map_tile_deref R type force (rank_2Dblock_cyclic Bp Bq Gp Gq i j mod c) i j (d1, w1)
        = Some (d', w')"
      and 2: "ldids_of d' mt nt (\<lambda>i' j'. if i' = i \<and> j' = j then ?v i j else
          (if i' < i \<or> i' = i \<and> j' < j then ?v i' j' else g i' j'))"
      using map_tile_deref_ok [OF reg mod_less_divisor [OF c] a(3) [unfolded t fst_conv] a(1,2) gij]
      by blast
    have "(\<lambda>i' j'. if i' = i \<and> j' = j then ?v i j else
          (if i' < i \<or> i' = i \<and> j' < j then ?v i' j' else g i' j')) =
       (\<lambda>i' j'. if i' < i \<or> i' = i \<and> j' < Suc j then ?v i' j' else g i' j')"
      by (auto simp: fun_eq_iff)
    with 2 show ?thesis using 1 t pos by simp
  qed
  have row: "\<exists>t'. for_opt nt (?body i) t = Some t' \<and> ?P (Suc i) 0 t'" if b: "i < mt" "?P i 0 t" for i t
  proof -
    obtain t' where 1: "for_opt nt (?body i) t = Some t'" and 2: "?P i nt t'"
      using for_opt_rule [of "?P i" t nt "?body i"] step b by blast
    have "?P (Suc i) 0 t'"
      using 2 by (auto simp: ldids_of_def less_Suc_eq)
    with 1 show ?thesis by blast
  qed
  have "\<exists>t. for_opt mt (\<lambda>i. for_opt nt (?body i)) (d, w) = Some t \<and> ?P mt 0 t"
    using for_opt_rule [of "\<lambda>i. ?P i 0" "(d, w)" mt "\<lambda>i. for_opt nt (?body i)"] row init by auto
  then obtain t where 1: "for_opt mt (\<lambda>i. for_opt nt (?body i)) (d, w) = Some t" and 2: "?P mt 0 t"
    by blast
  have "ldids_of (fst t) mt nt ?v" using 2 by (auto simp: ldids_of_def)
  with 1 show ?thesis by (cases t) auto
qed

lemma map_2Dblock_cyclic_ok:
  assumes "xc_descr ctxt A = Some d" "xkblas_matrix_descr_isinit d" "hlevel_type hlevel = Some type"
    "gpus_registered R type c f" "0 < Bp" "0 < Bq" "0 < Gp" "0 < Gq"
    "ldids_of d (d_mt d) (d_nt d) g" "force \<or> (\<forall>i<d_mt d. \<forall>j<d_nt d. g i j = LDID_NONE)"
  shows "\<exists>ctxt' d'. xkblas_map_2Dblock_cyclic hlevel A Bp Bq Gp Gq force R ctxt = Some (0, ctxt') \<and>
           xc_descr ctxt' A = Some d' \<and>
           ldids_of d' (d_mt d) (d_nt d) (\<lambda>i j. f (rank_2Dblock_cyclic Bp Bq Gp Gq i j mod c))"
proof -
  obtain d' w' where l: "for_opt (d_mt d) (\<lambda>i. for_opt (d_nt d) (\<lambda>j s.
            if (xkblas_get_ldid (fst s) i j = LDID_NONE \<or> force) \<and> (Bp = 0 \<or> Bq = 0 \<or> Gp = 0 \<or> Gq = 0)
            then None
            else map_tile_deref R type force (rank_2Dblock_cyclic Bp Bq Gp Gq i j mod c) i j s)) (d, xc_wish ctxt)
          = Some (d', w')"
    "ldids_of d' (d_mt d) (d_nt d) (\<lambda>i j. f (rank_2Dblock_cyclic Bp Bq Gp Gq i j mod c))"
    using map_2D_loops [OF assms(4-10)] by blast
  have "kaapi_localitydomain_count type R = Some c" "c \<noteq> 0"
    using assms(4) by (auto simp: gpus_registered_def)
  then show ?thesis
    using assms(1-3) l
    by (simp add: xkblas_map_2Dblock_cyclic_def map_tiles_def xkblas_find_def)
qed

text \<open>A mapping changes nothing of the descriptors but the \<open>ldid\<close> array of its matrix.\<close>

definition same_tiles :: "matrix_descr \<Rightarrow> matrix_descr \<Rightarrow> bool" where
  "same_tiles d d' \<longleftrightarrow> (\<exists>l. d' = d\<lparr>d_ldid := l\<rparr>)"

lemma same_tiles_refl [simp]: "same_tiles d d"
  unfolding same_tiles_def by (rule exI [of _ "d_ldid d"]) simp

lemma same_tiles_trans: "same_tiles d e \<Longrightarrow> same_tiles e f \<Longrightarrow> same_tiles d f"
  by (auto simp: same_tiles_def)

lemma same_tiles_descr_of:
  "same_tiles d d' \<Longrightarrow> descr_of d' A M N LD MB NB = descr_of d A M N LD MB NB"
  by (auto simp: same_tiles_def descr_of_def xkblas_get_handle_def)

lemma map_tile_deref_same:
  "map_tile_deref R type force r i j s = Some t \<Longrightarrow> same_tiles (fst s) (fst t)"
  by (cases s)
     (auto simp: map_tile_deref_def same_tiles_def xkblas_set_ldid_def Let_def
        split: if_splits option.splits intro: same_tiles_refl [unfolded same_tiles_def])

lemma map_tiles_frame:
  assumes "map_tiles visit hlevel A R ctxt = Some (e, ctxt')" "xc_descr ctxt A = Some d"
    and "\<And>type count i j s t. visit type count i j s = Some t \<Longrightarrow> same_tiles (fst s) (fst t)"
  shows "xc_NB ctxt' = xc_NB ctxt \<and> xc_ngpus ctxt' = xc_ngpus ctxt \<and>
    (\<exists>d'. xc_descr ctxt' = (xc_descr ctxt)(A \<mapsto> d') \<and> same_tiles d d')"
proof -
  have loops: "same_tiles d (fst t)"
    if "for_opt (d_mt d) (\<lambda>i. for_opt (d_nt d) (\<lambda>j. visit type count i j)) (d, w) = Some t" for type count w t
    using that
    by (rule for_opt_inv [where P = "\<lambda>s. same_tiles d (fst s)"])
       (auto elim!: for_opt_inv [where P = "\<lambda>s. same_tiles d (fst s)"] intro: same_tiles_trans assms(3))
  show ?thesis
    using assms(1,2) loops
    by (fastforce simp: map_tiles_def xkblas_find_def fun_upd_idem_iff
          split: if_splits option.splits)
qed

lemma auto_map_frame:
  assumes "xkblas_auto_map kern A R ctxt = Some (e, ctxt')" "xc_descr ctxt A = Some d"
  shows "xc_NB ctxt' = xc_NB ctxt \<and> xc_ngpus ctxt' = xc_ngpus ctxt \<and>
    (\<exists>d'. xc_descr ctxt' = (xc_descr ctxt)(A \<mapsto> d') \<and> same_tiles d d')"
proof (cases "xc_ngpus ctxt = 0 \<or> kern = KERN_SWAP \<or> kern = KERN_VOID")
  case True
  then have "ctxt' = ctxt" using assms(1) by (auto simp: xkblas_auto_map_def split: if_splits)
  then show ?thesis using assms(2) by (auto intro!: exI [of _ d] simp: fun_upd_idem)
next
  case False
  then obtain e' Gm Gn where "xkblas_map_2Dblock_cyclic 1 A 1 1 Gm Gn False R ctxt = Some (e', ctxt')"
    using assms(1) by (auto simp: xkblas_auto_map_def split: prod.splits)
  then show ?thesis
    unfolding xkblas_map_2Dblock_cyclic_def
    by (rule map_tiles_frame [OF _ assms(2)]) (auto split: if_splits intro: map_tile_deref_same)
qed

text \<open>A \<open>Gp\<close> by \<open>Gq\<close> window of blocks meets each of the \<open>Gp * Gq\<close> ranks exactly once.\<close>

lemma mod_window_inj:
  assumes "x \<in> {a..<a + g}" "y \<in> {a..<a + g}" "x mod g = y mod (g::nat)"
  shows "x = y"
proof (rule ccontr)
  assume "x \<noteq> y"
  then consider "x < y" | "y < x" by linarith
  then show False
  proof cases
    case 1
    then have "g dvd y - x" using assms(3) by (metis mod_eq_dvd_iff_nat less_imp_le)
    then show False using 1 assms(1,2) by (auto dest: dvd_imp_le)
  next
    case 2
    then have "g dvd x - y" using assms(3) by (metis mod_eq_dvd_iff_nat less_imp_le)
    then show False using 2 assms(1,2) by (auto dest: dvd_imp_le)
  qed
qed

lemma rank_window_bij:
  assumes "0 < Gp" "0 < Gq"
  shows "bij_betw (\<lambda>(i, j). rank_2Dblock_cyclic 1 1 Gp Gq i j) ({a..<a + Gp} \<times> {b..<b + Gq}) {..<Gp * Gq}"
proof -
  let ?f = "\<lambda>(i, j). rank_2Dblock_cyclic 1 1 Gp Gq i j"
  have inj: "inj_on ?f ({a..<a + Gp} \<times> {b..<b + Gq})"
    using assms by (auto simp: inj_on_def rank_2Dblock_cyclic_def rect_index_inj intro: mod_window_inj)
  have sub: "?f ` ({a..<a + Gp} \<times> {b..<b + Gq}) \<subseteq> {..<Gp * Gq}"
    using assms by (auto simp: rank_2Dblock_cyclic_def rect_index_less)
  have "card (?f ` ({a..<a + Gp} \<times> {b..<b + Gq})) = card {..<Gp * Gq}"
    using card_image [OF inj] by (simp add: card_cartesian_product)
  then have "?f ` ({a..<a + Gp} \<times> {b..<b + Gq}) = {..<Gp * Gq}"
    using sub by (intro card_subset_eq) auto
  with inj show ?thesis by (simp add: bij_betw_def)
qed


lemma auto_map_ok:
  assumes "xc_descr ctxt A = Some d" "xkblas_matrix_descr_isinit d"
    "gpus_registered R KAAPI_LD_GPU c f" "kern \<noteq> KERN_SWAP" "kern \<noteq> KERN_VOID"
    "0 < xc_ngpus ctxt" "auto_grid (xc_ngpus ctxt) = (Gm, Gn)"
    "ldids_of d (d_mt d) (d_nt d) (\<lambda>_ _. LDID_NONE)"
  shows "\<exists>ctxt' d'. xkblas_auto_map kern A R ctxt = Some (0, ctxt') \<and> xc_descr ctxt' A = Some d' \<and>
           ldids_of d' (d_mt d) (d_nt d) (\<lambda>i j. f (rank_2Dblock_cyclic 1 1 Gm Gn i j mod c))"
proof -
  have "Gm * Gn = xc_ngpus ctxt \<and> 0 < Gm \<and> 0 < Gn"
    using auto_grid_product [OF assms(6,7)] by simp
  then have g: "0 < Gm" "0 < Gn" by auto
  have h: "hlevel_type 1 = Some KAAPI_LD_GPU" by (simp add: hlevel_type_def)
  show ?thesis
    using map_2Dblock_cyclic_ok [OF assms(1,2) h assms(3) _ _ g assms(8), of 1 1 False] assms(4-7)
    by (auto simp: xkblas_auto_map_def)
qed


text \<open>A registry with the host as domain 0 and one GPU as domain 1, and a context with no matrix.\<close>

definition one_gpu_reg :: ldreg where
  "one_gpu_reg = \<lparr>lr_tab = Some [[], [Some 0], [], [], [Some 1]],
     lr_map = [0 \<mapsto> Some 0, 1 \<mapsto> Some 1], lr_ldid = 2,
     lr_obj = (\<lambda>x. \<lparr>ldm_type = (if x = 0 then 2 else 16), ldm_ldid = x, ldm_idx = 0, ldm_parent = None,
                    ldm_subld = [], ldm_lid = x\<rparr>)\<rparr>"

definition empty_ctx :: "nat \<Rightarrow> xk_ctx" where
  "empty_ctx NB = \<lparr>xc_NB = NB, xc_ngpus = 1, xc_descr = Map.empty, xc_list_sync0 = [], xc_gen = 0,
     xc_wish = Map.empty\<rparr>"

lemma one_gpu_registered: "gpus_registered one_gpu_reg KAAPI_LD_GPU 1 (\<lambda>_. 1)"
  by (simp add: gpus_registered_def one_gpu_reg_def kaapi_localitydomain_count_def ld_type_defs
        kaapi_localitydomain_get_bytype_def LDID_NONE_def)

lemma empty_ctx_simps [simp]: "xc_NB (empty_ctx NB) = NB" "xc_ngpus (empty_ctx NB) = 1"
  "xc_descr (empty_ctx NB) = Map.empty"
  by (simp_all add: empty_ctx_def)

section \<open>Properties\<close>

text \<open>C20. \<open>xkblas_auto_tilesize\<close> returns for every kernel once a GPU is there, and never a null tile size: the
  user's one if it is set, else at least 512; a multiple of 1024 for symm and hemm, and of 64 for every kernel but syrk, herk,
  syr2k and her2k, whose tile sizes are not aligned (5000 for syrk on one GPU with 20000 rows).\<close>

theorem auto_tilesize_ok:
  assumes "0 < xc_ngpus ctxt"
  shows "\<exists>NB. xkblas_auto_tilesize ctxt kern M N K = Some NB \<and> 0 < NB \<and>
    (if xc_NB ctxt \<noteq> 0 then NB = xc_NB ctxt
     else 512 \<le> NB \<and> (kern \<in> {KERN_SYMM, KERN_HEMM} \<longrightarrow> 1024 dvd NB) \<and>
       (kern \<notin> {KERN_SYRK, KERN_HERK, KERN_SYR2K, KERN_HER2K} \<longrightarrow> 64 dvd NB))"
proof (cases "xc_NB ctxt = 0")
  case True
  then show ?thesis
    using assms tilesize_ge [of "if N > M then N else M" "xc_ngpus ctxt"]
      tilesize_aligned [of "if N > M then N else M" "xc_ngpus ctxt"]
      dvd_trans [of 64 1024 "tilesize_symm (if N > M then N else M) (xc_ngpus ctxt)"]
    by (cases kern) (auto simp: xkblas_auto_tilesize_def Let_def)
qed (auto simp: auto_tilesize_param)

theorem auto_tilesize_ok_witness:
  "\<exists>NB. xkblas_auto_tilesize (empty_ctx 0) KERN_GEMM 5000 100 100 = Some NB \<and> 0 < NB \<and> 512 \<le> NB \<and> 64 dvd NB"
  using auto_tilesize_ok [of "empty_ctx 0" KERN_GEMM 5000 100 100] by auto

text \<open>C21. \<open>xkblas_auto_map\<close> spreads the tiles of a matrix evenly: it returns a grid whose size is the number of
  GPUs, and in every window of that grid of tiles each GPU domain owns exactly one tile.\<close>

theorem auto_map_balanced:
  assumes "xc_descr ctxt A = Some d" "xkblas_matrix_descr_isinit d" "ldids_of d (d_mt d) (d_nt d) (\<lambda>_ _. LDID_NONE)"
    and "gpus_registered R KAAPI_LD_GPU (xc_ngpus ctxt) f" "inj_on f {..<xc_ngpus ctxt}"
    and "kern \<noteq> KERN_SWAP" "kern \<noteq> KERN_VOID" "0 < xc_ngpus ctxt"
  shows "\<exists>ctxt' d' Gm Gn. xkblas_auto_map kern A R ctxt = Some (0, ctxt') \<and> xc_descr ctxt' A = Some d' \<and>
    Gm * Gn = xc_ngpus ctxt \<and>
    (\<forall>a b. a + Gm \<le> d_mt d \<longrightarrow> b + Gn \<le> d_nt d \<longrightarrow>
       bij_betw (\<lambda>(i, j). xkblas_get_ldid d' i j) ({a..<a + Gm} \<times> {b..<b + Gn}) (f ` {..<xc_ngpus ctxt}))"
proof -
  obtain Gm Gn where g: "auto_grid (xc_ngpus ctxt) = (Gm, Gn)" by force
  have prod: "Gm * Gn = xc_ngpus ctxt" "0 < Gm" "0 < Gn" using auto_grid_product [OF assms(8) g] by auto
  obtain ctxt' d' where r: "xkblas_auto_map kern A R ctxt = Some (0, ctxt')" "xc_descr ctxt' A = Some d'"
    "ldids_of d' (d_mt d) (d_nt d) (\<lambda>i j. f (rank_2Dblock_cyclic 1 1 Gm Gn i j mod xc_ngpus ctxt))"
    using auto_map_ok [OF assms(1,2,4,6,7,8) g assms(3)] by blast
  have "bij_betw (\<lambda>(i, j). xkblas_get_ldid d' i j) ({a..<a + Gm} \<times> {b..<b + Gn}) (f ` {..<xc_ngpus ctxt})"
    if ab: "a + Gm \<le> d_mt d" "b + Gn \<le> d_nt d" for a b
  proof -
    have w: "bij_betw (\<lambda>(i, j). rank_2Dblock_cyclic 1 1 Gm Gn i j) ({a..<a + Gm} \<times> {b..<b + Gn}) {..<xc_ngpus ctxt}"
      using rank_window_bij [OF prod(2,3)] prod(1) by simp
    have "bij_betw (f \<circ> (\<lambda>(i, j). rank_2Dblock_cyclic 1 1 Gm Gn i j)) ({a..<a + Gm} \<times> {b..<b + Gn}) (f ` {..<xc_ngpus ctxt})"
      by (rule bij_betw_trans [OF w]) (rule inj_on_imp_bij_betw [OF assms(5)])
    moreover have "(\<lambda>(i, j). xkblas_get_ldid d' i j) ij = (f \<circ> (\<lambda>(i, j). rank_2Dblock_cyclic 1 1 Gm Gn i j)) ij"
      if "ij \<in> {a..<a + Gm} \<times> {b..<b + Gn}" for ij
      using that ab r(3) bij_betwE [OF w] by (fastforce simp: ldids_of_def)
    ultimately show ?thesis by (simp cong: bij_betw_cong)
  qed
  with r prod show ?thesis by blast
qed

definition two_tiles :: matrix_descr where
  "two_tiles = descr_blank\<lparr>d_addr := 16, d_mt := 2, d_nt := 1, d_ldid := [65535, 65535]\<rparr>"

theorem auto_map_balanced_witness:
  "\<exists>ctxt' d'. xkblas_auto_map KERN_GEMM 16 one_gpu_reg ((empty_ctx 0)\<lparr>xc_descr := [16 \<mapsto> two_tiles]\<rparr>) = Some (0, ctxt') \<and>
     xc_descr ctxt' 16 = Some d'"
proof -
  have "xkblas_matrix_descr_isinit two_tiles" by (simp add: two_tiles_def xkblas_matrix_descr_isinit_def)
  moreover have "ldids_of two_tiles (d_mt two_tiles) (d_nt two_tiles) (\<lambda>_ _. LDID_NONE)"
    by (auto simp: two_tiles_def ldids_of_def xkblas_get_ldid_def LDID_NONE_def less_2_cases_iff)
  ultimately show ?thesis
    using auto_map_balanced [where ctxt = "(empty_ctx 0)\<lparr>xc_descr := [16 \<mapsto> two_tiles]\<rparr>" and A = 16 and d = two_tiles
        and R = one_gpu_reg and f = "\<lambda>_. 1" and kern = KERN_GEMM]
    by (simp add: one_gpu_registered [simplified] inj_on_def) blast
qed

end
