(* ===== verification/Blas_Tasks.thy ===== *)
theory Blas_Tasks
  imports Tiling
begin

unbundle bit_operations_syntax

text \<open>
  The tasks of the tile algorithms (\<open>blas/ztask_*.c\<close>): one constructor per \<open>INSERT_TASK\<close>, with the
  fields of its argument structure; the accesses the function declares with
  \<open>kaapi_update_dependencies\<close>, in order; and the effect of the task body on memory.

  The body calls a BLAS kernel of a third-party library (\<open>cublasZ...\<close>, or the CPU BLAS found by
  \<open>dlsym\<close>). The kernels are the argument \<open>K\<close> of \<open>exec_task\<close>; each is a function from scalars and
  operand tiles to the result tile, and \<open>gemm_ok K\<close> \<dots> \<open>trsm_ok K\<close> are the documented BLAS contracts, entry
  by entry, in exact complex arithmetic (rounding and NaN are not modelled).
\<close>

section \<open>Access modes\<close>

type_synonym amode = "8 word"

definition KAAPI_ACCESS_MODE_VOID :: amode where "KAAPI_ACCESS_MODE_VOID = 0"
definition KAAPI_ACCESS_MODE_V :: amode where "KAAPI_ACCESS_MODE_V = 1"
definition KAAPI_ACCESS_MODE_R :: amode where "KAAPI_ACCESS_MODE_R = 2"
definition KAAPI_ACCESS_MODE_W :: amode where "KAAPI_ACCESS_MODE_W = 4"
definition KAAPI_ACCESS_MODE_CW :: amode where "KAAPI_ACCESS_MODE_CW = 8"
definition KAAPI_ACCESS_MODE_P :: amode where "KAAPI_ACCESS_MODE_P = 64"
definition KAAPI_ACCESS_MODE_RW :: amode where "KAAPI_ACCESS_MODE_RW = 6"
definition KAAPI_ACCESS_SYNC :: amode where "KAAPI_ACCESS_SYNC = 255"

lemmas amode_defs = KAAPI_ACCESS_MODE_VOID_def KAAPI_ACCESS_MODE_V_def KAAPI_ACCESS_MODE_R_def
  KAAPI_ACCESS_MODE_W_def KAAPI_ACCESS_MODE_CW_def KAAPI_ACCESS_MODE_P_def
  KAAPI_ACCESS_MODE_RW_def KAAPI_ACCESS_SYNC_def

section \<open>Tasks\<close>

datatype task =
    TGemm int int nat nat nat complex handle nat handle nat complex handle nat
  | TGemmt int int int nat nat complex handle nat handle nat complex handle nat
  | TSymm int int nat nat complex handle nat handle nat complex handle nat
  | THemm int int nat nat complex handle nat handle nat complex handle nat
  | TSyrk int int nat nat complex handle nat complex handle nat
  | THerk int int nat nat real handle nat real handle nat
  | TSyr2k int int nat nat complex handle nat handle nat complex handle nat
  | THer2k int int nat nat complex handle nat handle nat real handle nat
  | TTrmm int int int int nat nat complex handle nat handle nat
  | TTrsm int int int int nat nat complex handle nat handle nat

text \<open>The mode \<open>INSERT_TASK\<close> or \<open>MODE_PARAM\<close> computes from \<open>beta\<close>.\<close>

definition w_or_rw :: "complex \<Rightarrow> amode" where
  "w_or_rw beta = (if beta = 0 then KAAPI_ACCESS_MODE_W else KAAPI_ACCESS_MODE_RW)"

text \<open>The insertion functions: tile indexes are turned into handles.\<close>

definition INSERT_TASK_zgemm ::
  "int \<Rightarrow> int \<Rightarrow> nat \<Rightarrow> nat \<Rightarrow> nat \<Rightarrow> complex \<Rightarrow> matrix_descr \<Rightarrow> nat \<Rightarrow> nat \<Rightarrow> nat
     \<Rightarrow> matrix_descr \<Rightarrow> nat \<Rightarrow> nat \<Rightarrow> nat \<Rightarrow> complex \<Rightarrow> matrix_descr \<Rightarrow> nat \<Rightarrow> nat \<Rightarrow> nat \<Rightarrow> task" where
  "INSERT_TASK_zgemm transA transB m n k alpha Ah Am An lda Bh Bm Bn ldb beta Ch Cm Cn ldc =
     TGemm transA transB m n k alpha (xkblas_get_handle Ah Am An) lda (xkblas_get_handle Bh Bm Bn) ldb
       beta (xkblas_get_handle Ch Cm Cn) ldc"

definition INSERT_TASK_zgemmt ::
  "int \<Rightarrow> int \<Rightarrow> int \<Rightarrow> nat \<Rightarrow> nat \<Rightarrow> complex \<Rightarrow> matrix_descr \<Rightarrow> nat \<Rightarrow> nat \<Rightarrow> nat
     \<Rightarrow> matrix_descr \<Rightarrow> nat \<Rightarrow> nat \<Rightarrow> nat \<Rightarrow> complex \<Rightarrow> matrix_descr \<Rightarrow> nat \<Rightarrow> nat \<Rightarrow> nat \<Rightarrow> task" where
  "INSERT_TASK_zgemmt uplo transA transB n k alpha Ah Am An lda Bh Bm Bn ldb beta Ch Cm Cn ldc =
     TGemmt uplo transA transB n k alpha (xkblas_get_handle Ah Am An) lda (xkblas_get_handle Bh Bm Bn) ldb
       beta (xkblas_get_handle Ch Cm Cn) ldc"

definition INSERT_TASK_zsymm ::
  "int \<Rightarrow> int \<Rightarrow> nat \<Rightarrow> nat \<Rightarrow> complex \<Rightarrow> matrix_descr \<Rightarrow> nat \<Rightarrow> nat \<Rightarrow> nat
     \<Rightarrow> matrix_descr \<Rightarrow> nat \<Rightarrow> nat \<Rightarrow> nat \<Rightarrow> complex \<Rightarrow> matrix_descr \<Rightarrow> nat \<Rightarrow> nat \<Rightarrow> nat \<Rightarrow> task" where
  "INSERT_TASK_zsymm side uplo m n alpha Ah Am An lda Bh Bm Bn ldb beta Ch Cm Cn ldc =
     TSymm side uplo m n alpha (xkblas_get_handle Ah Am An) lda (xkblas_get_handle Bh Bm Bn) ldb
       beta (xkblas_get_handle Ch Cm Cn) ldc"

definition INSERT_TASK_zhemm ::
  "int \<Rightarrow> int \<Rightarrow> nat \<Rightarrow> nat \<Rightarrow> complex \<Rightarrow> matrix_descr \<Rightarrow> nat \<Rightarrow> nat \<Rightarrow> nat
     \<Rightarrow> matrix_descr \<Rightarrow> nat \<Rightarrow> nat \<Rightarrow> nat \<Rightarrow> complex \<Rightarrow> matrix_descr \<Rightarrow> nat \<Rightarrow> nat \<Rightarrow> nat \<Rightarrow> task" where
  "INSERT_TASK_zhemm side uplo m n alpha Ah Am An lda Bh Bm Bn ldb beta Ch Cm Cn ldc =
     THemm side uplo m n alpha (xkblas_get_handle Ah Am An) lda (xkblas_get_handle Bh Bm Bn) ldb
       beta (xkblas_get_handle Ch Cm Cn) ldc"

definition INSERT_TASK_zsyrk ::
  "int \<Rightarrow> int \<Rightarrow> nat \<Rightarrow> nat \<Rightarrow> complex \<Rightarrow> matrix_descr \<Rightarrow> nat \<Rightarrow> nat \<Rightarrow> nat
     \<Rightarrow> complex \<Rightarrow> matrix_descr \<Rightarrow> nat \<Rightarrow> nat \<Rightarrow> nat \<Rightarrow> task" where
  "INSERT_TASK_zsyrk uplo trn n k alpha Ah Am An lda beta Bh Bm Bn ldb =
     TSyrk uplo trn n k alpha (xkblas_get_handle Ah Am An) lda beta (xkblas_get_handle Bh Bm Bn) ldb"

definition INSERT_TASK_zherk ::
  "int \<Rightarrow> int \<Rightarrow> nat \<Rightarrow> nat \<Rightarrow> real \<Rightarrow> matrix_descr \<Rightarrow> nat \<Rightarrow> nat \<Rightarrow> nat
     \<Rightarrow> real \<Rightarrow> matrix_descr \<Rightarrow> nat \<Rightarrow> nat \<Rightarrow> nat \<Rightarrow> task" where
  "INSERT_TASK_zherk uplo trn n k alpha Ah Am An lda beta Bh Bm Bn ldb =
     THerk uplo trn n k alpha (xkblas_get_handle Ah Am An) lda beta (xkblas_get_handle Bh Bm Bn) ldb"

definition INSERT_TASK_zsyr2k ::
  "int \<Rightarrow> int \<Rightarrow> nat \<Rightarrow> nat \<Rightarrow> complex \<Rightarrow> matrix_descr \<Rightarrow> nat \<Rightarrow> nat \<Rightarrow> nat
     \<Rightarrow> matrix_descr \<Rightarrow> nat \<Rightarrow> nat \<Rightarrow> nat \<Rightarrow> complex \<Rightarrow> matrix_descr \<Rightarrow> nat \<Rightarrow> nat \<Rightarrow> nat \<Rightarrow> task" where
  "INSERT_TASK_zsyr2k uplo trn n k alpha Ah Am An lda Bh Bm Bn ldb beta Ch Cm Cn ldc =
     TSyr2k uplo trn n k alpha (xkblas_get_handle Ah Am An) lda (xkblas_get_handle Bh Bm Bn) ldb
       beta (xkblas_get_handle Ch Cm Cn) ldc"

definition INSERT_TASK_zher2k ::
  "int \<Rightarrow> int \<Rightarrow> nat \<Rightarrow> nat \<Rightarrow> complex \<Rightarrow> matrix_descr \<Rightarrow> nat \<Rightarrow> nat \<Rightarrow> nat
     \<Rightarrow> matrix_descr \<Rightarrow> nat \<Rightarrow> nat \<Rightarrow> nat \<Rightarrow> real \<Rightarrow> matrix_descr \<Rightarrow> nat \<Rightarrow> nat \<Rightarrow> nat \<Rightarrow> task" where
  "INSERT_TASK_zher2k uplo trn n k alpha Ah Am An lda Bh Bm Bn ldb beta Ch Cm Cn ldc =
     THer2k uplo trn n k alpha (xkblas_get_handle Ah Am An) lda (xkblas_get_handle Bh Bm Bn) ldb
       beta (xkblas_get_handle Ch Cm Cn) ldc"

definition INSERT_TASK_ztrmm ::
  "int \<Rightarrow> int \<Rightarrow> int \<Rightarrow> int \<Rightarrow> nat \<Rightarrow> nat \<Rightarrow> complex \<Rightarrow> matrix_descr \<Rightarrow> nat \<Rightarrow> nat \<Rightarrow> nat
     \<Rightarrow> matrix_descr \<Rightarrow> nat \<Rightarrow> nat \<Rightarrow> nat \<Rightarrow> task" where
  "INSERT_TASK_ztrmm side uplo transA diag m n alpha Ah Am An lda Bh Bm Bn ldb =
     TTrmm side uplo transA diag m n alpha (xkblas_get_handle Ah Am An) lda (xkblas_get_handle Bh Bm Bn) ldb"

definition INSERT_TASK_ztrsm ::
  "int \<Rightarrow> int \<Rightarrow> int \<Rightarrow> int \<Rightarrow> nat \<Rightarrow> nat \<Rightarrow> complex \<Rightarrow> matrix_descr \<Rightarrow> nat \<Rightarrow> nat \<Rightarrow> nat
     \<Rightarrow> matrix_descr \<Rightarrow> nat \<Rightarrow> nat \<Rightarrow> nat \<Rightarrow> task" where
  "INSERT_TASK_ztrsm side uplo transA diag m n alpha Ah Am An lda Bh Bm Bn ldb =
     TTrsm side uplo transA diag m n alpha (xkblas_get_handle Ah Am An) lda (xkblas_get_handle Bh Bm Bn) ldb"

lemmas insert_defs = INSERT_TASK_zgemm_def INSERT_TASK_zgemmt_def INSERT_TASK_zsymm_def
  INSERT_TASK_zhemm_def INSERT_TASK_zsyrk_def INSERT_TASK_zherk_def INSERT_TASK_zsyr2k_def
  INSERT_TASK_zher2k_def INSERT_TASK_ztrmm_def INSERT_TASK_ztrsm_def

text \<open>The accesses declared with \<open>kaapi_update_dependencies\<close>, in program order.\<close>

fun task_accesses :: "task \<Rightarrow> (handle \<times> amode) list" where
  "task_accesses (TGemm ta tb m n k al A lda B ldb be C ldc) =
     [(A, KAAPI_ACCESS_MODE_R), (B, KAAPI_ACCESS_MODE_R), (C, w_or_rw be)]"
| "task_accesses (TGemmt uplo ta tb n k al A lda B ldb be C ldc) =
     [(A, KAAPI_ACCESS_MODE_R), (B, KAAPI_ACCESS_MODE_R), (C, KAAPI_ACCESS_MODE_RW)]"
| "task_accesses (TSymm side uplo m n al A lda B ldb be C ldc) =
     [(A, KAAPI_ACCESS_MODE_R), (B, KAAPI_ACCESS_MODE_R), (C, KAAPI_ACCESS_MODE_RW)]"
| "task_accesses (THemm side uplo m n al A lda B ldb be C ldc) =
     [(A, KAAPI_ACCESS_MODE_R), (B, KAAPI_ACCESS_MODE_R), (C, KAAPI_ACCESS_MODE_RW)]"
| "task_accesses (TSyrk uplo trn n k al A lda be C ldc) =
     [(A, KAAPI_ACCESS_MODE_R), (C, w_or_rw be)]"
| "task_accesses (THerk uplo trn n k al A lda be C ldc) =
     [(A, KAAPI_ACCESS_MODE_R), (C, KAAPI_ACCESS_MODE_RW)]"
| "task_accesses (TSyr2k uplo trn n k al A lda B ldb be C ldc) =
     [(A, KAAPI_ACCESS_MODE_R), (B, KAAPI_ACCESS_MODE_R), (C, w_or_rw be)]"
| "task_accesses (THer2k uplo trn n k al A lda B ldb be C ldc) =
     [(A, KAAPI_ACCESS_MODE_R), (B, KAAPI_ACCESS_MODE_RW), (C, KAAPI_ACCESS_MODE_RW)]"
| "task_accesses (TTrmm side uplo transA diag m n al A lda B ldb) =
     [(A, KAAPI_ACCESS_MODE_R), (B, KAAPI_ACCESS_MODE_RW)]"
| "task_accesses (TTrsm side uplo transA diag m n al A lda B ldb) =
     [(A, KAAPI_ACCESS_MODE_R), (B, KAAPI_ACCESS_MODE_RW)]"

section \<open>The kernel library\<close>

record blas =
  kb_gemm :: "int \<Rightarrow> int \<Rightarrow> nat \<Rightarrow> nat \<Rightarrow> nat \<Rightarrow> complex \<Rightarrow> cmat \<Rightarrow> cmat \<Rightarrow> complex \<Rightarrow> cmat \<Rightarrow> cmat"
  kb_symm :: "int \<Rightarrow> int \<Rightarrow> nat \<Rightarrow> nat \<Rightarrow> complex \<Rightarrow> cmat \<Rightarrow> cmat \<Rightarrow> complex \<Rightarrow> cmat \<Rightarrow> cmat"
  kb_hemm :: "int \<Rightarrow> int \<Rightarrow> nat \<Rightarrow> nat \<Rightarrow> complex \<Rightarrow> cmat \<Rightarrow> cmat \<Rightarrow> complex \<Rightarrow> cmat \<Rightarrow> cmat"
  kb_syrk :: "int \<Rightarrow> int \<Rightarrow> nat \<Rightarrow> nat \<Rightarrow> complex \<Rightarrow> cmat \<Rightarrow> complex \<Rightarrow> cmat \<Rightarrow> cmat"
  kb_herk :: "int \<Rightarrow> int \<Rightarrow> nat \<Rightarrow> nat \<Rightarrow> real \<Rightarrow> cmat \<Rightarrow> real \<Rightarrow> cmat \<Rightarrow> cmat"
  kb_syr2k :: "int \<Rightarrow> int \<Rightarrow> nat \<Rightarrow> nat \<Rightarrow> complex \<Rightarrow> cmat \<Rightarrow> cmat \<Rightarrow> complex \<Rightarrow> cmat \<Rightarrow> cmat"
  kb_her2k :: "int \<Rightarrow> int \<Rightarrow> nat \<Rightarrow> nat \<Rightarrow> complex \<Rightarrow> cmat \<Rightarrow> cmat \<Rightarrow> real \<Rightarrow> cmat \<Rightarrow> cmat"
  kb_trmm :: "int \<Rightarrow> int \<Rightarrow> int \<Rightarrow> int \<Rightarrow> nat \<Rightarrow> nat \<Rightarrow> complex \<Rightarrow> cmat \<Rightarrow> cmat \<Rightarrow> cmat"
  kb_trsm :: "int \<Rightarrow> int \<Rightarrow> int \<Rightarrow> int \<Rightarrow> nat \<Rightarrow> nat \<Rightarrow> complex \<Rightarrow> cmat \<Rightarrow> cmat \<Rightarrow> cmat"

text \<open>The GPU bodies. The runtime copies a tile to the device before the task when the format's
  \<open>MODE_PARAM\<close> has the read bit; a tile of mode \<open>W\<close> is only allocated there, and the body finds in it
  whatever the device memory holds, \<open>J\<close> at the tile pointer. In both cases the whole tile is what the
  task leaves behind. The body of gemmt calls the full gemm kernel on the diagonal tile.\<close>

definition acquired :: "(nat \<Rightarrow> cmat) \<Rightarrow> amode \<Rightarrow> mem \<Rightarrow> handle \<Rightarrow> nat \<Rightarrow> cmat" where
  "acquired J mode mem h ld =
     (if mode AND KAAPI_ACCESS_MODE_R \<noteq> 0 then view mem (h_data h) ld else J (h_data h))"

definition zgemm_body where
  "zgemm_body K J ta tb m n k al A lda B ldb be C ldc mem =
     store_block (h_data C) ldc m n
       (kb_gemm K ta tb m n k al (view mem (h_data A) lda) (view mem (h_data B) ldb)
          be (acquired J (w_or_rw be) mem C ldc)) mem"

definition zgemmt_body where
  "zgemmt_body K J ta tb n k al A lda B ldb be C ldc mem =
     store_block (h_data C) ldc n n
       (kb_gemm K ta tb n n k al (view mem (h_data A) lda) (view mem (h_data B) ldb)
          be (acquired J (w_or_rw be) mem C ldc)) mem"

definition zsymm_body where
  "zsymm_body K J side uplo m n al A lda B ldb be C ldc mem =
     store_block (h_data C) ldc m n
       (kb_symm K side uplo m n al (view mem (h_data A) lda) (view mem (h_data B) ldb)
          be (acquired J (w_or_rw be) mem C ldc)) mem"

definition zhemm_body where
  "zhemm_body K J side uplo m n al A lda B ldb be C ldc mem =
     store_block (h_data C) ldc m n
       (kb_hemm K side uplo m n al (view mem (h_data A) lda) (view mem (h_data B) ldb)
          be (acquired J (w_or_rw be) mem C ldc)) mem"

definition zsyrk_body where
  "zsyrk_body K J uplo trn n k al A lda be C ldc mem =
     store_block (h_data C) ldc n n
       (kb_syrk K uplo trn n k al (view mem (h_data A) lda) be (acquired J (w_or_rw be) mem C ldc)) mem"

definition zherk_body where
  "zherk_body K J uplo trn n k al A lda be C ldc mem =
     store_block (h_data C) ldc n n
       (kb_herk K uplo trn n k al (view mem (h_data A) lda)
          be (acquired J KAAPI_ACCESS_MODE_RW mem C ldc)) mem"

definition zsyr2k_body where
  "zsyr2k_body K J uplo trn n k al A lda B ldb be C ldc mem =
     store_block (h_data C) ldc n n
       (kb_syr2k K uplo trn n k al (view mem (h_data A) lda) (view mem (h_data B) ldb)
          be (acquired J (w_or_rw be) mem C ldc)) mem"

definition zher2k_body where
  "zher2k_body K J uplo trn n k al A lda B ldb be C ldc mem =
     store_block (h_data C) ldc n n
       (kb_her2k K uplo trn n k al (view mem (h_data A) lda) (view mem (h_data B) ldb)
          be (acquired J KAAPI_ACCESS_MODE_RW mem C ldc)) mem"

definition ztrmm_body where
  "ztrmm_body K J side uplo transA diag m n al A lda B ldb mem =
     store_block (h_data B) ldb m n
       (kb_trmm K side uplo transA diag m n al (view mem (h_data A) lda)
          (acquired J KAAPI_ACCESS_MODE_RW mem B ldb)) mem"

definition ztrsm_body where
  "ztrsm_body K J side uplo transA diag m n al A lda B ldb mem =
     store_block (h_data B) ldb m n
       (kb_trsm K side uplo transA diag m n al (view mem (h_data A) lda)
          (acquired J KAAPI_ACCESS_MODE_RW mem B ldb)) mem"

lemmas body_defs = zgemm_body_def zgemmt_body_def zsymm_body_def zhemm_body_def zsyrk_body_def
  zherk_body_def zsyr2k_body_def zher2k_body_def ztrmm_body_def ztrsm_body_def

fun exec_task :: "blas \<Rightarrow> (nat \<Rightarrow> cmat) \<Rightarrow> task \<Rightarrow> mem \<Rightarrow> mem" where
  "exec_task K J (TGemm ta tb m n k al A lda B ldb be C ldc) mem =
     zgemm_body K J ta tb m n k al A lda B ldb be C ldc mem"
| "exec_task K J (TGemmt uplo ta tb n k al A lda B ldb be C ldc) mem =
     zgemmt_body K J ta tb n k al A lda B ldb be C ldc mem"
| "exec_task K J (TSymm side uplo m n al A lda B ldb be C ldc) mem =
     zsymm_body K J side uplo m n al A lda B ldb be C ldc mem"
| "exec_task K J (THemm side uplo m n al A lda B ldb be C ldc) mem =
     zhemm_body K J side uplo m n al A lda B ldb be C ldc mem"
| "exec_task K J (TSyrk uplo trn n k al A lda be C ldc) mem =
     zsyrk_body K J uplo trn n k al A lda be C ldc mem"
| "exec_task K J (THerk uplo trn n k al A lda be C ldc) mem =
     zherk_body K J uplo trn n k al A lda be C ldc mem"
| "exec_task K J (TSyr2k uplo trn n k al A lda B ldb be C ldc) mem =
     zsyr2k_body K J uplo trn n k al A lda B ldb be C ldc mem"
| "exec_task K J (THer2k uplo trn n k al A lda B ldb be C ldc) mem =
     zher2k_body K J uplo trn n k al A lda B ldb be C ldc mem"
| "exec_task K J (TTrmm side uplo transA diag m n al A lda B ldb) mem =
     ztrmm_body K J side uplo transA diag m n al A lda B ldb mem"
| "exec_task K J (TTrsm side uplo transA diag m n al A lda B ldb) mem =
     ztrsm_body K J side uplo transA diag m n al A lda B ldb mem"

definition exec_tasks :: "blas \<Rightarrow> (nat \<Rightarrow> cmat) \<Rightarrow> task list \<Rightarrow> mem \<Rightarrow> mem" where
  "exec_tasks K J ts mem = fold (exec_task K J) ts mem"

lemma acquired_RW [simp]: "acquired J KAAPI_ACCESS_MODE_RW mem h ld = view mem (h_data h) ld"
  by (simp add: acquired_def amode_defs)

lemma acquired_w_or_rw:
  "be * acquired J (w_or_rw be) mem h ld i j = be * view mem (h_data h) ld i j"
  by (simp add: acquired_def w_or_rw_def amode_defs)

section \<open>The documented contract of the kernels\<close>

definition valid_trans :: "int \<Rightarrow> bool" where
  "valid_trans t \<longleftrightarrow> t = CblasNoTrans \<or> t = CblasTrans \<or> t = CblasConjTrans"

definition valid_uplo :: "int \<Rightarrow> bool" where
  "valid_uplo u \<longleftrightarrow> u = CblasUpper \<or> u = CblasLower"

definition valid_side :: "int \<Rightarrow> bool" where
  "valid_side s \<longleftrightarrow> s = CblasLeft \<or> s = CblasRight"

definition valid_diag :: "int \<Rightarrow> bool" where
  "valid_diag d \<longleftrightarrow> d = CblasNonUnit \<or> d = CblasUnit"

text \<open>Entry \<open>(i,j)\<close> of \<open>op(A)\<close>; of the symmetric, Hermitian and triangular matrices of which
  \<open>A\<close> stores one triangle.\<close>

definition op_el :: "int \<Rightarrow> cmat \<Rightarrow> cmat" where
  "op_el t A = (\<lambda>i j. if t = CblasNoTrans then A i j
                      else if t = CblasTrans then A j i else cnj (A j i))"

definition in_tri :: "int \<Rightarrow> nat \<Rightarrow> nat \<Rightarrow> bool" where
  "in_tri uplo i j \<longleftrightarrow> (if uplo = CblasUpper then i \<le> j else j \<le> i)"

lemma in_tri_shift: "in_tri uplo (a + i) (a + j) = in_tri uplo i j"
  by (simp add: in_tri_def)

definition sym_el :: "int \<Rightarrow> cmat \<Rightarrow> cmat" where
  "sym_el uplo A = (\<lambda>i j. if in_tri uplo i j then A i j else A j i)"

definition herm_el :: "int \<Rightarrow> cmat \<Rightarrow> cmat" where
  "herm_el uplo A = (\<lambda>i j. if i = j then complex_of_real (Re (A i i))
                           else if in_tri uplo i j then A i j else cnj (A j i))"

definition tri_el :: "int \<Rightarrow> int \<Rightarrow> cmat \<Rightarrow> cmat" where
  "tri_el uplo diag A = (\<lambda>i j. if i = j then (if diag = CblasUnit then 1 else A i i)
                               else if in_tri uplo i j then A i j else 0)"

definition gemm_val :: "int \<Rightarrow> int \<Rightarrow> nat \<Rightarrow> complex \<Rightarrow> cmat \<Rightarrow> cmat \<Rightarrow> complex \<Rightarrow> cmat \<Rightarrow> cmat" where
  "gemm_val ta tb k al A B be C =
     (\<lambda>i j. be * C i j + al * (\<Sum>l<k. op_el ta A i l * op_el tb B l j))"

definition symm_val :: "int \<Rightarrow> int \<Rightarrow> nat \<Rightarrow> nat \<Rightarrow> complex \<Rightarrow> cmat \<Rightarrow> cmat \<Rightarrow> complex \<Rightarrow> cmat \<Rightarrow> cmat" where
  "symm_val side uplo m n al A B be C =
     (\<lambda>i j. be * C i j + al *
        (if side = CblasLeft then (\<Sum>l<m. sym_el uplo A i l * B l j)
         else (\<Sum>l<n. B i l * sym_el uplo A l j)))"

definition hemm_val :: "int \<Rightarrow> int \<Rightarrow> nat \<Rightarrow> nat \<Rightarrow> complex \<Rightarrow> cmat \<Rightarrow> cmat \<Rightarrow> complex \<Rightarrow> cmat \<Rightarrow> cmat" where
  "hemm_val side uplo m n al A B be C =
     (\<lambda>i j. be * C i j + al *
        (if side = CblasLeft then (\<Sum>l<m. herm_el uplo A i l * B l j)
         else (\<Sum>l<n. B i l * herm_el uplo A l j)))"

definition syrk_val :: "int \<Rightarrow> nat \<Rightarrow> complex \<Rightarrow> cmat \<Rightarrow> complex \<Rightarrow> cmat \<Rightarrow> cmat" where
  "syrk_val trn k al A be C =
     (\<lambda>i j. be * C i j + al *
        (if trn = CblasNoTrans then (\<Sum>l<k. A i l * A j l) else (\<Sum>l<k. A l i * A l j)))"

definition syr2k_val :: "int \<Rightarrow> nat \<Rightarrow> complex \<Rightarrow> cmat \<Rightarrow> cmat \<Rightarrow> complex \<Rightarrow> cmat \<Rightarrow> cmat" where
  "syr2k_val trn k al A B be C =
     (\<lambda>i j. be * C i j + al *
        (if trn = CblasNoTrans then (\<Sum>l<k. A i l * B j l + B i l * A j l)
         else (\<Sum>l<k. A l i * B l j + B l i * A l j)))"

text \<open>The Hermitian updates leave the diagonal real; a call with nothing to do returns at once.\<close>

definition real_diag :: "cmat \<Rightarrow> cmat" where
  "real_diag C = (\<lambda>i j. if i = j then complex_of_real (Re (C i j)) else C i j)"

definition herk_val :: "int \<Rightarrow> nat \<Rightarrow> real \<Rightarrow> cmat \<Rightarrow> real \<Rightarrow> cmat \<Rightarrow> cmat" where
  "herk_val trn k al A be C =
     (if (al = 0 \<or> k = 0) \<and> be = 1 then C
      else (\<lambda>i j. complex_of_real be * real_diag C i j + complex_of_real al *
        (if trn = CblasNoTrans then (\<Sum>l<k. A i l * cnj (A j l)) else (\<Sum>l<k. cnj (A l i) * A l j))))"

definition her2k_val :: "int \<Rightarrow> nat \<Rightarrow> complex \<Rightarrow> cmat \<Rightarrow> cmat \<Rightarrow> real \<Rightarrow> cmat \<Rightarrow> cmat" where
  "her2k_val trn k al A B be C =
     (if (al = 0 \<or> k = 0) \<and> be = 1 then C
      else (\<lambda>i j. complex_of_real be * real_diag C i j +
        (if trn = CblasNoTrans
         then (\<Sum>l<k. al * A i l * cnj (B j l) + cnj al * B i l * cnj (A j l))
         else (\<Sum>l<k. al * cnj (A l i) * B l j + cnj al * cnj (B l i) * A l j))))"

definition trmm_val :: "int \<Rightarrow> int \<Rightarrow> int \<Rightarrow> int \<Rightarrow> nat \<Rightarrow> nat \<Rightarrow> complex \<Rightarrow> cmat \<Rightarrow> cmat \<Rightarrow> cmat" where
  "trmm_val side uplo transA diag m n al A B =
     (\<lambda>i j. al * (if side = CblasLeft
                  then (\<Sum>l<m. op_el transA (tri_el uplo diag A) i l * B l j)
                  else (\<Sum>l<n. B i l * op_el transA (tri_el uplo diag A) l j)))"

text \<open>\<open>X\<close> solves the triangular system of \<open>trsm\<close> on an \<open>m\<close> by \<open>n\<close> block.\<close>

definition trsm_solves ::
  "int \<Rightarrow> int \<Rightarrow> int \<Rightarrow> int \<Rightarrow> nat \<Rightarrow> nat \<Rightarrow> complex \<Rightarrow> cmat \<Rightarrow> cmat \<Rightarrow> cmat \<Rightarrow> bool" where
  "trsm_solves side uplo transA diag m n al A B X \<longleftrightarrow>
     (\<forall>i<m. \<forall>j<n. trmm_val side uplo transA diag m n 1 A X i j = al * B i j)"

definition tri_nonsingular :: "int \<Rightarrow> nat \<Rightarrow> cmat \<Rightarrow> bool" where
  "tri_nonsingular diag k A \<longleftrightarrow> diag = CblasUnit \<or> (\<forall>i<k. A i i \<noteq> 0)"

definition agree_on :: "nat \<Rightarrow> nat \<Rightarrow> cmat \<Rightarrow> cmat \<Rightarrow> bool" where
  "agree_on m n X Y \<longleftrightarrow> (\<forall>i<m. \<forall>j<n. X i j = Y i j)"

definition only_tri :: "int \<Rightarrow> cmat \<Rightarrow> cmat \<Rightarrow> cmat" where
  "only_tri uplo X C = (\<lambda>i j. if in_tri uplo i j then X i j else C i j)"

definition gemm_ok :: "blas \<Rightarrow> bool" where
  "gemm_ok K \<longleftrightarrow> (\<forall>ta tb m n k al A B be C. valid_trans ta \<longrightarrow> valid_trans tb \<longrightarrow>
     agree_on m n (kb_gemm K ta tb m n k al A B be C) (gemm_val ta tb k al A B be C))"

definition symm_ok :: "blas \<Rightarrow> bool" where
  "symm_ok K \<longleftrightarrow> (\<forall>side uplo m n al A B be C. valid_side side \<longrightarrow> valid_uplo uplo \<longrightarrow>
     agree_on m n (kb_symm K side uplo m n al A B be C) (symm_val side uplo m n al A B be C))"

definition hemm_ok :: "blas \<Rightarrow> bool" where
  "hemm_ok K \<longleftrightarrow> (\<forall>side uplo m n al A B be C. valid_side side \<longrightarrow> valid_uplo uplo \<longrightarrow>
     agree_on m n (kb_hemm K side uplo m n al A B be C) (hemm_val side uplo m n al A B be C))"

definition syrk_ok :: "blas \<Rightarrow> bool" where
  "syrk_ok K \<longleftrightarrow> (\<forall>uplo trn n k al A be C. valid_uplo uplo \<longrightarrow> trn \<in> {CblasNoTrans, CblasTrans} \<longrightarrow>
     agree_on n n (kb_syrk K uplo trn n k al A be C) (only_tri uplo (syrk_val trn k al A be C) C))"

definition herk_ok :: "blas \<Rightarrow> bool" where
  "herk_ok K \<longleftrightarrow> (\<forall>uplo trn n k al A be C. valid_uplo uplo \<longrightarrow> trn \<in> {CblasNoTrans, CblasConjTrans} \<longrightarrow>
     agree_on n n (kb_herk K uplo trn n k al A be C) (only_tri uplo (herk_val trn k al A be C) C))"

definition syr2k_ok :: "blas \<Rightarrow> bool" where
  "syr2k_ok K \<longleftrightarrow> (\<forall>uplo trn n k al A B be C. valid_uplo uplo \<longrightarrow> trn \<in> {CblasNoTrans, CblasTrans} \<longrightarrow>
     agree_on n n (kb_syr2k K uplo trn n k al A B be C) (only_tri uplo (syr2k_val trn k al A B be C) C))"

definition her2k_ok :: "blas \<Rightarrow> bool" where
  "her2k_ok K \<longleftrightarrow> (\<forall>uplo trn n k al A B be C. valid_uplo uplo \<longrightarrow> trn \<in> {CblasNoTrans, CblasConjTrans} \<longrightarrow>
     agree_on n n (kb_her2k K uplo trn n k al A B be C) (only_tri uplo (her2k_val trn k al A B be C) C))"

definition trmm_ok :: "blas \<Rightarrow> bool" where
  "trmm_ok K \<longleftrightarrow> (\<forall>side uplo transA diag m n al A B.
     valid_side side \<longrightarrow> valid_uplo uplo \<longrightarrow> valid_trans transA \<longrightarrow> valid_diag diag \<longrightarrow>
     agree_on m n (kb_trmm K side uplo transA diag m n al A B)
       (trmm_val side uplo transA diag m n al A B))"

definition trsm_ok :: "blas \<Rightarrow> bool" where
  "trsm_ok K \<longleftrightarrow> (\<forall>side uplo transA diag m n al A B.
     valid_side side \<longrightarrow> valid_uplo uplo \<longrightarrow> valid_trans transA \<longrightarrow> valid_diag diag \<longrightarrow>
     tri_nonsingular diag (if side = CblasLeft then m else n) A \<longrightarrow>
     trsm_solves side uplo transA diag m n al A B (kb_trsm K side uplo transA diag m n al A B))"

text \<open>A library of kernels that evaluates the contracts literally; the solver is an argument,
  as no task of the instances below but \<open>TTrsm\<close> uses it.\<close>

definition ref_blas ::
  "(int \<Rightarrow> int \<Rightarrow> int \<Rightarrow> int \<Rightarrow> nat \<Rightarrow> nat \<Rightarrow> complex \<Rightarrow> cmat \<Rightarrow> cmat \<Rightarrow> cmat) \<Rightarrow> blas" where
  "ref_blas solve = \<lparr>
     kb_gemm = (\<lambda>ta tb m n k al A B be C. gemm_val ta tb k al A B be C),
     kb_symm = symm_val, kb_hemm = hemm_val,
     kb_syrk = (\<lambda>uplo trn n k al A be C. only_tri uplo (syrk_val trn k al A be C) C),
     kb_herk = (\<lambda>uplo trn n k al A be C. only_tri uplo (herk_val trn k al A be C) C),
     kb_syr2k = (\<lambda>uplo trn n k al A B be C. only_tri uplo (syr2k_val trn k al A B be C) C),
     kb_her2k = (\<lambda>uplo trn n k al A B be C. only_tri uplo (her2k_val trn k al A B be C) C),
     kb_trmm = trmm_val, kb_trsm = solve\<rparr>"

lemma agree_on_refl [simp]: "agree_on m n X X"
  by (simp add: agree_on_def)

lemma ref_blas_ok [simp]:
  "gemm_ok (ref_blas s)" "symm_ok (ref_blas s)" "hemm_ok (ref_blas s)"
  "syrk_ok (ref_blas s)" "herk_ok (ref_blas s)" "syr2k_ok (ref_blas s)" "her2k_ok (ref_blas s)"
  "trmm_ok (ref_blas s)"
  by (simp_all add: ref_blas_def gemm_ok_def symm_ok_def hemm_ok_def syrk_ok_def
        herk_ok_def syr2k_ok_def her2k_ok_def trmm_ok_def)

end
