(* ===== verification/Tile_Exec.thy ===== *)
theory Tile_Exec
  imports Blas_Tasks
begin

text \<open>
  Executing task lists, one element of the result at a time. The tile algorithms that only
  accumulate in \<open>C\<close> (gemm, gemmt, syrk, herk, syr2k, her2k, symm, hemm) act on every entry of
  \<open>C\<close> separately: \<open>elementwise K J C ldc M N mem ts a\<close> says that running \<open>ts\<close> replaces the entry
  \<open>(i,j)\<close>, of value \<open>c\<close>, by \<open>a i j c\<close>, and leaves the rest of the memory as it is. The rules
  follow the shape of the loops that generate the list.
\<close>

definition elementwise ::
  "blas \<Rightarrow> (nat \<Rightarrow> cmat) \<Rightarrow> nat \<Rightarrow> nat \<Rightarrow> nat \<Rightarrow> nat \<Rightarrow> mem \<Rightarrow> task list \<Rightarrow> (nat \<Rightarrow> nat \<Rightarrow> complex \<Rightarrow> complex) \<Rightarrow> bool" where
  "elementwise K J C ldc M N mem ts a \<longleftrightarrow>
     (\<forall>X. exec_tasks K J ts (store_block C ldc M N X mem) =
          store_block C ldc M N (\<lambda>i j. a i j (X i j)) mem)"

lemma exec_tasks_simps [simp]:
  "exec_tasks K J [] mem = mem"
  "exec_tasks K J (t # ts) mem = exec_tasks K J ts (exec_task K J t mem)"
  "exec_tasks K J (ts @ us) mem = exec_tasks K J us (exec_tasks K J ts mem)"
  by (simp_all add: exec_tasks_def)

lemma elementwise_Nil: "elementwise K J C ldc M N mem [] (\<lambda>i j c. c)"
  by (simp add: elementwise_def)

lemma elementwise_append:
  "elementwise K J C ldc M N mem ts a \<Longrightarrow> elementwise K J C ldc M N mem us b \<Longrightarrow>
   elementwise K J C ldc M N mem (ts @ us) (\<lambda>i j c. b i j (a i j c))"
  by (simp add: elementwise_def)

lemma elementwise_concat:
  "(\<And>x. x \<in> set xs \<Longrightarrow> elementwise K J C ldc M N mem (g x) (a x)) \<Longrightarrow>
   elementwise K J C ldc M N mem (concat (map g xs)) (\<lambda>i j. fold (\<lambda>x. a x i j) xs)"
  by (induction xs) (simp_all add: elementwise_def)

lemma elementwise_map:
  "(\<And>x. x \<in> set xs \<Longrightarrow> elementwise K J C ldc M N mem [f x] (a x)) \<Longrightarrow>
   elementwise K J C ldc M N mem (map f xs) (\<lambda>i j. fold (\<lambda>x. a x i j) xs)"
  by (induction xs) (simp_all add: elementwise_def)

lemma elementwise_cong:
  assumes "elementwise K J C ldc M N mem ts a" "M \<le> ldc"
    and "\<And>i j c. i < M \<Longrightarrow> j < N \<Longrightarrow> a i j c = b i j c"
  shows "elementwise K J C ldc M N mem ts b"
  unfolding elementwise_def
proof
  fix X
  have "exec_tasks K J ts (store_block C ldc M N X mem) = store_block C ldc M N (\<lambda>i j. a i j (X i j)) mem"
    using assms(1) by (simp add: elementwise_def)
  also have "\<dots> = store_block C ldc M N (\<lambda>i j. b i j (X i j)) mem"
    using assms(2,3) by (intro store_block_cong) auto
  finally show "exec_tasks K J ts (store_block C ldc M N X mem) = \<dots>" .
qed

lemma elementwise_same_exec:
  assumes "elementwise K J C ldc M N mem (map f xs) a"
    and "\<And>x mem. x \<in> set xs \<Longrightarrow> exec_task K J (g x) mem = exec_task K J (f x) mem"
  shows "elementwise K J C ldc M N mem (map g xs) a"
proof -
  have "exec_tasks K J (map g xs) mem = exec_tasks K J (map f xs) mem" for mem
    using assms(2) by (induction xs arbitrary: mem) auto
  then show ?thesis using assms(1) by (simp add: elementwise_def)
qed

lemma elementwise_run:
  assumes "elementwise K J C ldc M N mem ts a" "M \<le> ldc"
  shows "exec_tasks K J ts mem = store_block C ldc M N (\<lambda>i j. a i j (view mem C ldc i j)) mem"
  using assms store_block_self [OF assms(2), of C N mem] by (metis elementwise_def)

section \<open>Action of one tile task\<close>

text \<open>The entries of tile \<open>(m,n)\<close> of the result change, the others stay.\<close>

definition tile_act ::
  "nat \<Rightarrow> nat \<Rightarrow> nat \<Rightarrow> nat \<Rightarrow> (nat \<Rightarrow> nat \<Rightarrow> complex \<Rightarrow> complex) \<Rightarrow> nat \<Rightarrow> nat \<Rightarrow> complex \<Rightarrow> complex" where
  "tile_act mb nb m n F = (\<lambda>i j c. if i div mb = m \<and> j div nb = n then F i j c else c)"

text \<open>Geometry of a tile \<open>(m,n)\<close> of an \<open>M\<close> by \<open>N\<close> matrix: its dimensions as the loops compute them.\<close>

definition tile_of :: "nat \<Rightarrow> nat \<Rightarrow> nat \<Rightarrow> nat \<Rightarrow> nat \<Rightarrow> nat \<Rightarrow> nat \<Rightarrow> nat \<Rightarrow> bool" where
  "tile_of M N mb nb m n tm tn \<longleftrightarrow> 0 < mb \<and> 0 < nb \<and>
     m < xkblas_num_of_tiles M mb \<and> n < xkblas_num_of_tiles N nb \<and>
     tm = tile_dim (xkblas_num_of_tiles M mb) M mb m \<and> tn = tile_dim (xkblas_num_of_tiles N nb) N nb n"

lemma tile_of_fits:
  "tile_of M N mb nb m n tm tn \<Longrightarrow> m * mb + tm \<le> M \<and> n * nb + tn \<le> N"
  by (auto simp: tile_of_def tile_dim_bound)

lemma tile_of_member:
  "tile_of M N mb nb m n tm tn \<Longrightarrow> i < M \<Longrightarrow> j < N \<Longrightarrow>
   (m * mb \<le> i \<and> i < m * mb + tm \<and> n * nb \<le> j \<and> j < n * nb + tn) \<longleftrightarrow> (i div mb = m \<and> j div nb = n)"
  using in_tile_iff [of mb m M i] in_tile_iff [of nb n N j] by (auto simp: tile_of_def)

text \<open>A task whose body stores \<open>F\<close> in tile \<open>(m,n)\<close> of \<open>C\<close> acts elementwise as soon as the entries
  of \<open>F\<close> are a function \<open>G\<close> of the position and the old value.\<close>

lemma elementwise_store:
  assumes ex: "\<And>mem'. exec_task K J t mem' = store_block (C + (m * mb + n * nb * ldc) * ELTSIZE) ldc tm tn (F mem') mem'"
    and geo: "tile_of M N mb nb m n tm tn" and ld: "M \<le> ldc"
    and val: "\<And>X i j. i < tm \<Longrightarrow> j < tn \<Longrightarrow>
      F (store_block C ldc M N X mem) i j = G (m * mb + i) (n * nb + j) (X (m * mb + i) (n * nb + j))"
  shows "elementwise K J C ldc M N mem [t] (tile_act mb nb m n G)"
  unfolding elementwise_def
proof
  fix X
  note fits = tile_of_fits [OF geo]
  have "exec_tasks K J [t] (store_block C ldc M N X mem) =
        store_block (C + (m * mb + n * nb * ldc) * ELTSIZE) ldc tm tn
          (\<lambda>i j. G (m * mb + i) (n * nb + j) (X (m * mb + i) (n * nb + j))) (store_block C ldc M N X mem)"
    using fits ld by (simp add: ex) (rule store_block_cong, auto intro: val)
  also have "\<dots> = store_block C ldc M N
      (upd_block (m * mb) (n * nb) tm tn (\<lambda>i j. G (m * mb + i) (n * nb + j) (X (m * mb + i) (n * nb + j))) X) mem"
    using fits ld by (intro store_inner_block) auto
  also have "\<dots> = store_block C ldc M N (\<lambda>i j. tile_act mb nb m n G i j (X i j)) mem"
  proof (rule store_block_cong [OF ld])
    fix i j assume "i < M" "j < N"
    then show "upd_block (m * mb) (n * nb) tm tn
        (\<lambda>i j. G (m * mb + i) (n * nb + j) (X (m * mb + i) (n * nb + j))) X i j
      = tile_act mb nb m n G i j (X i j)"
      using tile_of_member [OF geo, of i j] by (auto simp: upd_block_apply tile_act_def)
  qed
  finally show "exec_tasks K J [t] (store_block C ldc M N X mem) = \<dots>" .
qed

text \<open>Reading an operand array that the result does not overlap.\<close>

lemma view_operand:
  assumes "M \<le> ldc" "arrays_disjoint A lda MA NA C ldc M N" "r + i < MA" "c + j < NA"
  shows "view (store_block C ldc M N X mem) (A + (r + c * lda) * ELTSIZE) lda i j = view mem A lda (r + i) (c + j)"
  using assms by (simp add: view_tile view_store_disjoint)

lemma view_result:
  assumes "M \<le> ldc" "r + i < M" "c + j < N"
  shows "view (store_block C ldc M N X mem) (C + (r + c * ldc) * ELTSIZE) ldc i j = X (r + i) (c + j)"
  using assms by (simp add: view_tile)

section \<open>Loops over tiles\<close>

lemma fold_only_one:
  assumes "distinct xs" "\<And>x c. x \<in> set xs \<Longrightarrow> x \<noteq> t \<Longrightarrow> f x c = c"
  shows "fold f xs c = (if t \<in> set xs then f t c else c)"
  using assms
proof (induction xs arbitrary: c)
  case (Cons x xs)
  show ?case
  proof (cases "x = t")
    case True
    then have "t \<notin> set xs" using Cons.prems by simp
    then show ?thesis using Cons True by simp
  next
    case False
    then show ?thesis using Cons by auto
  qed
qed simp

lemma fold_upt_only_one:
  "(\<And>x c. x < n \<Longrightarrow> x \<noteq> t \<Longrightarrow> f x c = c) \<Longrightarrow> fold f [0..<n] c = (if t < n then f t c else c)"
  using fold_only_one [of "[0..<n]" t f c] by simp

text \<open>An accumulation: the first step scales by \<open>beta\<close>, the others add.\<close>

lemma fold_accumulate:
  fixes S :: "nat \<Rightarrow> complex"
  shows "fold (\<lambda>k c. (if k = 0 then be else 1) * c + S k) [0..<n] c =
           (if n = 0 then c else be * c + (\<Sum>k<n. S k))"
  by (induction n) (auto simp: algebra_simps)

lemma sum_over_tiles:
  fixes f :: "nat \<Rightarrow> complex"
  assumes "0 < NB"
  shows "(\<Sum>k<xkblas_num_of_tiles K NB. \<Sum>l<tile_dim (xkblas_num_of_tiles K NB) K NB k. f (k * NB + l)) = (\<Sum>l<K. f l)"
proof -
  have "k \<le> xkblas_num_of_tiles K NB \<Longrightarrow>
    (\<Sum>k<k. \<Sum>l<tile_dim (xkblas_num_of_tiles K NB) K NB k. f (k * NB + l)) = (\<Sum>l<min (k * NB) K. f l)" for k
  proof (induction k)
    case (Suc k)
    then have k: "k < xkblas_num_of_tiles K NB" by simp
    show ?case using Suc sum_tile_step [OF assms k, of f] by simp
  qed simp
  from this [of "xkblas_num_of_tiles K NB"] show ?thesis
    by (simp add: tile_prefix_end [OF assms])
qed


lemma fold_tile_act:
  "fold (\<lambda>x. tile_act mb nb m n (F x) i j) xs c = tile_act mb nb m n (\<lambda>i j. fold (\<lambda>x. F x i j) xs) i j c"
  by (induction xs arbitrary: c) (simp_all add: tile_act_def)

text \<open>A sweep over the tiles \<open>(m,n)\<close>, \<open>n\<close> in \<open>ns m\<close>: each entry sees the action of its own tile.\<close>

lemma fold_sweep:
  assumes "distinct ms" "\<And>m. m \<in> set ms \<Longrightarrow> distinct (ns m)"
  shows "fold (\<lambda>m. fold (\<lambda>n. tile_act mb nb m n (G m n) i j) (ns m)) ms c =
    (if i div mb \<in> set ms \<and> j div nb \<in> set (ns (i div mb)) then G (i div mb) (j div nb) i j c else c)"
proof -
  have row: "fold (\<lambda>n. tile_act mb nb m n (G m n) i j) (ns m) c =
      (if i div mb = m \<and> j div nb \<in> set (ns m) then G m (j div nb) i j c else c)" if "m \<in> set ms" for m c
    using fold_only_one [of "ns m" "j div nb" "\<lambda>n. tile_act mb nb m n (G m n) i j" c] assms(2) [OF that]
    by (cases "i div mb = m") (auto simp: tile_act_def intro: fold_only_one)
  have "fold (\<lambda>m. fold (\<lambda>n. tile_act mb nb m n (G m n) i j) (ns m)) ms c =
        fold (\<lambda>m c. if i div mb = m \<and> j div nb \<in> set (ns m) then G m (j div nb) i j c else c) ms c"
    by (rule fold_cong) (auto simp: row)
  also have "\<dots> = (if i div mb \<in> set ms then
      (\<lambda>m c. if i div mb = m \<and> j div nb \<in> set (ns m) then G m (j div nb) i j c else c) (i div mb) c else c)"
    using assms(1) by (intro fold_only_one) auto
  finally show ?thesis by simp
qed

end
