(* ===== verification/Operands.thy ===== *)
theory Operands
  imports Mapping_Gpu Tile_Exec
begin

text \<open>
  The prologue every BLAS entry point of \<open>src/blas\<close> starts with: the check of the leading
  dimensions, then the tile size, \<open>xkblas_find\<close> and \<open>xkblas_init_matrix_handle\<close> for each operand
  in order, and \<open>xkblas_auto_map\<close> of the result.
\<close>

section \<open>Leading dimensions\<close>

text \<open>\<open>LD < kaapi_max(1, D)\<close> with \<open>int LD\<close>: the comparison is done in \<open>size_t\<close>.\<close>

definition ld_too_small :: "int \<Rightarrow> int \<Rightarrow> bool" where
  "ld_too_small LD D \<longleftrightarrow> size_of_int LD < kaapi_max 1 (size_of_int D)"

text \<open>The sizes the checks accept, for leading dimensions that are not negative.\<close>

lemma ld_ok_nonneg:
  assumes "\<not> ld_too_small LD D" "0 \<le> LD" "LD < 2 ^ 31" "0 \<le> D" "D < 2 ^ 31"
  shows "nat D \<le> size_of_int LD" "size_of_int LD = nat LD" "0 < size_of_int LD"
proof -
  have "size_of_int LD = nat LD" "size_of_int D = nat D"
    using assms by (auto intro!: size_of_int_nonneg simp: SIZE_MOD_def)
  then show "nat D \<le> size_of_int LD" "size_of_int LD = nat LD" "0 < size_of_int LD"
    using assms(1) by (auto simp: ld_too_small_def)
qed

text \<open>The check of a leading dimension is done in \<open>size_t\<close>: every negative leading dimension passes
  it, for any number of rows an \<open>int\<close> can hold.\<close>

theorem negative_ld_accepted:
  "\<forall>LD D. LD < 0 \<longrightarrow> - (2 ^ 31) \<le> LD \<longrightarrow> 0 \<le> D \<longrightarrow> D < 2 ^ 31 \<longrightarrow> \<not> ld_too_small LD D"
proof (intro allI impI)
  fix LD D :: int assume a: "LD < 0" "- (2 ^ 31) \<le> LD" "0 \<le> D" "D < 2 ^ 31"
  have "size_of_int LD = nat (SIZE_MOD + LD)" using a by (intro size_of_int_neg) (auto simp: SIZE_MOD_def)
  moreover have "size_of_int D = nat D" using a by (intro size_of_int_nonneg) (auto simp: SIZE_MOD_def)
  ultimately show "\<not> ld_too_small LD D" using a by (auto simp: ld_too_small_def SIZE_MOD_def)
qed

theorem negative_ld_accepted_witness: "\<not> ld_too_small (- 1) 1000"
  using negative_ld_accepted by simp

section \<open>Registration\<close>

text \<open>\<open>if (!isinit(Ah)) xkblas_init_matrix_handle(Ah, A, M, N, LD, sizeof(Complex64_t), NB, NB)\<close>.\<close>

definition register_matrix :: "nat \<Rightarrow> nat \<Rightarrow> nat \<Rightarrow> nat \<Rightarrow> nat \<Rightarrow> xk_ctx \<Rightarrow> xk_ctx" where
  "register_matrix A M N LD NB ctxt =
     (if (case xc_descr ctxt A of None \<Rightarrow> False | Some d \<Rightarrow> xkblas_matrix_descr_isinit d) then ctxt
      else xkblas_init_matrix_handle A A M N LD ELTSIZE NB NB ctxt)"

text \<open>An operand: its address, its dimensions and its leading dimension.\<close>

type_synonym operand = "nat \<times> nat \<times> nat \<times> nat"

definition setup_operands ::
  "kernel \<Rightarrow> nat \<Rightarrow> nat \<Rightarrow> nat \<Rightarrow> operand list \<Rightarrow> nat \<Rightarrow> ldreg \<Rightarrow> xk_ctx \<Rightarrow> xk_ctx option" where
  "setup_operands kern tM tN tK ops key R ctxt =
     (case xkblas_auto_tilesize ctxt kern tM tN tK of
        None \<Rightarrow> None
      | Some NB \<Rightarrow>
          (let c1 = fold (\<lambda>(A, M, N, LD) c. snd (xkblas_find A c)) ops ctxt;
               c2 = fold (\<lambda>(A, M, N, LD). register_matrix A M N LD NB) ops c1
           in map_option snd (xkblas_auto_map kern key R c2)))"

definition unregistered :: "xk_ctx \<Rightarrow> nat \<Rightarrow> bool" where
  "unregistered ctxt A \<longleftrightarrow> A \<noteq> 0 \<and>
     (case xc_descr ctxt A of None \<Rightarrow> True | Some d \<Rightarrow> \<not> xkblas_matrix_descr_isinit d)"

definition registered :: "xk_ctx \<Rightarrow> nat \<Rightarrow> nat \<Rightarrow> nat \<Rightarrow> nat \<Rightarrow> nat \<Rightarrow> bool" where
  "registered ctxt A M N LD NB \<longleftrightarrow>
     (case xc_descr ctxt A of None \<Rightarrow> False
      | Some d \<Rightarrow> A \<noteq> 0 \<and> descr_of d A M N LD NB NB \<and>
                  ldids_of d (d_mt d) (d_nt d) (\<lambda>_ _. LDID_NONE))"

lemma unregistered_find:
  "unregistered ctxt A \<Longrightarrow> unregistered (snd (xkblas_find B ctxt)) A"
  by (auto simp: unregistered_def xkblas_find_def descr_blank_def xkblas_matrix_descr_isinit_def
        split: option.splits)

lemma find_frame [simp]:
  "xc_NB (snd (xkblas_find A ctxt)) = xc_NB ctxt" "xc_ngpus (snd (xkblas_find A ctxt)) = xc_ngpus ctxt"
  by (auto simp: xkblas_find_def split: option.splits)

lemma register_frame [simp]:
  "xc_NB (register_matrix A M N LD NB ctxt) = xc_NB ctxt"
  "xc_ngpus (register_matrix A M N LD NB ctxt) = xc_ngpus ctxt"
  "B \<noteq> A \<Longrightarrow> xc_descr (register_matrix A M N LD NB ctxt) B = xc_descr ctxt B"
  by (auto simp: register_matrix_def xkblas_init_matrix_handle_def Let_def)

lemma register_other:
  "B \<noteq> A \<Longrightarrow> unregistered (register_matrix A M N LD NB ctxt) B = unregistered ctxt B"
  "B \<noteq> A \<Longrightarrow> registered (register_matrix A M N LD NB ctxt) B M' N' LD' NB' = registered ctxt B M' N' LD' NB'"
  by (auto simp: unregistered_def registered_def)

lemma register_self:
  assumes "unregistered ctxt A"
  shows "registered (register_matrix A M N LD NB ctxt) A M N LD NB"
proof -
  have r: "register_matrix A M N LD NB ctxt = xkblas_init_matrix_handle A A M N LD ELTSIZE NB NB ctxt"
    using assms by (auto simp: register_matrix_def unregistered_def split: option.splits)
  obtain d where d: "xc_descr (xkblas_init_matrix_handle A A M N LD ELTSIZE NB NB ctxt) A = Some d"
    using init_matrix_self by (metis option.exhaust)
  have "ldids_of d (d_mt d) (d_nt d) (\<lambda>_ _. LDID_NONE)"
    using d by (auto simp: xkblas_init_matrix_handle_def Let_def ldids_of_def xkblas_get_ldid_def rect_index_less)
  then show ?thesis
    using d descr_of_init [OF d] assms by (simp add: registered_def r unregistered_def)
qed

lemma registered_isinit:
  "registered ctxt A M N LD NB \<Longrightarrow> xc_descr ctxt A = Some d \<Longrightarrow> xkblas_matrix_descr_isinit d"
  by (auto simp: registered_def descr_of_def xkblas_matrix_descr_isinit_def)

lemma unregistered_empty [simp]: "0 < A \<Longrightarrow> unregistered (empty_ctx NB) A"
  by (simp add: unregistered_def)

lemma find_all:
  "unregistered ctxt B \<Longrightarrow> unregistered (fold (\<lambda>(A, M, N, LD) c. snd (xkblas_find A c)) ops ctxt) B"
  "xc_ngpus (fold (\<lambda>(A, M, N, LD) c. snd (xkblas_find A c)) ops ctxt) = xc_ngpus ctxt"
  by (induction ops arbitrary: ctxt) (auto intro: unregistered_find)

lemma register_all_frame:
  "xc_ngpus (fold (\<lambda>(A, M, N, LD). register_matrix A M N LD NB) ops ctxt) = xc_ngpus ctxt"
  "B \<notin> fst ` set ops \<Longrightarrow>
     registered (fold (\<lambda>(A, M, N, LD). register_matrix A M N LD NB) ops ctxt) B M N LD NB' =
     registered ctxt B M N LD NB'"
  by (induction ops arbitrary: ctxt) (auto simp: register_other)

lemma register_all:
  assumes "distinct (map fst ops)" "\<And>B. B \<in> fst ` set ops \<Longrightarrow> unregistered ctxt B" "(A, M, N, LD) \<in> set ops"
  shows "registered (fold (\<lambda>(A, M, N, LD). register_matrix A M N LD NB) ops ctxt) A M N LD NB"
  using assms
proof (induction ops arbitrary: ctxt)
  case (Cons x xs)
  obtain A' M' N' LD' where x: "x = (A', M', N', LD')" by (cases x)
  show ?case
  proof (cases "(A, M, N, LD) = x")
    case True
    then have "registered (register_matrix A M N LD NB ctxt) A M N LD NB" "A \<notin> fst ` set xs"
      using Cons.prems x by (auto intro!: register_self)
    then show ?thesis using True x register_all_frame(2) [of A xs NB] by simp
  next
    case False
    then have "(A, M, N, LD) \<in> set xs" using Cons.prems by auto
    moreover have "unregistered (register_matrix A' M' N' LD' NB ctxt) B" if "B \<in> fst ` set xs" for B
    proof -
      have "B \<noteq> A'" using that Cons.prems(1) x by auto
      then show ?thesis using Cons.prems(2) [of B] that by (simp add: register_other)
    qed
    ultimately show ?thesis using Cons x by simp
  qed
qed simp

text \<open>The prologue of a call on new matrices succeeds and leaves every operand cut in square tiles of
  one size.\<close>

lemma setup_operands_ok:
  assumes ops: "distinct (map fst ops)" "\<And>B. B \<in> fst ` set ops \<Longrightarrow> unregistered ctxt B"
    and key: "(C, M, N, LD) \<in> set ops"
    and kern: "kern \<noteq> KERN_SWAP" "kern \<noteq> KERN_VOID"
    and g: "0 < xc_ngpus ctxt" "gpus_registered R KAAPI_LD_GPU c f"
  shows "\<exists>NB ctxt'. setup_operands kern tM tN tK ops C R ctxt = Some ctxt' \<and> 0 < NB \<and>
    xkblas_auto_tilesize ctxt kern tM tN tK = Some NB \<and>
    (\<forall>(A, M, N, LD) \<in> set ops. \<exists>d. xc_descr ctxt' A = Some d \<and> descr_of d A M N LD NB NB)"
proof -
  obtain NB where NB: "xkblas_auto_tilesize ctxt kern tM tN tK = Some NB"
    using auto_tilesize_total [OF g(1)] by blast
  define c1 where "c1 = fold (\<lambda>(A, M, N, LD) c. snd (xkblas_find A c)) ops ctxt"
  define c2 where "c2 = fold (\<lambda>(A, M, N, LD). register_matrix A M N LD NB) ops c1"
  have u: "B \<in> fst ` set ops \<Longrightarrow> unregistered c1 B" for B
    unfolding c1_def by (intro find_all(1) ops(2))
  have r: "registered c2 A M N LD NB" if "(A, M, N, LD) \<in> set ops" for A M N LD
    unfolding c2_def by (rule register_all [OF ops(1) u that])
  obtain d where d: "xc_descr c2 C = Some d" "ldids_of d (d_mt d) (d_nt d) (\<lambda>_ _. LDID_NONE)"
    using r [OF key] by (auto simp: registered_def split: option.splits)
  have "0 < xc_ngpus c2" using g(1) by (simp add: c2_def c1_def find_all register_all_frame)
  moreover obtain Gm Gn where "auto_grid (xc_ngpus c2) = (Gm, Gn)" by fastforce
  ultimately obtain c3 where c3: "xkblas_auto_map kern C R c2 = Some (0, c3)"
    using auto_map_ok [OF d(1) registered_isinit [OF r [OF key] d(1)] g(2) kern _ _ d(2)] by blast
  obtain d' where d': "xc_descr c3 = (xc_descr c2)(C \<mapsto> d')" "same_tiles d d'"
    using auto_map_frame [OF c3 d(1)] by blast
  have "\<exists>e. xc_descr c3 A = Some e \<and> descr_of e A M N LD NB NB" if o: "(A, M, N, LD) \<in> set ops" for A M N LD
  proof -
    obtain e where e: "xc_descr c2 A = Some e" "descr_of e A M N LD NB NB"
      using r [OF o] by (auto simp: registered_def split: option.splits)
    show ?thesis
    proof (cases "A = C")
      case True
      then have "e = d" using e d by simp
      then show ?thesis using True d' e same_tiles_descr_of [OF d'(2)] by auto
    next
      case False then show ?thesis using d' e by auto
    qed
  qed
  moreover have "setup_operands kern tM tN tK ops C R ctxt = Some c3"
    using NB c3 by (simp add: setup_operands_def c1_def c2_def)
  ultimately show ?thesis using auto_tilesize_pos [OF NB] NB by blast
qed


lemma setup_two:
  assumes "A \<noteq> C" "unregistered ctxt A" "unregistered ctxt C" "kern \<noteq> KERN_SWAP" "kern \<noteq> KERN_VOID"
    and "0 < xc_ngpus ctxt" "gpus_registered R KAAPI_LD_GPU c f"
  obtains NB ctxt' Ah Ch where
    "setup_operands kern tM tN tK [(A, Am, An, lda), (C, Cm, Cn, ldc)] C R ctxt = Some ctxt'"
    "0 < NB" "xkblas_auto_tilesize ctxt kern tM tN tK = Some NB"
    "xc_descr ctxt' A = Some Ah" "xc_descr ctxt' C = Some Ch"
    "descr_of Ah A Am An lda NB NB" "descr_of Ch C Cm Cn ldc NB NB"
proof -
  let ?ops = "[(A, Am, An, lda), (C, Cm, Cn, ldc)]"
  have "\<exists>NB c'. setup_operands kern tM tN tK ?ops C R ctxt = Some c' \<and> 0 < NB \<and>
    xkblas_auto_tilesize ctxt kern tM tN tK = Some NB \<and>
    (\<forall>(A, M, N, LD) \<in> set ?ops. \<exists>d. xc_descr c' A = Some d \<and> descr_of d A M N LD NB NB)"
    using assms(1-3) by (intro setup_operands_ok [OF _ _ _ assms(4-7)]) auto
  then show thesis by (auto intro: that)
qed

lemma setup_three:
  assumes "distinct [A, B, C]" "unregistered ctxt A" "unregistered ctxt B" "unregistered ctxt C"
    and "kern \<noteq> KERN_SWAP" "kern \<noteq> KERN_VOID" "0 < xc_ngpus ctxt" "gpus_registered R KAAPI_LD_GPU c f"
  obtains NB ctxt' Ah Bh Ch where
    "setup_operands kern tM tN tK [(A, Am, An, lda), (B, Bm, Bn, ldb), (C, Cm, Cn, ldc)] C R ctxt = Some ctxt'"
    "0 < NB" "xkblas_auto_tilesize ctxt kern tM tN tK = Some NB"
    "xc_descr ctxt' A = Some Ah" "xc_descr ctxt' B = Some Bh" "xc_descr ctxt' C = Some Ch"
    "descr_of Ah A Am An lda NB NB" "descr_of Bh B Bm Bn ldb NB NB" "descr_of Ch C Cm Cn ldc NB NB"
proof -
  let ?ops = "[(A, Am, An, lda), (B, Bm, Bn, ldb), (C, Cm, Cn, ldc)]"
  have "\<exists>NB c'. setup_operands kern tM tN tK ?ops C R ctxt = Some c' \<and> 0 < NB \<and>
    xkblas_auto_tilesize ctxt kern tM tN tK = Some NB \<and>
    (\<forall>(A, M, N, LD) \<in> set ?ops. \<exists>d. xc_descr c' A = Some d \<and> descr_of d A M N LD NB NB)"
    using assms(1-4) by (intro setup_operands_ok [OF _ _ _ assms(5-8)]) auto
  then show thesis by (auto intro: that)
qed

lemma size_of_int_ld: "LD \<in> {0..<2 ^ 31} \<Longrightarrow> size_of_int LD = nat LD"
  by (auto intro!: size_of_int_nonneg simp: SIZE_MOD_def)

end
