(* ===== verification/Gemm.thy ===== *)
theory Gemm
  imports Operands
begin

text \<open>
  \<open>blas/zgemm.c\<close>: the argument checks, the quick return, the registration of the three
  matrices and the loops of \<open>xkblas_zgemm_async\<close> that insert the tile tasks. The main result is
  that running the inserted tasks computes \<open>C := alpha*op(A)*op(B) + beta*C\<close>.
\<close>

section \<open>The call\<close>

definition op_rows :: "int \<Rightarrow> int \<Rightarrow> int \<Rightarrow> int" where
  "op_rows t m k = (if t = CblasNoTrans then m else k)"

definition op_cols :: "int \<Rightarrow> int \<Rightarrow> int \<Rightarrow> int" where
  "op_cols t m k = (if t = CblasNoTrans then k else m)"

definition zgemm_args ::
  "int \<Rightarrow> int \<Rightarrow> int \<Rightarrow> int \<Rightarrow> int \<Rightarrow> int \<Rightarrow> int \<Rightarrow> int \<Rightarrow> nat option" where
  "zgemm_args transA transB M N K LDA LDB LDC =
     (if transA < CblasNoTrans \<or> transA > CblasConjTrans then Some 1
      else if transB < CblasNoTrans \<or> transB > CblasConjTrans then Some 2
      else if M < 0 then Some 3
      else if N < 0 then Some 4
      else if K < 0 then Some 5
      else if ld_too_small LDA (op_rows transA M K) then Some 8
      else if ld_too_small LDB (op_rows transB K N) then Some 10
      else if ld_too_small LDC M then Some 13
      else None)"

definition zgemm_nothing_to_do :: "int \<Rightarrow> int \<Rightarrow> int \<Rightarrow> complex \<Rightarrow> complex \<Rightarrow> bool" where
  "zgemm_nothing_to_do M N K alpha beta \<longleftrightarrow> M = 0 \<or> N = 0 \<or> ((alpha = 0 \<or> K = 0) \<and> beta = 1)"

text \<open>The body of the loops over \<open>m\<close> and \<open>n\<close>.\<close>

definition zgemm_tile ::
  "int \<Rightarrow> int \<Rightarrow> nat \<Rightarrow> nat \<Rightarrow> nat \<Rightarrow> nat \<Rightarrow> complex \<Rightarrow> matrix_descr \<Rightarrow> nat \<Rightarrow> matrix_descr \<Rightarrow> nat
     \<Rightarrow> complex \<Rightarrow> matrix_descr \<Rightarrow> nat \<Rightarrow> nat \<Rightarrow> nat \<Rightarrow> task list" where
  "zgemm_tile transA transB M N Am An alpha Ah LDA Bh LDB beta Ch LDC m n =
     (let tempmm = tile_dim (d_mt Ch) M (d_mb Ch) m;
          tempnn = tile_dim (d_nt Ch) N (d_nb Ch) n in
      if transA = CblasNoTrans then
        (if transB = CblasNoTrans then
           map (\<lambda>k. let tempkn = tile_dim (d_nt Ah) An (d_nb Ah) k;
                        zbeta = (if k = 0 then beta else 1) in
             INSERT_TASK_zgemm transA transB tempmm tempnn tempkn alpha
               Ah m k LDA Bh k n LDB zbeta Ch m n LDC) [0..<d_nt Ah]
         else
           map (\<lambda>k. let tempkn = tile_dim (d_nt Ah) An (d_nb Ah) k;
                        zbeta = (if k = 0 then beta else 1) in
             INSERT_TASK_zgemm transA transB tempmm tempnn tempkn alpha
               Ah m k LDA Bh n k LDB zbeta Ch m n LDC) [0..<d_nt Ah])
      else
        (if transB = CblasNoTrans then
           map (\<lambda>k. let tempkm = tile_dim (d_mt Ah) Am (d_mb Ah) k;
                        zbeta = (if k = 0 then beta else 1) in
             INSERT_TASK_zgemm transA transB tempmm tempnn tempkm alpha
               Ah k m LDA Bh k n LDB zbeta Ch m n LDC) [0..<d_mt Ah]
         else
           map (\<lambda>k. let tempkm = tile_dim (d_mt Ah) Am (d_mb Ah) k;
                        zbeta = (if k = 0 then beta else 1) in
             INSERT_TASK_zgemm transA transB tempmm tempnn tempkm alpha
               Ah k m LDA Bh n k LDB zbeta Ch m n LDC) [0..<d_mt Ah]))"

definition zgemm_tasks ::
  "int \<Rightarrow> int \<Rightarrow> nat \<Rightarrow> nat \<Rightarrow> nat \<Rightarrow> nat \<Rightarrow> complex \<Rightarrow> matrix_descr \<Rightarrow> nat \<Rightarrow> matrix_descr \<Rightarrow> nat
     \<Rightarrow> complex \<Rightarrow> matrix_descr \<Rightarrow> nat \<Rightarrow> task list" where
  "zgemm_tasks transA transB M N Am An alpha Ah LDA Bh LDB beta Ch LDC =
     concat (map (\<lambda>m. concat (map (\<lambda>n.
       zgemm_tile transA transB M N Am An alpha Ah LDA Bh LDB beta Ch LDC m n)
       [0..<d_nt Ch])) [0..<d_mt Ch])"

definition xkblas_zgemm_async ::
  "int \<Rightarrow> int \<Rightarrow> int \<Rightarrow> int \<Rightarrow> int \<Rightarrow> complex \<Rightarrow> nat \<Rightarrow> int \<Rightarrow> nat \<Rightarrow> int \<Rightarrow> complex \<Rightarrow> nat \<Rightarrow> int
     \<Rightarrow> ldreg \<Rightarrow> xk_ctx \<Rightarrow> (task list \<times> xk_ctx) outcome" where
  "xkblas_zgemm_async transA transB M N K alpha A LDA B LDB beta C LDC R ctxt =
     (case zgemm_args transA transB M N K LDA LDB LDC of
        Some c \<Rightarrow> Aborted c
      | None \<Rightarrow>
          if zgemm_nothing_to_do M N K alpha beta then Returned ([], ctxt)
          else let Am = nat (op_rows transA M K); An = nat (op_cols transA M K);
                   Bm = nat (op_rows transB K N); Bn = nat (op_cols transB K N) in
            (case setup_operands KERN_GEMM (nat M) (nat N) (nat K)
                    [(A, Am, An, size_of_int LDA), (B, Bm, Bn, size_of_int LDB),
                     (C, nat M, nat N, size_of_int LDC)] C R ctxt of
               None \<Rightarrow> Trapped
             | Some c5 \<Rightarrow>
                 Returned (zgemm_tasks transA transB (nat M) (nat N) Am An alpha
                   (the (xc_descr c5 A)) (size_of_int LDA) (the (xc_descr c5 B)) (size_of_int LDB)
                   beta (the (xc_descr c5 C)) (size_of_int LDC), c5)))"

section \<open>The tasks compute the product\<close>

text \<open>One gemm task on tiles \<open>(m,k)\<close> of \<open>op(A)\<close> and \<open>(k,n)\<close> of \<open>op(B)\<close>.\<close>

lemma elementwise_gemm:
  assumes K: "gemm_ok K" and t: "valid_trans ta" "valid_trans tb"
    and geo: "tile_of M N mb nb m n tm tn" and ldc: "M \<le> ldc"
    and C: "h_data hC = C + (m * mb + n * nb * ldc) * ELTSIZE"
    and A: "h_data hA = A + (if ta = CblasNoTrans then m * mb + k0 * lda else k0 + m * mb * lda) * ELTSIZE"
    and B: "h_data hB = B + (if tb = CblasNoTrans then k0 + n * nb * ldb else n * nb + k0 * ldb) * ELTSIZE"
    and dA: "arrays_disjoint A lda MA NA C ldc M N"
      "if ta = CblasNoTrans then M \<le> MA \<and> k0 + tk \<le> NA else k0 + tk \<le> MA \<and> M \<le> NA"
    and dB: "arrays_disjoint B ldb MB NB C ldc M N"
      "if tb = CblasNoTrans then k0 + tk \<le> MB \<and> N \<le> NB else N \<le> MB \<and> k0 + tk \<le> NB"
  shows "elementwise K J C ldc M N mem [TGemm ta tb tm tn tk al hA lda hB ldb be hC ldc]
           (tile_act mb nb m n (\<lambda>i j c. be * c + al *
              (\<Sum>l<tk. op_el ta (view mem A lda) i (k0 + l) * op_el tb (view mem B ldb) (k0 + l) j)))"
proof (rule elementwise_store [OF _ geo ldc,
    where F = "\<lambda>mem'. kb_gemm K ta tb tm tn tk al (view mem' (h_data hA) lda) (view mem' (h_data hB) ldb)
                        be (acquired J (w_or_rw be) mem' hC ldc)"])
  fix X i j assume ij: "i < tm" "j < tn"
  let ?mem = "store_block C ldc M N X mem"
  note fits = tile_of_fits [OF geo]
  have im: "m * mb + i < M" "n * nb + j < N" using fits ij by auto
  have a: "op_el ta (view ?mem (h_data hA) lda) i l = op_el ta (view mem A lda) (m * mb + i) (k0 + l)"
    if "l < tk" for l
    using t(1) dA im that ldc
    by (auto simp: A valid_trans_def op_el_def enum_simps view_operand)
  have b: "op_el tb (view ?mem (h_data hB) ldb) l j = op_el tb (view mem B ldb) (k0 + l) (n * nb + j)"
    if "l < tk" for l
    using t(2) dB im that ldc
    by (auto simp: B valid_trans_def op_el_def enum_simps view_operand)
  have c: "view ?mem (h_data hC) ldc i j = X (m * mb + i) (n * nb + j)"
    using im ldc by (simp add: C view_result)
  have "kb_gemm K ta tb tm tn tk al (view ?mem (h_data hA) lda) (view ?mem (h_data hB) ldb)
          be (acquired J (w_or_rw be) ?mem hC ldc) i j =
        gemm_val ta tb tk al (view ?mem (h_data hA) lda) (view ?mem (h_data hB) ldb)
          be (acquired J (w_or_rw be) ?mem hC ldc) i j"
    using K t ij by (simp add: gemm_ok_def agree_on_def)
  also have "\<dots> = be * X (m * mb + i) (n * nb + j) + al *
     (\<Sum>l<tk. op_el ta (view mem A lda) (m * mb + i) (k0 + l) * op_el tb (view mem B ldb) (k0 + l) (n * nb + j))"
    by (simp add: gemm_val_def a b c acquired_w_or_rw)
  finally show "kb_gemm K ta tb tm tn tk al (view ?mem (h_data hA) lda) (view ?mem (h_data hB) ldb)
          be (acquired J (w_or_rw be) ?mem hC ldc) i j = be * X (m * mb + i) (n * nb + j) + al *
     (\<Sum>l<tk. op_el ta (view mem A lda) (m * mb + i) (k0 + l) * op_el tb (view mem B ldb) (k0 + l) (n * nb + j))" .
qed (simp add: C zgemm_body_def)


text \<open>One gemm task of the loop over \<open>k\<close> for tile \<open>(m,n)\<close> of \<open>C\<close>, then the whole loop.\<close>

lemma gemm_k_task:
  assumes K: "gemm_ok K" and t: "valid_trans ta" "valid_trans tb" and NB: "0 < NB" and ldc: "M \<le> ldc"
    and dA: "arrays_disjoint A lda (if ta = CblasNoTrans then M else Kd) (if ta = CblasNoTrans then Kd else M) C ldc M N"
    and dB: "arrays_disjoint B ldb (if tb = CblasNoTrans then Kd else N) (if tb = CblasNoTrans then N else Kd) C ldc M N"
    and mn: "m < xkblas_num_of_tiles M NB" "n < xkblas_num_of_tiles N NB" "k < xkblas_num_of_tiles Kd NB"
    and C: "h_data hC = C + (m * NB + n * NB * ldc) * ELTSIZE"
    and A: "h_data hA = A + (if ta = CblasNoTrans then m * NB + k * NB * lda else k * NB + m * NB * lda) * ELTSIZE"
    and B: "h_data hB = B + (if tb = CblasNoTrans then k * NB + n * NB * ldb else n * NB + k * NB * ldb) * ELTSIZE"
  shows "elementwise K J C ldc M N mem
      [TGemm ta tb (tile_dim (xkblas_num_of_tiles M NB) M NB m) (tile_dim (xkblas_num_of_tiles N NB) N NB n)
         (tile_dim (xkblas_num_of_tiles Kd NB) Kd NB k) al hA lda hB ldb z hC ldc]
      (tile_act NB NB m n (\<lambda>i j c. z * c + al * (\<Sum>l<tile_dim (xkblas_num_of_tiles Kd NB) Kd NB k.
         op_el ta (view mem A lda) i (k * NB + l) * op_el tb (view mem B ldb) (k * NB + l) j)))"
proof -
  have geo: "tile_of M N NB NB m n (tile_dim (xkblas_num_of_tiles M NB) M NB m)
      (tile_dim (xkblas_num_of_tiles N NB) N NB n)" using NB mn by (simp add: tile_of_def)
  have kb: "k * NB + tile_dim (xkblas_num_of_tiles Kd NB) Kd NB k \<le> Kd" using mn NB by (simp add: tile_dim_bound)
  show ?thesis
    by (rule elementwise_gemm [OF K t geo ldc C A B dA _ dB]) (use kb in simp_all)
qed

lemma sum_tiles_scaled:
  fixes f :: "nat \<Rightarrow> complex"
  assumes "0 < NB"
  shows "(\<Sum>k<xkblas_num_of_tiles K NB. al * (\<Sum>l<tile_dim (xkblas_num_of_tiles K NB) K NB k. f (k * NB + l)))
       = al * (\<Sum>l<K. f l)"
  using sum_over_tiles [OF assms, where K = K and f = f] by (simp add: sum_distrib_left [symmetric])

lemma gemm_k_loop:
  assumes K: "gemm_ok K" and t: "valid_trans ta" "valid_trans tb" and NB: "0 < NB" and ldc: "M \<le> ldc"
    and dA: "arrays_disjoint A lda (if ta = CblasNoTrans then M else Kd) (if ta = CblasNoTrans then Kd else M) C ldc M N"
    and dB: "arrays_disjoint B ldb (if tb = CblasNoTrans then Kd else N) (if tb = CblasNoTrans then N else Kd) C ldc M N"
    and mn: "m < xkblas_num_of_tiles M NB" "n < xkblas_num_of_tiles N NB"
    and kt: "kt = xkblas_num_of_tiles Kd NB"
    and C: "h_data hC = C + (m * NB + n * NB * ldc) * ELTSIZE"
    and A: "\<And>k. k < kt \<Longrightarrow> h_data (hA k) =
      A + (if ta = CblasNoTrans then m * NB + k * NB * lda else k * NB + m * NB * lda) * ELTSIZE"
    and B: "\<And>k. k < kt \<Longrightarrow> h_data (hB k) =
      B + (if tb = CblasNoTrans then k * NB + n * NB * ldb else n * NB + k * NB * ldb) * ELTSIZE"
  shows "elementwise K J C ldc M N mem
      (map (\<lambda>k. TGemm ta tb (tile_dim (xkblas_num_of_tiles M NB) M NB m) (tile_dim (xkblas_num_of_tiles N NB) N NB n)
                   (tile_dim kt Kd NB k) al (hA k) lda (hB k) ldb (if k = 0 then be else 1) hC ldc) [0..<kt])
      (tile_act NB NB m n (\<lambda>i j c. if Kd = 0 then c else be * c + al *
         (\<Sum>l<Kd. op_el ta (view mem A lda) i l * op_el tb (view mem B ldb) l j)))"
  unfolding kt
proof (rule elementwise_cong [OF elementwise_map [OF gemm_k_task [OF K t NB ldc dA dB mn _ C]] ldc])
  let ?f = "\<lambda>i j l. op_el ta (view mem A lda) i l * op_el tb (view mem B ldb) l j"
  let ?kt = "xkblas_num_of_tiles Kd NB"
  fix i j c
  have "?kt = 0 \<longleftrightarrow> Kd = 0" using num_tiles_pos [OF NB, of Kd] by auto
  then show "fold (\<lambda>k. tile_act NB NB m n (\<lambda>i j c. (if k = 0 then be else 1) * c + al *
       (\<Sum>l<tile_dim ?kt Kd NB k. ?f i j (k * NB + l))) i j) [0..<?kt] c
     = tile_act NB NB m n (\<lambda>i j c. if Kd = 0 then c else be * c + al * (\<Sum>l<Kd. ?f i j l)) i j c"
    unfolding fold_tile_act by (simp add: fold_accumulate tile_act_def
        sum_tiles_scaled [OF NB, where K = Kd and f = "?f i j"])
qed (use A B kt in simp_all)

lemma sweep_all_tiles:
  assumes NB: "0 < NB" and ij: "i < M" "j < N"
  shows "fold (\<lambda>m. fold (\<lambda>n. tile_act NB NB m n G i j) [0..<xkblas_num_of_tiles N NB])
           [0..<xkblas_num_of_tiles M NB] c = G i j c"
  using fold_sweep [of "[0..<xkblas_num_of_tiles M NB]" "\<lambda>_. [0..<xkblas_num_of_tiles N NB]" NB NB "\<lambda>_ _. G" i j c]
    tile_of_index(1) [OF NB ij(1)] tile_of_index(1) [OF NB ij(2)] by simp

text \<open>What a call knows of its three matrices: registered with one tile size, wide enough, and \<open>C\<close>
  apart from \<open>A\<close> and \<open>B\<close>.\<close>

definition gemm_layout ::
  "int \<Rightarrow> int \<Rightarrow> nat \<Rightarrow> nat \<Rightarrow> nat \<Rightarrow> nat \<Rightarrow> matrix_descr \<Rightarrow> nat \<Rightarrow> nat \<Rightarrow> matrix_descr \<Rightarrow> nat \<Rightarrow> nat
     \<Rightarrow> matrix_descr \<Rightarrow> nat \<Rightarrow> nat \<Rightarrow> bool" where
  "gemm_layout ta tb M N Kd NB Ah A lda Bh B ldb Ch C ldc \<longleftrightarrow>
     0 < NB \<and> M \<le> ldc \<and>
     (let Am = (if ta = CblasNoTrans then M else Kd); An = (if ta = CblasNoTrans then Kd else M);
          Bm = (if tb = CblasNoTrans then Kd else N); Bn = (if tb = CblasNoTrans then N else Kd) in
      descr_of Ah A Am An lda NB NB \<and> descr_of Bh B Bm Bn ldb NB NB \<and> descr_of Ch C M N ldc NB NB \<and>
      arrays_disjoint A lda Am An C ldc M N \<and> arrays_disjoint B ldb Bm Bn C ldc M N)"

lemma zgemm_tile_elementwise:
  assumes K: "gemm_ok K" and t: "valid_trans ta" "valid_trans tb"
    and lay: "gemm_layout ta tb M N Kd NB Ah A lda Bh B ldb Ch C ldc"
    and mn: "m < d_mt Ch" "n < d_nt Ch"
  shows "elementwise K J C ldc M N mem
      (zgemm_tile ta tb M N (if ta = CblasNoTrans then M else Kd) (if ta = CblasNoTrans then Kd else M)
         al Ah lda Bh ldb be Ch ldc m n)
      (tile_act NB NB m n (\<lambda>i j c. if Kd = 0 then c else be * c + al *
         (\<Sum>l<Kd. op_el ta (view mem A lda) i l * op_el tb (view mem B ldb) l j)))"
proof -
  have NB: "0 < NB" and ldc: "M \<le> ldc"
    and dA: "arrays_disjoint A lda (if ta = CblasNoTrans then M else Kd) (if ta = CblasNoTrans then Kd else M) C ldc M N"
    and dB: "arrays_disjoint B ldb (if tb = CblasNoTrans then Kd else N) (if tb = CblasNoTrans then N else Kd) C ldc M N"
    and Ah: "descr_of Ah A (if ta = CblasNoTrans then M else Kd) (if ta = CblasNoTrans then Kd else M) lda NB NB"
    and Bh: "descr_of Bh B (if tb = CblasNoTrans then Kd else N) (if tb = CblasNoTrans then N else Kd) ldb NB NB"
    and Ch: "descr_of Ch C M N ldc NB NB"
    using lay by (auto simp: gemm_layout_def Let_def)
  note dims = descr_of_dims [OF Ah] descr_of_dims [OF Bh] descr_of_dims [OF Ch]
  note data = descr_of_data [OF Ah] descr_of_data [OF Bh] descr_of_data [OF Ch]
  note loop = gemm_k_loop [OF K t NB ldc dA dB _ _ refl]
  show ?thesis
    using mn loop [where m = m and n = n and hC = "xkblas_get_handle Ch m n"
        and hA = "\<lambda>k. if ta = CblasNoTrans then xkblas_get_handle Ah m k else xkblas_get_handle Ah k m"
        and hB = "\<lambda>k. if tb = CblasNoTrans then xkblas_get_handle Bh k n else xkblas_get_handle Bh n k"]
    by (cases "ta = CblasNoTrans"; cases "tb = CblasNoTrans")
       (simp_all add: zgemm_tile_def insert_defs Let_def dims data)
qed

lemma zgemm_tasks_elementwise:
  assumes K: "gemm_ok K" and t: "valid_trans ta" "valid_trans tb"
    and lay: "gemm_layout ta tb M N Kd NB Ah A lda Bh B ldb Ch C ldc"
  shows "elementwise K J C ldc M N mem
      (zgemm_tasks ta tb M N (if ta = CblasNoTrans then M else Kd) (if ta = CblasNoTrans then Kd else M)
         al Ah lda Bh ldb be Ch ldc)
      (\<lambda>i j c. if Kd = 0 then c else be * c + al *
         (\<Sum>l<Kd. op_el ta (view mem A lda) i l * op_el tb (view mem B ldb) l j))"
proof -
  have NB: "0 < NB" and ldc: "M \<le> ldc" and Ch: "descr_of Ch C M N ldc NB NB"
    using lay by (auto simp: gemm_layout_def Let_def)
  have tile: "elementwise K J C ldc M N mem
      (zgemm_tile ta tb M N (if ta = CblasNoTrans then M else Kd) (if ta = CblasNoTrans then Kd else M)
         al Ah lda Bh ldb be Ch ldc m n)
      (tile_act NB NB m n (\<lambda>i j c. if Kd = 0 then c else be * c + al *
         (\<Sum>l<Kd. op_el ta (view mem A lda) i l * op_el tb (view mem B ldb) l j)))"
    if "m \<in> set [0..<d_mt Ch]" "n \<in> set [0..<d_nt Ch]" for m n
    using that by (intro zgemm_tile_elementwise [OF K t lay]) auto
  show ?thesis
    unfolding zgemm_tasks_def
    by (rule elementwise_cong [OF elementwise_concat [OF elementwise_concat [OF tile]] ldc])
       (auto simp: descr_of_dims [OF Ch] sweep_all_tiles [OF NB])
qed


section \<open>The whole call\<close>

lemma zgemm_args_None:
  assumes "zgemm_args ta tb M N K LDA LDB LDC = None"
  shows "valid_trans ta" "valid_trans tb" "0 \<le> M" "0 \<le> N" "0 \<le> K" "\<not> ld_too_small LDC M"
  using assms by (auto simp: zgemm_args_def valid_trans_def enum_simps split: if_splits)

definition gemm_operands_apart ::
  "int \<Rightarrow> int \<Rightarrow> int \<Rightarrow> int \<Rightarrow> int \<Rightarrow> nat \<Rightarrow> int \<Rightarrow> nat \<Rightarrow> int \<Rightarrow> nat \<Rightarrow> int \<Rightarrow> bool" where
  "gemm_operands_apart ta tb M N K A LDA B LDB C LDC \<longleftrightarrow> distinct [A, B, C] \<and>
     arrays_disjoint A (nat LDA) (nat (op_rows ta M K)) (nat (op_cols ta M K)) C (nat LDC) (nat M) (nat N) \<and>
     arrays_disjoint B (nat LDB) (nat (op_rows tb K N)) (nat (op_cols tb K N)) C (nat LDC) (nat M) (nat N)"

lemma zgemm_async_layout:
  assumes args: "zgemm_args ta tb M N K LDA LDB LDC = None" and work: "\<not> zgemm_nothing_to_do M N K al be"
    and sz: "LDA \<in> {0..<2 ^ 31}" "LDB \<in> {0..<2 ^ 31}" "LDC \<in> {0..<2 ^ 31}" "M < 2 ^ 31" "N < 2 ^ 31" "K < 2 ^ 31"
    and un: "unregistered ctxt A" "unregistered ctxt B" "unregistered ctxt C"
    and ap: "gemm_operands_apart ta tb M N K A LDA B LDB C LDC"
    and g: "0 < xc_ngpus ctxt" "gpus_registered R KAAPI_LD_GPU c f"
  obtains NB ctxt' Ah Bh Ch where
    "xkblas_zgemm_async ta tb M N K al A LDA B LDB be C LDC R ctxt =
       Returned (zgemm_tasks ta tb (nat M) (nat N) (nat (op_rows ta M K)) (nat (op_cols ta M K)) al
          Ah (nat LDA) Bh (nat LDB) be Ch (nat LDC), ctxt')"
    "xc_descr ctxt' A = Some Ah" "xc_descr ctxt' B = Some Bh" "xc_descr ctxt' C = Some Ch"
    "gemm_layout ta tb (nat M) (nat N) (nat K) NB Ah A (nat LDA) Bh B (nat LDB) Ch C (nat LDC)"
proof -
  have ld: "size_of_int LDA = nat LDA" "size_of_int LDB = nat LDB" "size_of_int LDC = nat LDC"
    using sz by (auto intro: size_of_int_ld)
  have "distinct [A, B, C]" using ap by (simp add: gemm_operands_apart_def)
  from setup_three [OF this un _ _ g]
  obtain NB c' Ah Bh Ch where su: "setup_operands KERN_GEMM (nat M) (nat N) (nat K)
      [(A, nat (op_rows ta M K), nat (op_cols ta M K), size_of_int LDA),
       (B, nat (op_rows tb K N), nat (op_cols tb K N), size_of_int LDB), (C, nat M, nat N, size_of_int LDC)] C R ctxt = Some c'"
    and NB: "0 < NB" and d: "xc_descr c' A = Some Ah" "xc_descr c' B = Some Bh" "xc_descr c' C = Some Ch"
    and dof: "descr_of Ah A (nat (op_rows ta M K)) (nat (op_cols ta M K)) (nat LDA) NB NB"
      "descr_of Bh B (nat (op_rows tb K N)) (nat (op_cols tb K N)) (nat LDB) NB NB"
      "descr_of Ch C (nat M) (nat N) (nat LDC) NB NB"
    by (metis ld kernel.distinct)
  have "xkblas_zgemm_async ta tb M N K al A LDA B LDB be C LDC R ctxt =
       Returned (zgemm_tasks ta tb (nat M) (nat N) (nat (op_rows ta M K)) (nat (op_cols ta M K)) al
          Ah (nat LDA) Bh (nat LDB) be Ch (nat LDC), c')"
    using args work su d by (simp add: xkblas_zgemm_async_def Let_def ld)
  moreover have "nat M \<le> nat LDC"
    using ld_ok_nonneg [OF zgemm_args_None(6) [OF args]] zgemm_args_None(3) [OF args] sz by auto
  then have "gemm_layout ta tb (nat M) (nat N) (nat K) NB Ah A (nat LDA) Bh B (nat LDB) Ch C (nat LDC)"
    using NB dof ap by (auto simp: gemm_layout_def Let_def gemm_operands_apart_def op_rows_def op_cols_def)
  ultimately show thesis using d by (blast intro: that)
qed

lemma zgemm_async_run:
  assumes "gemm_ok K" and "zgemm_args ta tb M N Kd LDA LDB LDC = None" and "0 < Kd \<or> be = 1"
    and "LDA \<in> {0..<2 ^ 31}" "LDB \<in> {0..<2 ^ 31}" "LDC \<in> {0..<2 ^ 31}" "M < 2 ^ 31" "N < 2 ^ 31" "Kd < 2 ^ 31"
    and "unregistered ctxt A" "unregistered ctxt B" "unregistered ctxt C"
    and "gemm_operands_apart ta tb M N Kd A LDA B LDB C LDC"
    and "0 < xc_ngpus ctxt" "gpus_registered R KAAPI_LD_GPU c f"
  shows "\<exists>ts ctxt'. xkblas_zgemm_async ta tb M N Kd al A LDA B LDB be C LDC R ctxt = Returned (ts, ctxt') \<and>
    exec_tasks K J ts mem = store_block C (nat LDC) (nat M) (nat N)
      (gemm_val ta tb (nat Kd) al (view mem A (nat LDA)) (view mem B (nat LDB)) be (view mem C (nat LDC))) mem \<and>
    (ts = [] \<or> (\<exists>NB Ah Bh Ch. ts = zgemm_tasks ta tb (nat M) (nat N) (nat (op_rows ta M Kd)) (nat (op_cols ta M Kd)) al
        Ah (nat LDA) Bh (nat LDB) be Ch (nat LDC) \<and>
      gemm_layout ta tb (nat M) (nat N) (nat Kd) NB Ah A (nat LDA) Bh B (nat LDB) Ch C (nat LDC)))"
proof (cases "zgemm_nothing_to_do M N Kd al be")
  case True
  have "nat M \<le> nat LDC"
    using ld_ok_nonneg [OF zgemm_args_None(6) [OF assms(2)]] zgemm_args_None(3) [OF assms(2)] assms by auto
  moreover have "mem = store_block C (nat LDC) (nat M) (nat N)
      (gemm_val ta tb (nat Kd) al (view mem A (nat LDA)) (view mem B (nat LDB)) be (view mem C (nat LDC))) mem"
    using True calculation
    by (intro store_block_eqI) (auto simp: zgemm_nothing_to_do_def gemm_val_def view_def)
  ultimately show ?thesis using True assms(2) by (simp add: xkblas_zgemm_async_def)
next
  case False
  obtain NB ctxt' Ah Bh Ch where call: "xkblas_zgemm_async ta tb M N Kd al A LDA B LDB be C LDC R ctxt =
       Returned (zgemm_tasks ta tb (nat M) (nat N) (nat (op_rows ta M Kd)) (nat (op_cols ta M Kd)) al
          Ah (nat LDA) Bh (nat LDB) be Ch (nat LDC), ctxt')"
    and lay: "gemm_layout ta tb (nat M) (nat N) (nat Kd) NB Ah A (nat LDA) Bh B (nat LDB) Ch C (nat LDC)"
    using zgemm_async_layout [OF assms(2) False assms(4-)] by metis
  have "0 < nat Kd \<or> be = 1 \<and> nat Kd = 0" using assms(3) by auto
  then have "exec_tasks K J (zgemm_tasks ta tb (nat M) (nat N) (nat (op_rows ta M Kd)) (nat (op_cols ta M Kd)) al
          Ah (nat LDA) Bh (nat LDB) be Ch (nat LDC)) mem
      = store_block C (nat LDC) (nat M) (nat N)
      (gemm_val ta tb (nat Kd) al (view mem A (nat LDA)) (view mem B (nat LDB)) be (view mem C (nat LDC))) mem"
    using elementwise_run [OF zgemm_tasks_elementwise [OF assms(1) zgemm_args_None(1,2) [OF assms(2)] lay]] lay
    by (auto simp: gemm_val_def gemm_layout_def op_rows_def op_cols_def)
  with call lay show ?thesis by blast
qed

text \<open>C3. A call of \<open>xkblas_zgemm_async\<close> that passes the argument checks returns, and running the
  tasks it has inserted, in insertion order, stores \<open>alpha*op(A)*op(B) + beta*C\<close> in the \<open>M\<close> by \<open>N\<close>
  array \<open>C\<close> and leaves the rest of memory as it was, for every tile size and every number of GPUs;
  a call with \<open>K = 0\<close> is covered only for \<open>beta = 1\<close> (see \<open>zgemm_K0_inserts_nothing\<close>).\<close>

theorem zgemm_async_correct:
  assumes "gemm_ok K" and "zgemm_args ta tb M N Kd LDA LDB LDC = None" and "0 < Kd \<or> be = 1"
    and "LDA \<in> {0..<2 ^ 31}" "LDB \<in> {0..<2 ^ 31}" "LDC \<in> {0..<2 ^ 31}" "M < 2 ^ 31" "N < 2 ^ 31" "Kd < 2 ^ 31"
    and "unregistered ctxt A" "unregistered ctxt B" "unregistered ctxt C"
    and "gemm_operands_apart ta tb M N Kd A LDA B LDB C LDC"
    and "0 < xc_ngpus ctxt" "gpus_registered R KAAPI_LD_GPU c f"
  shows "\<exists>ts ctxt'. xkblas_zgemm_async ta tb M N Kd al A LDA B LDB be C LDC R ctxt = Returned (ts, ctxt') \<and>
    exec_tasks K J ts mem = store_block C (nat LDC) (nat M) (nat N)
      (gemm_val ta tb (nat Kd) al (view mem A (nat LDA)) (view mem B (nat LDB)) be (view mem C (nat LDC))) mem"
  using zgemm_async_run [OF assms] by blast

theorem zgemm_async_correct_witness:
  "\<exists>ts ctxt'. xkblas_zgemm_async 111 112 3 2 2 2 16 3 1000 2 5 2000 4 one_gpu_reg (empty_ctx 2) =
      Returned (ts, ctxt') \<and>
    exec_tasks (ref_blas (\<lambda>_ _ _ _ _ _ _ _ B. B)) (\<lambda>_ _ _. 7) ts (\<lambda>_. 1) = store_block 2000 4 3 2
      (gemm_val 111 112 2 2 (view (\<lambda>_. 1) 16 3) (view (\<lambda>_. 1) 1000 2) 5 (view (\<lambda>_. 1) 2000 4)) (\<lambda>_. 1)"
  using zgemm_async_correct [of "ref_blas (\<lambda>_ _ _ _ _ _ _ _ B. B)" 111 112 3 2 2 3 2 4 5 "empty_ctx 2"
      16 1000 2000 one_gpu_reg 1 "\<lambda>_. 1" 2 "\<lambda>_ _ _. 7" "\<lambda>_. 1"]
  by (simp add: zgemm_args_def ld_too_small_def size_of_int_def SIZE_MOD_def op_rows_def op_cols_def
        enum_simps gemm_operands_apart_def arrays_disjoint_ranges ELTSIZE_def one_gpu_registered [simplified])

lemma zgemm_tasks_K0:
  assumes "gemm_layout ta tb M N 0 NB Ah A lda Bh B ldb Ch C ldc"
  shows "zgemm_tasks ta tb M N (if ta = CblasNoTrans then M else 0) (if ta = CblasNoTrans then 0 else M)
           al Ah lda Bh ldb be Ch ldc = []"
proof -
  have NB: "0 < NB" and Ah: "descr_of Ah A (if ta = CblasNoTrans then M else 0) (if ta = CblasNoTrans then 0 else M) lda NB NB"
    using assms(1) by (auto simp: gemm_layout_def Let_def)
  show ?thesis
    using NB descr_of_dims [OF Ah]
    by (auto simp: zgemm_tasks_def zgemm_tile_def Let_def)
qed

text \<open>An accepted call with \<open>K = 0\<close> inserts no task whatever \<open>beta\<close> is: \<open>C\<close> keeps its value, although
  BLAS asks for \<open>C := beta*C\<close>. The loop over \<open>k\<close>, which carries the scaling, has no iteration.\<close>

theorem zgemm_K0_inserts_nothing:
  assumes "zgemm_args ta tb M N 0 LDA LDB LDC = None"
    and "LDA \<in> {0..<2 ^ 31}" "LDB \<in> {0..<2 ^ 31}" "LDC \<in> {0..<2 ^ 31}" "M < 2 ^ 31" "N < 2 ^ 31"
    and "unregistered ctxt A" "unregistered ctxt B" "unregistered ctxt C"
    and "gemm_operands_apart ta tb M N 0 A LDA B LDB C LDC"
    and "0 < xc_ngpus ctxt" "gpus_registered R KAAPI_LD_GPU c f"
  shows "\<exists>ctxt'. xkblas_zgemm_async ta tb M N 0 al A LDA B LDB be C LDC R ctxt = Returned ([], ctxt')"
proof (cases "zgemm_nothing_to_do M N 0 al be")
  case True then show ?thesis using assms(1) by (simp add: xkblas_zgemm_async_def)
next
  case False
  from zgemm_async_layout [OF assms(1) False assms(2-6) _ assms(7-)]
  obtain NB ctxt' Ah Bh Ch where call: "xkblas_zgemm_async ta tb M N 0 al A LDA B LDB be C LDC R ctxt =
       Returned (zgemm_tasks ta tb (nat M) (nat N) (nat (op_rows ta M 0)) (nat (op_cols ta M 0)) al
          Ah (nat LDA) Bh (nat LDB) be Ch (nat LDC), ctxt')"
    and lay: "gemm_layout ta tb (nat M) (nat N) 0 NB Ah A (nat LDA) Bh B (nat LDB) Ch C (nat LDC)"
    by (metis nat_zero_as_int zero_less_numeral zero_less_power nat_0)
  show ?thesis
    using call zgemm_tasks_K0 [OF lay] by (auto simp: op_rows_def op_cols_def split: if_splits)
qed

theorem zgemm_K0_inserts_nothing_witness:
  "\<exists>ctxt'. xkblas_zgemm_async 111 111 2 2 0 1 16 2 1000 1 5 2000 2 one_gpu_reg (empty_ctx 2) =
      Returned ([], ctxt')"
  using zgemm_K0_inserts_nothing [of 111 111 2 2 2 1 2 "empty_ctx 2"
      16 1000 2000 one_gpu_reg 1 "\<lambda>_. 1" 1 5]
  by (simp add: zgemm_args_def ld_too_small_def size_of_int_def SIZE_MOD_def op_rows_def op_cols_def
        enum_simps gemm_operands_apart_def arrays_disjoint_ranges ELTSIZE_def one_gpu_registered [simplified])

end
