(* ===== verification/Gemmt.thy ===== *)
theory Gemmt
  imports Gemm
begin

text \<open>
  \<open>blas/zgemmt.c\<close>: the product restricted to one triangle of \<open>C\<close>. The sweep visits the tiles of the
  triangle; on a diagonal tile it inserts a gemmt task, whose GPU body (\<open>blas/ztask_gemmt.c\<close>) calls the
  full gemm kernel, so both triangles of the diagonal tiles are updated.
\<close>

definition zgemmt_args :: "int \<Rightarrow> int \<Rightarrow> int \<Rightarrow> int \<Rightarrow> int \<Rightarrow> int \<Rightarrow> int \<Rightarrow> nat option" where
  "zgemmt_args transA transB N K LDA LDB LDC =
     (if transA < CblasNoTrans \<or> transA > CblasConjTrans then Some 1
      else if transB < CblasNoTrans \<or> transB > CblasConjTrans then Some 2
      else if N < 0 then Some 4
      else if K < 0 then Some 5
      else if ld_too_small LDA (op_rows transA N K) then Some 8
      else if ld_too_small LDB (op_rows transB K N) then Some 10
      else if ld_too_small LDC N then Some 13
      else None)"

text \<open>\<open>min_n\<close> and \<open>max_n\<close>: no branch assigns them for another \<open>uplo\<close>, which no check rejects; the
  loop then reads indeterminate bounds, \<open>None\<close> here.\<close>

definition gemmt_range :: "int \<Rightarrow> nat \<Rightarrow> nat \<Rightarrow> (nat \<times> nat) option" where
  "gemmt_range uplo m Cnt =
     (if uplo = 0 then Some (0, Cnt)
      else if uplo = CblasLower then Some (0, m + 1)
      else if uplo = CblasUpper then Some (m, Cnt)
      else None)"

definition zgemmt_tile ::
  "int \<Rightarrow> int \<Rightarrow> int \<Rightarrow> nat \<Rightarrow> nat \<Rightarrow> nat \<Rightarrow> complex \<Rightarrow> matrix_descr \<Rightarrow> nat \<Rightarrow> matrix_descr \<Rightarrow> nat
     \<Rightarrow> complex \<Rightarrow> matrix_descr \<Rightarrow> nat \<Rightarrow> nat \<Rightarrow> nat \<Rightarrow> task list" where
  "zgemmt_tile uplo transA transB N Am An alpha Ah LDA Bh LDB beta Ch LDC m n =
     (let tempmm = tile_dim (d_mt Ch) N (d_mb Ch) m;
          tempnn = tile_dim (d_nt Ch) N (d_nb Ch) n;
          diag = (m = n \<and> uplo \<noteq> 0) in
      if transA = CblasNoTrans then
        (if transB = CblasNoTrans then
           map (\<lambda>k. let tempkn = tile_dim (d_nt Ah) An (d_nb Ah) k;
                        zbeta = (if k = 0 then beta else 1) in
             if diag then INSERT_TASK_zgemmt uplo transA transB tempnn tempkn alpha
               Ah m k LDA Bh k n LDB zbeta Ch m n LDC
             else INSERT_TASK_zgemm transA transB tempmm tempnn tempkn alpha
               Ah m k LDA Bh k n LDB zbeta Ch m n LDC) [0..<d_nt Ah]
         else
           map (\<lambda>k. let tempkn = tile_dim (d_nt Ah) An (d_nb Ah) k;
                        zbeta = (if k = 0 then beta else 1) in
             if diag then INSERT_TASK_zgemmt uplo transA transB tempnn tempkn alpha
               Ah m k LDA Bh n k LDB zbeta Ch m n LDC
             else INSERT_TASK_zgemm transA transB tempmm tempnn tempkn alpha
               Ah m k LDA Bh n k LDB zbeta Ch m n LDC) [0..<d_nt Ah])
      else
        (if transB = CblasNoTrans then
           map (\<lambda>k. let tempkm = tile_dim (d_mt Ah) Am (d_mb Ah) k;
                        zbeta = (if k = 0 then beta else 1) in
             if diag then INSERT_TASK_zgemmt uplo transA transB tempnn tempkm alpha
               Ah k m LDA Bh k n LDB zbeta Ch m n LDC
             else INSERT_TASK_zgemm transA transB tempmm tempnn tempkm alpha
               Ah k m LDA Bh k n LDB zbeta Ch m n LDC) [0..<d_mt Ah]
         else
           map (\<lambda>k. let tempkm = tile_dim (d_mt Ah) Am (d_mb Ah) k;
                        zbeta = (if k = 0 then beta else 1) in
             if diag then INSERT_TASK_zgemmt uplo transA transB tempnn tempkm alpha
               Ah k m LDA Bh n k LDB zbeta Ch m n LDC
             else INSERT_TASK_zgemm transA transB tempmm tempnn tempkm alpha
               Ah k m LDA Bh n k LDB zbeta Ch m n LDC) [0..<d_mt Ah]))"

definition zgemmt_tasks ::
  "int \<Rightarrow> int \<Rightarrow> int \<Rightarrow> nat \<Rightarrow> nat \<Rightarrow> nat \<Rightarrow> complex \<Rightarrow> matrix_descr \<Rightarrow> nat \<Rightarrow> matrix_descr \<Rightarrow> nat
     \<Rightarrow> complex \<Rightarrow> matrix_descr \<Rightarrow> nat \<Rightarrow> task list option" where
  "zgemmt_tasks uplo transA transB N Am An alpha Ah LDA Bh LDB beta Ch LDC =
     (if 0 < d_mt Ch \<and> gemmt_range uplo 0 (d_nt Ch) = None then None
      else Some (concat (map (\<lambda>m.
        (case gemmt_range uplo m (d_nt Ch) of
           None \<Rightarrow> []
         | Some (min_n, max_n) \<Rightarrow>
             concat (map (\<lambda>n. zgemmt_tile uplo transA transB N Am An alpha Ah LDA Bh LDB beta Ch LDC m n)
               [min_n..<max_n]))) [0..<d_mt Ch])))"

definition xkblas_zgemmt_async ::
  "int \<Rightarrow> int \<Rightarrow> int \<Rightarrow> int \<Rightarrow> int \<Rightarrow> complex \<Rightarrow> nat \<Rightarrow> int \<Rightarrow> nat \<Rightarrow> int \<Rightarrow> complex \<Rightarrow> nat \<Rightarrow> int
     \<Rightarrow> ldreg \<Rightarrow> xk_ctx \<Rightarrow> (task list \<times> xk_ctx) outcome" where
  "xkblas_zgemmt_async uplo transA transB N K alpha A LDA B LDB beta C LDC R ctxt =
     (case zgemmt_args transA transB N K LDA LDB LDC of
        Some c \<Rightarrow> Aborted c
      | None \<Rightarrow>
          if N = 0 \<or> ((alpha = 0 \<or> K = 0) \<and> beta = 1) then Returned ([], ctxt)
          else let Am = nat (op_rows transA N K); An = nat (op_cols transA N K);
                   Bm = nat (op_rows transB K N); Bn = nat (op_cols transB K N) in
            (case setup_operands KERN_GEMMT (nat N) (nat N) (nat K)
                    [(A, Am, An, size_of_int LDA), (B, Bm, Bn, size_of_int LDB),
                     (C, nat N, nat N, size_of_int LDC)] C R ctxt of
               None \<Rightarrow> Trapped
             | Some c5 \<Rightarrow>
                 (case zgemmt_tasks uplo transA transB (nat N) Am An alpha
                   (the (xc_descr c5 A)) (size_of_int LDA) (the (xc_descr c5 B)) (size_of_int LDB)
                   beta (the (xc_descr c5 C)) (size_of_int LDC) of
                  None \<Rightarrow> Trapped
                | Some ts \<Rightarrow> Returned (ts, c5))))"

section \<open>What the tasks compute\<close>

text \<open>The entries the sweep visits, for tiles of size \<open>NB\<close>.\<close>

definition gemmt_covers :: "int \<Rightarrow> nat \<Rightarrow> nat \<Rightarrow> nat \<Rightarrow> bool" where
  "gemmt_covers uplo NB i j \<longleftrightarrow>
     uplo = 0 \<or> (uplo = CblasLower \<and> j div NB \<le> i div NB) \<or> (uplo = CblasUpper \<and> i div NB \<le> j div NB)"

lemma gemmt_covers_triangle:
  "valid_uplo uplo \<Longrightarrow> in_tri uplo i j \<Longrightarrow> gemmt_covers uplo NB i j"
  by (auto simp: valid_uplo_def in_tri_def gemmt_covers_def enum_simps div_le_mono split: if_splits)

lemma exec_gemmt_is_gemm:
  "exec_task K J (TGemmt uplo ta tb n k al A lda B ldb be C ldc) mem =
   exec_task K J (TGemm ta tb n n k al A lda B ldb be C ldc) mem"
  by (simp add: zgemmt_body_def zgemm_body_def)

lemma gemmt_tile_elementwise:
  assumes K: "gemm_ok K" and t: "valid_trans ta" "valid_trans tb"
    and lay: "gemm_layout ta tb N N Kd NB Ah A lda Bh B ldb Ch C ldc"
    and mn: "m < d_mt Ch" "n < d_nt Ch"
  shows "elementwise K J C ldc N N mem
      (zgemmt_tile uplo ta tb N (if ta = CblasNoTrans then N else Kd) (if ta = CblasNoTrans then Kd else N)
         al Ah lda Bh ldb be Ch ldc m n)
      (tile_act NB NB m n (\<lambda>i j c. if Kd = 0 then c else be * c + al *
         (\<Sum>l<Kd. op_el ta (view mem A lda) i l * op_el tb (view mem B ldb) l j)))"
proof -
  have z: "elementwise K J C ldc N N mem
      (zgemm_tile ta tb N N (if ta = CblasNoTrans then N else Kd) (if ta = CblasNoTrans then Kd else N)
         al Ah lda Bh ldb be Ch ldc m n)
      (tile_act NB NB m n (\<lambda>i j c. if Kd = 0 then c else be * c + al *
         (\<Sum>l<Kd. op_el ta (view mem A lda) i l * op_el tb (view mem B ldb) l j)))"
    by (rule zgemm_tile_elementwise [OF K t lay mn])
  have dims: "d_mt Ch = d_nt Ch" "d_mb Ch = d_nb Ch"
    using lay by (auto simp: gemm_layout_def Let_def descr_of_def)
  show ?thesis
    using z
    by (cases "ta = CblasNoTrans"; cases "tb = CblasNoTrans")
       (auto simp: zgemmt_tile_def zgemm_tile_def Let_def insert_defs dims exec_gemmt_is_gemm
          elim!: elementwise_same_exec simp del: exec_task.simps)
qed


lemma zgemmt_tasks_elementwise:
  assumes K: "gemm_ok K" and t: "valid_trans ta" "valid_trans tb" and uplo: "uplo = 0 \<or> valid_uplo uplo"
    and lay: "gemm_layout ta tb N N Kd NB Ah A lda Bh B ldb Ch C ldc"
  obtains ts where "zgemmt_tasks uplo ta tb N (if ta = CblasNoTrans then N else Kd)
      (if ta = CblasNoTrans then Kd else N) al Ah lda Bh ldb be Ch ldc = Some ts"
    "elementwise K J C ldc N N mem ts
      (\<lambda>i j c. if Kd = 0 \<or> \<not> gemmt_covers uplo NB i j then c else be * c + al *
         (\<Sum>l<Kd. op_el ta (view mem A lda) i l * op_el tb (view mem B ldb) l j))"
proof -
  let ?G = "\<lambda>i j c. if Kd = 0 then c else be * c + al *
         (\<Sum>l<Kd. op_el ta (view mem A lda) i l * op_el tb (view mem B ldb) l j)"
  let ?T = "\<lambda>m n. zgemmt_tile uplo ta tb N (if ta = CblasNoTrans then N else Kd)
      (if ta = CblasNoTrans then Kd else N) al Ah lda Bh ldb be Ch ldc m n"
  let ?lo = "\<lambda>m. if uplo = CblasUpper then m else 0" and ?hi = "\<lambda>m. if uplo = CblasLower then m + 1 else d_nt Ch"
  have NB: "0 < NB" and ldc: "N \<le> ldc" and Ch: "descr_of Ch C N N ldc NB NB"
    using lay by (auto simp: gemm_layout_def Let_def)
  note dims = descr_of_dims [OF Ch]
  have range: "gemmt_range uplo m (d_nt Ch) = Some (?lo m, ?hi m)" for m
    using uplo by (auto simp: gemmt_range_def valid_uplo_def enum_simps)
  then have ts: "zgemmt_tasks uplo ta tb N (if ta = CblasNoTrans then N else Kd)
      (if ta = CblasNoTrans then Kd else N) al Ah lda Bh ldb be Ch ldc =
      Some (concat (map (\<lambda>m. concat (map (?T m) [?lo m..<?hi m])) [0..<d_mt Ch]))"
    unfolding zgemmt_tasks_def by simp
  have tile: "elementwise K J C ldc N N mem (?T m n) (tile_act NB NB m n ?G)"
    if "m \<in> set [0..<d_mt Ch]" "n \<in> set [?lo m..<?hi m]" for m n
    using that dims by (intro gemmt_tile_elementwise [OF K t lay]) (auto split: if_splits)
  have "elementwise K J C ldc N N mem (concat (map (\<lambda>m. concat (map (?T m) [?lo m..<?hi m])) [0..<d_mt Ch]))
      (\<lambda>i j c. if Kd = 0 \<or> \<not> gemmt_covers uplo NB i j then c else be * c + al *
         (\<Sum>l<Kd. op_el ta (view mem A lda) i l * op_el tb (view mem B ldb) l j))"
  proof (rule elementwise_cong [OF elementwise_concat [OF elementwise_concat [OF tile]] ldc])
    fix i j c assume ij: "i < N" "j < N"
    have "i div NB < d_mt Ch" "j div NB < d_nt Ch"
      using tile_of_index(1) [OF NB ij(1)] tile_of_index(1) [OF NB ij(2)] dims by simp_all
    then have "(i div NB \<in> set [0..<d_mt Ch] \<and> j div NB \<in> set [?lo (i div NB)..<?hi (i div NB)]) = gemmt_covers uplo NB i j"
      using uplo by (auto simp: gemmt_covers_def valid_uplo_def enum_simps)
    then show "fold (\<lambda>m. fold (\<lambda>n. tile_act NB NB m n ?G i j) [?lo m..<?hi m]) [0..<d_mt Ch] c =
        (if Kd = 0 \<or> \<not> gemmt_covers uplo NB i j then c else be * c + al *
         (\<Sum>l<Kd. op_el ta (view mem A lda) i l * op_el tb (view mem B ldb) l j))"
      using fold_sweep [of "[0..<d_mt Ch]" "\<lambda>m. [?lo m..<?hi m]" NB NB "\<lambda>_ _. ?G" i j c] by simp
  qed auto
  with ts show thesis by (rule that)
qed

lemma zgemmt_args_None:
  assumes "zgemmt_args ta tb N K LDA LDB LDC = None"
  shows "valid_trans ta" "valid_trans tb" "0 \<le> N" "0 \<le> K" "\<not> ld_too_small LDC N"
  using assms by (auto simp: zgemmt_args_def valid_trans_def enum_simps split: if_splits)

text \<open>C11. An accepted call of \<open>xkblas_zgemmt_async\<close> with a legal \<open>uplo\<close> updates the entries of the triangle
  to \<open>alpha*op(A)*op(B) + beta*C\<close>, and with them every other entry of the diagonal tiles; the entries
  outside the visited tiles keep their value.\<close>

theorem zgemmt_async_correct:
  assumes "gemm_ok K" and "zgemmt_args ta tb N Kd LDA LDB LDC = None" and "0 < Kd \<or> be = 1"
    and "uplo = 0 \<or> valid_uplo uplo"
    and "LDA \<in> {0..<2 ^ 31}" "LDB \<in> {0..<2 ^ 31}" "LDC \<in> {0..<2 ^ 31}" "N < 2 ^ 31" "Kd < 2 ^ 31"
    and "unregistered ctxt A" "unregistered ctxt B" "unregistered ctxt C"
    and "gemm_operands_apart ta tb N N Kd A LDA B LDB C LDC"
    and "0 < xc_ngpus ctxt" "gpus_registered R KAAPI_LD_GPU c f"
  shows "\<exists>ts ctxt' NB. xkblas_auto_tilesize ctxt KERN_GEMMT (nat N) (nat N) (nat Kd) = Some NB \<and>
    xkblas_zgemmt_async uplo ta tb N Kd al A LDA B LDB be C LDC R ctxt = Returned (ts, ctxt') \<and>
    exec_tasks K J ts mem = store_block C (nat LDC) (nat N) (nat N) (\<lambda>i j.
      if gemmt_covers uplo NB i j
      then gemm_val ta tb (nat Kd) al (view mem A (nat LDA)) (view mem B (nat LDB)) be (view mem C (nat LDC)) i j
      else view mem C (nat LDC) i j) mem"
proof -
  let ?ops = "[(A, nat (op_rows ta N Kd), nat (op_cols ta N Kd), size_of_int LDA),
    (B, nat (op_rows tb Kd N), nat (op_cols tb Kd N), size_of_int LDB), (C, nat N, nat N, size_of_int LDC)]"
  have ld: "size_of_int LDA = nat LDA" "size_of_int LDB = nat LDB" "size_of_int LDC = nat LDC"
    using assms(5-7) by (auto intro!: size_of_int_nonneg simp: SIZE_MOD_def)
  have ldc: "nat N \<le> nat LDC"
    using ld_ok_nonneg [OF zgemmt_args_None(5) [OF assms(2)]] zgemmt_args_None(3) [OF assms(2)] assms by auto
  have "\<exists>NB c'. setup_operands KERN_GEMMT (nat N) (nat N) (nat Kd) ?ops C R ctxt = Some c' \<and> 0 < NB \<and>
    xkblas_auto_tilesize ctxt KERN_GEMMT (nat N) (nat N) (nat Kd) = Some NB \<and>
    (\<forall>(A, M, N, LD) \<in> set ?ops. \<exists>d. xc_descr c' A = Some d \<and> descr_of d A M N LD NB NB)"
    using assms(10-13) by (intro setup_operands_ok [OF _ _ _ _ _ assms(14,15)]) (auto simp: gemm_operands_apart_def)
  then obtain NB c' Ah Bh Ch where su: "setup_operands KERN_GEMMT (nat N) (nat N) (nat Kd) ?ops C R ctxt = Some c'"
    and NB: "0 < NB" "xkblas_auto_tilesize ctxt KERN_GEMMT (nat N) (nat N) (nat Kd) = Some NB"
    and d: "xc_descr c' A = Some Ah" "xc_descr c' B = Some Bh" "xc_descr c' C = Some Ch"
    and dof: "descr_of Ah A (nat (op_rows ta N Kd)) (nat (op_cols ta N Kd)) (nat LDA) NB NB"
      "descr_of Bh B (nat (op_rows tb Kd N)) (nat (op_cols tb Kd N)) (nat LDB) NB NB"
      "descr_of Ch C (nat N) (nat N) (nat LDC) NB NB"
    by (auto simp: ld)
  have lay: "gemm_layout ta tb (nat N) (nat N) (nat Kd) NB Ah A (nat LDA) Bh B (nat LDB) Ch C (nat LDC)"
    using NB dof assms(13) ldc by (auto simp: gemm_layout_def Let_def gemm_operands_apart_def op_rows_def op_cols_def)
  show ?thesis
  proof (cases "N = 0 \<or> ((al = 0 \<or> Kd = 0) \<and> be = 1)")
    case True
    have "mem = store_block C (nat LDC) (nat N) (nat N) (\<lambda>i j. if gemmt_covers uplo NB i j
      then gemm_val ta tb (nat Kd) al (view mem A (nat LDA)) (view mem B (nat LDB)) be (view mem C (nat LDC)) i j
      else view mem C (nat LDC) i j) mem"
      using True ldc by (intro store_block_eqI) (auto simp: gemm_val_def view_def)
    then show ?thesis using True assms(2) NB by (simp add: xkblas_zgemmt_async_def)
  next
    case False
    obtain ts where ts: "zgemmt_tasks uplo ta tb (nat N) (if ta = CblasNoTrans then nat N else nat Kd)
      (if ta = CblasNoTrans then nat Kd else nat N) al Ah (nat LDA) Bh (nat LDB) be Ch (nat LDC) = Some ts"
      and el: "elementwise K J C (nat LDC) (nat N) (nat N) mem ts
      (\<lambda>i j c. if nat Kd = 0 \<or> \<not> gemmt_covers uplo NB i j then c else be * c + al *
         (\<Sum>l<nat Kd. op_el ta (view mem A (nat LDA)) i l * op_el tb (view mem B (nat LDB)) l j))"
      using zgemmt_tasks_elementwise [OF assms(1) zgemmt_args_None(1,2) [OF assms(2)] assms(4) lay] by blast
    have call: "xkblas_zgemmt_async uplo ta tb N Kd al A LDA B LDB be C LDC R ctxt = Returned (ts, c')"
      using False assms(2) su d ts
      by (auto simp: xkblas_zgemmt_async_def Let_def ld op_rows_def op_cols_def)
    have "exec_tasks K J ts mem = store_block C (nat LDC) (nat N) (nat N) (\<lambda>i j. if gemmt_covers uplo NB i j
      then gemm_val ta tb (nat Kd) al (view mem A (nat LDA)) (view mem B (nat LDB)) be (view mem C (nat LDC)) i j
      else view mem C (nat LDC) i j) mem"
      unfolding elementwise_run [OF el ldc] using ldc assms(3)
      by (intro store_block_cong) (auto simp: gemm_val_def)
    with call NB show ?thesis by blast
  qed
qed

theorem zgemmt_async_correct_witness:
  "\<exists>ts ctxt' NB. xkblas_auto_tilesize (empty_ctx 2) KERN_GEMMT 3 3 2 = Some NB \<and>
    xkblas_zgemmt_async 122 111 112 3 2 2 16 3 1000 3 5 2000 4 one_gpu_reg (empty_ctx 2) = Returned (ts, ctxt') \<and>
    exec_tasks (ref_blas (\<lambda>_ _ _ _ _ _ _ _ B. B)) (\<lambda>_ _ _. 7) ts (\<lambda>_. 1) = store_block 2000 4 3 3 (\<lambda>i j.
      if gemmt_covers 122 NB i j
      then gemm_val 111 112 2 2 (view (\<lambda>_. 1) 16 3) (view (\<lambda>_. 1) 1000 3) 5 (view (\<lambda>_. 1) 2000 4) i j
      else view (\<lambda>_. 1) 2000 4 i j) (\<lambda>_. 1)"
  using zgemmt_async_correct [of "ref_blas (\<lambda>_ _ _ _ _ _ _ _ B. B)" 111 112 3 2 3 3 4 5 122 "empty_ctx 2"
      16 1000 2000 one_gpu_reg 1 "\<lambda>_. 1" 2 "\<lambda>_ _ _. 7" "\<lambda>_. 1"]
  by (simp add: zgemmt_args_def ld_too_small_def size_of_int_def SIZE_MOD_def op_rows_def op_cols_def valid_uplo_def
        enum_simps gemm_operands_apart_def arrays_disjoint_ranges ELTSIZE_def one_gpu_registered [simplified]
        cong: if_cong)

end
