(* ===== verification/Rank_K.thy ===== *)
theory Rank_K
  imports Gemm
begin

text \<open>
  \<open>blas/zsyrk.c\<close> and \<open>blas/zherk.c\<close>: the rank-k updates of one triangle of \<open>C\<close>. For each tile
  column \<open>n\<close> the code inserts the syrk (herk) tasks of the diagonal tile, then gemm tasks for the other
  tiles of the triangle. The two files have the same loops; they differ in the second transposition
  (\<open>CblasTrans\<close> or \<open>CblasConjTrans\<close>) and in the type of the scalars.
\<close>

section \<open>The calls\<close>

definition zsyrk_args :: "int \<Rightarrow> int \<Rightarrow> int \<Rightarrow> int \<Rightarrow> int \<Rightarrow> int \<Rightarrow> nat option" where
  "zsyrk_args uplo trn N K LDA LDC =
     (if uplo \<noteq> CblasUpper \<and> uplo \<noteq> CblasLower then Some 1
      else if trn \<noteq> CblasNoTrans \<and> trn \<noteq> CblasTrans then Some 2
      else if N < 0 then Some 3
      else if K < 0 then Some 4
      else if ld_too_small LDA (op_rows trn N K) then Some 7
      else if ld_too_small LDC N then Some 10
      else None)"

definition zherk_args :: "int \<Rightarrow> int \<Rightarrow> int \<Rightarrow> int \<Rightarrow> int \<Rightarrow> int \<Rightarrow> nat option" where
  "zherk_args uplo trn N K LDA LDC =
     (if uplo \<noteq> CblasUpper \<and> uplo \<noteq> CblasLower then Some 1
      else if trn \<noteq> CblasNoTrans \<and> trn \<noteq> CblasConjTrans then Some 2
      else if N < 0 then Some 3
      else if K < 0 then Some 4
      else if ld_too_small LDA (op_rows trn N K) then Some 7
      else if ld_too_small LDC N then Some 10
      else None)"

text \<open>The loop over \<open>k\<close> on the diagonal tile \<open>(n,n)\<close>.\<close>

definition zsyrk_diag ::
  "int \<Rightarrow> int \<Rightarrow> complex \<Rightarrow> matrix_descr \<Rightarrow> nat \<Rightarrow> complex \<Rightarrow> matrix_descr \<Rightarrow> nat \<Rightarrow> nat \<Rightarrow> task list" where
  "zsyrk_diag uplo trn alpha Ah LDA beta Ch LDC n =
     (let tempnn = tile_dim (d_nt Ch) (d_N Ch) (d_nb Ch) n in
      if trn = CblasNoTrans then
        map (\<lambda>k. let tempkn = tile_dim (d_nt Ah) (d_N Ah) (d_nb Ah) k;
                     zbeta = (if k = 0 then beta else 1) in
          INSERT_TASK_zsyrk uplo trn tempnn tempkn alpha Ah n k LDA zbeta Ch n n LDC) [0..<d_nt Ah]
      else
        map (\<lambda>k. let tempkm = tile_dim (d_mt Ah) (d_M Ah) (d_mb Ah) k;
                     zbeta = (if k = 0 then beta else 1) in
          INSERT_TASK_zsyrk uplo trn tempnn tempkm alpha Ah k n LDA zbeta Ch n n LDC) [0..<d_mt Ah])"

definition zherk_diag ::
  "int \<Rightarrow> int \<Rightarrow> real \<Rightarrow> matrix_descr \<Rightarrow> nat \<Rightarrow> real \<Rightarrow> matrix_descr \<Rightarrow> nat \<Rightarrow> nat \<Rightarrow> task list" where
  "zherk_diag uplo trn alpha Ah LDA beta Ch LDC n =
     (let tempnn = tile_dim (d_nt Ch) (d_N Ch) (d_nb Ch) n in
      if trn = CblasNoTrans then
        map (\<lambda>k. let tempkn = tile_dim (d_nt Ah) (d_N Ah) (d_nb Ah) k;
                     dbeta = (if k = 0 then beta else 1) in
          INSERT_TASK_zherk uplo trn tempnn tempkn alpha Ah n k LDA dbeta Ch n n LDC) [0..<d_nt Ah]
      else
        map (\<lambda>k. let tempkm = tile_dim (d_mt Ah) (d_M Ah) (d_mb Ah) k;
                     dbeta = (if k = 0 then beta else 1) in
          INSERT_TASK_zherk uplo trn tempnn tempkm alpha Ah k n LDA dbeta Ch n n LDC) [0..<d_mt Ah])"

text \<open>The loop over \<open>k\<close> of the gemm tasks for column \<open>n\<close> and the other tile index \<open>m\<close>: the tile is
  \<open>C(m,n)\<close> in the lower triangle and \<open>C(n,m)\<close> in the upper one. \<open>tr2\<close> is the transposition of the
  second operand in the case \<open>trans == CblasNoTrans\<close>.\<close>

definition rank_k_off ::
  "int \<Rightarrow> int \<Rightarrow> int \<Rightarrow> complex \<Rightarrow> matrix_descr \<Rightarrow> nat \<Rightarrow> complex \<Rightarrow> matrix_descr \<Rightarrow> nat \<Rightarrow> nat \<Rightarrow> nat \<Rightarrow> task list" where
  "rank_k_off tr2 uplo trn alpha Ah LDA beta Ch LDC n m =
     (let tempnn = tile_dim (d_nt Ch) (d_N Ch) (d_nb Ch) n;
          tempmm = tile_dim (d_mt Ch) (d_M Ch) (d_mb Ch) m in
      if trn = CblasNoTrans then
        (if uplo = CblasLower then
           map (\<lambda>k. let tempkn = tile_dim (d_nt Ah) (d_N Ah) (d_nb Ah) k;
                        zbeta = (if k = 0 then beta else 1) in
             INSERT_TASK_zgemm trn tr2 tempmm tempnn tempkn alpha Ah m k LDA Ah n k LDA zbeta Ch m n LDC)
             [0..<d_nt Ah]
         else
           map (\<lambda>k. let tempkn = tile_dim (d_nt Ah) (d_N Ah) (d_nb Ah) k;
                        zbeta = (if k = 0 then beta else 1) in
             INSERT_TASK_zgemm trn tr2 tempnn tempmm tempkn alpha Ah n k LDA Ah m k LDA zbeta Ch n m LDC)
             [0..<d_nt Ah])
      else
        (if uplo = CblasLower then
           map (\<lambda>k. let tempkm = tile_dim (d_mt Ah) (d_M Ah) (d_mb Ah) k;
                        zbeta = (if k = 0 then beta else 1) in
             INSERT_TASK_zgemm trn CblasNoTrans tempmm tempnn tempkm alpha Ah k m LDA Ah k n LDA zbeta Ch m n LDC)
             [0..<d_mt Ah]
         else
           map (\<lambda>k. let tempkm = tile_dim (d_mt Ah) (d_M Ah) (d_mb Ah) k;
                        zbeta = (if k = 0 then beta else 1) in
             INSERT_TASK_zgemm trn CblasNoTrans tempnn tempmm tempkm alpha Ah k n LDA Ah k m LDA zbeta Ch n m LDC)
             [0..<d_mt Ah]))"

definition zsyrk_tasks ::
  "int \<Rightarrow> int \<Rightarrow> complex \<Rightarrow> matrix_descr \<Rightarrow> nat \<Rightarrow> complex \<Rightarrow> matrix_descr \<Rightarrow> nat \<Rightarrow> task list" where
  "zsyrk_tasks uplo trn alpha Ah LDA beta Ch LDC =
     concat (map (\<lambda>n. zsyrk_diag uplo trn alpha Ah LDA beta Ch LDC n @
       concat (map (rank_k_off CblasTrans uplo trn alpha Ah LDA beta Ch LDC n) [n + 1..<d_mt Ch]))
       [0..<d_nt Ch])"

definition zherk_tasks ::
  "int \<Rightarrow> int \<Rightarrow> real \<Rightarrow> matrix_descr \<Rightarrow> nat \<Rightarrow> real \<Rightarrow> matrix_descr \<Rightarrow> nat \<Rightarrow> task list" where
  "zherk_tasks uplo trn alpha Ah LDA beta Ch LDC =
     concat (map (\<lambda>n. zherk_diag uplo trn alpha Ah LDA beta Ch LDC n @
       concat (map (rank_k_off CblasConjTrans uplo trn (complex_of_real alpha) Ah LDA
                      (complex_of_real beta) Ch LDC n) [n + 1..<d_mt Ch]))
       [0..<d_nt Ch])"

definition xkblas_zsyrk_async ::
  "int \<Rightarrow> int \<Rightarrow> int \<Rightarrow> int \<Rightarrow> complex \<Rightarrow> nat \<Rightarrow> int \<Rightarrow> complex \<Rightarrow> nat \<Rightarrow> int \<Rightarrow> ldreg \<Rightarrow> xk_ctx
     \<Rightarrow> (task list \<times> xk_ctx) outcome" where
  "xkblas_zsyrk_async uplo trn N K alpha A LDA beta C LDC R ctxt =
     (case zsyrk_args uplo trn N K LDA LDC of
        Some c \<Rightarrow> Aborted c
      | None \<Rightarrow>
          if N = 0 \<or> ((alpha = 0 \<or> K = 0) \<and> beta = 1) then Returned ([], ctxt)
          else let Am = nat (op_rows trn N K); An = nat (op_cols trn N K) in
            (case setup_operands KERN_SYRK (nat N) (nat K) Am
                    [(A, Am, An, size_of_int LDA), (C, nat N, nat N, size_of_int LDC)] C R ctxt of
               None \<Rightarrow> Trapped
             | Some c5 \<Rightarrow>
                 Returned (zsyrk_tasks uplo trn alpha (the (xc_descr c5 A)) (size_of_int LDA)
                   beta (the (xc_descr c5 C)) (size_of_int LDC), c5)))"

definition xkblas_zherk_async ::
  "int \<Rightarrow> int \<Rightarrow> int \<Rightarrow> int \<Rightarrow> real \<Rightarrow> nat \<Rightarrow> int \<Rightarrow> real \<Rightarrow> nat \<Rightarrow> int \<Rightarrow> ldreg \<Rightarrow> xk_ctx
     \<Rightarrow> (task list \<times> xk_ctx) outcome" where
  "xkblas_zherk_async uplo trn N K alpha A LDA beta C LDC R ctxt =
     (case zherk_args uplo trn N K LDA LDC of
        Some c \<Rightarrow> Aborted c
      | None \<Rightarrow>
          if N = 0 \<or> ((alpha = 0 \<or> K = 0) \<and> beta = 1) then Returned ([], ctxt)
          else let Am = nat (op_rows trn N K); An = nat (op_cols trn N K) in
            (case setup_operands KERN_HERK (nat N) (nat K) Am
                    [(A, Am, An, size_of_int LDA), (C, nat N, nat N, size_of_int LDC)] C R ctxt of
               None \<Rightarrow> Trapped
             | Some c5 \<Rightarrow>
                 Returned (zherk_tasks uplo trn alpha (the (xc_descr c5 A)) (size_of_int LDA)
                   beta (the (xc_descr c5 C)) (size_of_int LDC), c5)))"

section \<open>The off-diagonal tiles\<close>

definition rank_layout :: "int \<Rightarrow> nat \<Rightarrow> nat \<Rightarrow> nat \<Rightarrow> matrix_descr \<Rightarrow> nat \<Rightarrow> nat \<Rightarrow> matrix_descr \<Rightarrow> nat \<Rightarrow> nat \<Rightarrow> bool" where
  "rank_layout trn N Kd NB Ah A lda Ch C ldc \<longleftrightarrow>
     0 < NB \<and> N \<le> ldc \<and>
     (let Am = (if trn = CblasNoTrans then N else Kd); An = (if trn = CblasNoTrans then Kd else N) in
      descr_of Ah A Am An lda NB NB \<and> descr_of Ch C N N ldc NB NB \<and>
      arrays_disjoint A lda Am An C ldc N N)"

text \<open>The term \<open>l\<close> of entry \<open>(i,j)\<close> of \<open>op(A)*op2(A)\<close>.\<close>

definition rank_term :: "int \<Rightarrow> int \<Rightarrow> cmat \<Rightarrow> nat \<Rightarrow> nat \<Rightarrow> nat \<Rightarrow> complex" where
  "rank_term tr2 trn A i j l =
     (if trn = CblasNoTrans then A i l * op_el tr2 A l j else op_el trn A i l * A l j)"

lemma rank_k_off_elementwise:
  assumes K: "gemm_ok K" and t: "tr2 = CblasTrans \<or> tr2 = CblasConjTrans" "trn = CblasNoTrans \<or> trn = tr2"
    and uplo: "valid_uplo uplo" and lay: "rank_layout trn N Kd NB Ah A lda Ch C ldc"
    and mn: "n < d_nt Ch" "m < d_mt Ch"
  shows "elementwise K J C ldc N N mem (rank_k_off tr2 uplo trn al Ah lda be Ch ldc n m)
      (tile_act NB NB (if uplo = CblasLower then m else n) (if uplo = CblasLower then n else m)
        (\<lambda>i j c. if Kd = 0 then c else be * c + al * (\<Sum>l<Kd. rank_term tr2 trn (view mem A lda) i j l)))"
proof -
  let ?Am = "if trn = CblasNoTrans then N else Kd" and ?An = "if trn = CblasNoTrans then Kd else N"
  have NB: "0 < NB" and ldc: "N \<le> ldc" and Ah: "descr_of Ah A ?Am ?An lda NB NB"
    and Ch: "descr_of Ch C N N ldc NB NB" and dA: "arrays_disjoint A lda ?Am ?An C ldc N N"
    using lay by (auto simp: rank_layout_def Let_def)
  note dims = descr_of_dims [OF Ah] descr_of_dims [OF Ch]
  have MN: "d_M Ah = ?Am" "d_N Ah = ?An" "d_M Ch = N" "d_N Ch = N" using Ah Ch by (auto simp: descr_of_def)
  note data = descr_of_data [OF Ah] descr_of_data [OF Ch]
  let ?tb = "if trn = CblasNoTrans then tr2 else CblasNoTrans"
  have vt: "valid_trans trn" "valid_trans ?tb" and ne: "tr2 \<noteq> CblasNoTrans"
    using t by (auto simp: valid_trans_def enum_simps)
  have dB: "arrays_disjoint A lda (if ?tb = CblasNoTrans then Kd else N) (if ?tb = CblasNoTrans then N else Kd) C ldc N N"
    using dA ne by (auto split: if_splits)
  let ?r = "if uplo = CblasLower then m else n" and ?c = "if uplo = CblasLower then n else m"
  have rc: "?r < xkblas_num_of_tiles N NB" "?c < xkblas_num_of_tiles N NB" using mn dims by auto
  have trm: "op_el trn Z i l * op_el ?tb Z l j = rank_term tr2 trn Z i j l" for Z i j l
    by (simp add: rank_term_def op_el_def)
  have hA: "h_data (if trn = CblasNoTrans then xkblas_get_handle Ah ?r k else xkblas_get_handle Ah k ?r) =
      A + (if trn = CblasNoTrans then ?r * NB + k * NB * lda else k * NB + ?r * NB * lda) * ELTSIZE"
    if "k < xkblas_num_of_tiles Kd NB" for k using that rc dims by (simp add: data split: if_splits)
  have hB: "h_data (if trn = CblasNoTrans then xkblas_get_handle Ah ?c k else xkblas_get_handle Ah k ?c) =
      A + (if ?tb = CblasNoTrans then k * NB + ?c * NB * lda else ?c * NB + k * NB * lda) * ELTSIZE"
    if "k < xkblas_num_of_tiles Kd NB" for k using that rc dims ne by (auto simp: data split: if_splits)
  have hC: "h_data (xkblas_get_handle Ch ?r ?c) = C + (?r * NB + ?c * NB * ldc) * ELTSIZE"
    using rc dims by (simp add: data)
  show ?thesis
    using gemm_k_loop [OF K vt NB ldc dA dB rc refl hC hA hB, of J mem al be]
    unfolding trm
    by (cases "trn = CblasNoTrans"; cases "uplo = CblasLower")
       (simp_all add: rank_k_off_def insert_defs Let_def dims MN)
qed


section \<open>The diagonal tiles\<close>

text \<open>What a syrk task chain makes of an entry of a diagonal tile whose device copy held \<open>Jv\<close>: the
  triangle is updated; the other triangle keeps the host value, unless the first task has mode \<open>W\<close>
  (\<open>beta = 0\<close>), in which case the tile was not copied to the device.\<close>

definition syrk_diag_val :: "int \<Rightarrow> complex \<Rightarrow> complex \<Rightarrow> nat \<Rightarrow> nat \<Rightarrow> complex \<Rightarrow> complex \<Rightarrow> complex" where
  "syrk_diag_val uplo be s i j Jv c =
     (if in_tri uplo i j then be * c + s else if be = 0 then Jv else c)"

lemma elementwise_syrk:
  assumes K: "syrk_ok K" and u: "valid_uplo uplo" and t: "trn = CblasNoTrans \<or> trn = CblasTrans"
    and geo: "tile_of N N NB NB n n tn tn" and ldc: "N \<le> ldc"
    and C: "h_data hC = C + (n * NB + n * NB * ldc) * ELTSIZE"
    and A: "h_data hA = A + (if trn = CblasNoTrans then n * NB + k0 * lda else k0 + n * NB * lda) * ELTSIZE"
    and dA: "arrays_disjoint A lda MA NA C ldc N N"
      "if trn = CblasNoTrans then N \<le> MA \<and> k0 + tk \<le> NA else k0 + tk \<le> MA \<and> N \<le> NA"
  shows "elementwise K J C ldc N N mem [TSyrk uplo trn tn tk al hA lda be hC ldc]
           (tile_act NB NB n n (\<lambda>i j c. syrk_diag_val uplo be
              (al * (\<Sum>l<tk. rank_term CblasTrans trn (view mem A lda) i j (k0 + l))) i j
              (J (h_data hC) (i - n * NB) (j - n * NB)) c))"
proof (rule elementwise_store [OF _ geo ldc,
    where F = "\<lambda>mem'. kb_syrk K uplo trn tn tk al (view mem' (h_data hA) lda) be (acquired J (w_or_rw be) mem' hC ldc)"])
  fix X i j assume ij: "i < tn" "j < tn"
  let ?mem = "store_block C ldc N N X mem"
  let ?old = "acquired J (w_or_rw be) ?mem hC ldc"
  note fits = tile_of_fits [OF geo]
  have im: "n * NB + i < N" "n * NB + j < N" using fits ij by auto
  have s: "(if trn = CblasNoTrans then (\<Sum>l<tk. view ?mem (h_data hA) lda i l * view ?mem (h_data hA) lda j l)
      else (\<Sum>l<tk. view ?mem (h_data hA) lda l i * view ?mem (h_data hA) lda l j))
    = (\<Sum>l<tk. rank_term CblasTrans trn (view mem A lda) (n * NB + i) (n * NB + j) (k0 + l))"
    using t dA im ldc
    by (auto simp: A rank_term_def op_el_def enum_simps view_operand intro!: sum.cong)
  have old: "?old i j = (if be = 0 then J (h_data hC) i j else X (n * NB + i) (n * NB + j))"
    using im ldc by (simp add: acquired_def w_or_rw_def amode_defs C view_result)
  have "kb_syrk K uplo trn tn tk al (view ?mem (h_data hA) lda) be ?old i j =
        only_tri uplo (syrk_val trn tk al (view ?mem (h_data hA) lda) be ?old) ?old i j"
    using K u t ij by (auto simp: syrk_ok_def agree_on_def)
  then show "kb_syrk K uplo trn tn tk al (view ?mem (h_data hA) lda) be ?old i j =
     syrk_diag_val uplo be (al * (\<Sum>l<tk. rank_term CblasTrans trn (view mem A lda) (n * NB + i) (n * NB + j) (k0 + l)))
       (n * NB + i) (n * NB + j) (J (h_data hC) (n * NB + i - n * NB) (n * NB + j - n * NB)) (X (n * NB + i) (n * NB + j))"
    by (simp add: only_tri_def syrk_val_def syrk_diag_val_def in_tri_shift old s)
qed (simp add: C zsyrk_body_def)

lemma fold_syrk_diag:
  "fold (\<lambda>k. syrk_diag_val uplo (if k = 0 then be else 1) (S k) i j Jv) [0..<n] c =
     (if n = 0 then c else syrk_diag_val uplo be (\<Sum>k<n. S k) i j Jv c)"
  by (induction n) (auto simp: syrk_diag_val_def algebra_simps)

lemma syrk_diag_elementwise:
  assumes K: "syrk_ok K" and t: "trn = CblasNoTrans \<or> trn = CblasTrans"
    and uplo: "valid_uplo uplo" and lay: "rank_layout trn N Kd NB Ah A lda Ch C ldc" and n: "n < d_nt Ch"
  shows "elementwise K J C ldc N N mem (zsyrk_diag uplo trn al Ah lda be Ch ldc n)
      (tile_act NB NB n n (\<lambda>i j c. if Kd = 0 then c else syrk_diag_val uplo be
         (al * (\<Sum>l<Kd. rank_term CblasTrans trn (view mem A lda) i j l)) i j
         (J (C + (n * NB + n * NB * ldc) * ELTSIZE) (i - n * NB) (j - n * NB)) c))"
proof -
  let ?Am = "if trn = CblasNoTrans then N else Kd" and ?An = "if trn = CblasNoTrans then Kd else N"
  let ?kt = "xkblas_num_of_tiles Kd NB" and ?tn = "tile_dim (xkblas_num_of_tiles N NB) N NB n"
  let ?f = "\<lambda>i j. rank_term CblasTrans trn (view mem A lda) i j"
  have NB: "0 < NB" and ldc: "N \<le> ldc" and Ah: "descr_of Ah A ?Am ?An lda NB NB"
    and Ch: "descr_of Ch C N N ldc NB NB" and dA: "arrays_disjoint A lda ?Am ?An C ldc N N"
    using lay by (auto simp: rank_layout_def Let_def)
  note dims = descr_of_dims [OF Ah] descr_of_dims [OF Ch]
  have MN: "d_M Ah = ?Am" "d_N Ah = ?An" "d_M Ch = N" "d_N Ch = N" using Ah Ch by (auto simp: descr_of_def)
  have geo: "tile_of N N NB NB n n ?tn ?tn" using NB n dims by (simp add: tile_of_def)
  have hC: "h_data (xkblas_get_handle Ch n n) = C + (n * NB + n * NB * ldc) * ELTSIZE"
    using n dims by (simp add: descr_of_data [OF Ch])
  let ?hA = "\<lambda>k. if trn = CblasNoTrans then xkblas_get_handle Ah n k else xkblas_get_handle Ah k n"
  have one: "elementwise K J C ldc N N mem [TSyrk uplo trn ?tn (tile_dim ?kt Kd NB k) al (?hA k) lda
        (if k = 0 then be else 1) (xkblas_get_handle Ch n n) ldc]
      (tile_act NB NB n n (\<lambda>i j c. syrk_diag_val uplo (if k = 0 then be else 1)
        (al * (\<Sum>l<tile_dim ?kt Kd NB k. ?f i j (k * NB + l))) i j
        (J (C + (n * NB + n * NB * ldc) * ELTSIZE) (i - n * NB) (j - n * NB)) c))" if k: "k \<in> set [0..<?kt]" for k
  proof -
    have kb: "k * NB + tile_dim ?kt Kd NB k \<le> Kd" using k NB by (simp add: tile_dim_bound)
    have hA: "h_data (?hA k) = A + (if trn = CblasNoTrans then n * NB + k * NB * lda else k * NB + n * NB * lda) * ELTSIZE"
      using k n dims by (simp add: descr_of_data [OF Ah])
    show ?thesis
      using elementwise_syrk [OF K uplo t geo ldc hC hA dA(1), of "tile_dim ?kt Kd NB k"] kb
      by (simp add: hC)
  qed
  have "elementwise K J C ldc N N mem (map (\<lambda>k. TSyrk uplo trn ?tn (tile_dim ?kt Kd NB k) al (?hA k) lda
        (if k = 0 then be else 1) (xkblas_get_handle Ch n n) ldc) [0..<?kt])
      (tile_act NB NB n n (\<lambda>i j c. if Kd = 0 then c else syrk_diag_val uplo be (al * (\<Sum>l<Kd. ?f i j l)) i j
         (J (C + (n * NB + n * NB * ldc) * ELTSIZE) (i - n * NB) (j - n * NB)) c))"
  proof (rule elementwise_cong [OF elementwise_map [OF one] ldc])
    fix i j c
    have "?kt = 0 \<longleftrightarrow> Kd = 0" using num_tiles_pos [OF NB, of Kd] by auto
    then show "fold (\<lambda>k. tile_act NB NB n n (\<lambda>i j c. syrk_diag_val uplo (if k = 0 then be else 1)
        (al * (\<Sum>l<tile_dim ?kt Kd NB k. ?f i j (k * NB + l))) i j
        (J (C + (n * NB + n * NB * ldc) * ELTSIZE) (i - n * NB) (j - n * NB)) c) i j) [0..<?kt] c =
      tile_act NB NB n n (\<lambda>i j c. if Kd = 0 then c else syrk_diag_val uplo be (al * (\<Sum>l<Kd. ?f i j l)) i j
         (J (C + (n * NB + n * NB * ldc) * ELTSIZE) (i - n * NB) (j - n * NB)) c) i j c"
      unfolding fold_tile_act by (simp add: fold_syrk_diag tile_act_def sum_tiles_scaled [OF NB])
  qed
  then show ?thesis
    by (cases "trn = CblasNoTrans") (simp_all add: zsyrk_diag_def insert_defs Let_def dims MN)
qed


text \<open>The same for herk. Its tasks have mode \<open>RW\<close>; they make the diagonal real, except in a call with
  nothing to do.\<close>

definition real_if :: "bool \<Rightarrow> complex \<Rightarrow> complex" where
  "real_if b c = (if b then complex_of_real (Re c) else c)"

definition herk_diag_val :: "int \<Rightarrow> real \<Rightarrow> bool \<Rightarrow> complex \<Rightarrow> nat \<Rightarrow> nat \<Rightarrow> complex \<Rightarrow> complex" where
  "herk_diag_val uplo be skip s i j c =
     (if in_tri uplo i j \<and> \<not> (skip \<and> be = 1) then complex_of_real be * real_if (i = j) c + s else c)"

lemma elementwise_herk:
  assumes K: "herk_ok K" and u: "valid_uplo uplo" and t: "trn = CblasNoTrans \<or> trn = CblasConjTrans"
    and geo: "tile_of N N NB NB n n tn tn" and ldc: "N \<le> ldc"
    and C: "h_data hC = C + (n * NB + n * NB * ldc) * ELTSIZE"
    and A: "h_data hA = A + (if trn = CblasNoTrans then n * NB + k0 * lda else k0 + n * NB * lda) * ELTSIZE"
    and dA: "arrays_disjoint A lda MA NA C ldc N N"
      "if trn = CblasNoTrans then N \<le> MA \<and> k0 + tk \<le> NA else k0 + tk \<le> MA \<and> N \<le> NA"
  shows "elementwise K J C ldc N N mem [THerk uplo trn tn tk al hA lda be hC ldc]
           (tile_act NB NB n n (\<lambda>i j c. herk_diag_val uplo be (al = 0 \<or> tk = 0)
              (complex_of_real al * (\<Sum>l<tk. rank_term CblasConjTrans trn (view mem A lda) i j (k0 + l))) i j c))"
proof (rule elementwise_store [OF _ geo ldc,
    where F = "\<lambda>mem'. kb_herk K uplo trn tn tk al (view mem' (h_data hA) lda) be (view mem' (h_data hC) ldc)"])
  fix X i j assume ij: "i < tn" "j < tn"
  let ?mem = "store_block C ldc N N X mem"
  note fits = tile_of_fits [OF geo]
  have im: "n * NB + i < N" "n * NB + j < N" using fits ij by auto
  have s: "(if trn = CblasNoTrans then (\<Sum>l<tk. view ?mem (h_data hA) lda i l * cnj (view ?mem (h_data hA) lda j l))
      else (\<Sum>l<tk. cnj (view ?mem (h_data hA) lda l i) * view ?mem (h_data hA) lda l j))
    = (\<Sum>l<tk. rank_term CblasConjTrans trn (view mem A lda) (n * NB + i) (n * NB + j) (k0 + l))"
    using t dA im ldc
    by (auto simp: A rank_term_def op_el_def enum_simps view_operand intro!: sum.cong)
  have old: "view ?mem (h_data hC) ldc i j = X (n * NB + i) (n * NB + j)"
    using im ldc by (simp add: C view_result)
  have "kb_herk K uplo trn tn tk al (view ?mem (h_data hA) lda) be (view ?mem (h_data hC) ldc) i j =
        only_tri uplo (herk_val trn tk al (view ?mem (h_data hA) lda) be (view ?mem (h_data hC) ldc))
          (view ?mem (h_data hC) ldc) i j"
    using K u t ij by (auto simp: herk_ok_def agree_on_def)
  then show "kb_herk K uplo trn tn tk al (view ?mem (h_data hA) lda) be (view ?mem (h_data hC) ldc) i j =
     herk_diag_val uplo be (al = 0 \<or> tk = 0)
       (complex_of_real al * (\<Sum>l<tk. rank_term CblasConjTrans trn (view mem A lda) (n * NB + i) (n * NB + j) (k0 + l)))
       (n * NB + i) (n * NB + j) (X (n * NB + i) (n * NB + j))"
    using s old by (auto simp: only_tri_def herk_val_def herk_diag_val_def in_tri_shift real_diag_def real_if_def)
qed (simp add: C zherk_body_def)

text \<open>Later tasks of the chain find a diagonal that is already real.\<close>

lemma fold_herk_diag:
  assumes skip: "\<not> (skip 0 \<and> be = 1)" and S: "\<And>k. k < n \<Longrightarrow> skip k \<Longrightarrow> S k = 0"
    and real: "\<And>k. k < n \<Longrightarrow> i = j \<Longrightarrow> Im (S k) = 0"
  shows "fold (\<lambda>k. herk_diag_val uplo (if k = 0 then be else 1) (skip k) (S k) i j) [0..<n] c =
     (if n = 0 then c else herk_diag_val uplo be False (\<Sum>k<n. S k) i j c)"
proof -
  have "m \<le> n \<Longrightarrow> fold (\<lambda>k. herk_diag_val uplo (if k = 0 then be else 1) (skip k) (S k) i j) [0..<m] c =
     (if m = 0 then c else herk_diag_val uplo be False (\<Sum>k<m. S k) i j c)" for m
  proof (induction m)
    case (Suc m)
    have im: "i = j \<Longrightarrow> Im (\<Sum>k<m. S k) = 0" using real Suc.prems by (simp add: Im_sum)
    show ?case
    proof (cases "m = 0")
      case True then show ?thesis using skip by (auto simp: herk_diag_val_def)
    next
      case False
      have ri: "real_if (i = j) (complex_of_real be * real_if (i = j) c + (\<Sum>k<m. S k)) =
          complex_of_real be * real_if (i = j) c + (\<Sum>k<m. S k)"
        using im by (auto simp: real_if_def complex_eq_iff)
      show ?thesis
        using Suc False S [of m] ri by (auto simp: herk_diag_val_def algebra_simps)
    qed
  qed simp
  then show ?thesis by simp
qed

lemma rank_term_real: "trn = CblasNoTrans \<or> trn = CblasConjTrans \<Longrightarrow> Im (rank_term CblasConjTrans trn A i i l) = 0"
  by (auto simp: rank_term_def op_el_def enum_simps)

lemma herk_diag_elementwise:
  assumes K: "herk_ok K" and t: "trn = CblasNoTrans \<or> trn = CblasConjTrans"
    and uplo: "valid_uplo uplo" and lay: "rank_layout trn N Kd NB Ah A lda Ch C ldc" and n: "n < d_nt Ch"
    and work: "\<not> (al = 0 \<and> be = 1)"
  shows "elementwise K J C ldc N N mem (zherk_diag uplo trn al Ah lda be Ch ldc n)
      (tile_act NB NB n n (\<lambda>i j c. if Kd = 0 then c else herk_diag_val uplo be False
         (complex_of_real al * (\<Sum>l<Kd. rank_term CblasConjTrans trn (view mem A lda) i j l)) i j c))"
proof -
  let ?Am = "if trn = CblasNoTrans then N else Kd" and ?An = "if trn = CblasNoTrans then Kd else N"
  let ?kt = "xkblas_num_of_tiles Kd NB" and ?tn = "tile_dim (xkblas_num_of_tiles N NB) N NB n"
  let ?f = "\<lambda>i j. rank_term CblasConjTrans trn (view mem A lda) i j"
  have NB: "0 < NB" and ldc: "N \<le> ldc" and Ah: "descr_of Ah A ?Am ?An lda NB NB"
    and Ch: "descr_of Ch C N N ldc NB NB" and dA: "arrays_disjoint A lda ?Am ?An C ldc N N"
    using lay by (auto simp: rank_layout_def Let_def)
  note dims = descr_of_dims [OF Ah] descr_of_dims [OF Ch]
  have MN: "d_M Ah = ?Am" "d_N Ah = ?An" "d_M Ch = N" "d_N Ch = N" using Ah Ch by (auto simp: descr_of_def)
  have geo: "tile_of N N NB NB n n ?tn ?tn" using NB n dims by (simp add: tile_of_def)
  have hC: "h_data (xkblas_get_handle Ch n n) = C + (n * NB + n * NB * ldc) * ELTSIZE"
    using n dims by (simp add: descr_of_data [OF Ch])
  let ?hA = "\<lambda>k. if trn = CblasNoTrans then xkblas_get_handle Ah n k else xkblas_get_handle Ah k n"
  let ?skip = "\<lambda>k. al = 0 \<or> tile_dim ?kt Kd NB k = 0"
  have one: "elementwise K J C ldc N N mem [THerk uplo trn ?tn (tile_dim ?kt Kd NB k) al (?hA k) lda
        (if k = 0 then be else 1) (xkblas_get_handle Ch n n) ldc]
      (tile_act NB NB n n (\<lambda>i j c. herk_diag_val uplo (if k = 0 then be else 1) (?skip k)
        (complex_of_real al * (\<Sum>l<tile_dim ?kt Kd NB k. ?f i j (k * NB + l))) i j c))" if k: "k \<in> set [0..<?kt]" for k
  proof -
    have kb: "k * NB + tile_dim ?kt Kd NB k \<le> Kd" using k NB by (simp add: tile_dim_bound)
    have hA: "h_data (?hA k) = A + (if trn = CblasNoTrans then n * NB + k * NB * lda else k * NB + n * NB * lda) * ELTSIZE"
      using k n dims by (simp add: descr_of_data [OF Ah])
    show ?thesis
      using elementwise_herk [OF K uplo t geo ldc hC hA dA(1), of "tile_dim ?kt Kd NB k"] kb by simp
  qed
  have "elementwise K J C ldc N N mem (map (\<lambda>k. THerk uplo trn ?tn (tile_dim ?kt Kd NB k) al (?hA k) lda
        (if k = 0 then be else 1) (xkblas_get_handle Ch n n) ldc) [0..<?kt])
      (tile_act NB NB n n (\<lambda>i j c. if Kd = 0 then c else herk_diag_val uplo be False
         (complex_of_real al * (\<Sum>l<Kd. ?f i j l)) i j c))"
  proof (rule elementwise_cong [OF elementwise_map [OF one] ldc])
    fix i j c
    have kt: "?kt = 0 \<longleftrightarrow> Kd = 0" using num_tiles_pos [OF NB, of Kd] by auto
    have "fold (\<lambda>k. herk_diag_val uplo (if k = 0 then be else 1) (?skip k)
        (complex_of_real al * (\<Sum>l<tile_dim ?kt Kd NB k. ?f i j (k * NB + l))) i j) [0..<?kt] c =
      (if Kd = 0 then c else herk_diag_val uplo be False (complex_of_real al * (\<Sum>l<Kd. ?f i j l)) i j c)"
    proof (cases "Kd = 0")
      case False
      then have "tile_dim ?kt Kd NB 0 \<noteq> 0" using tile_dim_pos [OF NB, of 0 Kd] kt by simp
      then show ?thesis
        using False kt work
        by (subst fold_herk_diag) (auto simp: sum_tiles_scaled [OF NB] rank_term_real [OF t] Im_sum)
    qed (use kt in simp)
    then show "fold (\<lambda>k. tile_act NB NB n n (\<lambda>i j c. herk_diag_val uplo (if k = 0 then be else 1) (?skip k)
        (complex_of_real al * (\<Sum>l<tile_dim ?kt Kd NB k. ?f i j (k * NB + l))) i j c) i j) [0..<?kt] c =
      tile_act NB NB n n (\<lambda>i j c. if Kd = 0 then c else herk_diag_val uplo be False
         (complex_of_real al * (\<Sum>l<Kd. ?f i j l)) i j c) i j c"
      unfolding fold_tile_act by (simp add: tile_act_def)
  qed
  then show ?thesis
    by (cases "trn = CblasNoTrans") (simp_all add: zherk_diag_def insert_defs Let_def dims MN)
qed


section \<open>The sweep over the triangle\<close>

lemma fold_triangle:
  assumes "i div NB < mt" "j div NB < mt"
  shows "fold (\<lambda>n c. fold (\<lambda>m. tile_act NB NB (if lower then m else n) (if lower then n else m) G i j) [n + 1..<mt]
              (tile_act NB NB n n (D n) i j c)) [0..<mt] c =
    (if i div NB = j div NB then D (i div NB) i j c
     else if (lower \<and> j div NB < i div NB) \<or> (\<not> lower \<and> i div NB < j div NB) then G i j c else c)"
proof -
  let ?col = "\<lambda>n c. fold (\<lambda>m. tile_act NB NB (if lower then m else n) (if lower then n else m) G i j) [n + 1..<mt]
              (tile_act NB NB n n (D n) i j c)"
  let ?t = "if lower then j div NB else i div NB" and ?u = "if lower then i div NB else j div NB"
  have row: "fold (\<lambda>m. tile_act NB NB (if lower then m else n) (if lower then n else m) G i j) [n + 1..<mt] c =
      (if n = ?t \<and> n < ?u then G i j c else c)" for n c
    using fold_only_one [of "[n + 1..<mt]" ?u
        "\<lambda>m. tile_act NB NB (if lower then m else n) (if lower then n else m) G i j" c] assms
    by (auto simp: tile_act_def)
  have col: "?col n c = (if n = ?t \<and> n < ?u then G i j c else if n = ?t \<and> n = ?u then D n i j c else c)" for n c
    by (simp only: row) (auto simp: tile_act_def)
  have "fold ?col [0..<mt] c = (if ?t < mt then ?col ?t c else c)"
    by (rule fold_upt_only_one) (simp only: col, auto)
  then show ?thesis using assms col [of ?t c] by auto
qed

text \<open>The entries of the lower (upper) tiles, the diagonal tiles apart.\<close>

definition off_diag :: "int \<Rightarrow> nat \<Rightarrow> nat \<Rightarrow> nat \<Rightarrow> bool" where
  "off_diag uplo NB i j \<longleftrightarrow> (if uplo = CblasLower then j div NB < i div NB else i div NB < j div NB)"

lemma off_diag_tri: "valid_uplo uplo \<Longrightarrow> i div NB \<noteq> j div NB \<Longrightarrow> off_diag uplo NB i j = in_tri uplo i j"
  by (auto simp: off_diag_def in_tri_def valid_uplo_def enum_simps
        dest: div_le_mono [of i j NB] div_le_mono [of j i NB] div_less_less)

lemma triangle_elementwise:
  assumes lay: "rank_layout trn N Kd NB Ah A lda Ch C ldc" and u: "valid_uplo uplo"
    and diag: "\<And>n. n < d_nt Ch \<Longrightarrow> elementwise K J C ldc N N mem (dg n) (tile_act NB NB n n (D n))"
    and off: "\<And>n m. n < d_nt Ch \<Longrightarrow> m < d_mt Ch \<Longrightarrow> elementwise K J C ldc N N mem (og n m)
        (tile_act NB NB (if uplo = CblasLower then m else n) (if uplo = CblasLower then n else m) G)"
  shows "elementwise K J C ldc N N mem
      (concat (map (\<lambda>n. dg n @ concat (map (og n) [n + 1..<d_mt Ch])) [0..<d_nt Ch]))
      (\<lambda>i j c. if i div NB = j div NB then D (i div NB) i j c
               else if in_tri uplo i j then G i j c else c)"
proof -
  have NB: "0 < NB" and ldc: "N \<le> ldc" and Ch: "descr_of Ch C N N ldc NB NB"
    using lay by (auto simp: rank_layout_def Let_def)
  note dims = descr_of_dims [OF Ch]
  have off': "elementwise K J C ldc N N mem (og n m)
        (tile_act NB NB (if uplo = CblasLower then m else n) (if uplo = CblasLower then n else m) G)"
    if "n < d_nt Ch" "m \<in> set [n + 1..<d_mt Ch]" for n m
    using that by (intro off) auto
  have col: "elementwise K J C ldc N N mem (dg n @ concat (map (og n) [n + 1..<d_mt Ch]))
      (\<lambda>i j c. fold (\<lambda>m. tile_act NB NB (if uplo = CblasLower then m else n) (if uplo = CblasLower then n else m) G i j)
         [n + 1..<d_mt Ch] (tile_act NB NB n n (D n) i j c))" if "n \<in> set [0..<d_nt Ch]" for n
    using that by (intro elementwise_append diag elementwise_concat off') auto
  show ?thesis
  proof (rule elementwise_cong [OF elementwise_concat [OF col] ldc])
    fix i j c assume ij: "i < N" "j < N"
    have "i div NB < d_mt Ch" "j div NB < d_mt Ch" "d_nt Ch = d_mt Ch"
      using tile_of_index(1) [OF NB ij(1)] tile_of_index(1) [OF NB ij(2)] dims by simp_all
    then show "fold (\<lambda>n c. fold (\<lambda>m. tile_act NB NB (if uplo = CblasLower then m else n)
        (if uplo = CblasLower then n else m) G i j) [n + 1..<d_mt Ch] (tile_act NB NB n n (D n) i j c)) [0..<d_nt Ch] c =
      (if i div NB = j div NB then D (i div NB) i j c else if in_tri uplo i j then G i j c else c)"
      using fold_triangle [of i NB "d_mt Ch" j "uplo = CblasLower" G D c] off_diag_tri [OF u, of i NB j]
      by (auto simp: off_diag_def)
  qed
qed


section \<open>The calls compute the rank-k update\<close>

lemma sum_rank_term_syrk:
  "trn = CblasNoTrans \<or> trn = CblasTrans \<Longrightarrow>
   (\<Sum>l<k. rank_term CblasTrans trn A i j l) =
     (if trn = CblasNoTrans then (\<Sum>l<k. A i l * A j l) else (\<Sum>l<k. A l i * A l j))"
  by (auto simp: rank_term_def op_el_def enum_simps)

lemma minus_same_tile: "i div NB = j div NB \<Longrightarrow> i - j div NB * NB = i mod (NB::nat)"
  by (metis minus_div_mult_eq_mod)

lemma sum_rank_term_herk:
  "trn = CblasNoTrans \<or> trn = CblasConjTrans \<Longrightarrow>
   (\<Sum>l<k. rank_term CblasConjTrans trn A i j l) =
     (if trn = CblasNoTrans then (\<Sum>l<k. A i l * cnj (A j l)) else (\<Sum>l<k. cnj (A l i) * A l j))"
  by (auto simp: rank_term_def op_el_def enum_simps)

text \<open>What is left in \<open>C\<close> after a syrk call: the triangle updated; in the other triangle of the diagonal
  tiles, the old value or, when \<open>beta = 0\<close>, whatever the device memory held.\<close>

definition syrk_result ::
  "(nat \<Rightarrow> cmat) \<Rightarrow> nat \<Rightarrow> int \<Rightarrow> nat \<Rightarrow> nat \<Rightarrow> complex \<Rightarrow> cmat \<Rightarrow> cmat \<Rightarrow> cmat" where
  "syrk_result J NB uplo C ldc be V old = (\<lambda>i j.
     if in_tri uplo i j then V i j
     else if i div NB = j div NB \<and> be = 0
     then J (C + (i div NB * NB + j div NB * NB * ldc) * ELTSIZE) (i mod NB) (j mod NB)
     else old i j)"

lemma zsyrk_tasks_run:
  assumes K: "gemm_ok K" "syrk_ok K" and t: "trn = CblasNoTrans \<or> trn = CblasTrans" and u: "valid_uplo uplo"
    and lay: "rank_layout trn N Kd NB Ah A lda Ch C ldc" and Kd: "0 < Kd"
  shows "exec_tasks K J (zsyrk_tasks uplo trn al Ah lda be Ch ldc) mem =
    store_block C ldc N N (syrk_result J NB uplo C ldc be
      (syrk_val trn Kd al (view mem A lda) be (view mem C ldc)) (view mem C ldc)) mem"
proof -
  have ldc: "N \<le> ldc" using lay by (simp add: rank_layout_def)
  have tt: "CblasTrans = CblasTrans \<or> CblasTrans = CblasConjTrans" by simp
  have el: "elementwise K J C ldc N N mem (zsyrk_tasks uplo trn al Ah lda be Ch ldc)
      (\<lambda>i j c. if i div NB = j div NB then syrk_diag_val uplo be
         (al * (\<Sum>l<Kd. rank_term CblasTrans trn (view mem A lda) i j l)) i j
         (J (C + (i div NB * NB + i div NB * NB * ldc) * ELTSIZE) (i - i div NB * NB) (j - i div NB * NB)) c
       else if in_tri uplo i j then be * c + al * (\<Sum>l<Kd. rank_term CblasTrans trn (view mem A lda) i j l) else c)"
    unfolding zsyrk_tasks_def
    by (rule elementwise_cong [OF triangle_elementwise [OF lay u syrk_diag_elementwise [OF K(2) t u lay]
          rank_k_off_elementwise [OF K(1) tt t u lay]] ldc]) (use Kd in auto)
  show ?thesis
    unfolding elementwise_run [OF el ldc]
    by (rule store_block_cong [OF ldc])
       (auto simp: syrk_diag_val_def syrk_result_def syrk_val_def sum_rank_term_syrk [OF t] minus_div_mult_eq_mod minus_same_tile)
qed

lemma zherk_tasks_run:
  assumes K: "gemm_ok K" "herk_ok K" and t: "trn = CblasNoTrans \<or> trn = CblasConjTrans" and u: "valid_uplo uplo"
    and lay: "rank_layout trn N Kd NB Ah A lda Ch C ldc" and Kd: "0 < Kd" and work: "\<not> (al = 0 \<and> be = 1)"
  shows "exec_tasks K J (zherk_tasks uplo trn al Ah lda be Ch ldc) mem =
    store_block C ldc N N (only_tri uplo
      (herk_val trn Kd al (view mem A lda) be (view mem C ldc)) (view mem C ldc)) mem"
proof -
  have ldc: "N \<le> ldc" using lay by (simp add: rank_layout_def)
  have tt: "CblasConjTrans = CblasTrans \<or> CblasConjTrans = CblasConjTrans" by simp
  let ?s = "\<lambda>i j. complex_of_real al * (\<Sum>l<Kd. rank_term CblasConjTrans trn (view mem A lda) i j l)"
  have el: "elementwise K J C ldc N N mem (zherk_tasks uplo trn al Ah lda be Ch ldc)
      (\<lambda>i j c. if i div NB = j div NB then herk_diag_val uplo be False (?s i j) i j c
       else if in_tri uplo i j then complex_of_real be * c + ?s i j else c)"
    unfolding zherk_tasks_def
    by (rule elementwise_cong [OF triangle_elementwise [OF lay u herk_diag_elementwise [OF K(2) t u lay _ work]
          rank_k_off_elementwise [OF K(1) tt t u lay]] ldc]) (use Kd in auto)
  show ?thesis
    unfolding elementwise_run [OF el ldc]
    using work Kd
    by (intro store_block_cong [OF ldc])
       (auto simp: herk_diag_val_def only_tri_def herk_val_def real_diag_def real_if_def sum_rank_term_herk [OF t])
qed

lemma rank_args_None:
  "zsyrk_args uplo trn N K LDA LDC = None \<Longrightarrow> valid_uplo uplo \<and> (trn = CblasNoTrans \<or> trn = CblasTrans) \<and>
     0 \<le> N \<and> 0 \<le> K \<and> \<not> ld_too_small LDC N"
  "zherk_args uplo trn N K LDA LDC = None \<Longrightarrow> valid_uplo uplo \<and> (trn = CblasNoTrans \<or> trn = CblasConjTrans) \<and>
     0 \<le> N \<and> 0 \<le> K \<and> \<not> ld_too_small LDC N"
  by (auto simp: zsyrk_args_def zherk_args_def valid_uplo_def split: if_splits)

definition rank_operands_apart :: "int \<Rightarrow> int \<Rightarrow> int \<Rightarrow> nat \<Rightarrow> int \<Rightarrow> nat \<Rightarrow> int \<Rightarrow> bool" where
  "rank_operands_apart trn N K A LDA C LDC \<longleftrightarrow> A \<noteq> C \<and>
     arrays_disjoint A (nat LDA) (nat (op_rows trn N K)) (nat (op_cols trn N K)) C (nat LDC) (nat N) (nat N)"

text \<open>C12. An accepted call of \<open>xkblas_zsyrk_async\<close> updates the triangle \<open>uplo\<close> of \<open>C\<close> to
  \<open>alpha*A*A^T + beta*C\<close> (or \<open>A^T*A\<close>). The opposite triangle is preserved when \<open>beta \<noteq> 0\<close>; when
  \<open>beta = 0\<close>, its part inside the diagonal tiles, of the size that \<open>xkblas_auto_tilesize\<close> computes for the call, is
  overwritten with the unrelated contents \<open>J\<close> of the device memory, because the syrk task declares the tile write-only.\<close>

theorem zsyrk_async_correct:
  assumes "gemm_ok K" "syrk_ok K" and "zsyrk_args uplo trn N Kd LDA LDC = None" and "0 < Kd \<or> be = 1"
    and "LDA \<in> {0..<2 ^ 31}" "LDC \<in> {0..<2 ^ 31}" "N < 2 ^ 31" "Kd < 2 ^ 31"
    and "unregistered ctxt A" "unregistered ctxt C" "rank_operands_apart trn N Kd A LDA C LDC"
    and "0 < xc_ngpus ctxt" "gpus_registered R KAAPI_LD_GPU c f"
  shows "\<exists>ts ctxt' NB. xkblas_auto_tilesize ctxt KERN_SYRK (nat N) (nat Kd) (nat (op_rows trn N Kd)) = Some NB \<and>
    xkblas_zsyrk_async uplo trn N Kd al A LDA be C LDC R ctxt = Returned (ts, ctxt') \<and>
    exec_tasks K J ts mem = store_block C (nat LDC) (nat N) (nat N) (syrk_result J NB uplo C (nat LDC) be
      (syrk_val trn (nat Kd) al (view mem A (nat LDA)) be (view mem C (nat LDC))) (view mem C (nat LDC))) mem"
proof (cases "N = 0 \<or> ((al = 0 \<or> Kd = 0) \<and> be = 1)")
  case True
  have "nat N \<le> nat LDC"
    using rank_args_None(1) [OF assms(3)] ld_ok_nonneg [of LDC N] assms by auto
  then have "mem = store_block C (nat LDC) (nat N) (nat N) (syrk_result J NB uplo C (nat LDC) be
      (syrk_val trn (nat Kd) al (view mem A (nat LDA)) be (view mem C (nat LDC))) (view mem C (nat LDC))) mem" for NB
    using True by (intro store_block_eqI) (auto simp: syrk_val_def syrk_result_def view_def)
  then show ?thesis using True assms(3) auto_tilesize_total [OF assms(12), of KERN_SYRK]
    by (auto simp: xkblas_zsyrk_async_def)
next
  case False
  note a = rank_args_None(1) [OF assms(3)]
  have ne: "A \<noteq> C" using assms(11) by (simp add: rank_operands_apart_def)
  obtain NB c' Ah Ch where su: "setup_operands KERN_SYRK (nat N) (nat Kd) (nat (op_rows trn N Kd))
      [(A, nat (op_rows trn N Kd), nat (op_cols trn N Kd), nat LDA), (C, nat N, nat N, nat LDC)] C R ctxt = Some c'"
    "xkblas_auto_tilesize ctxt KERN_SYRK (nat N) (nat Kd) (nat (op_rows trn N Kd)) = Some NB" "xc_descr c' A = Some Ah" "xc_descr c' C = Some Ch"
    "descr_of Ah A (nat (op_rows trn N Kd)) (nat (op_cols trn N Kd)) (nat LDA) NB NB"
    "descr_of Ch C (nat N) (nat N) (nat LDC) NB NB" "0 < NB"
    using setup_two [OF ne assms(9,10) _ _ assms(12,13), of KERN_SYRK] by (metis kernel.distinct)
  have call: "xkblas_zsyrk_async uplo trn N Kd al A LDA be C LDC R ctxt =
      Returned (zsyrk_tasks uplo trn al Ah (nat LDA) be Ch (nat LDC), c')"
    using False assms(3) su assms(5,6) by (auto simp: xkblas_zsyrk_async_def Let_def size_of_int_ld)
  have lay: "rank_layout trn (nat N) (nat Kd) NB Ah A (nat LDA) Ch C (nat LDC)"
    using su assms(11) a ld_ok_nonneg [of LDC N] assms(6,7)
    by (auto simp: rank_layout_def Let_def rank_operands_apart_def op_rows_def op_cols_def)
  have k: "0 < nat Kd" using False assms(4) a by auto
  from call zsyrk_tasks_run [OF assms(1,2) _ _ lay k] a su(2) show ?thesis by blast
qed

text \<open>C13. An accepted call of \<open>xkblas_zherk_async\<close> performs the Hermitian rank-k update of the triangle
  \<open>uplo\<close>, makes its diagonal real, and leaves the opposite triangle as it was.\<close>

theorem zherk_async_correct:
  assumes "gemm_ok K" "herk_ok K" and "zherk_args uplo trn N Kd LDA LDC = None" and "0 < Kd \<or> be = 1"
    and "LDA \<in> {0..<2 ^ 31}" "LDC \<in> {0..<2 ^ 31}" "N < 2 ^ 31" "Kd < 2 ^ 31"
    and "unregistered ctxt A" "unregistered ctxt C" "rank_operands_apart trn N Kd A LDA C LDC"
    and "0 < xc_ngpus ctxt" "gpus_registered R KAAPI_LD_GPU c f"
  shows "\<exists>ts ctxt'. xkblas_zherk_async uplo trn N Kd al A LDA be C LDC R ctxt = Returned (ts, ctxt') \<and>
    exec_tasks K J ts mem = store_block C (nat LDC) (nat N) (nat N) (only_tri uplo
      (herk_val trn (nat Kd) al (view mem A (nat LDA)) be (view mem C (nat LDC))) (view mem C (nat LDC))) mem"
proof (cases "N = 0 \<or> ((al = 0 \<or> Kd = 0) \<and> be = 1)")
  case True
  have "nat N \<le> nat LDC"
    using rank_args_None(2) [OF assms(3)] ld_ok_nonneg [of LDC N] assms by auto
  then have "mem = store_block C (nat LDC) (nat N) (nat N) (only_tri uplo
      (herk_val trn (nat Kd) al (view mem A (nat LDA)) be (view mem C (nat LDC))) (view mem C (nat LDC))) mem"
    using True by (intro store_block_eqI) (auto simp: herk_val_def only_tri_def view_def)
  then show ?thesis using True assms(3)
    by (intro exI [of _ "[]"] exI [of _ ctxt]) (simp add: xkblas_zherk_async_def)
next
  case False
  note a = rank_args_None(2) [OF assms(3)]
  have ne: "A \<noteq> C" using assms(11) by (simp add: rank_operands_apart_def)
  obtain NB c' Ah Ch where su: "setup_operands KERN_HERK (nat N) (nat Kd) (nat (op_rows trn N Kd))
      [(A, nat (op_rows trn N Kd), nat (op_cols trn N Kd), nat LDA), (C, nat N, nat N, nat LDC)] C R ctxt = Some c'"
    "0 < NB" "xc_descr c' A = Some Ah" "xc_descr c' C = Some Ch"
    "descr_of Ah A (nat (op_rows trn N Kd)) (nat (op_cols trn N Kd)) (nat LDA) NB NB"
    "descr_of Ch C (nat N) (nat N) (nat LDC) NB NB"
    using setup_two [OF ne assms(9,10) _ _ assms(12,13), of KERN_HERK] by (metis kernel.distinct)
  have call: "xkblas_zherk_async uplo trn N Kd al A LDA be C LDC R ctxt =
      Returned (zherk_tasks uplo trn al Ah (nat LDA) be Ch (nat LDC), c')"
    using False assms(3) su assms(5,6) by (auto simp: xkblas_zherk_async_def Let_def size_of_int_ld)
  have lay: "rank_layout trn (nat N) (nat Kd) NB Ah A (nat LDA) Ch C (nat LDC)"
    using su assms(11) a ld_ok_nonneg [of LDC N] assms(6,7)
    by (auto simp: rank_layout_def Let_def rank_operands_apart_def op_rows_def op_cols_def)
  have k: "0 < nat Kd" and w: "\<not> (al = 0 \<and> be = 1)" using False assms(4) a by auto
  from call zherk_tasks_run [OF assms(1,2) _ _ lay k w] a show ?thesis by blast
qed


theorem zsyrk_async_correct_witness:
  "\<exists>ts ctxt' NB. xkblas_auto_tilesize (empty_ctx 2) KERN_SYRK 3 2 3 = Some NB \<and>
    xkblas_zsyrk_async 122 111 3 2 2 16 3 0 2000 4 one_gpu_reg (empty_ctx 2) = Returned (ts, ctxt') \<and>
    exec_tasks (ref_blas (\<lambda>_ _ _ _ _ _ _ _ B. B)) (\<lambda>_ _ _. 7) ts (\<lambda>_. 1) = store_block 2000 4 3 3
      (syrk_result (\<lambda>_ _ _. 7) NB 122 2000 4 0
        (syrk_val 111 2 2 (view (\<lambda>_. 1) 16 3) 0 (view (\<lambda>_. 1) 2000 4)) (view (\<lambda>_. 1) 2000 4)) (\<lambda>_. 1)"
  using zsyrk_async_correct [of "ref_blas (\<lambda>_ _ _ _ _ _ _ _ B. B)" 122 111 3 2 3 4 0 "empty_ctx 2"
      16 2000 one_gpu_reg 1 "\<lambda>_. 1" 2 "\<lambda>_ _ _. 7" "\<lambda>_. 1"]
  by (simp add: zsyrk_args_def ld_too_small_def size_of_int_def SIZE_MOD_def op_rows_def op_cols_def
        enum_simps rank_operands_apart_def arrays_disjoint_ranges ELTSIZE_def one_gpu_registered [simplified])

theorem zherk_async_correct_witness:
  "\<exists>ts ctxt'. xkblas_zherk_async 121 113 3 2 2 16 2 5 2000 4 one_gpu_reg (empty_ctx 2) = Returned (ts, ctxt') \<and>
    exec_tasks (ref_blas (\<lambda>_ _ _ _ _ _ _ _ B. B)) (\<lambda>_ _ _. 7) ts (\<lambda>_. 1) = store_block 2000 4 3 3
      (only_tri 121 (herk_val 113 2 2 (view (\<lambda>_. 1) 16 2) 5 (view (\<lambda>_. 1) 2000 4)) (view (\<lambda>_. 1) 2000 4)) (\<lambda>_. 1)"
  using zherk_async_correct [of "ref_blas (\<lambda>_ _ _ _ _ _ _ _ B. B)" 121 113 3 2 2 4 5 "empty_ctx 2"
      16 2000 one_gpu_reg 1 "\<lambda>_. 1" 2 "\<lambda>_ _ _. 7" "\<lambda>_. 1"]
  by (simp add: zherk_args_def ld_too_small_def size_of_int_def SIZE_MOD_def op_rows_def op_cols_def
        enum_simps rank_operands_apart_def arrays_disjoint_ranges ELTSIZE_def one_gpu_registered [simplified])

end
