(* ===== verification/Rank_2K.thy ===== *)
theory Rank_2K
  imports Rank_K
begin

text \<open>
  \<open>blas/zsyr2k.c\<close> and \<open>blas/zher2k.c\<close>: the rank-2k updates of one triangle of \<open>C\<close>. The loops are
  those of the rank-k updates with two gemm tasks per step.
\<close>

section \<open>The calls\<close>

definition zsyr2k_args :: "int \<Rightarrow> int \<Rightarrow> int \<Rightarrow> int \<Rightarrow> int \<Rightarrow> int \<Rightarrow> int \<Rightarrow> nat option" where
  "zsyr2k_args uplo trn N K LDA LDB LDC =
     (if uplo \<noteq> CblasUpper \<and> uplo \<noteq> CblasLower then Some 1
      else if trn \<noteq> CblasNoTrans \<and> trn \<noteq> CblasTrans then Some 2
      else if N < 0 then Some 3
      else if K < 0 then Some 4
      else if ld_too_small LDA (op_rows trn N K) then Some 7
      else if ld_too_small LDB (op_rows trn N K) then Some 9
      else if ld_too_small LDC N then Some 12
      else None)"

definition zher2k_args :: "int \<Rightarrow> int \<Rightarrow> int \<Rightarrow> int \<Rightarrow> int \<Rightarrow> int \<Rightarrow> int \<Rightarrow> nat option" where
  "zher2k_args uplo trn N K LDA LDB LDC =
     (if uplo \<noteq> CblasUpper \<and> uplo \<noteq> CblasLower then Some 1
      else if trn \<noteq> CblasNoTrans \<and> trn \<noteq> CblasConjTrans then Some 2
      else if N < 0 then Some 3
      else if K < 0 then Some 4
      else if ld_too_small LDA (op_rows trn N K) then Some 7
      else if ld_too_small LDB (op_rows trn N K) then Some 9
      else if ld_too_small LDC N then Some 12
      else None)"

definition zsyr2k_diag ::
  "int \<Rightarrow> int \<Rightarrow> complex \<Rightarrow> matrix_descr \<Rightarrow> nat \<Rightarrow> matrix_descr \<Rightarrow> nat \<Rightarrow> complex \<Rightarrow> matrix_descr \<Rightarrow> nat
     \<Rightarrow> nat \<Rightarrow> task list" where
  "zsyr2k_diag uplo trn alpha Ah LDA Bh LDB beta Ch LDC n =
     (let tempnn = tile_dim (d_nt Ch) (d_N Ch) (d_nb Ch) n in
      if trn = CblasNoTrans then
        map (\<lambda>k. let tempkn = tile_dim (d_nt Ah) (d_N Ah) (d_nb Ah) k;
                     zbeta = (if k = 0 then beta else 1) in
          INSERT_TASK_zsyr2k uplo trn tempnn tempkn alpha Ah n k LDA Bh n k LDB zbeta Ch n n LDC) [0..<d_nt Ah]
      else
        map (\<lambda>k. let tempkm = tile_dim (d_mt Ah) (d_M Ah) (d_mb Ah) k;
                     zbeta = (if k = 0 then beta else 1) in
          INSERT_TASK_zsyr2k uplo trn tempnn tempkm alpha Ah k n LDA Bh k n LDB zbeta Ch n n LDC) [0..<d_mt Ah])"

definition zsyr2k_off ::
  "int \<Rightarrow> complex \<Rightarrow> matrix_descr \<Rightarrow> nat \<Rightarrow> matrix_descr \<Rightarrow> nat \<Rightarrow> complex \<Rightarrow> matrix_descr \<Rightarrow> nat
     \<Rightarrow> nat \<Rightarrow> nat \<Rightarrow> task list" where
  "zsyr2k_off trn alpha Ah LDA Bh LDB beta Ch LDC n m =
     (let tempnn = tile_dim (d_nt Ch) (d_N Ch) (d_nb Ch) n;
          tempmm = tile_dim (d_mt Ch) (d_M Ch) (d_mb Ch) m in
      if trn = CblasNoTrans then
        concat (map (\<lambda>k. let tempkn = tile_dim (d_nt Ah) (d_N Ah) (d_nb Ah) k;
                             zbeta = (if k = 0 then beta else 1) in
          [INSERT_TASK_zgemm CblasNoTrans CblasTrans tempmm tempnn tempkn alpha
             Ah m k LDA Bh n k LDB zbeta Ch m n LDC,
           INSERT_TASK_zgemm CblasNoTrans CblasTrans tempmm tempnn tempkn alpha
             Bh m k LDB Ah n k LDA 1 Ch m n LDC]) [0..<d_nt Ah])
      else
        concat (map (\<lambda>k. let tempkm = tile_dim (d_mt Ah) (d_M Ah) (d_mb Ah) k;
                             zbeta = (if k = 0 then beta else 1) in
          [INSERT_TASK_zgemm CblasTrans CblasNoTrans tempmm tempnn tempkm alpha
             Ah k m LDA Bh k n LDB zbeta Ch m n LDC,
           INSERT_TASK_zgemm CblasTrans CblasNoTrans tempmm tempnn tempkm alpha
             Bh k m LDB Ah k n LDA 1 Ch m n LDC]) [0..<d_mt Ah]))"

definition zsyr2k_tasks ::
  "int \<Rightarrow> int \<Rightarrow> complex \<Rightarrow> matrix_descr \<Rightarrow> nat \<Rightarrow> matrix_descr \<Rightarrow> nat \<Rightarrow> complex \<Rightarrow> matrix_descr \<Rightarrow> nat
     \<Rightarrow> task list" where
  "zsyr2k_tasks uplo trn alpha Ah LDA Bh LDB beta Ch LDC =
     concat (map (\<lambda>n.
       let mmin = (if uplo = CblasLower then n + 1 else 0);
           mmax = (if uplo = CblasLower then d_mt Ch else n) in
       zsyr2k_diag uplo trn alpha Ah LDA Bh LDB beta Ch LDC n @
       concat (map (zsyr2k_off trn alpha Ah LDA Bh LDB beta Ch LDC n) [mmin..<mmax])) [0..<d_nt Ch])"

definition zher2k_diag ::
  "int \<Rightarrow> int \<Rightarrow> complex \<Rightarrow> matrix_descr \<Rightarrow> nat \<Rightarrow> matrix_descr \<Rightarrow> nat \<Rightarrow> real \<Rightarrow> matrix_descr \<Rightarrow> nat
     \<Rightarrow> nat \<Rightarrow> task list" where
  "zher2k_diag uplo trn alpha Ah LDA Bh LDB beta Ch LDC n =
     (let tempnn = tile_dim (d_nt Ch) (d_N Ch) (d_nb Ch) n in
      if trn = CblasNoTrans then
        map (\<lambda>k. let tempkn = tile_dim (d_nt Ah) (d_N Ah) (d_nb Ah) k;
                     dbeta = (if k = 0 then beta else 1) in
          INSERT_TASK_zher2k uplo trn tempnn tempkn alpha Ah n k LDA Bh n k LDB dbeta Ch n n LDC) [0..<d_nt Ah]
      else
        map (\<lambda>k. let tempkm = tile_dim (d_mt Ah) (d_M Ah) (d_mb Ah) k;
                     dbeta = (if k = 0 then beta else 1) in
          INSERT_TASK_zher2k uplo trn tempnn tempkm alpha Ah k n LDA Bh k n LDB dbeta Ch n n LDC) [0..<d_mt Ah])"

text \<open>The off-diagonal gemm pairs of \<open>zher2k.c\<close>; the second case is written as the code has it, with \<open>ldan\<close>, that is
  \<open>LDA\<close>, for the leading dimension of \<open>B(n,k)\<close>.\<close>

definition zher2k_off ::
  "int \<Rightarrow> int \<Rightarrow> complex \<Rightarrow> matrix_descr \<Rightarrow> nat \<Rightarrow> matrix_descr \<Rightarrow> nat \<Rightarrow> complex \<Rightarrow> matrix_descr \<Rightarrow> nat
     \<Rightarrow> nat \<Rightarrow> nat \<Rightarrow> task list" where
  "zher2k_off uplo trn alpha Ah LDA Bh LDB beta Ch LDC n m =
     (let tempnn = tile_dim (d_nt Ch) (d_N Ch) (d_nb Ch) n;
          tempmm = tile_dim (d_mt Ch) (d_M Ch) (d_mb Ch) m in
      if trn = CblasNoTrans then
        (if uplo = CblasLower then
           concat (map (\<lambda>k. let tempkn = tile_dim (d_nt Ah) (d_N Ah) (d_nb Ah) k;
                                zbeta = (if k = 0 then beta else 1) in
             [INSERT_TASK_zgemm trn CblasConjTrans tempmm tempnn tempkn alpha
                Ah m k LDA Bh n k LDB zbeta Ch m n LDC,
              INSERT_TASK_zgemm trn CblasConjTrans tempmm tempnn tempkn (cnj alpha)
                Bh m k LDB Ah n k LDA 1 Ch m n LDC]) [0..<d_nt Ah])
         else
           concat (map (\<lambda>k. let tempkn = tile_dim (d_nt Ah) (d_N Ah) (d_nb Ah) k;
                                zbeta = (if k = 0 then beta else 1) in
             [INSERT_TASK_zgemm trn CblasConjTrans tempnn tempmm tempkn alpha
                Ah n k LDA Bh m k LDB zbeta Ch n m LDC,
              INSERT_TASK_zgemm trn CblasConjTrans tempnn tempmm tempkn (cnj alpha)
                Bh n k LDA Ah m k LDA 1 Ch n m LDC]) [0..<d_nt Ah]))
      else
        (if uplo = CblasLower then
           concat (map (\<lambda>k. let tempkm = tile_dim (d_mt Ah) (d_M Ah) (d_mb Ah) k;
                                zbeta = (if k = 0 then beta else 1) in
             [INSERT_TASK_zgemm trn CblasNoTrans tempmm tempnn tempkm alpha
                Ah k m LDA Bh k n LDB zbeta Ch m n LDC,
              INSERT_TASK_zgemm trn CblasNoTrans tempmm tempnn tempkm (cnj alpha)
                Bh k m LDB Ah k n LDA 1 Ch m n LDC]) [0..<d_mt Ah])
         else
           concat (map (\<lambda>k. let tempkm = tile_dim (d_mt Ah) (d_M Ah) (d_mb Ah) k;
                                zbeta = (if k = 0 then beta else 1) in
             [INSERT_TASK_zgemm trn CblasNoTrans tempnn tempmm tempkm alpha
                Ah k n LDA Bh k m LDB zbeta Ch n m LDC,
              INSERT_TASK_zgemm trn CblasNoTrans tempnn tempmm tempkm (cnj alpha)
                Bh k n LDB Ah k m LDA 1 Ch n m LDC]) [0..<d_mt Ah])))"

definition zher2k_tasks ::
  "int \<Rightarrow> int \<Rightarrow> complex \<Rightarrow> matrix_descr \<Rightarrow> nat \<Rightarrow> matrix_descr \<Rightarrow> nat \<Rightarrow> real \<Rightarrow> matrix_descr \<Rightarrow> nat
     \<Rightarrow> task list" where
  "zher2k_tasks uplo trn alpha Ah LDA Bh LDB beta Ch LDC =
     concat (map (\<lambda>n. zher2k_diag uplo trn alpha Ah LDA Bh LDB beta Ch LDC n @
       concat (map (zher2k_off uplo trn alpha Ah LDA Bh LDB (complex_of_real beta) Ch LDC n)
         [n + 1..<d_mt Ch])) [0..<d_nt Ch])"

definition xkblas_zsyr2k_async ::
  "int \<Rightarrow> int \<Rightarrow> int \<Rightarrow> int \<Rightarrow> complex \<Rightarrow> nat \<Rightarrow> int \<Rightarrow> nat \<Rightarrow> int \<Rightarrow> complex \<Rightarrow> nat \<Rightarrow> int \<Rightarrow> ldreg \<Rightarrow> xk_ctx
     \<Rightarrow> (task list \<times> xk_ctx) outcome" where
  "xkblas_zsyr2k_async uplo trn N K alpha A LDA B LDB beta C LDC R ctxt =
     (case zsyr2k_args uplo trn N K LDA LDB LDC of
        Some c \<Rightarrow> Aborted c
      | None \<Rightarrow>
          if N = 0 \<or> ((alpha = 0 \<or> K = 0) \<and> beta = 1) then Returned ([], ctxt)
          else let Am = nat (op_rows trn N K); An = nat (op_cols trn N K) in
            (case setup_operands KERN_SYR2K (nat N) (nat K) Am
                    [(A, Am, An, size_of_int LDA), (B, Am, An, size_of_int LDB),
                     (C, nat N, nat N, size_of_int LDC)] C R ctxt of
               None \<Rightarrow> Trapped
             | Some c5 \<Rightarrow>
                 Returned (zsyr2k_tasks uplo trn alpha (the (xc_descr c5 A)) (size_of_int LDA)
                   (the (xc_descr c5 B)) (size_of_int LDB) beta (the (xc_descr c5 C)) (size_of_int LDC), c5)))"

definition xkblas_zher2k_async ::
  "int \<Rightarrow> int \<Rightarrow> int \<Rightarrow> int \<Rightarrow> complex \<Rightarrow> nat \<Rightarrow> int \<Rightarrow> nat \<Rightarrow> int \<Rightarrow> real \<Rightarrow> nat \<Rightarrow> int \<Rightarrow> ldreg \<Rightarrow> xk_ctx
     \<Rightarrow> (task list \<times> xk_ctx) outcome" where
  "xkblas_zher2k_async uplo trn N K alpha A LDA B LDB beta C LDC R ctxt =
     (case zher2k_args uplo trn N K LDA LDB LDC of
        Some c \<Rightarrow> Aborted c
      | None \<Rightarrow>
          if N = 0 \<or> ((alpha = 0 \<or> K = 0) \<and> beta = 1) then Returned ([], ctxt)
          else let Am = nat (op_rows trn N K); An = nat (op_cols trn N K) in
            (case setup_operands KERN_HER2K (nat N) (nat K) Am
                    [(A, Am, An, size_of_int LDA), (B, Am, An, size_of_int LDB),
                     (C, nat N, nat N, size_of_int LDC)] C R ctxt of
               None \<Rightarrow> Trapped
             | Some c5 \<Rightarrow>
                 Returned (zher2k_tasks uplo trn alpha (the (xc_descr c5 A)) (size_of_int LDA)
                   (the (xc_descr c5 B)) (size_of_int LDB) beta (the (xc_descr c5 C)) (size_of_int LDC), c5)))"

section \<open>The off-diagonal tiles\<close>

definition rank2_layout ::
  "int \<Rightarrow> nat \<Rightarrow> nat \<Rightarrow> nat \<Rightarrow> matrix_descr \<Rightarrow> nat \<Rightarrow> nat \<Rightarrow> matrix_descr \<Rightarrow> nat \<Rightarrow> nat \<Rightarrow> matrix_descr \<Rightarrow> nat \<Rightarrow> nat
     \<Rightarrow> bool" where
  "rank2_layout trn N Kd NB Ah A lda Bh B ldb Ch C ldc \<longleftrightarrow>
     rank_layout trn N Kd NB Ah A lda Ch C ldc \<and> rank_layout trn N Kd NB Bh B ldb Ch C ldc"

text \<open>The products of one step, \<open>op(A)*op2(B)\<close> and \<open>op(B)*op2(A)\<close>, with their scalars.\<close>

definition mixed_term :: "int \<Rightarrow> int \<Rightarrow> cmat \<Rightarrow> cmat \<Rightarrow> nat \<Rightarrow> nat \<Rightarrow> nat \<Rightarrow> complex" where
  "mixed_term tr2 trn A B i j l =
     (if trn = CblasNoTrans then A i l * op_el tr2 B l j else op_el trn A i l * B l j)"

definition rank2_term :: "int \<Rightarrow> int \<Rightarrow> complex \<Rightarrow> complex \<Rightarrow> cmat \<Rightarrow> cmat \<Rightarrow> nat \<Rightarrow> nat \<Rightarrow> nat \<Rightarrow> complex" where
  "rank2_term tr2 trn al al2 A B i j l = al * mixed_term tr2 trn A B i j l + al2 * mixed_term tr2 trn B A i j l"

text \<open>The loop of gemm pairs on the tile \<open>(r,c)\<close> of \<open>C\<close>, whatever names the code gives the indexes.\<close>

lemma gemm_pair_loop:
  assumes K: "gemm_ok K" and t: "tr2 = CblasTrans \<or> tr2 = CblasConjTrans" "trn = CblasNoTrans \<or> trn = tr2"
    and lay: "rank2_layout trn N Kd NB Ah A lda Bh B ldb Ch C ldc"
    and rc: "r < d_mt Ch" "c < d_nt Ch" and kt: "kt = xkblas_num_of_tiles Kd NB"
    and tb: "tb = (if trn = CblasNoTrans then tr2 else CblasNoTrans)"
    and dims: "tr = tile_dim (d_mt Ch) N NB r" "tc = tile_dim (d_nt Ch) N NB c"
    and hA: "\<And>x k. hA x k = (if trn = CblasNoTrans then xkblas_get_handle Ah x k else xkblas_get_handle Ah k x)"
    and hB: "\<And>x k. hB x k = (if trn = CblasNoTrans then xkblas_get_handle Bh x k else xkblas_get_handle Bh k x)"
  shows "elementwise K J C ldc N N mem
      (concat (map (\<lambda>k.
        [TGemm trn tb tr tc (tile_dim kt Kd NB k) al (hA r k) lda (hB c k) ldb (if k = 0 then be else 1)
           (xkblas_get_handle Ch r c) ldc,
         TGemm trn tb tr tc (tile_dim kt Kd NB k) al2 (hB r k) ldb (hA c k) lda 1 (xkblas_get_handle Ch r c) ldc])
        [0..<kt]))
      (tile_act NB NB r c (\<lambda>i j x. if Kd = 0 then x
        else be * x + (\<Sum>l<Kd. rank2_term tr2 trn al al2 (view mem A lda) (view mem B ldb) i j l)))"
proof -
  let ?Am = "if trn = CblasNoTrans then N else Kd" and ?An = "if trn = CblasNoTrans then Kd else N"
  have NB: "0 < NB" and ldc: "N \<le> ldc" and Ah: "descr_of Ah A ?Am ?An lda NB NB"
    and Bh: "descr_of Bh B ?Am ?An ldb NB NB" and Ch: "descr_of Ch C N N ldc NB NB"
    and dA: "arrays_disjoint A lda ?Am ?An C ldc N N" and dB: "arrays_disjoint B ldb ?Am ?An C ldc N N"
    using lay by (auto simp: rank2_layout_def rank_layout_def Let_def)
  note ds = descr_of_dims [OF Ah] descr_of_dims [OF Bh] descr_of_dims [OF Ch]
  note data = descr_of_data [OF Ah] descr_of_data [OF Bh] descr_of_data [OF Ch]
  have vt: "valid_trans trn" "valid_trans tb" and ne: "tr2 \<noteq> CblasNoTrans"
    using t tb by (auto simp: valid_trans_def enum_simps)
  have dA': "arrays_disjoint A lda (if tb = CblasNoTrans then Kd else N) (if tb = CblasNoTrans then N else Kd) C ldc N N"
    and dB': "arrays_disjoint B ldb (if tb = CblasNoTrans then Kd else N) (if tb = CblasNoTrans then N else Kd) C ldc N N"
    using dA dB ne tb by (auto split: if_splits)
  have rc': "r < xkblas_num_of_tiles N NB" "c < xkblas_num_of_tiles N NB" using rc ds by auto
  have trm: "op_el trn Y i l * op_el tb Z l j = mixed_term tr2 trn Y Z i j l" for Y Z i j l
    using tb by (simp add: mixed_term_def op_el_def)
  have h1: "h_data (hA r k) = A + (if trn = CblasNoTrans then r * NB + k * NB * lda else k * NB + r * NB * lda) * ELTSIZE"
    "h_data (hB r k) = B + (if trn = CblasNoTrans then r * NB + k * NB * ldb else k * NB + r * NB * ldb) * ELTSIZE"
    if "k < xkblas_num_of_tiles Kd NB" for k using that rc' ds by (auto simp: hA hB data split: if_splits)
  have h2: "h_data (hA c k) = A + (if tb = CblasNoTrans then k * NB + c * NB * lda else c * NB + k * NB * lda) * ELTSIZE"
    "h_data (hB c k) = B + (if tb = CblasNoTrans then k * NB + c * NB * ldb else c * NB + k * NB * ldb) * ELTSIZE"
    if "k < xkblas_num_of_tiles Kd NB" for k using that rc' ds ne tb by (auto simp: hA hB data split: if_splits)
  have hC: "h_data (xkblas_get_handle Ch r c) = C + (r * NB + c * NB * ldc) * ELTSIZE"
    using rc by (simp add: data)
  let ?S = "\<lambda>a Y Z k i j. a * (\<Sum>l<tile_dim kt Kd NB k. mixed_term tr2 trn Y Z i j (k * NB + l))"
  let ?A = "view mem A lda" and ?B = "view mem B ldb"
  have one: "elementwise K J C ldc N N mem
      [TGemm trn tb tr tc (tile_dim kt Kd NB k) al (hA r k) lda (hB c k) ldb (if k = 0 then be else 1)
           (xkblas_get_handle Ch r c) ldc,
       TGemm trn tb tr tc (tile_dim kt Kd NB k) al2 (hB r k) ldb (hA c k) lda 1 (xkblas_get_handle Ch r c) ldc]
      (\<lambda>i j x. tile_act NB NB r c (\<lambda>i j x. 1 * x + ?S al2 ?B ?A k i j) i j
        (tile_act NB NB r c (\<lambda>i j x. (if k = 0 then be else 1) * x + ?S al ?A ?B k i j) i j x))"
    if k: "k \<in> set [0..<kt]" for k
  proof -
    have kk: "k < xkblas_num_of_tiles Kd NB" using k kt by simp
    note g1 = gemm_k_task [OF K vt NB ldc dA dB' rc' kk hC h1(1) [OF kk] h2(2) [OF kk],
        of J mem al "if k = 0 then be else 1", unfolded trm]
    note g2 = gemm_k_task [OF K vt NB ldc dB dA' rc' kk hC h1(2) [OF kk] h2(1) [OF kk], of J mem al2 1, unfolded trm]
    show ?thesis using elementwise_append [OF g1 g2] ds dims kt by simp
  qed
  show ?thesis
  proof (rule elementwise_cong [OF elementwise_concat [OF one] ldc])
    fix i j x
    have step: "tile_act NB NB r c (\<lambda>i j x. 1 * x + ?S al2 ?B ?A k i j) i j
        (tile_act NB NB r c (\<lambda>i j x. (if k = 0 then be else 1) * x + ?S al ?A ?B k i j) i j x) =
      tile_act NB NB r c (\<lambda>i j x. (if k = 0 then be else 1) * x + (?S al ?A ?B k i j + ?S al2 ?B ?A k i j)) i j x" for k x
      by (simp add: tile_act_def add.assoc)
    have z: "kt = 0 \<longleftrightarrow> Kd = 0" using num_tiles_pos [OF NB, of Kd] kt by auto
    have "(\<Sum>k<kt. ?S al ?A ?B k i j + ?S al2 ?B ?A k i j) = (\<Sum>l<Kd. rank2_term tr2 trn al al2 ?A ?B i j l)"
      by (simp add: kt sum.distrib rank2_term_def sum_distrib_left
          sum_tiles_scaled [OF NB, unfolded sum_distrib_left, where K = Kd and f = "mixed_term tr2 trn ?A ?B i j"]
          sum_tiles_scaled [OF NB, unfolded sum_distrib_left, where K = Kd and f = "mixed_term tr2 trn ?B ?A i j"])
    then show "fold (\<lambda>k x. tile_act NB NB r c (\<lambda>i j x. 1 * x + ?S al2 ?B ?A k i j) i j
        (tile_act NB NB r c (\<lambda>i j x. (if k = 0 then be else 1) * x + ?S al ?A ?B k i j) i j x)) [0..<kt] x =
      tile_act NB NB r c (\<lambda>i j x. if Kd = 0 then x
        else be * x + (\<Sum>l<Kd. rank2_term tr2 trn al al2 ?A ?B i j l)) i j x"
      unfolding step fold_tile_act using z by (simp add: fold_accumulate tile_act_def)
  qed
qed


section \<open>The diagonal tiles\<close>

lemma rank2_sum:
  "trn = CblasNoTrans \<or> trn = tr2 \<Longrightarrow> tr2 = CblasTrans \<or> tr2 = CblasConjTrans \<Longrightarrow>
   rank2_term tr2 trn al al2 A B i j l =
     (if trn = CblasNoTrans then al * (A i l * op_el tr2 B l j) + al2 * (B i l * op_el tr2 A l j)
      else al * (op_el tr2 A i l * B l j) + al2 * (op_el tr2 B i l * A l j))"
  by (auto simp: rank2_term_def mixed_term_def)

lemma elementwise_syr2k:
  assumes K: "syr2k_ok K" and u: "valid_uplo uplo" and t: "trn = CblasNoTrans \<or> trn = CblasTrans"
    and geo: "tile_of N N NB NB n n tn tn" and ldc: "N \<le> ldc"
    and C: "h_data hC = C + (n * NB + n * NB * ldc) * ELTSIZE"
    and A: "h_data hA = A + (if trn = CblasNoTrans then n * NB + k0 * lda else k0 + n * NB * lda) * ELTSIZE"
    and B: "h_data hB = B + (if trn = CblasNoTrans then n * NB + k0 * ldb else k0 + n * NB * ldb) * ELTSIZE"
    and dA: "arrays_disjoint A lda MA NA C ldc N N" "arrays_disjoint B ldb MA NA C ldc N N"
      "if trn = CblasNoTrans then N \<le> MA \<and> k0 + tk \<le> NA else k0 + tk \<le> MA \<and> N \<le> NA"
  shows "elementwise K J C ldc N N mem [TSyr2k uplo trn tn tk al hA lda hB ldb be hC ldc]
           (tile_act NB NB n n (\<lambda>i j c. syrk_diag_val uplo be
              (\<Sum>l<tk. rank2_term CblasTrans trn al al (view mem A lda) (view mem B ldb) i j (k0 + l)) i j
              (J (h_data hC) (i - n * NB) (j - n * NB)) c))"
proof (rule elementwise_store [OF _ geo ldc,
    where F = "\<lambda>mem'. kb_syr2k K uplo trn tn tk al (view mem' (h_data hA) lda) (view mem' (h_data hB) ldb) be
      (acquired J (w_or_rw be) mem' hC ldc)"])
  fix X i j assume ij: "i < tn" "j < tn"
  let ?mem = "store_block C ldc N N X mem"
  let ?old = "acquired J (w_or_rw be) ?mem hC ldc"
  let ?A = "view ?mem (h_data hA) lda" and ?B = "view ?mem (h_data hB) ldb"
  note fits = tile_of_fits [OF geo]
  have im: "n * NB + i < N" "n * NB + j < N" using fits ij by auto
  have s: "al * (if trn = CblasNoTrans then (\<Sum>l<tk. ?A i l * ?B j l + ?B i l * ?A j l)
      else (\<Sum>l<tk. ?A l i * ?B l j + ?B l i * ?A l j))
    = (\<Sum>l<tk. rank2_term CblasTrans trn al al (view mem A lda) (view mem B ldb) (n * NB + i) (n * NB + j) (k0 + l))"
    using t dA im ldc
    by (auto simp: A B rank2_sum op_el_def enum_simps view_operand sum_distrib_left distrib_left intro!: sum.cong)
  have old: "?old i j = (if be = 0 then J (h_data hC) i j else X (n * NB + i) (n * NB + j))"
    using im ldc by (simp add: acquired_def w_or_rw_def amode_defs C view_result)
  have "kb_syr2k K uplo trn tn tk al ?A ?B be ?old i j = only_tri uplo (syr2k_val trn tk al ?A ?B be ?old) ?old i j"
    using K u t ij by (auto simp: syr2k_ok_def agree_on_def)
  then show "kb_syr2k K uplo trn tn tk al ?A ?B be ?old i j =
     syrk_diag_val uplo be (\<Sum>l<tk. rank2_term CblasTrans trn al al (view mem A lda) (view mem B ldb)
        (n * NB + i) (n * NB + j) (k0 + l)) (n * NB + i) (n * NB + j)
       (J (h_data hC) (n * NB + i - n * NB) (n * NB + j - n * NB)) (X (n * NB + i) (n * NB + j))"
    by (simp add: only_tri_def syr2k_val_def syrk_diag_val_def in_tri_shift old s)
qed (simp add: C zsyr2k_body_def)

lemma elementwise_her2k:
  assumes K: "her2k_ok K" and u: "valid_uplo uplo" and t: "trn = CblasNoTrans \<or> trn = CblasConjTrans"
    and geo: "tile_of N N NB NB n n tn tn" and ldc: "N \<le> ldc"
    and C: "h_data hC = C + (n * NB + n * NB * ldc) * ELTSIZE"
    and A: "h_data hA = A + (if trn = CblasNoTrans then n * NB + k0 * lda else k0 + n * NB * lda) * ELTSIZE"
    and B: "h_data hB = B + (if trn = CblasNoTrans then n * NB + k0 * ldb else k0 + n * NB * ldb) * ELTSIZE"
    and dA: "arrays_disjoint A lda MA NA C ldc N N" "arrays_disjoint B ldb MA NA C ldc N N"
      "if trn = CblasNoTrans then N \<le> MA \<and> k0 + tk \<le> NA else k0 + tk \<le> MA \<and> N \<le> NA"
  shows "elementwise K J C ldc N N mem [THer2k uplo trn tn tk al hA lda hB ldb be hC ldc]
           (tile_act NB NB n n (\<lambda>i j c. herk_diag_val uplo be (al = 0 \<or> tk = 0)
              (\<Sum>l<tk. rank2_term CblasConjTrans trn al (cnj al) (view mem A lda) (view mem B ldb) i j (k0 + l)) i j c))"
proof (rule elementwise_store [OF _ geo ldc,
    where F = "\<lambda>mem'. kb_her2k K uplo trn tn tk al (view mem' (h_data hA) lda) (view mem' (h_data hB) ldb) be
      (view mem' (h_data hC) ldc)"])
  fix X i j assume ij: "i < tn" "j < tn"
  let ?mem = "store_block C ldc N N X mem"
  let ?A = "view ?mem (h_data hA) lda" and ?B = "view ?mem (h_data hB) ldb" and ?C = "view ?mem (h_data hC) ldc"
  note fits = tile_of_fits [OF geo]
  have im: "n * NB + i < N" "n * NB + j < N" using fits ij by auto
  have s: "(if trn = CblasNoTrans then (\<Sum>l<tk. al * ?A i l * cnj (?B j l) + cnj al * ?B i l * cnj (?A j l))
      else (\<Sum>l<tk. al * cnj (?A l i) * ?B l j + cnj al * cnj (?B l i) * ?A l j))
    = (\<Sum>l<tk. rank2_term CblasConjTrans trn al (cnj al) (view mem A lda) (view mem B ldb)
         (n * NB + i) (n * NB + j) (k0 + l))"
    using t dA im ldc
    by (auto simp: A B rank2_sum op_el_def enum_simps view_operand mult.assoc [where 'a = complex] intro!: sum.cong)
  have old: "?C i j = X (n * NB + i) (n * NB + j)"
    using im ldc by (simp add: C view_result)
  have "kb_her2k K uplo trn tn tk al ?A ?B be ?C i j = only_tri uplo (her2k_val trn tk al ?A ?B be ?C) ?C i j"
    using K u t ij by (auto simp: her2k_ok_def agree_on_def)
  then show "kb_her2k K uplo trn tn tk al ?A ?B be ?C i j =
     herk_diag_val uplo be (al = 0 \<or> tk = 0) (\<Sum>l<tk. rank2_term CblasConjTrans trn al (cnj al)
        (view mem A lda) (view mem B ldb) (n * NB + i) (n * NB + j) (k0 + l))
       (n * NB + i) (n * NB + j) (X (n * NB + i) (n * NB + j))"
    using s old by (auto simp: only_tri_def her2k_val_def herk_diag_val_def in_tri_shift real_diag_def real_if_def)
qed (simp add: C zher2k_body_def)

text \<open>The geometry of the task of step \<open>k\<close> on the diagonal tile \<open>(n,n)\<close>.\<close>

definition rank2_step_ok ::
  "int \<Rightarrow> nat \<Rightarrow> nat \<Rightarrow> nat \<Rightarrow> nat \<Rightarrow> nat \<Rightarrow> nat \<Rightarrow> nat \<Rightarrow> nat \<Rightarrow> nat \<Rightarrow> handle \<Rightarrow> handle \<Rightarrow> handle \<Rightarrow> nat \<Rightarrow> nat \<Rightarrow> bool" where
  "rank2_step_ok trn N Kd NB A lda B ldb C ldc hA hB hC n k \<longleftrightarrow>
     h_data hC = C + (n * NB + n * NB * ldc) * ELTSIZE \<and>
     h_data hA = A + (if trn = CblasNoTrans then n * NB + k * NB * lda else k * NB + n * NB * lda) * ELTSIZE \<and>
     h_data hB = B + (if trn = CblasNoTrans then n * NB + k * NB * ldb else k * NB + n * NB * ldb) * ELTSIZE \<and>
     k * NB + tile_dim (xkblas_num_of_tiles Kd NB) Kd NB k \<le> Kd"

lemma rank2_layoutD:
  assumes "rank2_layout trn N Kd NB Ah A lda Bh B ldb Ch C ldc"
  shows "0 < NB" "N \<le> ldc" "descr_of Ch C N N ldc NB NB"
    "descr_of Ah A (if trn = CblasNoTrans then N else Kd) (if trn = CblasNoTrans then Kd else N) lda NB NB"
    "descr_of Bh B (if trn = CblasNoTrans then N else Kd) (if trn = CblasNoTrans then Kd else N) ldb NB NB"
    "arrays_disjoint A lda (if trn = CblasNoTrans then N else Kd) (if trn = CblasNoTrans then Kd else N) C ldc N N"
    "arrays_disjoint B ldb (if trn = CblasNoTrans then N else Kd) (if trn = CblasNoTrans then Kd else N) C ldc N N"
  using assms by (auto simp: rank2_layout_def rank_layout_def Let_def)

lemma rank2_steps:
  assumes lay: "rank2_layout trn N Kd NB Ah A lda Bh B ldb Ch C ldc" and n: "n < d_nt Ch"
    and k: "k < xkblas_num_of_tiles Kd NB"
  shows "rank2_step_ok trn N Kd NB A lda B ldb C ldc
    (if trn = CblasNoTrans then xkblas_get_handle Ah n k else xkblas_get_handle Ah k n)
    (if trn = CblasNoTrans then xkblas_get_handle Bh n k else xkblas_get_handle Bh k n) (xkblas_get_handle Ch n n) n k"
  using n k descr_of_dims [OF rank2_layoutD(3) [OF lay]] descr_of_dims [OF rank2_layoutD(4) [OF lay]]
    descr_of_dims [OF rank2_layoutD(5) [OF lay]] rank2_layoutD(1) [OF lay]
  by (simp add: rank2_step_ok_def descr_of_data [OF rank2_layoutD(3) [OF lay]]
      descr_of_data [OF rank2_layoutD(4) [OF lay]] descr_of_data [OF rank2_layoutD(5) [OF lay]] tile_dim_bound)


lemma syr2k_diag_elementwise:
  assumes K: "syr2k_ok K" and t: "trn = CblasNoTrans \<or> trn = CblasTrans" and uplo: "valid_uplo uplo"
    and lay: "rank2_layout trn N Kd NB Ah A lda Bh B ldb Ch C ldc" and n: "n < d_nt Ch"
  shows "elementwise K J C ldc N N mem (zsyr2k_diag uplo trn al Ah lda Bh ldb be Ch ldc n)
      (tile_act NB NB n n (\<lambda>i j c. if Kd = 0 then c else syrk_diag_val uplo be
         (\<Sum>l<Kd. rank2_term CblasTrans trn al al (view mem A lda) (view mem B ldb) i j l) i j
         (J (C + (n * NB + n * NB * ldc) * ELTSIZE) (i - n * NB) (j - n * NB)) c))"
proof -
  let ?kt = "xkblas_num_of_tiles Kd NB" and ?tn = "tile_dim (xkblas_num_of_tiles N NB) N NB n"
  let ?f = "rank2_term CblasTrans trn al al (view mem A lda) (view mem B ldb)"
  note L = rank2_layoutD [OF lay]
  note dims = descr_of_dims [OF L(3)] descr_of_dims [OF L(4)] descr_of_dims [OF L(5)]
  have MN: "d_M Ah = (if trn = CblasNoTrans then N else Kd)" "d_N Ah = (if trn = CblasNoTrans then Kd else N)"
    "d_N Ch = N" using L(3,4) by (auto simp: descr_of_def)
  have geo: "tile_of N N NB NB n n ?tn ?tn" using L(1) n dims by (simp add: tile_of_def)
  let ?hA = "\<lambda>k. if trn = CblasNoTrans then xkblas_get_handle Ah n k else xkblas_get_handle Ah k n"
  let ?hB = "\<lambda>k. if trn = CblasNoTrans then xkblas_get_handle Bh n k else xkblas_get_handle Bh k n"
  let ?J = "\<lambda>i j. J (C + (n * NB + n * NB * ldc) * ELTSIZE) (i - n * NB) (j - n * NB)"
  have one: "elementwise K J C ldc N N mem [TSyr2k uplo trn ?tn (tile_dim ?kt Kd NB k) al (?hA k) lda (?hB k) ldb
        (if k = 0 then be else 1) (xkblas_get_handle Ch n n) ldc]
      (tile_act NB NB n n (\<lambda>i j c. syrk_diag_val uplo (if k = 0 then be else 1)
        (\<Sum>l<tile_dim ?kt Kd NB k. ?f i j (k * NB + l)) i j (?J i j) c))" if k: "k \<in> set [0..<?kt]" for k
  proof -
    have s: "rank2_step_ok trn N Kd NB A lda B ldb C ldc (?hA k) (?hB k) (xkblas_get_handle Ch n n) n k"
      using rank2_steps [OF lay n] k by simp
    then show ?thesis
      using elementwise_syr2k [OF K uplo t geo L(2) _ _ _ L(6,7), of "xkblas_get_handle Ch n n" "?hA k" "k * NB"
          "?hB k" "tile_dim ?kt Kd NB k"] by (simp add: rank2_step_ok_def)
  qed
  have "elementwise K J C ldc N N mem (map (\<lambda>k. TSyr2k uplo trn ?tn (tile_dim ?kt Kd NB k) al (?hA k) lda (?hB k) ldb
        (if k = 0 then be else 1) (xkblas_get_handle Ch n n) ldc) [0..<?kt])
      (tile_act NB NB n n (\<lambda>i j c. if Kd = 0 then c else syrk_diag_val uplo be (\<Sum>l<Kd. ?f i j l) i j (?J i j) c))"
  proof (rule elementwise_cong [OF elementwise_map [OF one] L(2)])
    fix i j c
    have "?kt = 0 \<longleftrightarrow> Kd = 0" using num_tiles_pos [OF L(1), of Kd] by auto
    then show "fold (\<lambda>k. tile_act NB NB n n (\<lambda>i j c. syrk_diag_val uplo (if k = 0 then be else 1)
        (\<Sum>l<tile_dim ?kt Kd NB k. ?f i j (k * NB + l)) i j (?J i j) c) i j) [0..<?kt] c =
      tile_act NB NB n n (\<lambda>i j c. if Kd = 0 then c else syrk_diag_val uplo be (\<Sum>l<Kd. ?f i j l) i j (?J i j) c) i j c"
      unfolding fold_tile_act by (simp add: fold_syrk_diag tile_act_def sum_over_tiles [OF L(1)])
  qed
  then show ?thesis
    by (cases "trn = CblasNoTrans") (simp_all add: zsyr2k_diag_def insert_defs Let_def dims MN)
qed

lemma rank2_term_real:
  "trn = CblasNoTrans \<or> trn = CblasConjTrans \<Longrightarrow> Im (rank2_term CblasConjTrans trn al (cnj al) A B i i l) = 0"
  by (auto simp: rank2_term_def mixed_term_def op_el_def enum_simps algebra_simps)

lemma her2k_diag_elementwise:
  assumes K: "her2k_ok K" and t: "trn = CblasNoTrans \<or> trn = CblasConjTrans" and uplo: "valid_uplo uplo"
    and lay: "rank2_layout trn N Kd NB Ah A lda Bh B ldb Ch C ldc" and n: "n < d_nt Ch"
    and work: "\<not> (al = 0 \<and> be = 1)"
  shows "elementwise K J C ldc N N mem (zher2k_diag uplo trn al Ah lda Bh ldb be Ch ldc n)
      (tile_act NB NB n n (\<lambda>i j c. if Kd = 0 then c else herk_diag_val uplo be False
         (\<Sum>l<Kd. rank2_term CblasConjTrans trn al (cnj al) (view mem A lda) (view mem B ldb) i j l) i j c))"
proof -
  let ?kt = "xkblas_num_of_tiles Kd NB" and ?tn = "tile_dim (xkblas_num_of_tiles N NB) N NB n"
  let ?f = "rank2_term CblasConjTrans trn al (cnj al) (view mem A lda) (view mem B ldb)"
  note L = rank2_layoutD [OF lay]
  note dims = descr_of_dims [OF L(3)] descr_of_dims [OF L(4)] descr_of_dims [OF L(5)]
  have MN: "d_M Ah = (if trn = CblasNoTrans then N else Kd)" "d_N Ah = (if trn = CblasNoTrans then Kd else N)"
    "d_N Ch = N" using L(3,4) by (auto simp: descr_of_def)
  have geo: "tile_of N N NB NB n n ?tn ?tn" using L(1) n dims by (simp add: tile_of_def)
  let ?hA = "\<lambda>k. if trn = CblasNoTrans then xkblas_get_handle Ah n k else xkblas_get_handle Ah k n"
  let ?hB = "\<lambda>k. if trn = CblasNoTrans then xkblas_get_handle Bh n k else xkblas_get_handle Bh k n"
  let ?skip = "\<lambda>k. al = 0 \<or> tile_dim ?kt Kd NB k = 0"
  have one: "elementwise K J C ldc N N mem [THer2k uplo trn ?tn (tile_dim ?kt Kd NB k) al (?hA k) lda (?hB k) ldb
        (if k = 0 then be else 1) (xkblas_get_handle Ch n n) ldc]
      (tile_act NB NB n n (\<lambda>i j c. herk_diag_val uplo (if k = 0 then be else 1) (?skip k)
        (\<Sum>l<tile_dim ?kt Kd NB k. ?f i j (k * NB + l)) i j c))" if k: "k \<in> set [0..<?kt]" for k
  proof -
    have s: "rank2_step_ok trn N Kd NB A lda B ldb C ldc (?hA k) (?hB k) (xkblas_get_handle Ch n n) n k"
      using rank2_steps [OF lay n] k by simp
    then show ?thesis
      using elementwise_her2k [OF K uplo t geo L(2) _ _ _ L(6,7), of "xkblas_get_handle Ch n n" "?hA k" "k * NB"
          "?hB k" "tile_dim ?kt Kd NB k"] by (simp add: rank2_step_ok_def)
  qed
  have "elementwise K J C ldc N N mem (map (\<lambda>k. THer2k uplo trn ?tn (tile_dim ?kt Kd NB k) al (?hA k) lda (?hB k) ldb
        (if k = 0 then be else 1) (xkblas_get_handle Ch n n) ldc) [0..<?kt])
      (tile_act NB NB n n (\<lambda>i j c. if Kd = 0 then c else herk_diag_val uplo be False (\<Sum>l<Kd. ?f i j l) i j c))"
  proof (rule elementwise_cong [OF elementwise_map [OF one] L(2)])
    fix i j c
    have kt: "?kt = 0 \<longleftrightarrow> Kd = 0" using num_tiles_pos [OF L(1), of Kd] by auto
    have z: "?f i j l = 0" if "al = 0" for l using that by (simp add: rank2_term_def)
    have "fold (\<lambda>k. herk_diag_val uplo (if k = 0 then be else 1) (?skip k)
        (\<Sum>l<tile_dim ?kt Kd NB k. ?f i j (k * NB + l)) i j) [0..<?kt] c =
      (if Kd = 0 then c else herk_diag_val uplo be False (\<Sum>l<Kd. ?f i j l) i j c)"
    proof (cases "Kd = 0")
      case False
      then have "tile_dim ?kt Kd NB 0 \<noteq> 0" using tile_dim_pos [OF L(1), of 0 Kd] kt by simp
      then show ?thesis
        using False kt work z
        by (subst fold_herk_diag) (auto simp: sum_over_tiles [OF L(1)] rank2_term_real [OF t] Im_sum)
    qed (use kt in simp)
    then show "fold (\<lambda>k. tile_act NB NB n n (\<lambda>i j c. herk_diag_val uplo (if k = 0 then be else 1) (?skip k)
        (\<Sum>l<tile_dim ?kt Kd NB k. ?f i j (k * NB + l)) i j c) i j) [0..<?kt] c =
      tile_act NB NB n n (\<lambda>i j c. if Kd = 0 then c else herk_diag_val uplo be False (\<Sum>l<Kd. ?f i j l) i j c) i j c"
      unfolding fold_tile_act by (simp add: tile_act_def)
  qed
  then show ?thesis
    by (cases "trn = CblasNoTrans") (simp_all add: zher2k_diag_def insert_defs Let_def dims MN)
qed

section \<open>The sweep over the tiles\<close>

lemma fold_columns:
  assumes "\<And>n. distinct (ms n)" "\<And>n. n \<notin> set (ms n)" "j div NB < nt"
  shows "fold (\<lambda>n c. fold (\<lambda>m. tile_act NB NB m n G i j) (ms n) (tile_act NB NB n n (D n) i j c)) [0..<nt] c =
    (if i div NB = j div NB then D (i div NB) i j c
     else if i div NB \<in> set (ms (j div NB)) then G i j c else c)"
proof -
  have row: "fold (\<lambda>m. tile_act NB NB m n G i j) (ms n) c =
      (if j div NB = n \<and> i div NB \<in> set (ms n) then G i j c else c)" for n c
    using fold_only_one [of "ms n" "i div NB" "\<lambda>m. tile_act NB NB m n G i j" c] assms(1)
    by (auto simp: tile_act_def)
  have col: "fold (\<lambda>m. tile_act NB NB m n G i j) (ms n) (tile_act NB NB n n (D n) i j c) =
      (if j div NB = n then (if i div NB = n then D n i j c else if i div NB \<in> set (ms n) then G i j c else c) else c)"
    for n c using assms(2) [of n] by (simp only: row) (auto simp: tile_act_def)
  show ?thesis
    using assms(3) fold_upt_only_one [of nt "j div NB"
        "\<lambda>n c. fold (\<lambda>m. tile_act NB NB m n G i j) (ms n) (tile_act NB NB n n (D n) i j c)" c]
    by (simp add: col)
qed


lemma columns_elementwise:
  assumes lay: "rank2_layout trn N Kd NB Ah A lda Bh B ldb Ch C ldc" and u: "valid_uplo uplo"
    and diag: "\<And>n. n < d_nt Ch \<Longrightarrow> elementwise K J C ldc N N mem (dg n) (tile_act NB NB n n (D n))"
    and off: "\<And>n m. n < d_nt Ch \<Longrightarrow> m < d_mt Ch \<Longrightarrow> elementwise K J C ldc N N mem (og n m) (tile_act NB NB m n G)"
  shows "elementwise K J C ldc N N mem
      (concat (map (\<lambda>n. dg n @ concat (map (og n)
         [(if uplo = CblasLower then n + 1 else 0)..<(if uplo = CblasLower then d_mt Ch else n)])) [0..<d_nt Ch]))
      (\<lambda>i j c. if i div NB = j div NB then D (i div NB) i j c else if in_tri uplo i j then G i j c else c)"
proof -
  note L = rank2_layoutD [OF lay]
  note dims = descr_of_dims [OF L(3)]
  let ?ms = "\<lambda>n. [(if uplo = CblasLower then n + 1 else 0)..<(if uplo = CblasLower then d_mt Ch else n)]"
  have off': "elementwise K J C ldc N N mem (og n m) (tile_act NB NB m n G)"
    if "n < d_nt Ch" "m \<in> set (?ms n)" for n m
    using that dims by (intro off) (auto split: if_splits)
  have col: "elementwise K J C ldc N N mem (dg n @ concat (map (og n) (?ms n)))
      (\<lambda>i j c. fold (\<lambda>m. tile_act NB NB m n G i j) (?ms n) (tile_act NB NB n n (D n) i j c))"
    if "n \<in> set [0..<d_nt Ch]" for n
    using that by (intro elementwise_append diag elementwise_concat off') auto
  show ?thesis
  proof (rule elementwise_cong [OF elementwise_concat [OF col] L(2)])
    fix i j c assume ij: "i < N" "j < N"
    have b: "i div NB < d_mt Ch" "j div NB < d_nt Ch"
      using tile_of_index(1) [OF L(1) ij(1)] tile_of_index(1) [OF L(1) ij(2)] dims by simp_all
    then have "i div NB \<noteq> j div NB \<Longrightarrow> (i div NB \<in> set (?ms (j div NB))) = in_tri uplo i j"
      using off_diag_tri [OF u, of i NB j] by (auto simp: off_diag_def)
    then show "fold (\<lambda>n c. fold (\<lambda>m. tile_act NB NB m n G i j) (?ms n) (tile_act NB NB n n (D n) i j c)) [0..<d_nt Ch] c =
      (if i div NB = j div NB then D (i div NB) i j c else if in_tri uplo i j then G i j c else c)"
      by (subst fold_columns [OF _ _ b(2)]) auto
  qed
qed

lemma zsyr2k_off_elementwise:
  assumes K: "gemm_ok K" and t: "trn = CblasNoTrans \<or> trn = CblasTrans"
    and lay: "rank2_layout trn N Kd NB Ah A lda Bh B ldb Ch C ldc" and mn: "n < d_nt Ch" "m < d_mt Ch"
  shows "elementwise K J C ldc N N mem (zsyr2k_off trn al Ah lda Bh ldb be Ch ldc n m)
      (tile_act NB NB m n (\<lambda>i j c. if Kd = 0 then c
        else be * c + (\<Sum>l<Kd. rank2_term CblasTrans trn al al (view mem A lda) (view mem B ldb) i j l)))"
proof -
  note L = rank2_layoutD [OF lay]
  note dims = descr_of_dims [OF L(3)] descr_of_dims [OF L(4)]
  have MN: "d_M Ah = (if trn = CblasNoTrans then N else Kd)" "d_N Ah = (if trn = CblasNoTrans then Kd else N)"
    "d_M Ch = N" "d_N Ch = N" using L(3,4) by (auto simp: descr_of_def)
  show ?thesis
    using t gemm_pair_loop [OF K _ t lay mn(2,1) refl refl refl refl refl refl, of J mem al be al]
    by (elim disjE) (simp_all add: zsyr2k_off_def insert_defs Let_def dims MN enum_simps)
qed

lemma zher2k_off_elementwise:
  assumes K: "gemm_ok K" and t: "trn = CblasNoTrans \<or> trn = CblasConjTrans" and u: "valid_uplo uplo"
    and lay: "rank2_layout trn N Kd NB Ah A lda Bh B ldb Ch C ldc" and mn: "n < d_nt Ch" "m < d_mt Ch"
    and ld: "uplo = CblasUpper \<Longrightarrow> trn = CblasNoTrans \<Longrightarrow> ldb = lda"
  shows "elementwise K J C ldc N N mem (zher2k_off uplo trn al Ah lda Bh ldb be Ch ldc n m)
      (tile_act NB NB (if uplo = CblasLower then m else n) (if uplo = CblasLower then n else m)
       (\<lambda>i j c. if Kd = 0 then c
        else be * c + (\<Sum>l<Kd. rank2_term CblasConjTrans trn al (cnj al) (view mem A lda) (view mem B ldb) i j l)))"
proof -
  note L = rank2_layoutD [OF lay]
  note dims = descr_of_dims [OF L(3)] descr_of_dims [OF L(4)]
  have MN: "d_M Ah = (if trn = CblasNoTrans then N else Kd)" "d_N Ah = (if trn = CblasNoTrans then Kd else N)"
    "d_M Ch = N" "d_N Ch = N" using L(3,4) by (auto simp: descr_of_def)
  let ?r = "if uplo = CblasLower then m else n" and ?c = "if uplo = CblasLower then n else m"
  have rc: "?r < d_mt Ch" "?c < d_nt Ch" using mn dims by auto
  show ?thesis
    using t u ld gemm_pair_loop [OF K _ t lay rc refl refl refl refl refl refl, of J mem al be "cnj al"]
    unfolding valid_uplo_def
    by (elim disjE) (simp_all add: zher2k_off_def insert_defs Let_def dims MN enum_simps)
qed

section \<open>The calls compute the rank-2k update\<close>

lemma sum_rank2_syr2k:
  "trn = CblasNoTrans \<or> trn = CblasTrans \<Longrightarrow> (\<Sum>l<k. rank2_term CblasTrans trn al al A B i j l) =
     al * (if trn = CblasNoTrans then (\<Sum>l<k. A i l * B j l + B i l * A j l)
           else (\<Sum>l<k. A l i * B l j + B l i * A l j))"
  by (auto simp: rank2_sum op_el_def enum_simps sum_distrib_left distrib_left)

lemma sum_rank2_her2k:
  "trn = CblasNoTrans \<or> trn = CblasConjTrans \<Longrightarrow> (\<Sum>l<k. rank2_term CblasConjTrans trn al (cnj al) A B i j l) =
     (if trn = CblasNoTrans then (\<Sum>l<k. al * A i l * cnj (B j l) + cnj al * B i l * cnj (A j l))
      else (\<Sum>l<k. al * cnj (A l i) * B l j + cnj al * cnj (B l i) * A l j))"
  by (auto simp: rank2_sum op_el_def enum_simps mult.assoc)

lemma zsyr2k_tasks_run:
  assumes K: "gemm_ok K" "syr2k_ok K" and t: "trn = CblasNoTrans \<or> trn = CblasTrans" and u: "valid_uplo uplo"
    and lay: "rank2_layout trn N Kd NB Ah A lda Bh B ldb Ch C ldc" and Kd: "0 < Kd"
  shows "exec_tasks K J (zsyr2k_tasks uplo trn al Ah lda Bh ldb be Ch ldc) mem =
    store_block C ldc N N (syrk_result J NB uplo C ldc be
      (syr2k_val trn Kd al (view mem A lda) (view mem B ldb) be (view mem C ldc)) (view mem C ldc)) mem"
proof -
  note L = rank2_layoutD [OF lay]
  let ?s = "\<lambda>i j. \<Sum>l<Kd. rank2_term CblasTrans trn al al (view mem A lda) (view mem B ldb) i j l"
  have el: "elementwise K J C ldc N N mem (zsyr2k_tasks uplo trn al Ah lda Bh ldb be Ch ldc)
      (\<lambda>i j c. if i div NB = j div NB then syrk_diag_val uplo be (?s i j) i j
         (J (C + (i div NB * NB + i div NB * NB * ldc) * ELTSIZE) (i - i div NB * NB) (j - i div NB * NB)) c
       else if in_tri uplo i j then be * c + ?s i j else c)"
    unfolding zsyr2k_tasks_def Let_def
    by (rule elementwise_cong [OF columns_elementwise [OF lay u syr2k_diag_elementwise [OF K(2) t u lay]
          zsyr2k_off_elementwise [OF K(1) t lay]] L(2)]) (use Kd in auto)
  show ?thesis
    unfolding elementwise_run [OF el L(2)]
    by (rule store_block_cong [OF L(2)])
       (auto simp: syrk_diag_val_def syrk_result_def syr2k_val_def sum_rank2_syr2k [OF t] minus_div_mult_eq_mod minus_same_tile)
qed

lemma zher2k_tasks_run:
  assumes K: "gemm_ok K" "her2k_ok K" and t: "trn = CblasNoTrans \<or> trn = CblasConjTrans" and u: "valid_uplo uplo"
    and lay: "rank2_layout trn N Kd NB Ah A lda Bh B ldb Ch C ldc" and Kd: "0 < Kd" and work: "\<not> (al = 0 \<and> be = 1)"
    and ld: "uplo = CblasUpper \<Longrightarrow> trn = CblasNoTrans \<Longrightarrow> ldb = lda"
  shows "exec_tasks K J (zher2k_tasks uplo trn al Ah lda Bh ldb be Ch ldc) mem =
    store_block C ldc N N (only_tri uplo
      (her2k_val trn Kd al (view mem A lda) (view mem B ldb) be (view mem C ldc)) (view mem C ldc)) mem"
proof -
  note L = rank2_layoutD [OF lay]
  have l1: "rank_layout trn N Kd NB Ah A lda Ch C ldc" using lay by (simp add: rank2_layout_def)
  let ?s = "\<lambda>i j. \<Sum>l<Kd. rank2_term CblasConjTrans trn al (cnj al) (view mem A lda) (view mem B ldb) i j l"
  have el: "elementwise K J C ldc N N mem (zher2k_tasks uplo trn al Ah lda Bh ldb be Ch ldc)
      (\<lambda>i j c. if i div NB = j div NB then herk_diag_val uplo be False (?s i j) i j c
       else if in_tri uplo i j then complex_of_real be * c + ?s i j else c)"
    unfolding zher2k_tasks_def
    by (rule elementwise_cong [OF triangle_elementwise [OF l1 u her2k_diag_elementwise [OF K(2) t u lay _ work]
          zher2k_off_elementwise [OF K(1) t u lay _ _ ld]] L(2)]) (use Kd in auto)
  show ?thesis
    unfolding elementwise_run [OF el L(2)]
    using work Kd
    by (intro store_block_cong [OF L(2)])
       (auto simp: herk_diag_val_def only_tri_def her2k_val_def real_diag_def real_if_def sum_rank2_her2k [OF t])
qed


lemma rank2_args_None:
  "zsyr2k_args uplo trn N K LDA LDB LDC = None \<Longrightarrow> valid_uplo uplo \<and> (trn = CblasNoTrans \<or> trn = CblasTrans) \<and>
     0 \<le> N \<and> 0 \<le> K \<and> \<not> ld_too_small LDC N"
  "zher2k_args uplo trn N K LDA LDB LDC = None \<Longrightarrow> valid_uplo uplo \<and> (trn = CblasNoTrans \<or> trn = CblasConjTrans) \<and>
     0 \<le> N \<and> 0 \<le> K \<and> \<not> ld_too_small LDC N"
  by (auto simp: zsyr2k_args_def zher2k_args_def valid_uplo_def split: if_splits)

definition rank2_operands_apart :: "int \<Rightarrow> int \<Rightarrow> int \<Rightarrow> nat \<Rightarrow> int \<Rightarrow> nat \<Rightarrow> int \<Rightarrow> nat \<Rightarrow> int \<Rightarrow> bool" where
  "rank2_operands_apart trn N K A LDA B LDB C LDC \<longleftrightarrow> distinct [A, B, C] \<and>
     rank_operands_apart trn N K A LDA C LDC \<and> rank_operands_apart trn N K B LDB C LDC"

text \<open>The prologue of the two calls, on new matrices.\<close>

lemma rank2_setup:
  assumes "rank2_operands_apart trn N Kd A LDA B LDB C LDC" "\<not> ld_too_small LDC N" "0 \<le> N" "0 \<le> Kd"
    and "LDA \<in> {0..<2 ^ 31}" "LDB \<in> {0..<2 ^ 31}" "LDC \<in> {0..<2 ^ 31}" "N < 2 ^ 31"
    and "unregistered ctxt A" "unregistered ctxt B" "unregistered ctxt C" "kern \<noteq> KERN_SWAP" "kern \<noteq> KERN_VOID"
    and "0 < xc_ngpus ctxt" "gpus_registered R KAAPI_LD_GPU c f"
  obtains NB c' Ah Bh Ch where "setup_operands kern (nat N) (nat Kd) (nat (op_rows trn N Kd))
      [(A, nat (op_rows trn N Kd), nat (op_cols trn N Kd), size_of_int LDA),
       (B, nat (op_rows trn N Kd), nat (op_cols trn N Kd), size_of_int LDB),
       (C, nat N, nat N, size_of_int LDC)] C R ctxt = Some c'"
    "xc_descr c' A = Some Ah" "xc_descr c' B = Some Bh" "xc_descr c' C = Some Ch" "0 < NB"
    "xkblas_auto_tilesize ctxt kern (nat N) (nat Kd) (nat (op_rows trn N Kd)) = Some NB"
    "rank2_layout trn (nat N) (nat Kd) NB Ah A (nat LDA) Bh B (nat LDB) Ch C (nat LDC)"
proof -
  have ld: "size_of_int LDA = nat LDA" "size_of_int LDB = nat LDB" "size_of_int LDC = nat LDC"
    using assms by (auto intro: size_of_int_ld)
  have "distinct [A, B, C]" using assms(1) by (simp add: rank2_operands_apart_def)
  from setup_three [OF this assms(9-15)]
  obtain NB c' Ah Bh Ch where su: "setup_operands kern (nat N) (nat Kd) (nat (op_rows trn N Kd))
      [(A, nat (op_rows trn N Kd), nat (op_cols trn N Kd), nat LDA),
       (B, nat (op_rows trn N Kd), nat (op_cols trn N Kd), nat LDB), (C, nat N, nat N, nat LDC)] C R ctxt = Some c'"
    and NB: "0 < NB" "xkblas_auto_tilesize ctxt kern (nat N) (nat Kd) (nat (op_rows trn N Kd)) = Some NB"
    and d: "xc_descr c' A = Some Ah" "xc_descr c' B = Some Bh" "xc_descr c' C = Some Ch"
    and dof: "descr_of Ah A (nat (op_rows trn N Kd)) (nat (op_cols trn N Kd)) (nat LDA) NB NB"
      "descr_of Bh B (nat (op_rows trn N Kd)) (nat (op_cols trn N Kd)) (nat LDB) NB NB"
      "descr_of Ch C (nat N) (nat N) (nat LDC) NB NB"
    by metis
  have "nat N \<le> nat LDC" using ld_ok_nonneg [OF assms(2)] assms by auto
  then have "rank2_layout trn (nat N) (nat Kd) NB Ah A (nat LDA) Bh B (nat LDB) Ch C (nat LDC)"
    using NB dof assms(1)
    by (auto simp: rank2_layout_def rank_layout_def Let_def rank2_operands_apart_def rank_operands_apart_def
        op_rows_def op_cols_def)
  then show thesis using su d NB ld that by metis
qed

text \<open>C14. An accepted call of \<open>xkblas_zsyr2k_async\<close> updates the triangle \<open>uplo\<close> of \<open>C\<close> to
  \<open>alpha*A*B^T + alpha*B*A^T + beta*C\<close> (or the transposed products). As for zsyrk, when \<open>beta = 0\<close>
  the opposite triangle of the diagonal tiles, whose size is what \<open>xkblas_auto_tilesize\<close> computes for the call, is
  overwritten with the contents \<open>J\<close> of device memory.\<close>

theorem zsyr2k_async_correct:
  assumes "gemm_ok K" "syr2k_ok K" and "zsyr2k_args uplo trn N Kd LDA LDB LDC = None" and "0 < Kd \<or> be = 1"
    and "LDA \<in> {0..<2 ^ 31}" "LDB \<in> {0..<2 ^ 31}" "LDC \<in> {0..<2 ^ 31}" "N < 2 ^ 31" "Kd < 2 ^ 31"
    and "unregistered ctxt A" "unregistered ctxt B" "unregistered ctxt C"
    and "rank2_operands_apart trn N Kd A LDA B LDB C LDC"
    and "0 < xc_ngpus ctxt" "gpus_registered R KAAPI_LD_GPU c f"
  shows "\<exists>ts ctxt' NB. xkblas_auto_tilesize ctxt KERN_SYR2K (nat N) (nat Kd) (nat (op_rows trn N Kd)) = Some NB \<and> 0 < NB \<and>
    xkblas_zsyr2k_async uplo trn N Kd al A LDA B LDB be C LDC R ctxt = Returned (ts, ctxt') \<and>
    exec_tasks K J ts mem = store_block C (nat LDC) (nat N) (nat N) (syrk_result J NB uplo C (nat LDC) be
      (syr2k_val trn (nat Kd) al (view mem A (nat LDA)) (view mem B (nat LDB)) be (view mem C (nat LDC)))
      (view mem C (nat LDC))) mem"
proof (cases "N = 0 \<or> ((al = 0 \<or> Kd = 0) \<and> be = 1)")
  case True
  have "nat N \<le> nat LDC"
    using rank2_args_None(1) [OF assms(3)] ld_ok_nonneg [of LDC N] assms by auto
  then have "mem = store_block C (nat LDC) (nat N) (nat N) (syrk_result J NB uplo C (nat LDC) be
      (syr2k_val trn (nat Kd) al (view mem A (nat LDA)) (view mem B (nat LDB)) be (view mem C (nat LDC)))
      (view mem C (nat LDC))) mem" for NB
    using True by (intro store_block_eqI) (auto simp: syr2k_val_def syrk_result_def view_def)
  then show ?thesis using True assms(3) auto_tilesize_some [OF assms(14), of KERN_SYR2K]
    by (auto simp: xkblas_zsyr2k_async_def)
next
  case False
  note a = rank2_args_None(1) [OF assms(3)]
  from a obtain t: "trn = CblasNoTrans \<or> trn = CblasTrans" and u: "valid_uplo uplo"
    and p: "0 \<le> N" "0 \<le> Kd" "\<not> ld_too_small LDC N" by blast
  from rank2_setup [OF assms(13) p(3,1,2) assms(5-8,10-12) _ _ assms(14,15), of KERN_SYR2K]
  obtain NB c' Ah Bh Ch where su: "setup_operands KERN_SYR2K (nat N) (nat Kd) (nat (op_rows trn N Kd))
      [(A, nat (op_rows trn N Kd), nat (op_cols trn N Kd), size_of_int LDA),
       (B, nat (op_rows trn N Kd), nat (op_cols trn N Kd), size_of_int LDB),
       (C, nat N, nat N, size_of_int LDC)] C R ctxt = Some c'"
    "xc_descr c' A = Some Ah" "xc_descr c' B = Some Bh" "xc_descr c' C = Some Ch" "0 < NB"
      "xkblas_auto_tilesize ctxt KERN_SYR2K (nat N) (nat Kd) (nat (op_rows trn N Kd)) = Some NB"
    and lay: "rank2_layout trn (nat N) (nat Kd) NB Ah A (nat LDA) Bh B (nat LDB) Ch C (nat LDC)"
    by (metis kernel.distinct)
  have call: "xkblas_zsyr2k_async uplo trn N Kd al A LDA B LDB be C LDC R ctxt =
      Returned (zsyr2k_tasks uplo trn al Ah (nat LDA) Bh (nat LDB) be Ch (nat LDC), c')"
    using False assms(3,5,6,7) su by (auto simp: xkblas_zsyr2k_async_def Let_def size_of_int_ld)
  have k: "0 < nat Kd" using False assms(4) p by auto
  from call zsyr2k_tasks_run [OF assms(1,2) t u lay k] su(5,6) show ?thesis by blast
qed

text \<open>C15. An accepted call of \<open>xkblas_zher2k_async\<close> performs the Hermitian rank-2k update of the triangle \<open>uplo\<close>
  of \<open>C\<close> and changes nothing else; in the branch \<open>CblasUpper\<close>, \<open>CblasNoTrans\<close> this is shown for \<open>LDB = LDA\<close>, since
  the code reads a tile of \<open>B\<close> there with the leading dimension of \<open>A\<close> (C18).\<close>

theorem zher2k_async_correct:
  assumes "gemm_ok K" "her2k_ok K" and "zher2k_args uplo trn N Kd LDA LDB LDC = None" and "0 < Kd \<or> be = 1"
    and "LDA \<in> {0..<2 ^ 31}" "LDB \<in> {0..<2 ^ 31}" "LDC \<in> {0..<2 ^ 31}" "N < 2 ^ 31" "Kd < 2 ^ 31"
    and "unregistered ctxt A" "unregistered ctxt B" "unregistered ctxt C"
    and "rank2_operands_apart trn N Kd A LDA B LDB C LDC"
    and "0 < xc_ngpus ctxt" "gpus_registered R KAAPI_LD_GPU c f"
    and "uplo \<noteq> CblasUpper \<or> trn \<noteq> CblasNoTrans \<or> LDB = LDA"
  shows "\<exists>ts ctxt'. xkblas_zher2k_async uplo trn N Kd al A LDA B LDB be C LDC R ctxt = Returned (ts, ctxt') \<and>
    exec_tasks K J ts mem = store_block C (nat LDC) (nat N) (nat N) (only_tri uplo
      (her2k_val trn (nat Kd) al (view mem A (nat LDA)) (view mem B (nat LDB)) be (view mem C (nat LDC)))
      (view mem C (nat LDC))) mem"
proof (cases "N = 0 \<or> ((al = 0 \<or> Kd = 0) \<and> be = 1)")
  case True
  have "nat N \<le> nat LDC"
    using rank2_args_None(2) [OF assms(3)] ld_ok_nonneg [of LDC N] assms by auto
  then have "mem = store_block C (nat LDC) (nat N) (nat N) (only_tri uplo
      (her2k_val trn (nat Kd) al (view mem A (nat LDA)) (view mem B (nat LDB)) be (view mem C (nat LDC)))
      (view mem C (nat LDC))) mem"
    using True by (intro store_block_eqI) (auto simp: her2k_val_def only_tri_def view_def)
  then show ?thesis using True assms(3)
    by (intro exI [of _ "[]"] exI [of _ ctxt]) (simp add: xkblas_zher2k_async_def)
next
  case False
  note a = rank2_args_None(2) [OF assms(3)]
  from a obtain t: "trn = CblasNoTrans \<or> trn = CblasConjTrans" and u: "valid_uplo uplo"
    and p: "0 \<le> N" "0 \<le> Kd" "\<not> ld_too_small LDC N" by blast
  from rank2_setup [OF assms(13) p(3,1,2) assms(5-8,10-12) _ _ assms(14,15), of KERN_HER2K]
  obtain NB c' Ah Bh Ch where su: "setup_operands KERN_HER2K (nat N) (nat Kd) (nat (op_rows trn N Kd))
      [(A, nat (op_rows trn N Kd), nat (op_cols trn N Kd), size_of_int LDA),
       (B, nat (op_rows trn N Kd), nat (op_cols trn N Kd), size_of_int LDB),
       (C, nat N, nat N, size_of_int LDC)] C R ctxt = Some c'"
    "xc_descr c' A = Some Ah" "xc_descr c' B = Some Bh" "xc_descr c' C = Some Ch"
    and lay: "rank2_layout trn (nat N) (nat Kd) NB Ah A (nat LDA) Bh B (nat LDB) Ch C (nat LDC)"
    by (metis kernel.distinct)
  have call: "xkblas_zher2k_async uplo trn N Kd al A LDA B LDB be C LDC R ctxt =
      Returned (zher2k_tasks uplo trn al Ah (nat LDA) Bh (nat LDB) be Ch (nat LDC), c')"
    using False assms(3,5,6,7) su by (auto simp: xkblas_zher2k_async_def Let_def size_of_int_ld)
  have k: "0 < nat Kd" and w: "\<not> (al = 0 \<and> be = 1)" using False assms(4) p by auto
  have ld: "uplo = CblasUpper \<Longrightarrow> trn = CblasNoTrans \<Longrightarrow> nat LDB = nat LDA"
    using assms(16) by auto
  from call zher2k_tasks_run [OF assms(1,2) t u lay k w ld] show ?thesis by blast
qed



theorem zsyr2k_async_correct_witness:
  "\<exists>ts ctxt' NB. xkblas_auto_tilesize (empty_ctx 2) KERN_SYR2K 3 2 3 = Some NB \<and> 0 < NB \<and>
    xkblas_zsyr2k_async 122 111 3 2 2 16 3 1000 4 0 2000 4 one_gpu_reg (empty_ctx 2) = Returned (ts, ctxt') \<and>
    exec_tasks (ref_blas (\<lambda>_ _ _ _ _ _ _ _ B. B)) (\<lambda>_ _ _. 7) ts (\<lambda>_. 1) = store_block 2000 4 3 3
      (syrk_result (\<lambda>_ _ _. 7) NB 122 2000 4 0 (syr2k_val 111 2 2 (view (\<lambda>_. 1) 16 3) (view (\<lambda>_. 1) 1000 4) 0
         (view (\<lambda>_. 1) 2000 4)) (view (\<lambda>_. 1) 2000 4)) (\<lambda>_. 1)"
  using zsyr2k_async_correct [of "ref_blas (\<lambda>_ _ _ _ _ _ _ _ B. B)" 122 111 3 2 3 4 4 0 "empty_ctx 2"
      16 1000 2000 one_gpu_reg 1 "\<lambda>_. 1" 2 "\<lambda>_ _ _. 7" "\<lambda>_. 1"]
  by (simp add: zsyr2k_args_def ld_too_small_def size_of_int_def SIZE_MOD_def op_rows_def op_cols_def enum_simps
        rank2_operands_apart_def rank_operands_apart_def arrays_disjoint_ranges ELTSIZE_def one_gpu_registered [simplified])

theorem zher2k_async_correct_witness:
  "\<exists>ts ctxt'. xkblas_zher2k_async 121 113 3 2 \<i> 16 2 1000 4 5 2000 4 one_gpu_reg (empty_ctx 2) = Returned (ts, ctxt') \<and>
    exec_tasks (ref_blas (\<lambda>_ _ _ _ _ _ _ _ B. B)) (\<lambda>_ _ _. 7) ts (\<lambda>_. 1) = store_block 2000 4 3 3
      (only_tri 121 (her2k_val 113 2 \<i> (view (\<lambda>_. 1) 16 2) (view (\<lambda>_. 1) 1000 4) 5 (view (\<lambda>_. 1) 2000 4))
        (view (\<lambda>_. 1) 2000 4)) (\<lambda>_. 1)"
  using zher2k_async_correct [of "ref_blas (\<lambda>_ _ _ _ _ _ _ _ B. B)" 121 113 3 2 2 4 4 5 "empty_ctx 2"
      16 1000 2000 one_gpu_reg 1 "\<lambda>_. 1" \<i> "\<lambda>_ _ _. 7" "\<lambda>_. 1"]
  by (simp add: zher2k_args_def ld_too_small_def size_of_int_def SIZE_MOD_def op_rows_def op_cols_def enum_simps
        rank2_operands_apart_def rank_operands_apart_def arrays_disjoint_ranges ELTSIZE_def one_gpu_registered [simplified])



end
