(* ===== verification/Symm_Hemm.thy ===== *)
theory Symm_Hemm
  imports Rank_K
begin

text \<open>
  \<open>blas/zsymm.c\<close> and \<open>blas/zhemm.c\<close>: products with a symmetric or Hermitian matrix of which one
  triangle is stored. Step \<open>k\<close> for the tile \<open>(m,n)\<close> of \<open>C\<close> is a symm (hemm) task on the diagonal
  tile of \<open>A\<close>, and a gemm task on the stored tile, transposed or not, elsewhere. \<open>zsymm.c\<close> has the
  loop over \<open>k\<close> outside the loops over the tiles of \<open>C\<close>, \<open>zhemm.c\<close> inside.
\<close>

section \<open>The calls\<close>

definition zsymm_args :: "int \<Rightarrow> int \<Rightarrow> int \<Rightarrow> int \<Rightarrow> int \<Rightarrow> int \<Rightarrow> int \<Rightarrow> nat option" where
  "zsymm_args side uplo M N LDA LDB LDC =
     (if side \<noteq> CblasLeft \<and> side \<noteq> CblasRight then Some 1
      else if uplo \<noteq> CblasLower \<and> uplo \<noteq> CblasUpper then Some 2
      else if M < 0 then Some 3
      else if N < 0 then Some 4
      else if ld_too_small LDA (if side = CblasLeft then M else N) then Some 7
      else if ld_too_small LDB M then Some 9
      else if ld_too_small LDC M then Some 12
      else None)"

definition zhemm_args :: "int \<Rightarrow> int \<Rightarrow> int \<Rightarrow> int \<Rightarrow> int \<Rightarrow> int \<Rightarrow> int \<Rightarrow> nat option" where
  "zhemm_args side uplo M N LDA LDB LDC =
     (if side \<noteq> CblasLeft \<and> side \<noteq> CblasRight then Some 1
      else if uplo \<noteq> CblasLower \<and> uplo \<noteq> CblasUpper then Some 2
      else if M < 0 then Some 3
      else if N < 0 then Some 4
      else if ld_too_small LDA (if side = CblasLeft then M else N) then Some 7
      else if ld_too_small LDB M then Some 9
      else if ld_too_small LDC M then Some 12
      else None)"

text \<open>The task of iteration \<open>(k,m,n)\<close>, for each side.\<close>

definition zsymm_left_task ::
  "int \<Rightarrow> int \<Rightarrow> complex \<Rightarrow> matrix_descr \<Rightarrow> nat \<Rightarrow> matrix_descr \<Rightarrow> nat \<Rightarrow> complex \<Rightarrow> matrix_descr \<Rightarrow> nat
     \<Rightarrow> nat \<Rightarrow> nat \<Rightarrow> nat \<Rightarrow> task" where
  "zsymm_left_task side uplo alpha Ah LDA Bh LDB beta Ch LDC k m n =
     (let tempkm = tile_dim (d_mt Ch) (d_M Ch) (d_mb Ch) k;
          zbeta = (if k = 0 then beta else 1);
          tempnn = tile_dim (d_nt Ch) (d_N Ch) (d_nb Ch) n;
          tempmm = tile_dim (d_mt Ch) (d_M Ch) (d_mb Ch) m in
      if uplo = CblasLower then
        (if k < m then
           INSERT_TASK_zgemm CblasNoTrans CblasNoTrans tempmm tempnn tempkm alpha
             Ah m k LDA Bh k n LDB zbeta Ch m n LDC
         else if k = m then
           INSERT_TASK_zsymm side uplo tempmm tempnn alpha Ah k k LDA Bh k n LDB zbeta Ch m n LDC
         else
           INSERT_TASK_zgemm CblasTrans CblasNoTrans tempmm tempnn tempkm alpha
             Ah k m LDA Bh k n LDB zbeta Ch m n LDC)
      else
        (if k < m then
           INSERT_TASK_zgemm CblasTrans CblasNoTrans tempmm tempnn tempkm alpha
             Ah k m LDA Bh k n LDB zbeta Ch m n LDC
         else if k = m then
           INSERT_TASK_zsymm side uplo tempmm tempnn alpha Ah k k LDA Bh k n LDB zbeta Ch m n LDC
         else
           INSERT_TASK_zgemm CblasNoTrans CblasNoTrans tempmm tempnn tempkm alpha
             Ah m k LDA Bh k n LDB zbeta Ch m n LDC))"

definition zsymm_right_task ::
  "int \<Rightarrow> complex \<Rightarrow> matrix_descr \<Rightarrow> nat \<Rightarrow> matrix_descr \<Rightarrow> nat \<Rightarrow> complex \<Rightarrow> matrix_descr \<Rightarrow> nat
     \<Rightarrow> nat \<Rightarrow> nat \<Rightarrow> nat \<Rightarrow> task" where
  "zsymm_right_task uplo alpha Ah LDA Bh LDB beta Ch LDC k m n =
     (let tempkn = tile_dim (d_nt Ch) (d_N Ch) (d_nb Ch) k;
          zbeta = (if k = 0 then beta else 1);
          tempmm = tile_dim (d_mt Ch) (d_M Ch) (d_mb Ch) m;
          tempnn = tile_dim (d_nt Ch) (d_N Ch) (d_nb Ch) n in
      if uplo = CblasLower then
        (if k < n then
           INSERT_TASK_zgemm CblasNoTrans CblasTrans tempmm tempnn tempkn alpha
             Bh m k LDB Ah n k LDA zbeta Ch m n LDC
         else if k = n then
           INSERT_TASK_zsymm CblasRight uplo tempmm tempnn alpha Ah k k LDA Bh m k LDB zbeta Ch m n LDC
         else
           INSERT_TASK_zgemm CblasNoTrans CblasNoTrans tempmm tempnn tempkn alpha
             Bh m k LDB Ah k n LDA zbeta Ch m n LDC)
      else
        (if k < n then
           INSERT_TASK_zgemm CblasNoTrans CblasNoTrans tempmm tempnn tempkn alpha
             Bh m k LDB Ah k n LDA zbeta Ch m n LDC
         else if k = n then
           INSERT_TASK_zsymm CblasRight uplo tempmm tempnn alpha Ah k k LDA Bh m k LDB zbeta Ch m n LDC
         else
           INSERT_TASK_zgemm CblasNoTrans CblasTrans tempmm tempnn tempkn alpha
             Bh m k LDB Ah n k LDA zbeta Ch m n LDC))"

definition zsymm_tasks ::
  "int \<Rightarrow> int \<Rightarrow> complex \<Rightarrow> matrix_descr \<Rightarrow> nat \<Rightarrow> matrix_descr \<Rightarrow> nat \<Rightarrow> complex \<Rightarrow> matrix_descr \<Rightarrow> nat
     \<Rightarrow> task list" where
  "zsymm_tasks side uplo alpha Ah LDA Bh LDB beta Ch LDC =
     (if side = CblasLeft then
        concat (map (\<lambda>k. concat (map (\<lambda>n. map (\<lambda>m.
          zsymm_left_task side uplo alpha Ah LDA Bh LDB beta Ch LDC k m n)
          [0..<d_mt Ch]) [0..<d_nt Ch])) [0..<d_mt Ch])
      else
        concat (map (\<lambda>k. concat (map (\<lambda>m. map (\<lambda>n.
          zsymm_right_task uplo alpha Ah LDA Bh LDB beta Ch LDC k m n)
          [0..<d_nt Ch]) [0..<d_mt Ch])) [0..<d_nt Ch]))"

definition zhemm_left_task ::
  "int \<Rightarrow> int \<Rightarrow> complex \<Rightarrow> matrix_descr \<Rightarrow> nat \<Rightarrow> matrix_descr \<Rightarrow> nat \<Rightarrow> complex \<Rightarrow> matrix_descr \<Rightarrow> nat
     \<Rightarrow> nat \<Rightarrow> nat \<Rightarrow> nat \<Rightarrow> task" where
  "zhemm_left_task side uplo alpha Ah LDA Bh LDB beta Ch LDC k m n =
     (let tempkm = tile_dim (d_mt Ch) (d_M Ch) (d_mb Ch) k;
          zbeta = (if k = 0 then beta else 1);
          tempnn = tile_dim (d_nt Ch) (d_N Ch) (d_nb Ch) n;
          tempmm = tile_dim (d_mt Ch) (d_M Ch) (d_mb Ch) m in
      if uplo = CblasLower then
        (if k < m then
           INSERT_TASK_zgemm CblasNoTrans CblasNoTrans tempmm tempnn tempkm alpha
             Ah m k LDA Bh k n LDB zbeta Ch m n LDC
         else if k = m then
           INSERT_TASK_zhemm side uplo tempmm tempnn alpha Ah k k LDA Bh k n LDB zbeta Ch m n LDC
         else
           INSERT_TASK_zgemm CblasConjTrans CblasNoTrans tempmm tempnn tempkm alpha
             Ah k m LDA Bh k n LDB zbeta Ch m n LDC)
      else
        (if k < m then
           INSERT_TASK_zgemm CblasConjTrans CblasNoTrans tempmm tempnn tempkm alpha
             Ah k m LDA Bh k n LDB zbeta Ch m n LDC
         else if k = m then
           INSERT_TASK_zhemm side uplo tempmm tempnn alpha Ah k k LDA Bh k n LDB zbeta Ch m n LDC
         else
           INSERT_TASK_zgemm CblasNoTrans CblasNoTrans tempmm tempnn tempkm alpha
             Ah m k LDA Bh k n LDB zbeta Ch m n LDC))"

definition zhemm_right_task ::
  "int \<Rightarrow> int \<Rightarrow> complex \<Rightarrow> matrix_descr \<Rightarrow> nat \<Rightarrow> matrix_descr \<Rightarrow> nat \<Rightarrow> complex \<Rightarrow> matrix_descr \<Rightarrow> nat
     \<Rightarrow> nat \<Rightarrow> nat \<Rightarrow> nat \<Rightarrow> task" where
  "zhemm_right_task side uplo alpha Ah LDA Bh LDB beta Ch LDC k m n =
     (let tempkn = tile_dim (d_nt Ch) (d_N Ch) (d_nb Ch) k;
          zbeta = (if k = 0 then beta else 1);
          tempmm = tile_dim (d_mt Ch) (d_M Ch) (d_mb Ch) m;
          tempnn = tile_dim (d_nt Ch) (d_N Ch) (d_nb Ch) n in
      if uplo = CblasLower then
        (if k < n then
           INSERT_TASK_zgemm CblasNoTrans CblasConjTrans tempmm tempnn tempkn alpha
             Bh m k LDB Ah n k LDA zbeta Ch m n LDC
         else if k = n then
           INSERT_TASK_zhemm side uplo tempmm tempnn alpha Ah k k LDA Bh m k LDB zbeta Ch m n LDC
         else
           INSERT_TASK_zgemm CblasNoTrans CblasNoTrans tempmm tempnn tempkn alpha
             Bh m k LDB Ah k n LDA zbeta Ch m n LDC)
      else
        (if k < n then
           INSERT_TASK_zgemm CblasNoTrans CblasNoTrans tempmm tempnn tempkn alpha
             Bh m k LDB Ah k n LDA zbeta Ch m n LDC
         else if k = n then
           INSERT_TASK_zhemm side uplo tempmm tempnn alpha Ah k k LDA Bh m k LDB zbeta Ch m n LDC
         else
           INSERT_TASK_zgemm CblasNoTrans CblasConjTrans tempmm tempnn tempkn alpha
             Bh m k LDB Ah n k LDA zbeta Ch m n LDC))"

definition zhemm_tasks ::
  "int \<Rightarrow> int \<Rightarrow> complex \<Rightarrow> matrix_descr \<Rightarrow> nat \<Rightarrow> matrix_descr \<Rightarrow> nat \<Rightarrow> complex \<Rightarrow> matrix_descr \<Rightarrow> nat
     \<Rightarrow> task list" where
  "zhemm_tasks side uplo alpha Ah LDA Bh LDB beta Ch LDC =
     concat (map (\<lambda>m. concat (map (\<lambda>n.
       if side = CblasLeft
       then map (\<lambda>k. zhemm_left_task side uplo alpha Ah LDA Bh LDB beta Ch LDC k m n) [0..<d_mt Ch]
       else map (\<lambda>k. zhemm_right_task side uplo alpha Ah LDA Bh LDB beta Ch LDC k m n) [0..<d_nt Ch])
       [0..<d_nt Ch])) [0..<d_mt Ch])"

definition xkblas_zsymm_async ::
  "int \<Rightarrow> int \<Rightarrow> int \<Rightarrow> int \<Rightarrow> complex \<Rightarrow> nat \<Rightarrow> int \<Rightarrow> nat \<Rightarrow> int \<Rightarrow> complex \<Rightarrow> nat \<Rightarrow> int \<Rightarrow> ldreg \<Rightarrow> xk_ctx
     \<Rightarrow> (task list \<times> xk_ctx) outcome" where
  "xkblas_zsymm_async side uplo M N alpha A LDA B LDB beta C LDC R ctxt =
     (case zsymm_args side uplo M N LDA LDB LDC of
        Some c \<Rightarrow> Aborted c
      | None \<Rightarrow>
          if M = 0 \<or> N = 0 \<or> (alpha = 0 \<and> beta = 1) then Returned ([], ctxt)
          else let Am = nat (if side = CblasLeft then M else N) in
            (case setup_operands KERN_SYMM (nat M) (nat N) Am
                    [(A, Am, Am, size_of_int LDA), (B, nat M, nat N, size_of_int LDB),
                     (C, nat M, nat N, size_of_int LDC)] C R ctxt of
               None \<Rightarrow> Trapped
             | Some c5 \<Rightarrow>
                 Returned (zsymm_tasks side uplo alpha (the (xc_descr c5 A)) (size_of_int LDA)
                   (the (xc_descr c5 B)) (size_of_int LDB) beta (the (xc_descr c5 C)) (size_of_int LDC), c5)))"

definition xkblas_zhemm_async ::
  "int \<Rightarrow> int \<Rightarrow> int \<Rightarrow> int \<Rightarrow> complex \<Rightarrow> nat \<Rightarrow> int \<Rightarrow> nat \<Rightarrow> int \<Rightarrow> complex \<Rightarrow> nat \<Rightarrow> int \<Rightarrow> ldreg \<Rightarrow> xk_ctx
     \<Rightarrow> (task list \<times> xk_ctx) outcome" where
  "xkblas_zhemm_async side uplo M N alpha A LDA B LDB beta C LDC R ctxt =
     (case zhemm_args side uplo M N LDA LDB LDC of
        Some c \<Rightarrow> Aborted c
      | None \<Rightarrow>
          if M = 0 \<or> N = 0 \<or> (alpha = 0 \<and> beta = 1) then Returned ([], ctxt)
          else let Am = nat (if side = CblasLeft then M else N) in
            (case setup_operands KERN_HEMM (nat M) (nat N) Am
                    [(A, Am, Am, size_of_int LDA), (B, nat M, nat N, size_of_int LDB),
                     (C, nat M, nat N, size_of_int LDC)] C R ctxt of
               None \<Rightarrow> Trapped
             | Some c5 \<Rightarrow>
                 Returned (zhemm_tasks side uplo alpha (the (xc_descr c5 A)) (size_of_int LDA)
                   (the (xc_descr c5 B)) (size_of_int LDB) beta (the (xc_descr c5 C)) (size_of_int LDC), c5)))"


section \<open>One step of the product\<close>

text \<open>Entry \<open>(i,l)\<close> of the matrix whose triangle \<open>uplo\<close> is stored in \<open>A\<close>: symmetric when \<open>tr2\<close> is
  \<open>CblasTrans\<close>, Hermitian when it is \<open>CblasConjTrans\<close>; and the term \<open>l\<close> of entry \<open>(i,j)\<close> of the product.\<close>

definition full_el :: "int \<Rightarrow> int \<Rightarrow> cmat \<Rightarrow> cmat" where
  "full_el tr2 uplo A = (if tr2 = CblasTrans then sym_el uplo A else herm_el uplo A)"

definition mm_term :: "int \<Rightarrow> int \<Rightarrow> int \<Rightarrow> cmat \<Rightarrow> cmat \<Rightarrow> nat \<Rightarrow> nat \<Rightarrow> nat \<Rightarrow> complex" where
  "mm_term tr2 side uplo A B i j l =
     (if side = CblasLeft then full_el tr2 uplo A i l * B l j else B i l * full_el tr2 uplo A l j)"

definition symm_layout ::
  "int \<Rightarrow> nat \<Rightarrow> nat \<Rightarrow> nat \<Rightarrow> matrix_descr \<Rightarrow> nat \<Rightarrow> nat \<Rightarrow> matrix_descr \<Rightarrow> nat \<Rightarrow> nat \<Rightarrow> matrix_descr \<Rightarrow> nat \<Rightarrow> nat
     \<Rightarrow> bool" where
  "symm_layout side M N NB Ah A lda Bh B ldb Ch C ldc \<longleftrightarrow>
     0 < NB \<and> M \<le> ldc \<and>
     (let Am = (if side = CblasLeft then M else N) in
      descr_of Ah A Am Am lda NB NB \<and> descr_of Bh B M N ldb NB NB \<and> descr_of Ch C M N ldc NB NB \<and>
      arrays_disjoint A lda Am Am C ldc M N \<and> arrays_disjoint B ldb M N C ldc M N)"

text \<open>Off the diagonal tiles the stored tile is used as it is, or transposed.\<close>

lemma full_el_off:
  assumes "tr2 = CblasTrans \<or> tr2 = CblasConjTrans" "valid_uplo uplo" "i div NB \<noteq> l div NB"
  shows "full_el tr2 uplo A i l =
    (if (uplo = CblasLower) = (l div NB < i div NB) then A i l else op_el tr2 A i l)"
proof -
  have "i \<noteq> l" using assms(3) by auto
  moreover have "in_tri uplo i l \<longleftrightarrow> (uplo = CblasLower) = (l div NB < i div NB)"
    using assms(2,3) off_diag_tri [OF assms(2,3)] by (auto simp: off_diag_def split: if_splits)
  ultimately show ?thesis
    using assms(1) by (auto simp: full_el_def sym_el_def herm_el_def op_el_def enum_simps)
qed

lemma full_el_shift: "full_el tr2 uplo (sub_block (r * NB) (r * NB) A) i l = full_el tr2 uplo A (r * NB + i) (r * NB + l)"
  by (auto simp: full_el_def sym_el_def herm_el_def in_tri_shift)

lemma elementwise_symm_task:
  assumes K: "\<And>al A B be C i j. i < tm \<Longrightarrow> j < tn \<Longrightarrow> kb side uplo tm tn al A B be C i j =
      be * C i j + al * (\<Sum>l<(if side = CblasLeft then tm else tn). mm_term tr2 side uplo A B i j l)"
    and ex: "\<And>mem'. exec_task K J t mem' = store_block (h_data hC) ldc tm tn
      (kb side uplo tm tn al (view mem' (h_data hA) lda) (view mem' (h_data hB) ldb) be
         (acquired J (w_or_rw be) mem' hC ldc)) mem'"
    and geo: "tile_of M N NB NB m n tm tn" and ldc: "M \<le> ldc"
    and r: "r = (if side = CblasLeft then m else n)"
    and C: "h_data hC = C + (m * NB + n * NB * ldc) * ELTSIZE"
    and A: "h_data hA = A + (r * NB + r * NB * lda) * ELTSIZE"
    and B: "h_data hB = B + (m * NB + n * NB * ldb) * ELTSIZE"
    and d: "arrays_disjoint A lda Am Am C ldc M N" "Am = (if side = CblasLeft then M else N)"
      "arrays_disjoint B ldb M N C ldc M N"
  shows "elementwise K J C ldc M N mem [t] (tile_act NB NB m n (\<lambda>i j c. be * c +
     al * (\<Sum>l<(if side = CblasLeft then tm else tn). mm_term tr2 side uplo (view mem A lda) (view mem B ldb) i j (r * NB + l))))"
proof (rule elementwise_store [OF _ geo ldc,
    where F = "\<lambda>mem'. kb side uplo tm tn al (view mem' (h_data hA) lda) (view mem' (h_data hB) ldb) be
         (acquired J (w_or_rw be) mem' hC ldc)"])
  fix X i j assume ij: "i < tm" "j < tn"
  let ?mem = "store_block C ldc M N X mem"
  note fits = tile_of_fits [OF geo]
  have im: "m * NB + i < M" "n * NB + j < N" using fits ij by auto
  have a: "view ?mem (h_data hA) lda i' l' = sub_block (r * NB) (r * NB) (view mem A lda) i' l'"
    if "r * NB + i' < Am" "r * NB + l' < Am" for i' l'
    using that d(1) ldc by (simp add: A view_operand)
  have b: "view ?mem (h_data hB) ldb i' l' = view mem B ldb (m * NB + i') (n * NB + l')"
    if "m * NB + i' < M" "n * NB + l' < N" for i' l'
    using that d(3) ldc by (simp add: B view_operand)
  have c: "view ?mem (h_data hC) ldc i j = X (m * NB + i) (n * NB + j)"
    using im ldc by (simp add: C view_result)
  have el: "full_el tr2 uplo (view ?mem (h_data hA) lda) i' l' = full_el tr2 uplo (view mem A lda) (r * NB + i') (r * NB + l')"
    if "r * NB + i' < Am" "r * NB + l' < Am" for i' l'
    using that a [OF that] a [OF that(2,1)] a [OF that(1,1)]
    by (simp add: full_el_shift [symmetric]) (auto simp: full_el_def sym_el_def herm_el_def)
  have t: "mm_term tr2 side uplo (view ?mem (h_data hA) lda) (view ?mem (h_data hB) ldb) i j l =
      mm_term tr2 side uplo (view mem A lda) (view mem B ldb) (m * NB + i) (n * NB + j) (r * NB + l)"
    if "l < (if side = CblasLeft then tm else tn)" for l
  proof (cases "side = CblasLeft")
    case True
    then have "m * NB + l < M" using that fits by simp
    then show ?thesis using True im d(2) r el [of i l] b [of l j] by (simp add: mm_term_def)
  next
    case False
    then have "n * NB + l < N" using that fits by simp
    then show ?thesis using False im d(2) r el [of l j] b [of i l] by (simp add: mm_term_def)
  qed
  show "kb side uplo tm tn al (view ?mem (h_data hA) lda) (view ?mem (h_data hB) ldb) be
         (acquired J (w_or_rw be) ?mem hC ldc) i j = be * X (m * NB + i) (n * NB + j) +
     al * (\<Sum>l<(if side = CblasLeft then tm else tn). mm_term tr2 side uplo (view mem A lda) (view mem B ldb)
       (m * NB + i) (n * NB + j) (r * NB + l))"
    unfolding K [OF ij] acquired_w_or_rw c by (simp add: t)
qed (simp add: C ex)

lemma symm_kernel_terms:
  "symm_ok K \<Longrightarrow> valid_side side \<Longrightarrow> valid_uplo uplo \<Longrightarrow> i < m \<Longrightarrow> j < n \<Longrightarrow>
   kb_symm K side uplo m n al A B be C i j = be * C i j + al *
     (\<Sum>l<(if side = CblasLeft then m else n). mm_term CblasTrans side uplo A B i j l)"
  by (auto simp: symm_ok_def agree_on_def symm_val_def mm_term_def full_el_def)

lemma hemm_kernel_terms:
  "hemm_ok K \<Longrightarrow> valid_side side \<Longrightarrow> valid_uplo uplo \<Longrightarrow> i < m \<Longrightarrow> j < n \<Longrightarrow>
   kb_hemm K side uplo m n al A B be C i j = be * C i j + al *
     (\<Sum>l<(if side = CblasLeft then m else n). mm_term CblasConjTrans side uplo A B i j l)"
  by (auto simp: hemm_ok_def agree_on_def hemm_val_def mm_term_def full_el_def enum_simps)


lemma symm_layoutD:
  assumes "symm_layout side M N NB Ah A lda Bh B ldb Ch C ldc"
  shows "0 < NB" "M \<le> ldc"
    "descr_of Ah A (if side = CblasLeft then M else N) (if side = CblasLeft then M else N) lda NB NB"
    "descr_of Bh B M N ldb NB NB" "descr_of Ch C M N ldc NB NB"
    "arrays_disjoint A lda (if side = CblasLeft then M else N) (if side = CblasLeft then M else N) C ldc M N"
    "arrays_disjoint B ldb M N C ldc M N"
  using assms by (auto simp: symm_layout_def Let_def)

text \<open>The gemm task of step \<open>k\<close>, off the diagonal, in the form the two sides share: \<open>p\<close> says whether the
  stored tile is the one the product needs.\<close>

lemma left_gemm_step:
  assumes K: "gemm_ok K" and t: "tr2 = CblasTrans \<or> tr2 = CblasConjTrans" and u: "valid_uplo uplo"
    and lay: "symm_layout CblasLeft M N NB Ah A lda Bh B ldb Ch C ldc"
    and mn: "m < d_mt Ch" "n < d_nt Ch" "k < d_mt Ch" "k \<noteq> m" and p: "p = ((uplo = CblasLower) = (k < m))"
  shows "elementwise K J C ldc M N mem
      [TGemm (if p then CblasNoTrans else tr2) CblasNoTrans (tile_dim (d_mt Ch) M NB m) (tile_dim (d_nt Ch) N NB n)
         (tile_dim (d_mt Ch) M NB k) al (if p then xkblas_get_handle Ah m k else xkblas_get_handle Ah k m) lda
         (xkblas_get_handle Bh k n) ldb z (xkblas_get_handle Ch m n) ldc]
      (tile_act NB NB m n (\<lambda>i j c. z * c + al * (\<Sum>l<tile_dim (d_mt Ch) M NB k.
         mm_term tr2 CblasLeft uplo (view mem A lda) (view mem B ldb) i j (k * NB + l))))"
proof -
  note L = symm_layoutD [OF lay]
  note dims = descr_of_dims [OF L(3)] descr_of_dims [OF L(4)] descr_of_dims [OF L(5)]
  have dC: "d_mt Ch = xkblas_num_of_tiles M NB" "d_nt Ch = xkblas_num_of_tiles N NB" using dims by auto
  let ?ta = "if p then CblasNoTrans else tr2"
  have vt: "valid_trans ?ta" "valid_trans CblasNoTrans" using t by (auto simp: valid_trans_def)
  have ne: "tr2 \<noteq> CblasNoTrans" using t by (auto simp: enum_simps)
  have g: "elementwise K J C ldc M N mem
      [TGemm ?ta CblasNoTrans (tile_dim (d_mt Ch) M NB m) (tile_dim (d_nt Ch) N NB n)
         (tile_dim (d_mt Ch) M NB k) al (if p then xkblas_get_handle Ah m k else xkblas_get_handle Ah k m) lda
         (xkblas_get_handle Bh k n) ldb z (xkblas_get_handle Ch m n) ldc]
      (tile_act NB NB m n (\<lambda>i j c. z * c + al * (\<Sum>l<tile_dim (d_mt Ch) M NB k.
         op_el ?ta (view mem A lda) i (k * NB + l) * op_el CblasNoTrans (view mem B ldb) (k * NB + l) j)))"
    unfolding dC
    by (rule gemm_k_task [OF K vt L(1,2)])
       (use mn dims L(6,7) ne in \<open>auto simp: descr_of_data [OF L(3)] descr_of_data [OF L(4)] descr_of_data [OF L(5)]\<close>)
  show ?thesis
  proof (rule elementwise_cong [OF g L(2)])
    fix i j c assume ij: "i < M" "j < N"
    have kl: "(k * NB + l) div NB = k" if "l < tile_dim (d_mt Ch) M NB k" for l
      using that tile_dim_le [OF L(1), of k M] mn(3) dC by (intro tile_index_div) simp
    have "i div NB = m \<Longrightarrow> l < tile_dim (d_mt Ch) M NB k \<Longrightarrow>
        full_el tr2 uplo Z i (k * NB + l) = op_el ?ta Z i (k * NB + l)" for l Z
      using full_el_off [OF t u, of i NB "k * NB + l"] kl [of l] mn(4) p by (auto simp: op_el_def)
    then show "tile_act NB NB m n (\<lambda>i j c. z * c + al * (\<Sum>l<tile_dim (d_mt Ch) M NB k.
         op_el ?ta (view mem A lda) i (k * NB + l) * op_el CblasNoTrans (view mem B ldb) (k * NB + l) j)) i j c =
      tile_act NB NB m n (\<lambda>i j c. z * c + al * (\<Sum>l<tile_dim (d_mt Ch) M NB k.
         mm_term tr2 CblasLeft uplo (view mem A lda) (view mem B ldb) i j (k * NB + l))) i j c"
      by (auto simp: tile_act_def mm_term_def op_el_def intro!: sum.cong)
  qed
qed

lemma right_gemm_step:
  assumes K: "gemm_ok K" and t: "tr2 = CblasTrans \<or> tr2 = CblasConjTrans" and u: "valid_uplo uplo"
    and lay: "symm_layout CblasRight M N NB Ah A lda Bh B ldb Ch C ldc"
    and mn: "m < d_mt Ch" "n < d_nt Ch" "k < d_nt Ch" "k \<noteq> n" and p: "p = ((uplo = CblasLower) \<noteq> (k < n))"
  shows "elementwise K J C ldc M N mem
      [TGemm CblasNoTrans (if p then CblasNoTrans else tr2) (tile_dim (d_mt Ch) M NB m) (tile_dim (d_nt Ch) N NB n)
         (tile_dim (d_nt Ch) N NB k) al (xkblas_get_handle Bh m k) ldb
         (if p then xkblas_get_handle Ah k n else xkblas_get_handle Ah n k) lda z (xkblas_get_handle Ch m n) ldc]
      (tile_act NB NB m n (\<lambda>i j c. z * c + al * (\<Sum>l<tile_dim (d_nt Ch) N NB k.
         mm_term tr2 CblasRight uplo (view mem A lda) (view mem B ldb) i j (k * NB + l))))"
proof -
  note L = symm_layoutD [OF lay]
  have sr: "CblasRight \<noteq> CblasLeft" by (simp add: enum_simps)
  note dims = descr_of_dims [OF L(3)] descr_of_dims [OF L(4)] descr_of_dims [OF L(5)]
  have dC: "d_mt Ch = xkblas_num_of_tiles M NB" "d_nt Ch = xkblas_num_of_tiles N NB" using dims by auto
  let ?tb = "if p then CblasNoTrans else tr2"
  have vt: "valid_trans CblasNoTrans" "valid_trans ?tb" using t by (auto simp: valid_trans_def)
  have ne: "tr2 \<noteq> CblasNoTrans" using t by (auto simp: enum_simps)
  have g: "elementwise K J C ldc M N mem
      [TGemm CblasNoTrans ?tb (tile_dim (d_mt Ch) M NB m) (tile_dim (d_nt Ch) N NB n)
         (tile_dim (d_nt Ch) N NB k) al (xkblas_get_handle Bh m k) ldb
         (if p then xkblas_get_handle Ah k n else xkblas_get_handle Ah n k) lda z (xkblas_get_handle Ch m n) ldc]
      (tile_act NB NB m n (\<lambda>i j c. z * c + al * (\<Sum>l<tile_dim (d_nt Ch) N NB k.
         op_el CblasNoTrans (view mem B ldb) i (k * NB + l) * op_el ?tb (view mem A lda) (k * NB + l) j)))"
    unfolding dC
    by (rule gemm_k_task [OF K vt L(1,2)])
       (use mn dims L(6,7) ne sr in \<open>auto simp: descr_of_data [OF L(3)] descr_of_data [OF L(4)] descr_of_data [OF L(5)]\<close>)
  show ?thesis
  proof (rule elementwise_cong [OF g L(2)])
    fix i j c assume ij: "i < M" "j < N"
    have kl: "(k * NB + l) div NB = k" if "l < tile_dim (d_nt Ch) N NB k" for l
      using that tile_dim_le [OF L(1), of k N] mn(3) dC by (intro tile_index_div) simp
    have "j div NB = n \<Longrightarrow> l < tile_dim (d_nt Ch) N NB k \<Longrightarrow>
        full_el tr2 uplo Z (k * NB + l) j = op_el ?tb Z (k * NB + l) j" for l Z
      using full_el_off [OF t u, of "k * NB + l" NB j] kl [of l] mn(4) p
      by (auto simp: op_el_def split: if_splits)
    then show "tile_act NB NB m n (\<lambda>i j c. z * c + al * (\<Sum>l<tile_dim (d_nt Ch) N NB k.
         op_el CblasNoTrans (view mem B ldb) i (k * NB + l) * op_el ?tb (view mem A lda) (k * NB + l) j)) i j c =
      tile_act NB NB m n (\<lambda>i j c. z * c + al * (\<Sum>l<tile_dim (d_nt Ch) N NB k.
         mm_term tr2 CblasRight uplo (view mem A lda) (view mem B ldb) i j (k * NB + l))) i j c"
      by (auto simp: tile_act_def mm_term_def op_el_def sr intro!: sum.cong)
  qed
qed


lemma symm_diag_step:
  assumes K: "\<And>al A B be C i j. i < tm \<Longrightarrow> j < tn \<Longrightarrow> kb side uplo tm tn al A B be C i j =
      be * C i j + al * (\<Sum>l<(if side = CblasLeft then tm else tn). mm_term tr2 side uplo A B i j l)"
    and ex: "\<And>mem'. exec_task K J t mem' = store_block (h_data (xkblas_get_handle Ch m n)) ldc tm tn
      (kb side uplo tm tn al (view mem' (h_data (xkblas_get_handle Ah r r)) lda)
         (view mem' (h_data (xkblas_get_handle Bh m n)) ldb) z
         (acquired J (w_or_rw z) mem' (xkblas_get_handle Ch m n) ldc)) mem'"
    and lay: "symm_layout side M N NB Ah A lda Bh B ldb Ch C ldc"
    and mn: "m < d_mt Ch" "n < d_nt Ch" and r: "r = (if side = CblasLeft then m else n)"
    and tmn: "tm = tile_dim (d_mt Ch) M NB m" "tn = tile_dim (d_nt Ch) N NB n"
  shows "elementwise K J C ldc M N mem [t] (tile_act NB NB m n (\<lambda>i j c. z * c +
     al * (\<Sum>l<(if side = CblasLeft then tm else tn). mm_term tr2 side uplo (view mem A lda) (view mem B ldb) i j (r * NB + l))))"
proof -
  note L = symm_layoutD [OF lay]
  note dims = descr_of_dims [OF L(3)] descr_of_dims [OF L(4)] descr_of_dims [OF L(5)]
  have geo: "tile_of M N NB NB m n tm tn" using L(1) mn dims tmn by (simp add: tile_of_def)
  show ?thesis
    by (rule elementwise_symm_task [where kb = kb and side = side, OF K ex geo L(2) r _ _ _ L(6) refl L(7)])
       (use mn dims r in \<open>auto simp: descr_of_data [OF L(3)] descr_of_data [OF L(4)] descr_of_data [OF L(5)]\<close>)
qed

lemma zsymm_left_step:
  assumes K: "gemm_ok K" "symm_ok K" and u: "valid_uplo uplo"
    and lay: "symm_layout CblasLeft M N NB Ah A lda Bh B ldb Ch C ldc"
    and mn: "m < d_mt Ch" "n < d_nt Ch" "k < d_mt Ch"
  shows "elementwise K J C ldc M N mem [zsymm_left_task CblasLeft uplo al Ah lda Bh ldb be Ch ldc k m n]
      (tile_act NB NB m n (\<lambda>i j c. (if k = 0 then be else 1) * c + al * (\<Sum>l<tile_dim (d_mt Ch) M NB k.
         mm_term CblasTrans CblasLeft uplo (view mem A lda) (view mem B ldb) i j (k * NB + l))))"
proof -
  note L = symm_layoutD [OF lay]
  note dims = descr_of_dims [OF L(5)]
  have sr: "CblasRight \<noteq> CblasLeft" and vs: "valid_side CblasLeft" by (simp_all add: enum_simps valid_side_def)
  have MN: "d_M Ch = M" "d_N Ch = N" using L(5) by (auto simp: descr_of_def)
  have t: "CblasTrans = CblasTrans \<or> CblasTrans = CblasConjTrans" by simp
  let ?tm = "tile_dim (d_mt Ch) M NB m" and ?tn = "tile_dim (d_nt Ch) N NB n"
  show ?thesis
  proof (cases "k = m")
    case True
    have "elementwise K J C ldc M N mem [TSymm CblasLeft uplo ?tm ?tn al (xkblas_get_handle Ah m m) lda
        (xkblas_get_handle Bh m n) ldb z (xkblas_get_handle Ch m n) ldc]
      (tile_act NB NB m n (\<lambda>i j c. z * c + al * (\<Sum>l<(if CblasLeft = CblasLeft then ?tm else ?tn).
         mm_term CblasTrans CblasLeft uplo (view mem A lda) (view mem B ldb) i j (m * NB + l))))" for z
      by (rule symm_diag_step [where kb = "kb_symm K" and side = CblasLeft, OF symm_kernel_terms [OF K(2) vs u] _ lay mn(1,2) _ refl refl])
         (simp_all add: zsymm_body_def sr)
    from this [of "if k = 0 then be else 1"] show ?thesis
      using True dims sr by (cases "uplo = CblasLower") (simp_all add: zsymm_left_task_def Let_def insert_defs MN)
  next
    case False
    show ?thesis
      using False dims left_gemm_step [OF K(1) t u lay mn False refl, of J mem al "if k = 0 then be else 1"]
      by (cases "uplo = CblasLower"; cases "k < m")
         (simp_all add: zsymm_left_task_def Let_def insert_defs MN)
  qed
qed

lemma zsymm_right_step:
  assumes K: "gemm_ok K" "symm_ok K" and u: "valid_uplo uplo"
    and lay: "symm_layout CblasRight M N NB Ah A lda Bh B ldb Ch C ldc"
    and mn: "m < d_mt Ch" "n < d_nt Ch" "k < d_nt Ch"
  shows "elementwise K J C ldc M N mem [zsymm_right_task uplo al Ah lda Bh ldb be Ch ldc k m n]
      (tile_act NB NB m n (\<lambda>i j c. (if k = 0 then be else 1) * c + al * (\<Sum>l<tile_dim (d_nt Ch) N NB k.
         mm_term CblasTrans CblasRight uplo (view mem A lda) (view mem B ldb) i j (k * NB + l))))"
proof -
  note L = symm_layoutD [OF lay]
  note dims = descr_of_dims [OF L(5)]
  have sr: "CblasRight \<noteq> CblasLeft" and vs: "valid_side CblasRight" by (simp_all add: enum_simps valid_side_def)
  have MN: "d_M Ch = M" "d_N Ch = N" using L(5) by (auto simp: descr_of_def)
  have t: "CblasTrans = CblasTrans \<or> CblasTrans = CblasConjTrans" by simp
  let ?tm = "tile_dim (d_mt Ch) M NB m" and ?tn = "tile_dim (d_nt Ch) N NB n"
  show ?thesis
  proof (cases "k = n")
    case True
    have "elementwise K J C ldc M N mem [TSymm CblasRight uplo ?tm ?tn al (xkblas_get_handle Ah n n) lda
        (xkblas_get_handle Bh m n) ldb z (xkblas_get_handle Ch m n) ldc]
      (tile_act NB NB m n (\<lambda>i j c. z * c + al * (\<Sum>l<(if CblasRight = CblasLeft then ?tm else ?tn).
         mm_term CblasTrans CblasRight uplo (view mem A lda) (view mem B ldb) i j (n * NB + l))))" for z
      by (rule symm_diag_step [where kb = "kb_symm K" and side = CblasRight, OF symm_kernel_terms [OF K(2) vs u] _ lay mn(1,2) _ refl refl])
         (simp_all add: zsymm_body_def sr)
    from this [of "if k = 0 then be else 1"] show ?thesis
      using True dims sr by (cases "uplo = CblasLower") (simp_all add: zsymm_right_task_def Let_def insert_defs MN)
  next
    case False
    show ?thesis
      using False dims right_gemm_step [OF K(1) t u lay mn False refl, of J mem al "if k = 0 then be else 1"]
      by (cases "uplo = CblasLower"; cases "k < n")
         (simp_all add: zsymm_right_task_def Let_def insert_defs MN)
  qed
qed

lemma zhemm_left_step:
  assumes K: "gemm_ok K" "hemm_ok K" and u: "valid_uplo uplo"
    and lay: "symm_layout CblasLeft M N NB Ah A lda Bh B ldb Ch C ldc"
    and mn: "m < d_mt Ch" "n < d_nt Ch" "k < d_mt Ch"
  shows "elementwise K J C ldc M N mem [zhemm_left_task CblasLeft uplo al Ah lda Bh ldb be Ch ldc k m n]
      (tile_act NB NB m n (\<lambda>i j c. (if k = 0 then be else 1) * c + al * (\<Sum>l<tile_dim (d_mt Ch) M NB k.
         mm_term CblasConjTrans CblasLeft uplo (view mem A lda) (view mem B ldb) i j (k * NB + l))))"
proof -
  note L = symm_layoutD [OF lay]
  note dims = descr_of_dims [OF L(5)]
  have sr: "CblasRight \<noteq> CblasLeft" and vs: "valid_side CblasLeft" by (simp_all add: enum_simps valid_side_def)
  have MN: "d_M Ch = M" "d_N Ch = N" using L(5) by (auto simp: descr_of_def)
  have t: "CblasConjTrans = CblasTrans \<or> CblasConjTrans = CblasConjTrans" by simp
  let ?tm = "tile_dim (d_mt Ch) M NB m" and ?tn = "tile_dim (d_nt Ch) N NB n"
  show ?thesis
  proof (cases "k = m")
    case True
    have "elementwise K J C ldc M N mem [THemm CblasLeft uplo ?tm ?tn al (xkblas_get_handle Ah m m) lda
        (xkblas_get_handle Bh m n) ldb z (xkblas_get_handle Ch m n) ldc]
      (tile_act NB NB m n (\<lambda>i j c. z * c + al * (\<Sum>l<(if CblasLeft = CblasLeft then ?tm else ?tn).
         mm_term CblasConjTrans CblasLeft uplo (view mem A lda) (view mem B ldb) i j (m * NB + l))))" for z
      by (rule symm_diag_step [where kb = "kb_hemm K" and side = CblasLeft, OF hemm_kernel_terms [OF K(2) vs u] _ lay mn(1,2) _ refl refl])
         (simp_all add: zhemm_body_def sr)
    from this [of "if k = 0 then be else 1"] show ?thesis
      using True dims sr by (cases "uplo = CblasLower") (simp_all add: zhemm_left_task_def Let_def insert_defs MN)
  next
    case False
    show ?thesis
      using False dims left_gemm_step [OF K(1) t u lay mn False refl, of J mem al "if k = 0 then be else 1"]
      by (cases "uplo = CblasLower"; cases "k < m")
         (simp_all add: zhemm_left_task_def Let_def insert_defs MN)
  qed
qed

lemma zhemm_right_step:
  assumes K: "gemm_ok K" "hemm_ok K" and u: "valid_uplo uplo"
    and lay: "symm_layout CblasRight M N NB Ah A lda Bh B ldb Ch C ldc"
    and mn: "m < d_mt Ch" "n < d_nt Ch" "k < d_nt Ch"
  shows "elementwise K J C ldc M N mem [zhemm_right_task CblasRight uplo al Ah lda Bh ldb be Ch ldc k m n]
      (tile_act NB NB m n (\<lambda>i j c. (if k = 0 then be else 1) * c + al * (\<Sum>l<tile_dim (d_nt Ch) N NB k.
         mm_term CblasConjTrans CblasRight uplo (view mem A lda) (view mem B ldb) i j (k * NB + l))))"
proof -
  note L = symm_layoutD [OF lay]
  note dims = descr_of_dims [OF L(5)]
  have sr: "CblasRight \<noteq> CblasLeft" and vs: "valid_side CblasRight" by (simp_all add: enum_simps valid_side_def)
  have MN: "d_M Ch = M" "d_N Ch = N" using L(5) by (auto simp: descr_of_def)
  have t: "CblasConjTrans = CblasTrans \<or> CblasConjTrans = CblasConjTrans" by simp
  let ?tm = "tile_dim (d_mt Ch) M NB m" and ?tn = "tile_dim (d_nt Ch) N NB n"
  show ?thesis
  proof (cases "k = n")
    case True
    have "elementwise K J C ldc M N mem [THemm CblasRight uplo ?tm ?tn al (xkblas_get_handle Ah n n) lda
        (xkblas_get_handle Bh m n) ldb z (xkblas_get_handle Ch m n) ldc]
      (tile_act NB NB m n (\<lambda>i j c. z * c + al * (\<Sum>l<(if CblasRight = CblasLeft then ?tm else ?tn).
         mm_term CblasConjTrans CblasRight uplo (view mem A lda) (view mem B ldb) i j (n * NB + l))))" for z
      by (rule symm_diag_step [where kb = "kb_hemm K" and side = CblasRight, OF hemm_kernel_terms [OF K(2) vs u] _ lay mn(1,2) _ refl refl])
         (simp_all add: zhemm_body_def sr)
    from this [of "if k = 0 then be else 1"] show ?thesis
      using True dims sr by (cases "uplo = CblasLower") (simp_all add: zhemm_right_task_def Let_def insert_defs MN)
  next
    case False
    show ?thesis
      using False dims right_gemm_step [OF K(1) t u lay mn False refl, of J mem al "if k = 0 then be else 1"]
      by (cases "uplo = CblasLower"; cases "k < n")
         (simp_all add: zhemm_right_task_def Let_def insert_defs MN)
  qed
qed


section \<open>The loops\<close>

lemma sweep_columns:
  assumes NB: "0 < NB" and ij: "i < M" "j < N"
  shows "fold (\<lambda>n. fold (\<lambda>m. tile_act NB NB m n G i j) [0..<xkblas_num_of_tiles M NB])
           [0..<xkblas_num_of_tiles N NB] c = G i j c"
proof -
  have row: "fold (\<lambda>m. tile_act NB NB m n G i j) [0..<xkblas_num_of_tiles M NB] c = (if j div NB = n then G i j c else c)" for n c
    using fold_upt_only_one [of "xkblas_num_of_tiles M NB" "i div NB" "\<lambda>m. tile_act NB NB m n G i j" c]
      tile_of_index(1) [OF NB ij(1)] by (auto simp: tile_act_def)
  show ?thesis
    using fold_upt_only_one [of "xkblas_num_of_tiles N NB" "j div NB" "\<lambda>n c. if j div NB = n then G i j c else c" c]
      tile_of_index(1) [OF NB ij(2)] by (simp add: row [THEN ext] cong: if_cong)
qed

lemmas sweep_ext = sweep_all_tiles [THEN ext] sweep_columns [THEN ext]
lemmas fold_tile_act_ext = fold_tile_act [THEN ext]

lemma accumulate_product:
  fixes f :: "nat \<Rightarrow> complex"
  assumes NB: "0 < NB" and K: "0 < K"
  shows "fold (\<lambda>k c. (if k = 0 then be else 1) * c + al * (\<Sum>l<tile_dim (xkblas_num_of_tiles K NB) K NB k. f (k * NB + l)))
      [0..<xkblas_num_of_tiles K NB] c = be * c + al * (\<Sum>l<K. f l)"
  using num_tiles_pos [OF NB, of K] K
  by (simp add: fold_accumulate sum_tiles_scaled [OF NB, where K = K and f = f])

lemma zsymm_left_elementwise:
  assumes K: "gemm_ok K" "symm_ok K" and u: "valid_uplo uplo" and M: "0 < M"
    and lay: "symm_layout CblasLeft M N NB Ah A lda Bh B ldb Ch C ldc"
  shows "elementwise K J C ldc M N mem (zsymm_tasks CblasLeft uplo al Ah lda Bh ldb be Ch ldc)
      (\<lambda>i j c. be * c + al * (\<Sum>l<M. mm_term CblasTrans CblasLeft uplo (view mem A lda) (view mem B ldb) i j l))"
proof -
  note L = symm_layoutD [OF lay]
  note dims = descr_of_dims [OF L(5)]
  let ?G = "\<lambda>k i j c. (if k = 0 then be else 1) * c + al * (\<Sum>l<tile_dim (d_mt Ch) M NB k.
         mm_term CblasTrans CblasLeft uplo (view mem A lda) (view mem B ldb) i j (k * NB + l))"
  have one: "elementwise K J C ldc M N mem [zsymm_left_task CblasLeft uplo al Ah lda Bh ldb be Ch ldc k m n]
      (tile_act NB NB m n (?G k))" if "k \<in> set [0..<d_mt Ch]" "n \<in> set [0..<d_nt Ch]" "m \<in> set [0..<d_mt Ch]" for k m n
    using that by (intro zsymm_left_step [OF K u lay]) auto
  show ?thesis
    unfolding zsymm_tasks_def if_P [OF refl]
    by (rule elementwise_cong [OF elementwise_concat [OF elementwise_concat [OF elementwise_map [OF one]]] L(2)])
       (auto simp: dims sweep_ext(2) [OF L(1)] accumulate_product [OF L(1) M])
qed

lemma zsymm_right_elementwise:
  assumes K: "gemm_ok K" "symm_ok K" and u: "valid_uplo uplo" and N: "0 < N"
    and lay: "symm_layout CblasRight M N NB Ah A lda Bh B ldb Ch C ldc"
  shows "elementwise K J C ldc M N mem (zsymm_tasks CblasRight uplo al Ah lda Bh ldb be Ch ldc)
      (\<lambda>i j c. be * c + al * (\<Sum>l<N. mm_term CblasTrans CblasRight uplo (view mem A lda) (view mem B ldb) i j l))"
proof -
  note L = symm_layoutD [OF lay]
  note dims = descr_of_dims [OF L(5)]
  have sr: "CblasRight \<noteq> CblasLeft" by (simp add: enum_simps)
  let ?G = "\<lambda>k i j c. (if k = 0 then be else 1) * c + al * (\<Sum>l<tile_dim (d_nt Ch) N NB k.
         mm_term CblasTrans CblasRight uplo (view mem A lda) (view mem B ldb) i j (k * NB + l))"
  have one: "elementwise K J C ldc M N mem [zsymm_right_task uplo al Ah lda Bh ldb be Ch ldc k m n]
      (tile_act NB NB m n (?G k))" if "k \<in> set [0..<d_nt Ch]" "m \<in> set [0..<d_mt Ch]" "n \<in> set [0..<d_nt Ch]" for k m n
    using that by (intro zsymm_right_step [OF K u lay]) auto
  show ?thesis
    unfolding zsymm_tasks_def if_not_P [OF sr]
    by (rule elementwise_cong [OF elementwise_concat [OF elementwise_concat [OF elementwise_map [OF one]]] L(2)])
       (auto simp: dims sweep_ext(1) [OF L(1)] accumulate_product [OF L(1) N])
qed

lemma zhemm_left_elementwise:
  assumes K: "gemm_ok K" "hemm_ok K" and u: "valid_uplo uplo" and M: "0 < M"
    and lay: "symm_layout CblasLeft M N NB Ah A lda Bh B ldb Ch C ldc"
  shows "elementwise K J C ldc M N mem (zhemm_tasks CblasLeft uplo al Ah lda Bh ldb be Ch ldc)
      (\<lambda>i j c. be * c + al * (\<Sum>l<M. mm_term CblasConjTrans CblasLeft uplo (view mem A lda) (view mem B ldb) i j l))"
proof -
  note L = symm_layoutD [OF lay]
  note dims = descr_of_dims [OF L(5)]
  let ?G = "\<lambda>k i j c. (if k = 0 then be else 1) * c + al * (\<Sum>l<tile_dim (d_mt Ch) M NB k.
         mm_term CblasConjTrans CblasLeft uplo (view mem A lda) (view mem B ldb) i j (k * NB + l))"
  have one: "elementwise K J C ldc M N mem [zhemm_left_task CblasLeft uplo al Ah lda Bh ldb be Ch ldc k m n]
      (tile_act NB NB m n (?G k))" if "m \<in> set [0..<d_mt Ch]" "n \<in> set [0..<d_nt Ch]" "k \<in> set [0..<d_mt Ch]" for k m n
    using that by (intro zhemm_left_step [OF K u lay]) auto
  show ?thesis
    unfolding zhemm_tasks_def if_P [OF refl]
    by (rule elementwise_cong [OF elementwise_concat [OF elementwise_concat [OF elementwise_map [OF one]]] L(2)])
       (auto simp: dims fold_tile_act_ext sweep_ext(1) [OF L(1)] accumulate_product [OF L(1) M])
qed

lemma zhemm_right_elementwise:
  assumes K: "gemm_ok K" "hemm_ok K" and u: "valid_uplo uplo" and N: "0 < N"
    and lay: "symm_layout CblasRight M N NB Ah A lda Bh B ldb Ch C ldc"
  shows "elementwise K J C ldc M N mem (zhemm_tasks CblasRight uplo al Ah lda Bh ldb be Ch ldc)
      (\<lambda>i j c. be * c + al * (\<Sum>l<N. mm_term CblasConjTrans CblasRight uplo (view mem A lda) (view mem B ldb) i j l))"
proof -
  note L = symm_layoutD [OF lay]
  note dims = descr_of_dims [OF L(5)]
  have sr: "CblasRight \<noteq> CblasLeft" by (simp add: enum_simps)
  let ?G = "\<lambda>k i j c. (if k = 0 then be else 1) * c + al * (\<Sum>l<tile_dim (d_nt Ch) N NB k.
         mm_term CblasConjTrans CblasRight uplo (view mem A lda) (view mem B ldb) i j (k * NB + l))"
  have one: "elementwise K J C ldc M N mem [zhemm_right_task CblasRight uplo al Ah lda Bh ldb be Ch ldc k m n]
      (tile_act NB NB m n (?G k))" if "m \<in> set [0..<d_mt Ch]" "n \<in> set [0..<d_nt Ch]" "k \<in> set [0..<d_nt Ch]" for k m n
    using that by (intro zhemm_right_step [OF K u lay]) auto
  show ?thesis
    unfolding zhemm_tasks_def if_not_P [OF sr]
    by (rule elementwise_cong [OF elementwise_concat [OF elementwise_concat [OF elementwise_map [OF one]]] L(2)])
       (auto simp: dims fold_tile_act_ext sweep_ext(1) [OF L(1)] accumulate_product [OF L(1) N])
qed


section \<open>The calls compute the product\<close>

lemma zsymm_tasks_run:
  assumes K: "gemm_ok K" "symm_ok K" and u: "valid_uplo uplo" and sd: "valid_side side" and p: "0 < M" "0 < N"
    and lay: "symm_layout side M N NB Ah A lda Bh B ldb Ch C ldc"
  shows "exec_tasks K J (zsymm_tasks side uplo al Ah lda Bh ldb be Ch ldc) mem =
    store_block C ldc M N (symm_val side uplo M N al (view mem A lda) (view mem B ldb) be (view mem C ldc)) mem"
proof (cases "side = CblasLeft")
  case True
  show ?thesis
    using lay elementwise_run [OF zsymm_left_elementwise [OF K u p(1)] symm_layoutD(2)]
    by (simp add: True symm_val_def mm_term_def full_el_def)
next
  case False
  then have r: "side = CblasRight" "CblasRight \<noteq> CblasLeft" using sd by (auto simp: valid_side_def enum_simps)
  show ?thesis
    using lay r(2) elementwise_run [OF zsymm_right_elementwise [OF K u p(2)] symm_layoutD(2)]
    by (simp add: r(1) symm_val_def mm_term_def full_el_def)
qed

lemma zhemm_tasks_run:
  assumes K: "gemm_ok K" "hemm_ok K" and u: "valid_uplo uplo" and sd: "valid_side side" and p: "0 < M" "0 < N"
    and lay: "symm_layout side M N NB Ah A lda Bh B ldb Ch C ldc"
  shows "exec_tasks K J (zhemm_tasks side uplo al Ah lda Bh ldb be Ch ldc) mem =
    store_block C ldc M N (hemm_val side uplo M N al (view mem A lda) (view mem B ldb) be (view mem C ldc)) mem"
proof (cases "side = CblasLeft")
  case True
  have ne: "CblasConjTrans \<noteq> CblasTrans" by (simp add: enum_simps)
  show ?thesis
    using lay ne elementwise_run [OF zhemm_left_elementwise [OF K u p(1)] symm_layoutD(2)]
    by (simp add: True hemm_val_def mm_term_def full_el_def)
next
  case False
  then have r: "side = CblasRight" "CblasRight \<noteq> CblasLeft" "CblasConjTrans \<noteq> CblasTrans"
    using sd by (auto simp: valid_side_def enum_simps)
  show ?thesis
    using lay r(2,3) elementwise_run [OF zhemm_right_elementwise [OF K u p(2)] symm_layoutD(2)]
    by (simp add: r(1) hemm_val_def mm_term_def full_el_def)
qed

lemma symm_args_None:
  "zsymm_args side uplo M N LDA LDB LDC = None \<Longrightarrow> valid_side side \<and> valid_uplo uplo \<and> 0 \<le> M \<and> 0 \<le> N \<and> \<not> ld_too_small LDC M"
  "zhemm_args side uplo M N LDA LDB LDC = None \<Longrightarrow> valid_side side \<and> valid_uplo uplo \<and> 0 \<le> M \<and> 0 \<le> N \<and> \<not> ld_too_small LDC M"
  by (auto simp: zsymm_args_def zhemm_args_def valid_uplo_def valid_side_def split: if_splits)

definition symm_operands_apart :: "int \<Rightarrow> int \<Rightarrow> int \<Rightarrow> nat \<Rightarrow> int \<Rightarrow> nat \<Rightarrow> int \<Rightarrow> nat \<Rightarrow> int \<Rightarrow> bool" where
  "symm_operands_apart side M N A LDA B LDB C LDC \<longleftrightarrow> distinct [A, B, C] \<and>
     (let Am = nat (if side = CblasLeft then M else N) in
      arrays_disjoint A (nat LDA) Am Am C (nat LDC) (nat M) (nat N)) \<and>
     arrays_disjoint B (nat LDB) (nat M) (nat N) C (nat LDC) (nat M) (nat N)"

lemma symm_setup:
  assumes "symm_operands_apart side M N A LDA B LDB C LDC" "\<not> ld_too_small LDC M" "0 \<le> M" "0 \<le> N"
    and "LDA \<in> {0..<2 ^ 31}" "LDB \<in> {0..<2 ^ 31}" "LDC \<in> {0..<2 ^ 31}" "M < 2 ^ 31"
    and "unregistered ctxt A" "unregistered ctxt B" "unregistered ctxt C" "kern \<noteq> KERN_SWAP" "kern \<noteq> KERN_VOID"
    and "0 < xc_ngpus ctxt" "gpus_registered R KAAPI_LD_GPU c f"
  obtains NB c' Ah Bh Ch where "setup_operands kern (nat M) (nat N) (nat (if side = CblasLeft then M else N))
      [(A, nat (if side = CblasLeft then M else N), nat (if side = CblasLeft then M else N), size_of_int LDA),
       (B, nat M, nat N, size_of_int LDB), (C, nat M, nat N, size_of_int LDC)] C R ctxt = Some c'"
    "xc_descr c' A = Some Ah" "xc_descr c' B = Some Bh" "xc_descr c' C = Some Ch"
    "symm_layout side (nat M) (nat N) NB Ah A (nat LDA) Bh B (nat LDB) Ch C (nat LDC)"
proof -
  let ?Am = "nat (if side = CblasLeft then M else N)"
  have ld: "size_of_int LDA = nat LDA" "size_of_int LDB = nat LDB" "size_of_int LDC = nat LDC"
    using assms by (auto intro: size_of_int_ld)
  have "distinct [A, B, C]" using assms(1) by (simp add: symm_operands_apart_def)
  from setup_three [OF this assms(9-15)]
  obtain NB c' Ah Bh Ch where su: "setup_operands kern (nat M) (nat N) ?Am
      [(A, ?Am, ?Am, nat LDA), (B, nat M, nat N, nat LDB), (C, nat M, nat N, nat LDC)] C R ctxt = Some c'"
    and NB: "0 < NB" and d: "xc_descr c' A = Some Ah" "xc_descr c' B = Some Bh" "xc_descr c' C = Some Ch"
    and dof: "descr_of Ah A ?Am ?Am (nat LDA) NB NB" "descr_of Bh B (nat M) (nat N) (nat LDB) NB NB"
      "descr_of Ch C (nat M) (nat N) (nat LDC) NB NB"
    by metis
  have "nat M \<le> nat LDC" using ld_ok_nonneg [OF assms(2)] assms by auto
  then have "symm_layout side (nat M) (nat N) NB Ah A (nat LDA) Bh B (nat LDB) Ch C (nat LDC)"
    using NB dof assms(1) by (cases "side = CblasLeft") (auto simp: symm_layout_def Let_def symm_operands_apart_def)
  then show thesis using su d ld that by metis
qed

text \<open>C16. An accepted call of \<open>xkblas_zsymm_async\<close> stores \<open>alpha*A*B + beta*C\<close> (or \<open>alpha*B*A + beta*C\<close> for
  \<open>CblasRight\<close>) in \<open>C\<close>, where \<open>A\<close> is the symmetric matrix of which the triangle \<open>uplo\<close> is stored; the
  other triangle of the array \<open>A\<close> has no influence.\<close>

theorem zsymm_async_correct:
  assumes "gemm_ok K" "symm_ok K" and "zsymm_args side uplo M N LDA LDB LDC = None"
    and "LDA \<in> {0..<2 ^ 31}" "LDB \<in> {0..<2 ^ 31}" "LDC \<in> {0..<2 ^ 31}" "M < 2 ^ 31" "N < 2 ^ 31"
    and "unregistered ctxt A" "unregistered ctxt B" "unregistered ctxt C"
    and "symm_operands_apart side M N A LDA B LDB C LDC"
    and "0 < xc_ngpus ctxt" "gpus_registered R KAAPI_LD_GPU c f"
  shows "\<exists>ts ctxt'. xkblas_zsymm_async side uplo M N al A LDA B LDB be C LDC R ctxt = Returned (ts, ctxt') \<and>
    exec_tasks K J ts mem = store_block C (nat LDC) (nat M) (nat N) (symm_val side uplo (nat M) (nat N) al
      (view mem A (nat LDA)) (view mem B (nat LDB)) be (view mem C (nat LDC))) mem"
proof (cases "M = 0 \<or> N = 0 \<or> (al = 0 \<and> be = 1)")
  case True
  have "nat M \<le> nat LDC"
    using symm_args_None(1) [OF assms(3)] ld_ok_nonneg [of LDC M] assms by auto
  then have "mem = store_block C (nat LDC) (nat M) (nat N) (symm_val side uplo (nat M) (nat N) al
      (view mem A (nat LDA)) (view mem B (nat LDB)) be (view mem C (nat LDC))) mem"
    using True by (intro store_block_eqI) (auto simp: symm_val_def view_def)
  then show ?thesis using True assms(3)
    by (intro exI [of _ "[]"] exI [of _ ctxt]) (simp add: xkblas_zsymm_async_def)
next
  case False
  from symm_args_None(1) [OF assms(3)] have sd: "valid_side side" and u: "valid_uplo uplo"
    and p: "0 \<le> M" "0 \<le> N" "\<not> ld_too_small LDC M" by blast+
  let ?Am = "nat (if side = CblasLeft then M else N)"
  from symm_setup [OF assms(12) p(3,1,2) assms(4-7,9-11) _ _ assms(13,14), of KERN_SYMM]
  obtain NB c' Ah Bh Ch where su: "setup_operands KERN_SYMM (nat M) (nat N) ?Am
      [(A, ?Am, ?Am, size_of_int LDA), (B, nat M, nat N, size_of_int LDB), (C, nat M, nat N, size_of_int LDC)] C R ctxt = Some c'"
    "xc_descr c' A = Some Ah" "xc_descr c' B = Some Bh" "xc_descr c' C = Some Ch"
    and lay: "symm_layout side (nat M) (nat N) NB Ah A (nat LDA) Bh B (nat LDB) Ch C (nat LDC)"
    by (metis kernel.distinct)
  have call: "xkblas_zsymm_async side uplo M N al A LDA B LDB be C LDC R ctxt =
      Returned (zsymm_tasks side uplo al Ah (nat LDA) Bh (nat LDB) be Ch (nat LDC), c')"
    using False assms(3,4,5,6) su by (auto simp: xkblas_zsymm_async_def Let_def size_of_int_ld)
  have "0 < nat M" "0 < nat N" using False p by auto
  from call zsymm_tasks_run [OF assms(1,2) u sd this lay] show ?thesis by blast
qed

theorem zsymm_async_correct_witness:
  "\<exists>ts ctxt'. xkblas_zsymm_async 141 122 3 2 \<i> 16 4 1000 3 5 2000 4 one_gpu_reg (empty_ctx 2) = Returned (ts, ctxt') \<and>
    exec_tasks (ref_blas (\<lambda>_ _ _ _ _ _ _ _ B. B)) (\<lambda>_ _ _. 7) ts (\<lambda>_. 1) = store_block 2000 4 3 2
      (symm_val 141 122 3 2 \<i> (view (\<lambda>_. 1) 16 4) (view (\<lambda>_. 1) 1000 3) 5 (view (\<lambda>_. 1) 2000 4)) (\<lambda>_. 1)"
  using zsymm_async_correct [of "ref_blas (\<lambda>_ _ _ _ _ _ _ _ B. B)" 141 122 3 2 4 3 4 "empty_ctx 2"
      16 1000 2000 one_gpu_reg 1 "\<lambda>_. 1" \<i> 5 "\<lambda>_ _ _. 7" "\<lambda>_. 1"]
  by (simp add: zsymm_args_def ld_too_small_def size_of_int_def SIZE_MOD_def enum_simps
        symm_operands_apart_def arrays_disjoint_ranges ELTSIZE_def one_gpu_registered [simplified])

text \<open>C17. The same for \<open>xkblas_zhemm_async\<close> and the Hermitian matrix stored in the triangle \<open>uplo\<close> of \<open>A\<close>,
  whose diagonal is read as real.\<close>

theorem zhemm_async_correct:
  assumes "gemm_ok K" "hemm_ok K" and "zhemm_args side uplo M N LDA LDB LDC = None"
    and "LDA \<in> {0..<2 ^ 31}" "LDB \<in> {0..<2 ^ 31}" "LDC \<in> {0..<2 ^ 31}" "M < 2 ^ 31" "N < 2 ^ 31"
    and "unregistered ctxt A" "unregistered ctxt B" "unregistered ctxt C"
    and "symm_operands_apart side M N A LDA B LDB C LDC"
    and "0 < xc_ngpus ctxt" "gpus_registered R KAAPI_LD_GPU c f"
  shows "\<exists>ts ctxt'. xkblas_zhemm_async side uplo M N al A LDA B LDB be C LDC R ctxt = Returned (ts, ctxt') \<and>
    exec_tasks K J ts mem = store_block C (nat LDC) (nat M) (nat N) (hemm_val side uplo (nat M) (nat N) al
      (view mem A (nat LDA)) (view mem B (nat LDB)) be (view mem C (nat LDC))) mem"
proof (cases "M = 0 \<or> N = 0 \<or> (al = 0 \<and> be = 1)")
  case True
  have "nat M \<le> nat LDC"
    using symm_args_None(2) [OF assms(3)] ld_ok_nonneg [of LDC M] assms by auto
  then have "mem = store_block C (nat LDC) (nat M) (nat N) (hemm_val side uplo (nat M) (nat N) al
      (view mem A (nat LDA)) (view mem B (nat LDB)) be (view mem C (nat LDC))) mem"
    using True by (intro store_block_eqI) (auto simp: hemm_val_def view_def)
  then show ?thesis using True assms(3)
    by (intro exI [of _ "[]"] exI [of _ ctxt]) (simp add: xkblas_zhemm_async_def)
next
  case False
  from symm_args_None(2) [OF assms(3)] have sd: "valid_side side" and u: "valid_uplo uplo"
    and p: "0 \<le> M" "0 \<le> N" "\<not> ld_too_small LDC M" by blast+
  let ?Am = "nat (if side = CblasLeft then M else N)"
  from symm_setup [OF assms(12) p(3,1,2) assms(4-7,9-11) _ _ assms(13,14), of KERN_HEMM]
  obtain NB c' Ah Bh Ch where su: "setup_operands KERN_HEMM (nat M) (nat N) ?Am
      [(A, ?Am, ?Am, size_of_int LDA), (B, nat M, nat N, size_of_int LDB), (C, nat M, nat N, size_of_int LDC)] C R ctxt = Some c'"
    "xc_descr c' A = Some Ah" "xc_descr c' B = Some Bh" "xc_descr c' C = Some Ch"
    and lay: "symm_layout side (nat M) (nat N) NB Ah A (nat LDA) Bh B (nat LDB) Ch C (nat LDC)"
    by (metis kernel.distinct)
  have call: "xkblas_zhemm_async side uplo M N al A LDA B LDB be C LDC R ctxt =
      Returned (zhemm_tasks side uplo al Ah (nat LDA) Bh (nat LDB) be Ch (nat LDC), c')"
    using False assms(3,4,5,6) su by (auto simp: xkblas_zhemm_async_def Let_def size_of_int_ld)
  have "0 < nat M" "0 < nat N" using False p by auto
  from call zhemm_tasks_run [OF assms(1,2) u sd this lay] show ?thesis by blast
qed

theorem zhemm_async_correct_witness:
  "\<exists>ts ctxt'. xkblas_zhemm_async 142 121 3 2 \<i> 16 4 1000 3 5 2000 4 one_gpu_reg (empty_ctx 2) = Returned (ts, ctxt') \<and>
    exec_tasks (ref_blas (\<lambda>_ _ _ _ _ _ _ _ B. B)) (\<lambda>_ _ _. 7) ts (\<lambda>_. 1) = store_block 2000 4 3 2
      (hemm_val 142 121 3 2 \<i> (view (\<lambda>_. 1) 16 4) (view (\<lambda>_. 1) 1000 3) 5 (view (\<lambda>_. 1) 2000 4)) (\<lambda>_. 1)"
  using zhemm_async_correct [of "ref_blas (\<lambda>_ _ _ _ _ _ _ _ B. B)" 142 121 3 2 4 3 4 "empty_ctx 2"
      16 1000 2000 one_gpu_reg 1 "\<lambda>_. 1" \<i> 5 "\<lambda>_ _ _. 7" "\<lambda>_. 1"]
  by (simp add: zhemm_args_def ld_too_small_def size_of_int_def SIZE_MOD_def enum_simps
        symm_operands_apart_def arrays_disjoint_ranges ELTSIZE_def one_gpu_registered [simplified])

end
