(* ===== verification/Triangular.thy ===== *)
theory Triangular
  imports Gemm
begin

text \<open>
  Shared by \<open>ztrmm.c\<close> and \<open>ztrsm.c\<close>, whose tasks read and write the same array \<open>B\<close>: Hoare triples
  over the contents \<open>X\<close> of that array, the rule for task loops, the effect of one task on a tile, and
  the coefficients of the triangular matrix \<open>op(A)\<close> seen from either side.
\<close>

section \<open>Triples over the contents of an array\<close>

definition btriple ::
  "blas \<Rightarrow> (nat \<Rightarrow> cmat) \<Rightarrow> nat \<Rightarrow> nat \<Rightarrow> nat \<Rightarrow> nat \<Rightarrow> mem \<Rightarrow> (cmat \<Rightarrow> bool) \<Rightarrow> task list \<Rightarrow> (cmat \<Rightarrow> bool) \<Rightarrow> bool" where
  "btriple K J B ldb M N mem P ts Q \<longleftrightarrow>
     (\<forall>X. P X \<longrightarrow> (\<exists>X'. exec_tasks K J ts (store_block B ldb M N X mem) = store_block B ldb M N X' mem \<and> Q X'))"

lemma btriple_Nil: "(\<And>X. P X \<Longrightarrow> Q X) \<Longrightarrow> btriple K J B ldb M N mem P [] Q"
  by (auto simp: btriple_def)

lemma btriple_append:
  assumes "btriple K J B ldb M N mem P ts Q" "btriple K J B ldb M N mem Q us S"
  shows "btriple K J B ldb M N mem P (ts @ us) S"
  unfolding btriple_def
proof (intro allI impI)
  fix X assume "P X"
  then obtain X1 where 1: "exec_tasks K J ts (store_block B ldb M N X mem) = store_block B ldb M N X1 mem" "Q X1"
    using assms(1) by (auto simp: btriple_def)
  then obtain X2 where "exec_tasks K J us (store_block B ldb M N X1 mem) = store_block B ldb M N X2 mem" "S X2"
    using assms(2) by (auto simp: btriple_def)
  with 1 show "\<exists>X'. exec_tasks K J (ts @ us) (store_block B ldb M N X mem) = store_block B ldb M N X' mem \<and> S X'"
    by auto
qed

lemma btriple_Cons:
  "btriple K J B ldb M N mem P [t] Q \<Longrightarrow> btriple K J B ldb M N mem Q us S \<Longrightarrow> btriple K J B ldb M N mem P (t # us) S"
  using btriple_append [of K J B ldb M N mem P "[t]" Q us S] by simp

text \<open>A loop: \<open>I xs\<close> holds when the iterations \<open>xs\<close> have been run.\<close>

lemma btriple_loop:
  assumes "\<And>xs x ys. zs = xs @ x # ys \<Longrightarrow> btriple K J B ldb M N mem (I xs) (f x) (I (xs @ [x]))"
  shows "btriple K J B ldb M N mem (I []) (concat (map f zs)) (I zs)"
proof -
  have "zs = xs @ ys \<Longrightarrow> btriple K J B ldb M N mem (I []) (concat (map f xs)) (I xs)" for xs ys
  proof (induction xs arbitrary: ys rule: rev_induct)
    case Nil then show ?case by (simp add: btriple_Nil)
  next
    case (snoc x xs)
    then show ?case using btriple_append [OF snoc.IH assms [of xs x ys]] by simp
  qed
  from this [of zs "[]"] show ?thesis by simp
qed

lemma btriple_loop_map:
  assumes "\<And>xs x ys. zs = xs @ x # ys \<Longrightarrow> btriple K J B ldb M N mem (I xs) [f x] (I (xs @ [x]))"
  shows "btriple K J B ldb M N mem (I []) (map f zs) (I zs)"
  using btriple_loop [of zs K J B ldb M N mem I "\<lambda>x. [f x]"] assms by (simp add: concat_map_singleton)

lemma btriple_conseq:
  assumes "btriple K J B ldb M N mem P ts Q" "\<And>X. P' X \<Longrightarrow> P X" "\<And>X. Q X \<Longrightarrow> Q' X"
  shows "btriple K J B ldb M N mem P' ts Q'"
  unfolding btriple_def
proof (intro allI impI)
  fix X assume "P' X"
  then have "P X" by (rule assms(2))
  with assms(1,3) show "\<exists>X'. exec_tasks K J ts (store_block B ldb M N X mem) = store_block B ldb M N X' mem \<and> Q' X'"
    unfolding btriple_def by metis
qed

text \<open>Running a list from the memory as it is.\<close>

lemma btriple_run:
  assumes "btriple K J B ldb M N mem P ts Q" "M \<le> ldb" "P (view mem B ldb)"
  shows "\<exists>X. exec_tasks K J ts mem = store_block B ldb M N X mem \<and> Q X"
  using assms store_block_self [OF assms(2), of B N mem] by (metis btriple_def)

text \<open>A task that stores in tile \<open>(m,n)\<close> of \<open>B\<close>: the rest of \<open>B\<close> is kept.\<close>

lemma tile_store:
  assumes ex: "\<And>mem'. exec_task K J t mem' = store_block (B + (m * NB + n * NB * ldb) * ELTSIZE) ldb tm tn (F mem') mem'"
    and geo: "tile_of M N NB NB m n tm tn" and ld: "M \<le> ldb"
  shows "exec_task K J t (store_block B ldb M N X mem) = store_block B ldb M N
    (\<lambda>i j. if i div NB = m \<and> j div NB = n then F (store_block B ldb M N X mem) (i - m * NB) (j - n * NB) else X i j) mem"
proof -
  note fits = tile_of_fits [OF geo]
  have "exec_task K J t (store_block B ldb M N X mem) = store_block B ldb M N
      (upd_block (m * NB) (n * NB) tm tn (F (store_block B ldb M N X mem)) X) mem"
    using fits ld unfolding ex by (intro store_inner_block) auto
  also have "\<dots> = store_block B ldb M N
    (\<lambda>i j. if i div NB = m \<and> j div NB = n then F (store_block B ldb M N X mem) (i - m * NB) (j - n * NB) else X i j) mem"
  proof (rule store_block_cong [OF ld])
    fix i j assume "i < M" "j < N"
    then show "upd_block (m * NB) (n * NB) tm tn (F (store_block B ldb M N X mem)) X i j =
      (if i div NB = m \<and> j div NB = n then F (store_block B ldb M N X mem) (i - m * NB) (j - n * NB) else X i j)"
      using tile_of_member [OF geo, of i j] by (auto simp: upd_block_apply)
  qed
  finally show ?thesis .
qed

lemma btriple_store:
  assumes ex: "\<And>mem'. exec_task K J t mem' = store_block (B + (m * NB + n * NB * ldb) * ELTSIZE) ldb tm tn (F mem') mem'"
    and geo: "tile_of M N NB NB m n tm tn" and ld: "M \<le> ldb"
    and post: "\<And>X. P X \<Longrightarrow> Q (\<lambda>i j. if i div NB = m \<and> j div NB = n
      then F (store_block B ldb M N X mem) (i - m * NB) (j - n * NB) else X i j)"
  shows "btriple K J B ldb M N mem P [t] Q"
  unfolding btriple_def using tile_store [OF ex geo ld] post by auto

section \<open>The triangular matrix from either side\<close>

text \<open>For \<open>CblasLeft\<close> the equations are indexed by the row of \<open>B\<close>, for \<open>CblasRight\<close> by its column:
  \<open>pos\<close> is that index, \<open>lin X i j l\<close> the entry of \<open>B\<close> in the same line with index \<open>l\<close>, and \<open>tri_coef\<close> the
  coefficient of that entry in equation \<open>p\<close>.\<close>

definition pos :: "int \<Rightarrow> nat \<Rightarrow> nat \<Rightarrow> nat" where
  "pos side i j = (if side = CblasLeft then i else j)"

definition lin :: "int \<Rightarrow> cmat \<Rightarrow> nat \<Rightarrow> nat \<Rightarrow> nat \<Rightarrow> complex" where
  "lin side X i j l = (if side = CblasLeft then X l j else X i l)"

definition tri_coef :: "int \<Rightarrow> int \<Rightarrow> int \<Rightarrow> int \<Rightarrow> cmat \<Rightarrow> nat \<Rightarrow> nat \<Rightarrow> complex" where
  "tri_coef side uplo transA diag A p l =
     (if side = CblasLeft then op_el transA (tri_el uplo diag A) p l else op_el transA (tri_el uplo diag A) l p)"

definition tri_dim :: "int \<Rightarrow> nat \<Rightarrow> nat \<Rightarrow> nat" where
  "tri_dim side M N = (if side = CblasLeft then M else N)"

text \<open>Equation \<open>p\<close> involves the entries \<open>l \<le> p\<close> when this holds, the entries \<open>l \<ge> p\<close> otherwise.\<close>

definition eff_lower :: "int \<Rightarrow> int \<Rightarrow> int \<Rightarrow> bool" where
  "eff_lower side uplo transA \<longleftrightarrow> ((uplo = CblasLower) = (transA = CblasNoTrans)) = (side = CblasLeft)"

lemma trmm_val_coef:
  "trmm_val side uplo transA diag M N al A B i j =
     al * (\<Sum>l<tri_dim side M N. tri_coef side uplo transA diag A (pos side i j) l * lin side B i j l)"
  by (simp add: trmm_val_def tri_coef_def pos_def lin_def tri_dim_def mult.commute)

lemma tile_order: "p div NB \<noteq> l div NB \<Longrightarrow> (l div NB < p div NB) = (l < (p::nat))"
  using div_less_less [of l NB p] div_le_mono [of l p NB] by auto

lemma tri_el_off:
  "valid_uplo uplo \<Longrightarrow> p \<noteq> l \<Longrightarrow> tri_el uplo diag A p l = (if (uplo = CblasLower) = (l < p) then A p l else 0)"
  by (auto simp: tri_el_def in_tri_def valid_uplo_def enum_simps)

lemma tri_coef_cases:
  assumes "valid_uplo uplo" "valid_trans transA" "p \<noteq> l"
  shows "tri_coef side uplo transA diag A p l = (if eff_lower side uplo transA = (l < p)
    then (if side = CblasLeft then op_el transA A p l else op_el transA A l p) else 0)"
proof -
  have 1: "(p < l) = (\<not> l < p)" using assms(3) by auto
  show ?thesis
    using assms(1,3)
    by (cases "side = CblasLeft"; cases "transA = CblasNoTrans"; cases "l < p"; cases "uplo = CblasLower")
       (simp_all add: tri_coef_def op_el_def tri_el_off eff_lower_def 1)
qed

lemma tri_coef_zero:
  "valid_uplo uplo \<Longrightarrow> valid_trans transA \<Longrightarrow> p div NB \<noteq> l div NB \<Longrightarrow>
   eff_lower side uplo transA \<noteq> (l div NB < p div NB) \<Longrightarrow> tri_coef side uplo transA diag A p l = 0"
  using tile_order [of p NB l] tri_coef_cases [of uplo transA p l side diag A] by (cases "p = l") auto

lemma tri_coef_off:
  "valid_uplo uplo \<Longrightarrow> valid_trans transA \<Longrightarrow> p div NB \<noteq> l div NB \<Longrightarrow>
   eff_lower side uplo transA = (l div NB < p div NB) \<Longrightarrow>
   tri_coef side uplo transA diag A p l = (if side = CblasLeft then op_el transA A p l else op_el transA A l p)"
  using tile_order [of p NB l] tri_coef_cases [of uplo transA p l side diag A] by (cases "p = l") auto

definition tri_layout :: "int \<Rightarrow> nat \<Rightarrow> nat \<Rightarrow> nat \<Rightarrow> matrix_descr \<Rightarrow> nat \<Rightarrow> nat \<Rightarrow> matrix_descr \<Rightarrow> nat \<Rightarrow> nat \<Rightarrow> bool" where
  "tri_layout side M N NB Ah A lda Bh B ldb \<longleftrightarrow>
     0 < NB \<and> M \<le> ldb \<and> descr_of Ah A (tri_dim side M N) (tri_dim side M N) lda NB NB \<and> descr_of Bh B M N ldb NB NB \<and>
     arrays_disjoint A lda (tri_dim side M N) (tri_dim side M N) B ldb M N"

definition tri_operands_apart :: "int \<Rightarrow> int \<Rightarrow> int \<Rightarrow> nat \<Rightarrow> int \<Rightarrow> nat \<Rightarrow> int \<Rightarrow> bool" where
  "tri_operands_apart side N NRHS A LDA B LDB \<longleftrightarrow> A \<noteq> B \<and>
     (let NA = nat (if side = CblasLeft then N else NRHS) in
      arrays_disjoint A (nat LDA) NA NA B (nat LDB) (nat N) (nat NRHS))"

section \<open>Gemm tasks between tiles of \<open>B\<close>\<close>

lemma gemm_tile_left:
  assumes K: "gemm_ok K" and ta: "valid_trans ta" and geo: "tile_of M N NB NB m n tm tn" and ldb: "M \<le> ldb"
    and hB: "h_data hB = B + (m * NB + n * NB * ldb) * ELTSIZE"
    and hK: "h_data hK = B + (k * NB + n * NB * ldb) * ELTSIZE" and tk: "k * NB + tk \<le> M"
    and hA: "h_data hA = A + (if ta = CblasNoTrans then m * NB + k * NB * lda else k * NB + m * NB * lda) * ELTSIZE"
    and dA: "arrays_disjoint A lda M M B ldb M N"
  shows "exec_task K J (TGemm ta CblasNoTrans tm tn tk al hA lda hK ldb z hB ldb) (store_block B ldb M N X mem) =
    store_block B ldb M N (\<lambda>i j. if i div NB = m \<and> j div NB = n
      then z * X i j + al * (\<Sum>l<tk. op_el ta (view mem A lda) i (k * NB + l) * X (k * NB + l) j) else X i j) mem"
proof -
  let ?F = "\<lambda>mem'. kb_gemm K ta CblasNoTrans tm tn tk al (view mem' (h_data hA) lda) (view mem' (h_data hK) ldb)
       z (acquired J (w_or_rw z) mem' hB ldb)"
  let ?mem = "store_block B ldb M N X mem"
  note fits = tile_of_fits [OF geo]
  have vn: "valid_trans CblasNoTrans" by (simp add: valid_trans_def)
  have val: "?F ?mem (i - m * NB) (j - n * NB) =
      z * X i j + al * (\<Sum>l<tk. op_el ta (view mem A lda) i (k * NB + l) * X (k * NB + l) j)"
    if ij: "i < M" "j < N" "i div NB = m" "j div NB = n" for i j
  proof -
    have r: "i - m * NB < tm" "j - n * NB < tn" "m * NB + (i - m * NB) = i" "n * NB + (j - n * NB) = j"
      using iffD2 [OF tile_of_member [OF geo ij(1,2)] conjI [OF ij(3,4)]] by linarith+
    have a: "op_el ta (view ?mem (h_data hA) lda) (i - m * NB) l = op_el ta (view mem A lda) i (k * NB + l)"
      if "l < tk" for l
      using ij(1) that tk r(3) view_operand [OF ldb dA, of "m * NB" "i - m * NB" "k * NB" l X mem]
        view_operand [OF ldb dA, of "k * NB" l "m * NB" "i - m * NB" X mem]
      by (simp add: hA op_el_def)
    have b: "view ?mem (h_data hK) ldb l (j - n * NB) = X (k * NB + l) j" if "l < tk" for l
      using view_result [OF ldb, of "k * NB" l "n * NB" "j - n * NB" N B X mem] that tk r ij by (simp add: hK)
    have c: "view ?mem (h_data hB) ldb (i - m * NB) (j - n * NB) = X i j"
      using view_result [OF ldb, of "m * NB" "i - m * NB" "n * NB" "j - n * NB" N B X mem] r ij by (simp add: hB)
    have "?F ?mem (i - m * NB) (j - n * NB) = gemm_val ta CblasNoTrans tk al (view ?mem (h_data hA) lda)
        (view ?mem (h_data hK) ldb) z (acquired J (w_or_rw z) ?mem hB ldb) (i - m * NB) (j - n * NB)"
      using K ta vn r(1,2) by (auto simp: gemm_ok_def agree_on_def)
    then show ?thesis unfolding gemm_val_def acquired_w_or_rw c by (simp add: a b op_el_def [of CblasNoTrans])
  qed
  have "exec_task K J (TGemm ta CblasNoTrans tm tn tk al hA lda hK ldb z hB ldb) ?mem =
    store_block B ldb M N (\<lambda>i j. if i div NB = m \<and> j div NB = n then ?F ?mem (i - m * NB) (j - n * NB) else X i j) mem"
    by (rule tile_store [where F = ?F, OF _ geo ldb]) (simp add: zgemm_body_def hB)
  also have "\<dots> = store_block B ldb M N (\<lambda>i j. if i div NB = m \<and> j div NB = n
      then z * X i j + al * (\<Sum>l<tk. op_el ta (view mem A lda) i (k * NB + l) * X (k * NB + l) j) else X i j) mem"
    by (rule store_block_cong [OF ldb]) (use val in auto)
  finally show ?thesis .
qed

lemma gemm_tile_right:
  assumes K: "gemm_ok K" and tb: "valid_trans tb" and geo: "tile_of M N NB NB m n tm tn" and ldb: "M \<le> ldb"
    and hB: "h_data hB = B + (m * NB + n * NB * ldb) * ELTSIZE"
    and hK: "h_data hK = B + (m * NB + k * NB * ldb) * ELTSIZE" and tk: "k * NB + tk \<le> N"
    and hA: "h_data hA = A + (if tb = CblasNoTrans then k * NB + n * NB * lda else n * NB + k * NB * lda) * ELTSIZE"
    and dA: "arrays_disjoint A lda N N B ldb M N"
  shows "exec_task K J (TGemm CblasNoTrans tb tm tn tk al hK ldb hA lda z hB ldb) (store_block B ldb M N X mem) =
    store_block B ldb M N (\<lambda>i j. if i div NB = m \<and> j div NB = n
      then z * X i j + al * (\<Sum>l<tk. X i (k * NB + l) * op_el tb (view mem A lda) (k * NB + l) j) else X i j) mem"
proof -
  let ?F = "\<lambda>mem'. kb_gemm K CblasNoTrans tb tm tn tk al (view mem' (h_data hK) ldb) (view mem' (h_data hA) lda)
       z (acquired J (w_or_rw z) mem' hB ldb)"
  let ?mem = "store_block B ldb M N X mem"
  note fits = tile_of_fits [OF geo]
  have vn: "valid_trans CblasNoTrans" by (simp add: valid_trans_def)
  have val: "?F ?mem (i - m * NB) (j - n * NB) =
      z * X i j + al * (\<Sum>l<tk. X i (k * NB + l) * op_el tb (view mem A lda) (k * NB + l) j)"
    if ij: "i < M" "j < N" "i div NB = m" "j div NB = n" for i j
  proof -
    have r: "i - m * NB < tm" "j - n * NB < tn" "m * NB + (i - m * NB) = i" "n * NB + (j - n * NB) = j"
      using iffD2 [OF tile_of_member [OF geo ij(1,2)] conjI [OF ij(3,4)]] by linarith+
    have a: "op_el tb (view ?mem (h_data hA) lda) l (j - n * NB) = op_el tb (view mem A lda) (k * NB + l) j"
      if "l < tk" for l
      using ij(2) that tk r(4) view_operand [OF ldb dA, of "n * NB" "j - n * NB" "k * NB" l X mem]
        view_operand [OF ldb dA, of "k * NB" l "n * NB" "j - n * NB" X mem]
      by (simp add: hA op_el_def)
    have b: "view ?mem (h_data hK) ldb (i - m * NB) l = X i (k * NB + l)" if "l < tk" for l
      using view_result [OF ldb, of "m * NB" "i - m * NB" "k * NB" l N B X mem] that tk r ij by (simp add: hK)
    have c: "view ?mem (h_data hB) ldb (i - m * NB) (j - n * NB) = X i j"
      using view_result [OF ldb, of "m * NB" "i - m * NB" "n * NB" "j - n * NB" N B X mem] r ij by (simp add: hB)
    have "?F ?mem (i - m * NB) (j - n * NB) = gemm_val CblasNoTrans tb tk al (view ?mem (h_data hK) ldb)
        (view ?mem (h_data hA) lda) z (acquired J (w_or_rw z) ?mem hB ldb) (i - m * NB) (j - n * NB)"
      using K tb vn r(1,2) by (auto simp: gemm_ok_def agree_on_def)
    then show ?thesis unfolding gemm_val_def acquired_w_or_rw c by (simp add: a b op_el_def [of CblasNoTrans])
  qed
  have "exec_task K J (TGemm CblasNoTrans tb tm tn tk al hK ldb hA lda z hB ldb) ?mem =
    store_block B ldb M N (\<lambda>i j. if i div NB = m \<and> j div NB = n then ?F ?mem (i - m * NB) (j - n * NB) else X i j) mem"
    by (rule tile_store [where F = ?F, OF _ geo ldb]) (simp add: zgemm_body_def hB)
  also have "\<dots> = store_block B ldb M N (\<lambda>i j. if i div NB = m \<and> j div NB = n
      then z * X i j + al * (\<Sum>l<tk. X i (k * NB + l) * op_el tb (view mem A lda) (k * NB + l) j) else X i j) mem"
    by (rule store_block_cong [OF ldb]) (use val in auto)
  finally show ?thesis .
qed


section \<open>The diagonal tile\<close>

lemma tri_coef_shift:
  "tri_coef side uplo transA diag (sub_block (r * NB) (r * NB) A) p l = tri_coef side uplo transA diag A (r * NB + p) (r * NB + l)"
  by (simp add: tri_coef_def op_el_def tri_el_def in_tri_shift sub_block_def)

lemma tri_coef_cong:
  assumes "A p l = A' p l" "A l p = A' l p" "A p p = A' p p" "A l l = A' l l"
  shows "tri_coef side uplo transA diag A p l = tri_coef side uplo transA diag A' p l"
  using assms by (simp add: tri_coef_def op_el_def tri_el_def)

lemma diag_coef:
  assumes ldb: "M \<le> ldb" and dA: "arrays_disjoint A lda D D B ldb M N"
    and hA: "h_data hA = A + (r * NB + r * NB * lda) * ELTSIZE" and fit: "r * NB + td \<le> D" and pl: "p < td" "l < td"
  shows "tri_coef side uplo transA diag (view (store_block B ldb M N X mem) (h_data hA) lda) p l =
    tri_coef side uplo transA diag (view mem A lda) (r * NB + p) (r * NB + l)"
proof -
  have v: "view (store_block B ldb M N X mem) (h_data hA) lda i j = sub_block (r * NB) (r * NB) (view mem A lda) i j"
    if "i < td" "j < td" for i j
    using view_operand [OF ldb dA, of "r * NB" i "r * NB" j X mem] that fit by (simp add: hA)
  show ?thesis
    unfolding tri_coef_shift [symmetric] using v pl by (intro tri_coef_cong) auto
qed

text \<open>The line of \<open>B\<close> inside the tile, as the kernel sees it.\<close>

lemma diag_lin:
  assumes geo: "tile_of M N NB NB m n tm tn" and ldb: "M \<le> ldb"
    and hB: "h_data hB = B + (m * NB + n * NB * ldb) * ELTSIZE"
    and r: "r = (if side = CblasLeft then m else n)" and l: "l < tri_dim side tm tn"
    and ij: "i < M" "j < N" "i div NB = m" "j div NB = n"
  shows "lin side (view (store_block B ldb M N X mem) (h_data hB) ldb) (i - m * NB) (j - n * NB) l = lin side X i j (r * NB + l)"
    and "pos side (i - m * NB) (j - n * NB) < tri_dim side tm tn"
    and "r * NB + pos side (i - m * NB) (j - n * NB) = pos side i j"
proof -
  note fits = tile_of_fits [OF geo]
  have q: "i - m * NB < tm" "j - n * NB < tn" "m * NB + (i - m * NB) = i" "n * NB + (j - n * NB) = j"
    using iffD2 [OF tile_of_member [OF geo ij(1,2)] conjI [OF ij(3,4)]] by linarith+
  show "pos side (i - m * NB) (j - n * NB) < tri_dim side tm tn"
    "r * NB + pos side (i - m * NB) (j - n * NB) = pos side i j"
    using q r by (auto simp: pos_def tri_dim_def)
  show "lin side (view (store_block B ldb M N X mem) (h_data hB) ldb) (i - m * NB) (j - n * NB) l = lin side X i j (r * NB + l)"
    using view_result [OF ldb, of "m * NB" l "n * NB" "j - n * NB" N B X mem]
      view_result [OF ldb, of "m * NB" "i - m * NB" "n * NB" l N B X mem] q l r fits ij
    by (cases "side = CblasLeft") (simp_all add: lin_def tri_dim_def hB)
qed

section \<open>Tiles of the product with \<open>op(A)\<close>\<close>

text \<open>The contribution of tile \<open>k\<close> of a line to its equation \<open>pos side i j\<close>.\<close>

lemma tile_dim_full: "k < r \<Longrightarrow> r < kt \<Longrightarrow> tile_dim kt M NB k = NB"
  by (auto simp: tile_dim_def)

lemma tri_layoutD:
  assumes "tri_layout side M N NB Ah A lda Bh B ldb"
  shows "0 < NB" "M \<le> ldb" "descr_of Ah A (tri_dim side M N) (tri_dim side M N) lda NB NB" "descr_of Bh B M N ldb NB NB"
    "arrays_disjoint A lda (tri_dim side M N) (tri_dim side M N) B ldb M N"
  using assms by (auto simp: tri_layout_def)

definition in_tile :: "nat \<Rightarrow> nat \<Rightarrow> nat \<Rightarrow> nat \<Rightarrow> nat \<Rightarrow> bool" where
  "in_tile NB m n i j \<longleftrightarrow> i div NB = m \<and> j div NB = n"

definition tile_sum :: "int \<Rightarrow> int \<Rightarrow> int \<Rightarrow> int \<Rightarrow> cmat \<Rightarrow> nat \<Rightarrow> nat \<Rightarrow> cmat \<Rightarrow> nat \<Rightarrow> nat \<Rightarrow> nat \<Rightarrow> complex" where
  "tile_sum side uplo transA diag A NB td X k i j =
     (\<Sum>l<td. tri_coef side uplo transA diag A (pos side i j) (k * NB + l) * lin side X i j (k * NB + l))"

text \<open>The tile sums of the tiles that matter make the whole product.\<close>

lemma sum_tiles_subset:
  fixes f :: "nat \<Rightarrow> complex"
  assumes NB: "0 < NB" and T: "T \<subseteq> {..<xkblas_num_of_tiles D NB}"
    and z: "\<And>l. l < D \<Longrightarrow> l div NB \<notin> T \<Longrightarrow> f l = 0"
  shows "(\<Sum>k\<in>T. \<Sum>l<tile_dim (xkblas_num_of_tiles D NB) D NB k. f (k * NB + l)) = (\<Sum>l<D. f l)"
proof -
  let ?kt = "xkblas_num_of_tiles D NB"
  let ?t = "\<lambda>k. \<Sum>l<tile_dim ?kt D NB k. f (k * NB + l)"
  have "?t k = 0" if k: "k \<in> {..<?kt} - T" for k
  proof (rule sum.neutral, rule ballI)
    fix l assume l: "l \<in> {..<tile_dim ?kt D NB k}"
    then have "(k * NB + l) div NB = k" using tile_dim_le [OF NB, of k D] k by (intro tile_index_div) auto
    moreover have "k * NB + l < D" using tile_dim_bound [OF NB, of k D] k l by auto
    ultimately show "f (k * NB + l) = 0" using z [of "k * NB + l"] k by auto
  qed
  then have "(\<Sum>k\<in>T. ?t k) = (\<Sum>k<?kt. ?t k)" using T by (intro sum.mono_neutral_left) auto
  then show ?thesis using sum_over_tiles [OF NB, where K = D and f = f] by simp
qed

lemma tile_sums_all:
  assumes NB: "0 < NB" and v: "valid_uplo uplo" "valid_trans transA" and p: "pos side i j div NB = r"
    and ks: "distinct (r # ks)" "set (r # ks) \<subseteq> {..<xkblas_num_of_tiles D NB}"
    and rest: "\<And>k. k < xkblas_num_of_tiles D NB \<Longrightarrow> k \<noteq> r \<Longrightarrow> eff_lower side uplo transA = (k < r) \<Longrightarrow> k \<in> set ks"
  shows "(\<Sum>k\<leftarrow>r # ks. tile_sum side uplo transA diag A NB (tile_dim (xkblas_num_of_tiles D NB) D NB k) X k i j)
    = (\<Sum>l<D. tri_coef side uplo transA diag A (pos side i j) l * lin side X i j l)"
proof -
  have z: "tri_coef side uplo transA diag A (pos side i j) l * lin side X i j l = 0"
    if "l < D" "l div NB \<notin> set (r # ks)" for l
    using tri_coef_zero [OF v, of "pos side i j" NB l side] p that rest [of "l div NB"]
      tile_of_index(1) [OF NB that(1)] by auto
  show ?thesis
    unfolding sum_list_distinct_conv_sum_set [OF ks(1)] tile_sum_def
    by (rule sum_tiles_subset [OF NB ks(2), where f = "\<lambda>l. tri_coef side uplo transA diag A (pos side i j) l * lin side X i j l"])
       (use z in auto)
qed

lemma lin_other_tile:
  assumes "k \<noteq> (if side = CblasLeft then m else n)" "l < NB"
  shows "lin side (\<lambda>i j. if in_tile NB m n i j then F i j else X i j) i j (k * NB + l) = lin side X i j (k * NB + l)"
  using assms tile_index_div [OF assms(2), of k] by (auto simp: lin_def in_tile_def)

lemma left_gemm_tile_sum:
  assumes K: "gemm_ok K" and v: "valid_uplo uplo" "valid_trans transA"
    and lay: "tri_layout CblasLeft M N NB Ah A lda Bh B ldb"
    and mn: "m < d_mt Bh" "n < d_nt Bh" "k < d_mt Bh" "k \<noteq> m" "eff_lower CblasLeft uplo transA = (k < m)"
  shows "exec_task K J (TGemm transA CblasNoTrans (tile_dim (d_mt Bh) M NB m) (tile_dim (d_nt Bh) N NB n) (tile_dim (d_mt Bh) M NB k) al
      (if transA = CblasNoTrans then xkblas_get_handle Ah m k else xkblas_get_handle Ah k m) lda
      (xkblas_get_handle Bh k n) ldb z (xkblas_get_handle Bh m n) ldb) (store_block B ldb M N X mem) =
    store_block B ldb M N (\<lambda>i j. if in_tile NB m n i j then z * X i j + al *
      tile_sum CblasLeft uplo transA diag (view mem A lda) NB (tile_dim (d_mt Bh) M NB k) X k i j else X i j) mem"
proof -
  note L = tri_layoutD [OF lay]
  have D: "tri_dim CblasLeft M N = M" by (simp add: tri_dim_def)
  note dims = descr_of_dims [OF L(3), unfolded D] descr_of_dims [OF L(4)]
  note data = descr_of_data [OF L(3)] descr_of_data [OF L(4)]
  let ?tk = "tile_dim (d_mt Bh) M NB k"
  have geo: "tile_of M N NB NB m n (tile_dim (d_mt Bh) M NB m) (tile_dim (d_nt Bh) N NB n)"
    using mn dims L(1) by (simp add: tile_of_def)
  have tk: "k * NB + ?tk \<le> M" "?tk \<le> NB" using mn dims L(1) by (auto simp: tile_dim_bound tile_dim_le)
  note g = gemm_tile_left [OF K v(2) geo L(2) _ _ tk(1) _ L(5) [unfolded D], of "xkblas_get_handle Bh m n"
      "xkblas_get_handle Bh k n" "if transA = CblasNoTrans then xkblas_get_handle Ah m k else xkblas_get_handle Ah k m"
      J al z X mem]
  have c: "tri_coef CblasLeft uplo transA diag Z i (k * NB + l) = op_el transA Z i (k * NB + l)"
    if "i div NB = m" "l < ?tk" for i l Z
  proof -
    have "(k * NB + l) div NB = k" using tk that by (intro tile_index_div) simp
    then show ?thesis using tri_coef_off [OF v, of i NB "k * NB + l" CblasLeft] that mn(4,5) by simp
  qed
  show ?thesis
    using mn dims g by (auto simp: data in_tile_def tile_sum_def pos_def lin_def c cong: if_cong)
qed

lemma right_gemm_tile_sum:
  assumes K: "gemm_ok K" and v: "valid_uplo uplo" "valid_trans transA"
    and lay: "tri_layout CblasRight M N NB Ah A lda Bh B ldb"
    and mn: "m < d_mt Bh" "n < d_nt Bh" "k < d_nt Bh" "k \<noteq> n" "eff_lower CblasRight uplo transA = (k < n)"
  shows "exec_task K J (TGemm CblasNoTrans transA (tile_dim (d_mt Bh) M NB m) (tile_dim (d_nt Bh) N NB n) (tile_dim (d_nt Bh) N NB k) al
      (xkblas_get_handle Bh m k) ldb
      (if transA = CblasNoTrans then xkblas_get_handle Ah k n else xkblas_get_handle Ah n k) lda
      z (xkblas_get_handle Bh m n) ldb) (store_block B ldb M N X mem) =
    store_block B ldb M N (\<lambda>i j. if in_tile NB m n i j then z * X i j + al *
      tile_sum CblasRight uplo transA diag (view mem A lda) NB (tile_dim (d_nt Bh) N NB k) X k i j else X i j) mem"
proof -
  note L = tri_layoutD [OF lay]
  have sr: "CblasRight \<noteq> CblasLeft" by (simp add: enum_simps)
  have D: "tri_dim CblasRight M N = N" using sr by (simp add: tri_dim_def)
  note dims = descr_of_dims [OF L(3), unfolded D] descr_of_dims [OF L(4)]
  note data = descr_of_data [OF L(3)] descr_of_data [OF L(4)]
  let ?tk = "tile_dim (d_nt Bh) N NB k"
  have geo: "tile_of M N NB NB m n (tile_dim (d_mt Bh) M NB m) (tile_dim (d_nt Bh) N NB n)"
    using mn dims L(1) by (simp add: tile_of_def)
  have tk: "k * NB + ?tk \<le> N" "?tk \<le> NB" using mn dims L(1) by (auto simp: tile_dim_bound tile_dim_le)
  note g = gemm_tile_right [OF K v(2) geo L(2) _ _ tk(1) _ L(5) [unfolded D], of "xkblas_get_handle Bh m n"
      "xkblas_get_handle Bh m k" "if transA = CblasNoTrans then xkblas_get_handle Ah k n else xkblas_get_handle Ah n k"
      J al z X mem]
  have c: "tri_coef CblasRight uplo transA diag Z j (k * NB + l) = op_el transA Z (k * NB + l) j"
    if "j div NB = n" "l < ?tk" for j l Z
  proof -
    have "(k * NB + l) div NB = k" using tk that by (intro tile_index_div) simp
    then show ?thesis using tri_coef_off [OF v, of j NB "k * NB + l" CblasRight] that mn(4,5) sr by simp
  qed
  show ?thesis
    using mn dims g sr by (auto simp: data in_tile_def tile_sum_def pos_def lin_def c mult.commute [of "X _ _"] cong: if_cong)
qed

definition opos :: "int \<Rightarrow> nat \<Rightarrow> nat \<Rightarrow> nat" where
  "opos side i j = (if side = CblasLeft then j else i)"

definition line_tile :: "int \<Rightarrow> nat \<Rightarrow> nat \<Rightarrow> nat \<Rightarrow> nat \<Rightarrow> nat \<Rightarrow> bool" where
  "line_tile side NB r q i j \<longleftrightarrow> pos side i j div NB = r \<and> opos side i j div NB = q"

lemma upt_order: "[0..<n] = xs @ r # ys \<Longrightarrow> k \<in> set xs \<Longrightarrow> k < r"
proof -
  assume a: "[0..<n] = xs @ r # ys" "k \<in> set xs"
  have "sorted_wrt (<) (xs @ r # ys)" using a(1) by (metis sorted_wrt_upt)
  then show "k < r" using a(2) by (auto simp: sorted_wrt_append)
qed

lemma rev_upt_order: "rev [0..<n] = xs @ r # ys \<Longrightarrow> k \<in> set xs \<Longrightarrow> r < k"
proof -
  assume a: "rev [0..<n] = xs @ r # ys" "k \<in> set xs"
  have "sorted_wrt (\<lambda>x y. y < x) (rev [0..<n])" by (simp add: sorted_wrt_rev)
  then have "sorted_wrt (\<lambda>x y. y < x) (xs @ r # ys)" using a(1) by simp
  then show "r < k" using a(2) by (auto simp: sorted_wrt_append)
qed

end
