(* ===== verification/Trmm.thy ===== *)
theory Trmm
  imports Triangular
begin

text \<open>
  \<open>blas/ztrmm.c\<close>: \<open>B := alpha*op(A)*B\<close> or \<open>B := alpha*B*op(A)\<close> with a triangular \<open>A\<close>, in place. Each
  of the eight branches sweeps the tiles of \<open>B\<close> in an order in which a tile is overwritten only after
  the tiles that need its old value.
\<close>

section \<open>The call\<close>

definition ztrmm_args ::
  "int \<Rightarrow> int \<Rightarrow> int \<Rightarrow> int \<Rightarrow> int \<Rightarrow> int \<Rightarrow> int \<Rightarrow> int \<Rightarrow> nat option" where
  "ztrmm_args side uplo transA diag N NRHS LDA LDB =
     (let NA = (if side = CblasLeft then N else NRHS) in
      if side \<noteq> CblasLeft \<and> side \<noteq> CblasRight then Some 1
      else if uplo \<noteq> CblasUpper \<and> uplo \<noteq> CblasLower then Some 2
      else if transA \<noteq> CblasConjTrans \<and> transA \<noteq> CblasNoTrans \<and> transA \<noteq> CblasTrans then Some 3
      else if diag \<noteq> CblasUnit \<and> diag \<noteq> CblasNonUnit then Some 4
      else if N < 0 then Some 5
      else if NRHS < 0 then Some 6
      else if ld_too_small LDA NA then Some 8
      else if ld_too_small LDB N then Some 10
      else None)"

text \<open>The bodies of the loops over the tiles \<open>(m,n)\<close> of \<open>B\<close>, for each side.\<close>

definition ztrmm_left_tile ::
  "int \<Rightarrow> int \<Rightarrow> int \<Rightarrow> complex \<Rightarrow> matrix_descr \<Rightarrow> nat \<Rightarrow> matrix_descr \<Rightarrow> nat \<Rightarrow> nat \<Rightarrow> nat \<Rightarrow> task list" where
  "ztrmm_left_tile uplo transA diag alpha Ah LDA Bh LDB m n =
     (let tempmm = tile_dim (d_mt Bh) (d_M Bh) (d_mb Bh) m;
          tempnn = tile_dim (d_nt Bh) (d_N Bh) (d_nb Bh) n in
      INSERT_TASK_ztrmm CblasLeft uplo transA diag tempmm tempnn alpha Ah m m LDA Bh m n LDB #
      (if uplo = CblasUpper then
         (if transA = CblasNoTrans then
            map (\<lambda>k. let tempkn = tile_dim (d_nt Ah) (d_N Ah) (d_nb Ah) k in
              INSERT_TASK_zgemm transA CblasNoTrans tempmm tempnn tempkn alpha
                Ah m k LDA Bh k n LDB 1 Bh m n LDB) [m + 1..<d_mt Ah]
          else
            map (\<lambda>k. INSERT_TASK_zgemm transA CblasNoTrans tempmm tempnn (d_mb Bh) alpha
                Ah k m LDA Bh k n LDB 1 Bh m n LDB) [0..<m])
       else
         (if transA = CblasNoTrans then
            map (\<lambda>k. INSERT_TASK_zgemm transA CblasNoTrans tempmm tempnn (d_mb Bh) alpha
                Ah m k LDA Bh k n LDB 1 Bh m n LDB) [0..<m]
          else
            map (\<lambda>k. let tempkm = tile_dim (d_mt Ah) (d_M Ah) (d_mb Ah) k in
              INSERT_TASK_zgemm transA CblasNoTrans tempmm tempnn tempkm alpha
                Ah k m LDA Bh k n LDB 1 Bh m n LDB) [m + 1..<d_mt Ah])))"

definition ztrmm_right_tile ::
  "int \<Rightarrow> int \<Rightarrow> int \<Rightarrow> complex \<Rightarrow> matrix_descr \<Rightarrow> nat \<Rightarrow> matrix_descr \<Rightarrow> nat \<Rightarrow> nat \<Rightarrow> nat \<Rightarrow> task list" where
  "ztrmm_right_tile uplo transA diag alpha Ah LDA Bh LDB n m =
     (let tempnn = tile_dim (d_nt Bh) (d_N Bh) (d_nb Bh) n;
          tempmm = tile_dim (d_mt Bh) (d_M Bh) (d_mb Bh) m in
      INSERT_TASK_ztrmm CblasRight uplo transA diag tempmm tempnn alpha Ah n n LDA Bh m n LDB #
      (if uplo = CblasUpper then
         (if transA = CblasNoTrans then
            map (\<lambda>k. INSERT_TASK_zgemm CblasNoTrans transA tempmm tempnn (d_mb Bh) alpha
                Bh m k LDB Ah k n LDA 1 Bh m n LDB) [0..<n]
          else
            map (\<lambda>k. let tempkn = tile_dim (d_nt Ah) (d_N Ah) (d_nb Ah) k in
              INSERT_TASK_zgemm CblasNoTrans transA tempmm tempnn tempkn alpha
                Bh m k LDB Ah n k LDA 1 Bh m n LDB) [n + 1..<d_mt Ah])
       else
         (if transA = CblasNoTrans then
            map (\<lambda>k. let tempkn = tile_dim (d_nt Ah) (d_N Ah) (d_nb Ah) k in
              INSERT_TASK_zgemm CblasNoTrans transA tempmm tempnn tempkn alpha
                Bh m k LDB Ah k n LDA 1 Bh m n LDB) [n + 1..<d_mt Ah]
          else
            map (\<lambda>k. INSERT_TASK_zgemm CblasNoTrans transA tempmm tempnn (d_mb Bh) alpha
                Bh m k LDB Ah n k LDA 1 Bh m n LDB) [0..<n])))"

definition ztrmm_tasks ::
  "int \<Rightarrow> int \<Rightarrow> int \<Rightarrow> int \<Rightarrow> complex \<Rightarrow> matrix_descr \<Rightarrow> nat \<Rightarrow> matrix_descr \<Rightarrow> nat \<Rightarrow> task list" where
  "ztrmm_tasks side uplo transA diag alpha Ah LDA Bh LDB =
     (if side = CblasLeft then
        concat (map (\<lambda>m. concat (map (\<lambda>n. ztrmm_left_tile uplo transA diag alpha Ah LDA Bh LDB m n) [0..<d_nt Bh]))
          (if (uplo = CblasUpper) = (transA = CblasNoTrans) then [0..<d_mt Bh] else rev [0..<d_mt Bh]))
      else
        concat (map (\<lambda>n. concat (map (\<lambda>m. ztrmm_right_tile uplo transA diag alpha Ah LDA Bh LDB n m) [0..<d_mt Bh]))
          (if (uplo = CblasUpper) = (transA = CblasNoTrans) then rev [0..<d_nt Bh] else [0..<d_nt Bh])))"

definition xkblas_ztrmm_async ::
  "int \<Rightarrow> int \<Rightarrow> int \<Rightarrow> int \<Rightarrow> int \<Rightarrow> int \<Rightarrow> complex \<Rightarrow> nat \<Rightarrow> int \<Rightarrow> nat \<Rightarrow> int \<Rightarrow> ldreg \<Rightarrow> xk_ctx
     \<Rightarrow> (task list \<times> xk_ctx) outcome" where
  "xkblas_ztrmm_async side uplo transA diag N NRHS alpha A LDA B LDB R ctxt =
     (case ztrmm_args side uplo transA diag N NRHS LDA LDB of
        Some c \<Rightarrow> Aborted c
      | None \<Rightarrow>
          if kaapi_min (size_of_int N) (size_of_int NRHS) = 0 then Returned ([], ctxt)
          else let NA = nat (if side = CblasLeft then N else NRHS) in
            (case setup_operands KERN_TRMM (nat N) (nat NRHS) NA
                    [(A, NA, NA, size_of_int LDA), (B, nat N, nat NRHS, size_of_int LDB)] B R ctxt of
               None \<Rightarrow> Trapped
             | Some c5 \<Rightarrow>
                 Returned (ztrmm_tasks side uplo transA diag alpha (the (xc_descr c5 A)) (size_of_int LDA)
                   (the (xc_descr c5 B)) (size_of_int LDB), c5)))"


section \<open>One tile\<close>


lemma trmm_task_exec:
  assumes K: "trmm_ok K" and v: "valid_side side" "valid_uplo uplo" "valid_trans transA" "valid_diag diag"
    and geo: "tile_of M N NB NB m n tm tn" and ldb: "M \<le> ldb" and r: "r = (if side = CblasLeft then m else n)"
    and hB: "h_data hB = B + (m * NB + n * NB * ldb) * ELTSIZE"
    and hA: "h_data hA = A + (r * NB + r * NB * lda) * ELTSIZE"
    and dA: "arrays_disjoint A lda (tri_dim side M N) (tri_dim side M N) B ldb M N"
  shows "exec_task K J (TTrmm side uplo transA diag tm tn al hA lda hB ldb) (store_block B ldb M N X mem) =
    store_block B ldb M N (\<lambda>i j. if in_tile NB m n i j
      then al * tile_sum side uplo transA diag (view mem A lda) NB (tri_dim side tm tn) X r i j else X i j) mem"
proof -
  let ?F = "\<lambda>mem'. kb_trmm K side uplo transA diag tm tn al (view mem' (h_data hA) lda) (view mem' (h_data hB) ldb)"
  let ?mem = "store_block B ldb M N X mem"
  let ?td = "tri_dim side tm tn"
  have fit: "r * NB + ?td \<le> tri_dim side M N" using tile_of_fits [OF geo] r by (simp add: tri_dim_def)
  have val: "?F ?mem (i - m * NB) (j - n * NB) = al * tile_sum side uplo transA diag (view mem A lda) NB ?td X r i j"
    if ij: "i < M" "j < N" "i div NB = m" "j div NB = n" for i j
  proof -
    have q: "i - m * NB < tm" "j - n * NB < tn"
      using iffD2 [OF tile_of_member [OF geo ij(1,2)] conjI [OF ij(3,4)]] by linarith+
    have "?F ?mem (i - m * NB) (j - n * NB) = trmm_val side uplo transA diag tm tn al
        (view ?mem (h_data hA) lda) (view ?mem (h_data hB) ldb) (i - m * NB) (j - n * NB)"
      using K v q by (auto simp: trmm_ok_def agree_on_def)
    also have "\<dots> = al * tile_sum side uplo transA diag (view mem A lda) NB ?td X r i j"
      unfolding trmm_val_coef tile_sum_def
      by (rule arg_cong [where f = "\<lambda>x. al * x"], rule sum.cong)
         (simp_all add: diag_lin [OF geo ldb hB r _ ij] diag_coef [OF ldb dA hA fit])
    finally show ?thesis .
  qed
  have "exec_task K J (TTrmm side uplo transA diag tm tn al hA lda hB ldb) ?mem =
    store_block B ldb M N (\<lambda>i j. if i div NB = m \<and> j div NB = n then ?F ?mem (i - m * NB) (j - n * NB) else X i j) mem"
    by (rule tile_store [where F = ?F, OF _ geo ldb]) (simp add: ztrmm_body_def hB)
  also have "\<dots> = store_block B ldb M N (\<lambda>i j. if in_tile NB m n i j
      then al * tile_sum side uplo transA diag (view mem A lda) NB ?td X r i j else X i j) mem"
    by (rule store_block_cong [OF ldb]) (use val in \<open>auto simp: in_tile_def\<close>)
  finally show ?thesis .
qed

text \<open>A chain of gemm tasks that add, to tile \<open>(m,n)\<close>, the products with other tiles of its line.\<close>

lemma trmm_chain:
  assumes step: "\<And>k X. k \<in> set ks \<Longrightarrow> exec_task K J (g k) (store_block B ldb M N X mem) = store_block B ldb M N
      (\<lambda>i j. if in_tile NB m n i j then X i j + al * tile_sum side uplo transA diag A NB (td k) X k i j else X i j) mem"
    and ks: "\<And>k. k \<in> set ks \<Longrightarrow> k \<noteq> (if side = CblasLeft then m else n) \<and> td k \<le> NB"
  shows "exec_tasks K J (map g ks) (store_block B ldb M N X mem) = store_block B ldb M N
      (\<lambda>i j. if in_tile NB m n i j then X i j + al * (\<Sum>k\<leftarrow>ks. tile_sum side uplo transA diag A NB (td k) X k i j)
             else X i j) mem"
  using assms
proof (induction ks arbitrary: X)
  case (Cons k ks)
  let ?X = "\<lambda>i j. if in_tile NB m n i j then X i j + al * tile_sum side uplo transA diag A NB (td k) X k i j else X i j"
  have same: "tile_sum side uplo transA diag A NB (td k') ?X k' i j = tile_sum side uplo transA diag A NB (td k') X k' i j"
    if "k' \<in> set ks" for k' i j
    unfolding tile_sum_def using Cons.prems(2) [of k'] that
    by (intro sum.cong refl) (simp add: lin_other_tile)
  have eq: "(\<Sum>k'\<leftarrow>ks. tile_sum side uplo transA diag A NB (td k') ?X k' i j) =
        (\<Sum>k'\<leftarrow>ks. tile_sum side uplo transA diag A NB (td k') X k' i j)" for i j
    by (rule arg_cong [where f = sum_list], rule map_cong [OF refl same])
  have one: "exec_task K J (g k) (store_block B ldb M N X mem) = store_block B ldb M N ?X mem"
    by (rule Cons.prems(1)) simp
  have "exec_tasks K J (map g ks) (store_block B ldb M N ?X mem) = store_block B ldb M N
      (\<lambda>i j. if in_tile NB m n i j then ?X i j + al * (\<Sum>k'\<leftarrow>ks. tile_sum side uplo transA diag A NB (td k') ?X k' i j)
             else ?X i j) mem"
    by (rule Cons.IH) (use Cons.prems in auto)
  then show ?case
    unfolding eq by (simp add: one distrib_left add.assoc cong: if_cong)
qed (simp cong: if_cong)

text \<open>The tiles that the gemm tasks of tile \<open>r\<close> of a line read.\<close>

definition other_tiles :: "bool \<Rightarrow> nat \<Rightarrow> nat \<Rightarrow> nat list" where
  "other_tiles lower kt r = (if lower then [0..<r] else [r + 1..<kt])"

lemma ztrmm_left_tile_form:
  assumes "d_mt Ah = d_mt Bh" "d_nt Ah = d_mt Bh" "d_M Ah = M" "d_N Ah = M" "d_mb Ah = NB" "d_nb Ah = NB"
    and "d_M Bh = M" "d_N Bh = N" "d_mb Bh = NB" "d_nb Bh = NB" "valid_uplo uplo" "m < d_mt Bh"
  shows "ztrmm_left_tile uplo transA diag al Ah lda Bh ldb m n =
    TTrmm CblasLeft uplo transA diag (tile_dim (d_mt Bh) M NB m) (tile_dim (d_nt Bh) N NB n) al
      (xkblas_get_handle Ah m m) lda (xkblas_get_handle Bh m n) ldb #
    map (\<lambda>k. TGemm transA CblasNoTrans (tile_dim (d_mt Bh) M NB m) (tile_dim (d_nt Bh) N NB n) (tile_dim (d_mt Bh) M NB k) al
      (if transA = CblasNoTrans then xkblas_get_handle Ah m k else xkblas_get_handle Ah k m) lda
      (xkblas_get_handle Bh k n) ldb 1 (xkblas_get_handle Bh m n) ldb)
      (other_tiles (eff_lower CblasLeft uplo transA) (d_mt Bh) m)"
proof -
  have ul: "uplo \<noteq> CblasUpper \<longleftrightarrow> uplo = CblasLower" using assms(11) by (auto simp: valid_uplo_def enum_simps)
  have ne: "CblasLower \<noteq> CblasUpper" "CblasRight \<noteq> CblasLeft" by (simp_all add: enum_simps)
  show ?thesis
    using assms ul
    by (cases "uplo = CblasUpper"; cases "transA = CblasNoTrans")
       (simp_all add: ztrmm_left_tile_def Let_def insert_defs other_tiles_def eff_lower_def ne tile_dim_full cong: map_cong)
qed

lemma ztrmm_right_tile_form:
  assumes "d_mt Ah = d_nt Bh" "d_nt Ah = d_nt Bh" "d_M Ah = N" "d_N Ah = N" "d_mb Ah = NB" "d_nb Ah = NB"
    and "d_M Bh = M" "d_N Bh = N" "d_mb Bh = NB" "d_nb Bh = NB" "valid_uplo uplo" "n < d_nt Bh"
  shows "ztrmm_right_tile uplo transA diag al Ah lda Bh ldb n m =
    TTrmm CblasRight uplo transA diag (tile_dim (d_mt Bh) M NB m) (tile_dim (d_nt Bh) N NB n) al
      (xkblas_get_handle Ah n n) lda (xkblas_get_handle Bh m n) ldb #
    map (\<lambda>k. TGemm CblasNoTrans transA (tile_dim (d_mt Bh) M NB m) (tile_dim (d_nt Bh) N NB n) (tile_dim (d_nt Bh) N NB k) al
      (xkblas_get_handle Bh m k) ldb
      (if transA = CblasNoTrans then xkblas_get_handle Ah k n else xkblas_get_handle Ah n k) lda
      1 (xkblas_get_handle Bh m n) ldb)
      (other_tiles (eff_lower CblasRight uplo transA) (d_nt Bh) n)"
proof -
  have ul: "uplo \<noteq> CblasUpper \<longleftrightarrow> uplo = CblasLower" using assms(11) by (auto simp: valid_uplo_def enum_simps)
  have ne: "CblasLower \<noteq> CblasUpper" "CblasRight \<noteq> CblasLeft" by (simp_all add: enum_simps)
  show ?thesis
    using assms ul
    by (cases "uplo = CblasUpper"; cases "transA = CblasNoTrans")
       (simp_all add: ztrmm_right_tile_def Let_def insert_defs other_tiles_def eff_lower_def ne tile_dim_full cong: map_cong)
qed

lemma other_tiles_facts:
  assumes "r < kt"
  shows "distinct (r # other_tiles lower kt r)" "set (r # other_tiles lower kt r) \<subseteq> {..<kt}"
    "k < kt \<Longrightarrow> k \<noteq> r \<Longrightarrow> lower = (k < r) \<Longrightarrow> k \<in> set (other_tiles lower kt r)"
    "k \<in> set (other_tiles lower kt r) \<Longrightarrow> k \<noteq> r \<and> k < kt \<and> lower = (k < r)"
  using assms by (auto simp: other_tiles_def split: if_splits)


text \<open>The list of tasks of a tile: the diagonal task, then the chain.\<close>

lemma trmm_tile_exec:
  assumes diag: "\<And>X. exec_task K J t (store_block B ldb M N X mem) = store_block B ldb M N (\<lambda>i j. if in_tile NB m n i j
      then al * tile_sum side uplo transA dg A NB (tile_dim kt (tri_dim side M N) NB r) X r i j else X i j) mem"
    and step: "\<And>k X. k \<in> set (other_tiles (eff_lower side uplo transA) kt r) \<Longrightarrow>
      exec_task K J (g k) (store_block B ldb M N X mem) = store_block B ldb M N
      (\<lambda>i j. if in_tile NB m n i j then X i j + al * tile_sum side uplo transA dg A NB (tile_dim kt (tri_dim side M N) NB k) X k i j
             else X i j) mem"
    and r: "r = (if side = CblasLeft then m else n)" "r < kt" "kt = xkblas_num_of_tiles (tri_dim side M N) NB"
    and NB: "0 < NB" and ldb: "M \<le> ldb" and v: "valid_uplo uplo" "valid_trans transA"
  shows "exec_tasks K J (t # map g (other_tiles (eff_lower side uplo transA) kt r)) (store_block B ldb M N X mem) =
    store_block B ldb M N (\<lambda>i j. if in_tile NB m n i j then trmm_val side uplo transA dg M N al A X i j else X i j) mem"
proof -
  let ?ks = "other_tiles (eff_lower side uplo transA) kt r" and ?td = "tile_dim kt (tri_dim side M N) NB"
  let ?X = "\<lambda>i j. if in_tile NB m n i j then al * tile_sum side uplo transA dg A NB (?td r) X r i j else X i j"
  have td: "?td k \<le> NB" if "k < kt" for k using that NB by (simp add: r(3) tile_dim_le)
  note of = other_tiles_facts [OF r(2), where lower = "eff_lower side uplo transA"]
  have same: "tile_sum side uplo transA dg A NB (?td k) ?X k i j = tile_sum side uplo transA dg A NB (?td k) X k i j"
    if "k \<in> set ?ks" for k i j
    unfolding tile_sum_def using of(4) [OF that] td [of k] r(1)
    by (intro sum.cong refl) (simp add: lin_other_tile)
  have eq: "(\<Sum>k\<leftarrow>?ks. tile_sum side uplo transA dg A NB (?td k) ?X k i j) =
      (\<Sum>k\<leftarrow>?ks. tile_sum side uplo transA dg A NB (?td k) X k i j)" for i j
    by (rule arg_cong [where f = sum_list], rule map_cong [OF refl same])
  have "exec_tasks K J (map g ?ks) (store_block B ldb M N ?X mem) = store_block B ldb M N
      (\<lambda>i j. if in_tile NB m n i j then ?X i j + al * (\<Sum>k\<leftarrow>?ks. tile_sum side uplo transA dg A NB (?td k) ?X k i j)
             else ?X i j) mem"
    by (rule trmm_chain [OF step]) (use of(4) td r(1) in auto)
  also have "\<dots> = store_block B ldb M N (\<lambda>i j. if in_tile NB m n i j
      then al * (\<Sum>k\<leftarrow>r # ?ks. tile_sum side uplo transA dg A NB (?td k) X k i j) else X i j) mem"
    unfolding eq by (simp add: distrib_left cong: if_cong)
  also have "\<dots> = store_block B ldb M N (\<lambda>i j. if in_tile NB m n i j then trmm_val side uplo transA dg M N al A X i j else X i j) mem"
  proof (rule store_block_cong [OF ldb])
    fix i j
    have "(\<Sum>k\<leftarrow>r # ?ks. tile_sum side uplo transA dg A NB (?td k) X k i j) =
        (\<Sum>l<tri_dim side M N. tri_coef side uplo transA dg A (pos side i j) l * lin side X i j l)" if "in_tile NB m n i j"
    proof -
      have p: "pos side i j div NB = r" using that r(1) by (simp add: in_tile_def pos_def)
      show ?thesis unfolding r(3)
        by (rule tile_sums_all [OF NB v p of(1,2,3) [unfolded r(3)]])
    qed
    then show "(if in_tile NB m n i j then al * (\<Sum>k\<leftarrow>r # ?ks. tile_sum side uplo transA dg A NB (?td k) X k i j) else X i j) =
        (if in_tile NB m n i j then trmm_val side uplo transA dg M N al A X i j else X i j)"
      by (simp add: trmm_val_coef)
  qed
  finally show ?thesis using diag [of X] by simp
qed

lemma ztrmm_left_tile_exec:
  assumes K: "gemm_ok K" "trmm_ok K" and v: "valid_uplo uplo" "valid_trans transA" "valid_diag diag"
    and lay: "tri_layout CblasLeft M N NB Ah A lda Bh B ldb" and mn: "m < d_mt Bh" "n < d_nt Bh"
  shows "exec_tasks K J (ztrmm_left_tile uplo transA diag al Ah lda Bh ldb m n) (store_block B ldb M N X mem) =
    store_block B ldb M N (\<lambda>i j. if in_tile NB m n i j
      then trmm_val CblasLeft uplo transA diag M N al (view mem A lda) X i j else X i j) mem"
proof -
  note L = tri_layoutD [OF lay]
  have sr: "CblasRight \<noteq> CblasLeft" by (simp add: enum_simps)
  have D: "tri_dim CblasLeft a b = a" for a b :: nat by (simp add: tri_dim_def enum_simps)
  note dims = descr_of_dims [OF L(3), unfolded D] descr_of_dims [OF L(4)]
  have MN: "d_M Ah = M" "d_N Ah = M" "d_M Bh = M" "d_N Bh = N" using L(3,4) by (auto simp: descr_of_def D)
  let ?tm = "tile_dim (d_mt Bh) M NB m" and ?tn = "tile_dim (d_nt Bh) N NB n"
  have geo: "tile_of M N NB NB m n ?tm ?tn" using mn dims L(1) by (simp add: tile_of_def)
  have vs: "valid_side CblasLeft" by (simp add: valid_side_def)
  have hB: "h_data (xkblas_get_handle Bh m n) = B + (m * NB + n * NB * ldb) * ELTSIZE"
    and hA: "h_data (xkblas_get_handle Ah m m) = A + (m * NB + m * NB * lda) * ELTSIZE"
    using mn dims by (simp_all add: descr_of_data [OF L(4)] descr_of_data [OF L(3)])
  have r: "m = (if CblasLeft = CblasLeft then m else n)" using sr by simp
  have d: "exec_task K J (TTrmm CblasLeft uplo transA diag ?tm ?tn al (xkblas_get_handle Ah m m) lda
      (xkblas_get_handle Bh m n) ldb) (store_block B ldb M N X mem) = store_block B ldb M N (\<lambda>i j. if in_tile NB m n i j
      then al * tile_sum CblasLeft uplo transA diag (view mem A lda) NB (tile_dim (d_mt Bh) (tri_dim CblasLeft M N) NB m) X m i j
      else X i j) mem" for X
    using trmm_task_exec [OF K(2) vs v geo L(2) r hB hA L(5)] by (simp add: D cong: if_cong)
  have g: "exec_task K J (TGemm transA CblasNoTrans ?tm ?tn (tile_dim (d_mt Bh) M NB k) al
      (if transA = CblasNoTrans then xkblas_get_handle Ah m k else xkblas_get_handle Ah k m) lda
      (xkblas_get_handle Bh k n) ldb 1 (xkblas_get_handle Bh m n) ldb) (store_block B ldb M N X mem) = store_block B ldb M N
      (\<lambda>i j. if in_tile NB m n i j then X i j + al * tile_sum CblasLeft uplo transA diag (view mem A lda) NB
        (tile_dim (d_mt Bh) (tri_dim CblasLeft M N) NB k) X k i j else X i j) mem"
    if "k \<in> set (other_tiles (eff_lower CblasLeft uplo transA) (d_mt Bh) m)" for k X
    using other_tiles_facts(4) [OF mn(1) that]
      left_gemm_tile_sum [OF K(1) v(1,2) lay mn, of k J al 1 X mem diag] by (simp add: D cong: if_cong)
  have kt: "d_mt Bh = xkblas_num_of_tiles (tri_dim CblasLeft M N) NB" using dims by (simp add: D)
  have form: "ztrmm_left_tile uplo transA diag al Ah lda Bh ldb m n =
    TTrmm CblasLeft uplo transA diag ?tm ?tn al (xkblas_get_handle Ah m m) lda (xkblas_get_handle Bh m n) ldb #
    map (\<lambda>k. TGemm transA CblasNoTrans ?tm ?tn (tile_dim (d_mt Bh) M NB k) al
      (if transA = CblasNoTrans then xkblas_get_handle Ah m k else xkblas_get_handle Ah k m) lda
      (xkblas_get_handle Bh k n) ldb 1 (xkblas_get_handle Bh m n) ldb) (other_tiles (eff_lower CblasLeft uplo transA) (d_mt Bh) m)"
    by (rule ztrmm_left_tile_form) (use dims MN v mn in simp_all)
  show ?thesis
    unfolding form by (rule trmm_tile_exec [OF d g r _ kt L(1,2) v(1,2)]) (use mn in simp_all)
qed

lemma ztrmm_right_tile_exec:
  assumes K: "gemm_ok K" "trmm_ok K" and v: "valid_uplo uplo" "valid_trans transA" "valid_diag diag"
    and lay: "tri_layout CblasRight M N NB Ah A lda Bh B ldb" and mn: "m < d_mt Bh" "n < d_nt Bh"
  shows "exec_tasks K J (ztrmm_right_tile uplo transA diag al Ah lda Bh ldb n m) (store_block B ldb M N X mem) =
    store_block B ldb M N (\<lambda>i j. if in_tile NB m n i j
      then trmm_val CblasRight uplo transA diag M N al (view mem A lda) X i j else X i j) mem"
proof -
  note L = tri_layoutD [OF lay]
  have sr: "CblasRight \<noteq> CblasLeft" by (simp add: enum_simps)
  have D: "tri_dim CblasRight a b = b" for a b :: nat by (simp add: tri_dim_def enum_simps)
  note dims = descr_of_dims [OF L(3), unfolded D] descr_of_dims [OF L(4)]
  have MN: "d_M Ah = N" "d_N Ah = N" "d_M Bh = M" "d_N Bh = N" using L(3,4) by (auto simp: descr_of_def D)
  let ?tm = "tile_dim (d_mt Bh) M NB m" and ?tn = "tile_dim (d_nt Bh) N NB n"
  have geo: "tile_of M N NB NB m n ?tm ?tn" using mn dims L(1) by (simp add: tile_of_def)
  have vs: "valid_side CblasRight" by (simp add: valid_side_def)
  have hB: "h_data (xkblas_get_handle Bh m n) = B + (m * NB + n * NB * ldb) * ELTSIZE"
    and hA: "h_data (xkblas_get_handle Ah n n) = A + (n * NB + n * NB * lda) * ELTSIZE"
    using mn dims by (simp_all add: descr_of_data [OF L(4)] descr_of_data [OF L(3)])
  have r: "n = (if CblasRight = CblasLeft then m else n)" using sr by simp
  have d: "exec_task K J (TTrmm CblasRight uplo transA diag ?tm ?tn al (xkblas_get_handle Ah n n) lda
      (xkblas_get_handle Bh m n) ldb) (store_block B ldb M N X mem) = store_block B ldb M N (\<lambda>i j. if in_tile NB m n i j
      then al * tile_sum CblasRight uplo transA diag (view mem A lda) NB (tile_dim (d_nt Bh) (tri_dim CblasRight M N) NB n) X n i j
      else X i j) mem" for X
    using trmm_task_exec [OF K(2) vs v geo L(2) r hB hA L(5)] by (simp add: D cong: if_cong)
  have g: "exec_task K J (TGemm CblasNoTrans transA ?tm ?tn (tile_dim (d_nt Bh) N NB k) al
      (xkblas_get_handle Bh m k) ldb
      (if transA = CblasNoTrans then xkblas_get_handle Ah k n else xkblas_get_handle Ah n k) lda
      1 (xkblas_get_handle Bh m n) ldb) (store_block B ldb M N X mem) = store_block B ldb M N
      (\<lambda>i j. if in_tile NB m n i j then X i j + al * tile_sum CblasRight uplo transA diag (view mem A lda) NB
        (tile_dim (d_nt Bh) (tri_dim CblasRight M N) NB k) X k i j else X i j) mem"
    if "k \<in> set (other_tiles (eff_lower CblasRight uplo transA) (d_nt Bh) n)" for k X
    using other_tiles_facts(4) [OF mn(2) that]
      right_gemm_tile_sum [OF K(1) v(1,2) lay mn, of k J al 1 X mem diag] by (simp add: D cong: if_cong)
  have kt: "d_nt Bh = xkblas_num_of_tiles (tri_dim CblasRight M N) NB" using dims by (simp add: D)
  have form: "ztrmm_right_tile uplo transA diag al Ah lda Bh ldb n m =
    TTrmm CblasRight uplo transA diag ?tm ?tn al (xkblas_get_handle Ah n n) lda (xkblas_get_handle Bh m n) ldb #
    map (\<lambda>k. TGemm CblasNoTrans transA ?tm ?tn (tile_dim (d_nt Bh) N NB k) al
      (xkblas_get_handle Bh m k) ldb
      (if transA = CblasNoTrans then xkblas_get_handle Ah k n else xkblas_get_handle Ah n k) lda
      1 (xkblas_get_handle Bh m n) ldb) (other_tiles (eff_lower CblasRight uplo transA) (d_nt Bh) n)"
    by (rule ztrmm_right_tile_form) (use dims MN v mn in simp_all)
  show ?thesis
    unfolding form by (rule trmm_tile_exec [OF d g r _ kt L(1,2) v(1,2)]) (use mn in simp_all)
qed

section \<open>The sweep over the tiles\<close>

text \<open>The tiles of \<open>S\<close>, named by equation and line, hold their final value \<open>V\<close>, the others still the
  value \<open>X0\<close> of the start.\<close>

definition swept :: "int \<Rightarrow> nat \<Rightarrow> nat \<Rightarrow> nat \<Rightarrow> cmat \<Rightarrow> cmat \<Rightarrow> (nat \<times> nat) set \<Rightarrow> cmat \<Rightarrow> bool" where
  "swept side NB M N X0 V S X \<longleftrightarrow> (\<forall>i<M. \<forall>j<N. X i j =
     (if (pos side i j div NB, opos side i j div NB) \<in> S then V i j else X0 i j))"

lemma swept_step:
  assumes S: "swept side NB M N X0 (trmm_val side uplo transA diag M N al A X0) S X"
    and v: "valid_uplo uplo" "valid_trans transA"
    and free: "\<And>k. (k, q) \<in> S \<Longrightarrow> k \<noteq> r \<and> eff_lower side uplo transA \<noteq> (k < r)"
  shows "swept side NB M N X0 (trmm_val side uplo transA diag M N al A X0) (insert (r, q) S)
    (\<lambda>i j. if line_tile side NB r q i j then trmm_val side uplo transA diag M N al A X i j else X i j)"
  unfolding swept_def
proof (intro allI impI)
  fix i j assume ij: "i < M" "j < N"
  have "trmm_val side uplo transA diag M N al A X i j = trmm_val side uplo transA diag M N al A X0 i j"
    if t: "line_tile side NB r q i j"
  proof -
    have "tri_coef side uplo transA diag A (pos side i j) l * lin side X i j l =
        tri_coef side uplo transA diag A (pos side i j) l * lin side X0 i j l" if l: "l < tri_dim side M N" for l
    proof (cases "(l div NB, q) \<in> S")
      case True
      then have "tri_coef side uplo transA diag A (pos side i j) l = 0"
        using free [OF True] t tri_coef_zero [OF v, of "pos side i j" NB l side] by (auto simp: line_tile_def)
      then show ?thesis by simp
    next
      case False
      have "lin side X i j l = lin side X0 i j l"
        using False S ij l t
        by (cases "side = CblasLeft") (auto simp: lin_def tri_dim_def swept_def line_tile_def pos_def opos_def)
      then show ?thesis by simp
    qed
    then show ?thesis unfolding trmm_val_coef by (auto intro!: sum.cong)
  qed
  then show "(if line_tile side NB r q i j then trmm_val side uplo transA diag M N al A X i j else X i j) =
    (if (pos side i j div NB, opos side i j div NB) \<in> insert (r, q) S
     then trmm_val side uplo transA diag M N al A X0 i j else X0 i j)"
    using S ij by (auto simp: swept_def line_tile_def)
qed

lemma trmm_sweep:
  assumes tile: "\<And>r q X. r \<in> set rs \<Longrightarrow> q \<in> set qs \<Longrightarrow> exec_tasks K J (f r q) (store_block B ldb M N X mem) =
      store_block B ldb M N (\<lambda>i j. if line_tile side NB r q i j then trmm_val side uplo transA diag M N al A X i j else X i j) mem"
    and order: "\<And>xs r ys k. rs = xs @ r # ys \<Longrightarrow> k \<in> set xs \<Longrightarrow> k \<noteq> r \<and> eff_lower side uplo transA \<noteq> (k < r)"
    and cover: "\<And>i j. i < M \<Longrightarrow> j < N \<Longrightarrow> pos side i j div NB \<in> set rs \<and> opos side i j div NB \<in> set qs"
    and v: "valid_uplo uplo" "valid_trans transA" and qs: "distinct qs" and ldb: "M \<le> ldb"
  shows "exec_tasks K J (concat (map (\<lambda>r. concat (map (f r) qs)) rs)) mem =
    store_block B ldb M N (trmm_val side uplo transA diag M N al A (view mem B ldb)) mem"
proof -
  let ?X0 = "view mem B ldb"
  let ?I = "swept side NB M N ?X0 (trmm_val side uplo transA diag M N al A ?X0)"
  have inner: "btriple K J B ldb M N mem (?I (set xs \<times> set qs)) (concat (map (f r) qs)) (?I (set (xs @ [r]) \<times> set qs))"
    if rs: "rs = xs @ r # ys" for xs r ys
  proof -
    have "btriple K J B ldb M N mem (?I (set xs \<times> set qs \<union> {r} \<times> set [])) (concat (map (f r) qs))
        (?I (set xs \<times> set qs \<union> {r} \<times> set qs))"
    proof (rule btriple_loop [where I = "\<lambda>zs. ?I (set xs \<times> set qs \<union> {r} \<times> set zs)"])
      fix zs q ws assume q: "qs = zs @ q # ws"
      let ?S = "set xs \<times> set qs \<union> {r} \<times> set zs"
      have "q \<notin> set zs" using qs q by auto
      then have free: "(k, q) \<in> ?S \<Longrightarrow> k \<noteq> r \<and> eff_lower side uplo transA \<noteq> (k < r)" for k
        using order [OF rs, of k] by auto
      have "insert (r, q) ?S = set xs \<times> set qs \<union> {r} \<times> set (zs @ [q])" by auto
      then have "?I (set xs \<times> set qs \<union> {r} \<times> set (zs @ [q]))
          (\<lambda>i j. if line_tile side NB r q i j then trmm_val side uplo transA diag M N al A X i j else X i j)"
        if "?I ?S X" for X using swept_step [OF that v free] by simp
      moreover have "r \<in> set rs" "q \<in> set qs" using rs q by auto
      ultimately show "btriple K J B ldb M N mem (?I ?S) (f r q) (?I (set xs \<times> set qs \<union> {r} \<times> set (zs @ [q])))"
        unfolding btriple_def using tile by auto
    qed
    moreover have "set xs \<times> set qs \<union> {r} \<times> set qs = set (xs @ [r]) \<times> set qs" by auto
    ultimately show ?thesis by simp
  qed
  have "btriple K J B ldb M N mem (?I (set [] \<times> set qs)) (concat (map (\<lambda>r. concat (map (f r) qs)) rs)) (?I (set rs \<times> set qs))"
    by (rule btriple_loop [where I = "\<lambda>xs. ?I (set xs \<times> set qs)"]) (rule inner)
  from btriple_run [OF this ldb] obtain X where
    X: "exec_tasks K J (concat (map (\<lambda>r. concat (map (f r) qs)) rs)) mem = store_block B ldb M N X mem"
    "?I (set rs \<times> set qs) X" by (auto simp: swept_def)
  show ?thesis
    unfolding X(1) by (rule store_block_cong [OF ldb]) (use X(2) cover in \<open>auto simp: swept_def\<close>)
qed

section \<open>The call computes the product\<close>

lemma ztrmm_tasks_run:
  assumes K: "gemm_ok K" "trmm_ok K"
    and v: "valid_side side" "valid_uplo uplo" "valid_trans transA" "valid_diag diag"
    and lay: "tri_layout side M N NB Ah A lda Bh B ldb"
  shows "exec_tasks K J (ztrmm_tasks side uplo transA diag al Ah lda Bh ldb) mem =
    store_block B ldb M N (trmm_val side uplo transA diag M N al (view mem A lda) (view mem B ldb)) mem"
proof -
  note L = tri_layoutD [OF lay]
  note dims = descr_of_dims [OF L(4)]
  have ul: "uplo = CblasUpper \<longleftrightarrow> uplo \<noteq> CblasLower" using v by (auto simp: valid_uplo_def enum_simps)
  have cover: "i div NB < d_mt Bh" "j div NB < d_nt Bh" if "i < M" "j < N" for i j
    using tile_of_index(1) [OF L(1) that(1)] tile_of_index(1) [OF L(1) that(2)] dims by simp_all
  show ?thesis
  proof (cases "side = CblasLeft")
    case True
    let ?rs = "if (uplo = CblasUpper) = (transA = CblasNoTrans) then [0..<d_mt Bh] else rev [0..<d_mt Bh]"
    have "exec_tasks K J (concat (map (\<lambda>m. concat (map (ztrmm_left_tile uplo transA diag al Ah lda Bh ldb m) [0..<d_nt Bh])) ?rs)) mem =
      store_block B ldb M N (trmm_val side uplo transA diag M N al (view mem A lda) (view mem B ldb)) mem"
    proof (rule trmm_sweep [OF _ _ _ v(2,3) _ L(2)])
      fix r q X assume "r \<in> set ?rs" "q \<in> set [0..<d_nt Bh]"
      then have "r < d_mt Bh" "q < d_nt Bh" by (auto split: if_splits)
      from ztrmm_left_tile_exec [OF K v(2-4) lay [unfolded True] this, of J al X mem]
      show "exec_tasks K J (ztrmm_left_tile uplo transA diag al Ah lda Bh ldb r q) (store_block B ldb M N X mem) =
        store_block B ldb M N (\<lambda>i j. if line_tile side NB r q i j
          then trmm_val side uplo transA diag M N al (view mem A lda) X i j else X i j) mem"
        by (simp add: True in_tile_def line_tile_def pos_def opos_def cong: if_cong)
    next
      fix xs r ys k assume "?rs = xs @ r # ys" "k \<in> set xs"
      then show "k \<noteq> r \<and> eff_lower side uplo transA \<noteq> (k < r)"
        using upt_order [of "d_mt Bh" xs r ys k] rev_upt_order [of "d_mt Bh" xs r ys k]
        by (auto simp: eff_lower_def True ul split: if_splits)
    qed (use cover in \<open>auto simp: True pos_def opos_def\<close>)
    then show ?thesis by (simp add: ztrmm_tasks_def True)
  next
    case False
    then have sr: "side = CblasRight" "CblasRight \<noteq> CblasLeft" using v(1) by (auto simp: valid_side_def enum_simps)
    let ?rs = "if (uplo = CblasUpper) = (transA = CblasNoTrans) then rev [0..<d_nt Bh] else [0..<d_nt Bh]"
    have "exec_tasks K J (concat (map (\<lambda>n. concat (map (ztrmm_right_tile uplo transA diag al Ah lda Bh ldb n) [0..<d_mt Bh])) ?rs)) mem =
      store_block B ldb M N (trmm_val side uplo transA diag M N al (view mem A lda) (view mem B ldb)) mem"
    proof (rule trmm_sweep [OF _ _ _ v(2,3) _ L(2)])
      fix r q X assume "r \<in> set ?rs" "q \<in> set [0..<d_mt Bh]"
      then have "q < d_mt Bh" "r < d_nt Bh" by (auto split: if_splits)
      from ztrmm_right_tile_exec [OF K v(2-4) lay [unfolded sr(1)] this, of J al X mem]
      show "exec_tasks K J (ztrmm_right_tile uplo transA diag al Ah lda Bh ldb r q) (store_block B ldb M N X mem) =
        store_block B ldb M N (\<lambda>i j. if line_tile side NB r q i j
          then trmm_val side uplo transA diag M N al (view mem A lda) X i j else X i j) mem"
        using sr by (simp add: in_tile_def line_tile_def pos_def opos_def conj_commute cong: if_cong)
    next
      fix xs r ys k assume "?rs = xs @ r # ys" "k \<in> set xs"
      then show "k \<noteq> r \<and> eff_lower side uplo transA \<noteq> (k < r)"
        using upt_order [of "d_nt Bh" xs r ys k] rev_upt_order [of "d_nt Bh" xs r ys k]
        by (auto simp: eff_lower_def sr ul split: if_splits)
    qed (use cover sr in \<open>auto simp: pos_def opos_def\<close>)
    then show ?thesis using sr by (simp add: ztrmm_tasks_def)
  qed
qed

lemma ztrmm_args_None:
  "ztrmm_args side uplo transA diag N NRHS LDA LDB = None \<Longrightarrow>
   valid_side side \<and> valid_uplo uplo \<and> valid_trans transA \<and> valid_diag diag \<and> 0 \<le> N \<and> 0 \<le> NRHS \<and> \<not> ld_too_small LDB N"
  by (auto simp: ztrmm_args_def Let_def valid_uplo_def valid_side_def valid_trans_def valid_diag_def split: if_splits)

text \<open>C10. An accepted call of \<open>xkblas_ztrmm_async\<close> replaces \<open>B\<close> by \<open>alpha*op(A)*B\<close>, or \<open>alpha*B*op(A)\<close> for
  \<open>CblasRight\<close>, where \<open>A\<close> is the triangular matrix described by \<open>uplo\<close> and \<open>diag\<close>. The tasks read and
  write the tiles of the one array \<open>B\<close>; the order of the sweep makes every task read old values.\<close>

theorem ztrmm_async_correct:
  assumes "gemm_ok K" "trmm_ok K" and "ztrmm_args side uplo transA diag N NRHS LDA LDB = None"
    and "LDA \<in> {0..<2 ^ 31}" "LDB \<in> {0..<2 ^ 31}" "N < 2 ^ 31" "NRHS < 2 ^ 31"
    and "unregistered ctxt A" "unregistered ctxt B" "tri_operands_apart side N NRHS A LDA B LDB"
    and "0 < xc_ngpus ctxt" "gpus_registered R KAAPI_LD_GPU c f"
  shows "\<exists>ts ctxt'. xkblas_ztrmm_async side uplo transA diag N NRHS al A LDA B LDB R ctxt = Returned (ts, ctxt') \<and>
    exec_tasks K J ts mem = store_block B (nat LDB) (nat N) (nat NRHS)
      (trmm_val side uplo transA diag (nat N) (nat NRHS) al (view mem A (nat LDA)) (view mem B (nat LDB))) mem"
proof -
  from ztrmm_args_None [OF assms(3)] have v: "valid_side side" "valid_uplo uplo" "valid_trans transA" "valid_diag diag"
    and p: "0 \<le> N" "0 \<le> NRHS" "\<not> ld_too_small LDB N" by blast+
  have ldb: "nat N \<le> nat LDB" using p ld_ok_nonneg [of LDB N] assms(5,6) by auto
  have sz: "size_of_int N = nat N" "size_of_int NRHS = nat NRHS"
    using p assms(6,7) by (auto intro!: size_of_int_nonneg simp: SIZE_MOD_def)
  show ?thesis
  proof (cases "min (nat N) (nat NRHS) = 0")
    case True
    then have "mem = store_block B (nat LDB) (nat N) (nat NRHS)
      (trmm_val side uplo transA diag (nat N) (nat NRHS) al (view mem A (nat LDA)) (view mem B (nat LDB))) mem"
      using ldb by (intro store_block_eqI) (auto simp: min_def split: if_splits)
    then show ?thesis using True assms(3)
      by (intro exI [of _ "[]"] exI [of _ ctxt]) (simp add: xkblas_ztrmm_async_def sz)
  next
    case False
    let ?NA = "nat (if side = CblasLeft then N else NRHS)"
    have ne: "A \<noteq> B" using assms(10) by (simp add: tri_operands_apart_def)
    obtain NB c' Ah Bh where su: "setup_operands KERN_TRMM (nat N) (nat NRHS) ?NA
        [(A, ?NA, ?NA, nat LDA), (B, nat N, nat NRHS, nat LDB)] B R ctxt = Some c'"
      "0 < NB" "xc_descr c' A = Some Ah" "xc_descr c' B = Some Bh"
      "descr_of Ah A ?NA ?NA (nat LDA) NB NB" "descr_of Bh B (nat N) (nat NRHS) (nat LDB) NB NB"
      using setup_two [OF ne assms(8,9) _ _ assms(11,12), of KERN_TRMM] by (metis kernel.distinct)
    have call: "xkblas_ztrmm_async side uplo transA diag N NRHS al A LDA B LDB R ctxt =
        Returned (ztrmm_tasks side uplo transA diag al Ah (nat LDA) Bh (nat LDB), c')"
      using False assms(3,4,5) su by (auto simp: xkblas_ztrmm_async_def Let_def size_of_int_ld sz)
    have lay: "tri_layout side (nat N) (nat NRHS) NB Ah A (nat LDA) Bh B (nat LDB)"
      using su assms(10) ldb by (cases "side = CblasLeft") (auto simp: tri_layout_def tri_dim_def tri_operands_apart_def Let_def)
    from call ztrmm_tasks_run [OF assms(1,2) v lay] show ?thesis by blast
  qed
qed

theorem ztrmm_async_correct_witness:
  "\<exists>ts ctxt'. xkblas_ztrmm_async 142 122 113 131 3 2 \<i> 16 4 2000 4 one_gpu_reg (empty_ctx 2) = Returned (ts, ctxt') \<and>
    exec_tasks (ref_blas (\<lambda>_ _ _ _ _ _ _ _ B. B)) (\<lambda>_ _ _. 7) ts (\<lambda>_. 1) = store_block 2000 4 3 2
      (trmm_val 142 122 113 131 3 2 \<i> (view (\<lambda>_. 1) 16 4) (view (\<lambda>_. 1) 2000 4)) (\<lambda>_. 1)"
  using ztrmm_async_correct [of "ref_blas (\<lambda>_ _ _ _ _ _ _ _ B. B)" 142 122 113 131 3 2 4 4 "empty_ctx 2"
      16 2000 one_gpu_reg 1 "\<lambda>_. 1" \<i> "\<lambda>_ _ _. 7" "\<lambda>_. 1"]
  by (simp add: ztrmm_args_def ld_too_small_def size_of_int_def SIZE_MOD_def enum_simps
        tri_operands_apart_def arrays_disjoint_ranges ELTSIZE_def one_gpu_registered [simplified])

end
