(* ===== verification/Trsm.thy ===== *)
theory Trsm
  imports Triangular
begin

text \<open>
  \<open>blas/ztrsm.c\<close>: the triangular solve \<open>op(A)*X = alpha*B\<close> or \<open>X*op(A) = alpha*B\<close>, in place in \<open>B\<close>. At
  step \<open>k\<close> the diagonal systems of one block row (column) are solved, then that block is eliminated from
  the ones that follow. In the branches \<open>CblasRight\<close> with a transposed \<open>A\<close> the scaling by \<open>alpha\<close> is
  delayed to the diagonal solves, and the elimination uses \<open>-1/alpha\<close>.
\<close>

section \<open>The call\<close>

definition ztrsm_args ::
  "int \<Rightarrow> int \<Rightarrow> int \<Rightarrow> int \<Rightarrow> int \<Rightarrow> int \<Rightarrow> int \<Rightarrow> int \<Rightarrow> nat option" where
  "ztrsm_args side uplo transA diag N NRHS LDA LDB =
     (let NA = (if side = CblasLeft then N else NRHS) in
      if side \<noteq> CblasLeft \<and> side \<noteq> CblasRight then Some 1
      else if uplo \<noteq> CblasUpper \<and> uplo \<noteq> CblasLower then Some 2
      else if transA < CblasNoTrans \<or> transA > CblasConjTrans then Some 3
      else if diag \<noteq> CblasUnit \<and> diag \<noteq> CblasNonUnit then Some 4
      else if N < 0 then Some 5
      else if NRHS < 0 then Some 6
      else if ld_too_small LDA NA then Some 8
      else if ld_too_small LDB N then Some 10
      else None)"

text \<open>The eight branches of the loops.\<close>

definition ztrsm_left_upper_n ::
  "int \<Rightarrow> int \<Rightarrow> int \<Rightarrow> complex \<Rightarrow> matrix_descr \<Rightarrow> nat \<Rightarrow> matrix_descr \<Rightarrow> nat \<Rightarrow> task list" where
  "ztrsm_left_upper_n uplo transA diag alpha Ah LDA Bh LDB =
     (let Bmt = d_mt Bh; Bnt = d_nt Bh; Bm = d_M Bh; Bmb = d_mb Bh in
      concat (map (\<lambda>k.
        let tempkm = (if k = 0 then Bm - (Bmt - 1) * Bmb else Bmb);
            lalpha = (if k = 0 then alpha else 1) in
        map (\<lambda>n. INSERT_TASK_ztrsm CblasLeft uplo transA diag tempkm (tile_dim Bnt (d_N Bh) (d_nb Bh) n) lalpha
          Ah (Bmt - 1 - k) (Bmt - 1 - k) LDA Bh (Bmt - 1 - k) n LDB) [0..<Bnt] @
        concat (map (\<lambda>m. map (\<lambda>n.
          INSERT_TASK_zgemm CblasNoTrans CblasNoTrans Bmb (tile_dim Bnt (d_N Bh) (d_nb Bh) n) tempkm (- 1)
            Ah (Bmt - 1 - m) (Bmt - 1 - k) LDA Bh (Bmt - 1 - k) n LDB lalpha Bh (Bmt - 1 - m) n LDB) [0..<Bnt]) [k + 1..<Bmt]))
        [0..<Bmt]))"

definition ztrsm_left_upper_t ::
  "int \<Rightarrow> int \<Rightarrow> int \<Rightarrow> complex \<Rightarrow> matrix_descr \<Rightarrow> nat \<Rightarrow> matrix_descr \<Rightarrow> nat \<Rightarrow> task list" where
  "ztrsm_left_upper_t uplo transA diag alpha Ah LDA Bh LDB =
     (let Bmt = d_mt Bh; Bnt = d_nt Bh; Bmb = d_mb Bh in
      concat (map (\<lambda>k.
        let tempkm = tile_dim Bmt (d_M Bh) Bmb k;
            lalpha = (if k = 0 then alpha else 1) in
        map (\<lambda>n. INSERT_TASK_ztrsm CblasLeft uplo transA diag tempkm (tile_dim Bnt (d_N Bh) (d_nb Bh) n) lalpha
          Ah k k LDA Bh k n LDB) [0..<Bnt] @
        concat (map (\<lambda>m. map (\<lambda>n.
          INSERT_TASK_zgemm transA CblasNoTrans (tile_dim Bmt (d_M Bh) Bmb m) (tile_dim Bnt (d_N Bh) (d_nb Bh) n) Bmb (- 1)
            Ah k m LDA Bh k n LDB lalpha Bh m n LDB) [0..<Bnt]) [k + 1..<Bmt]))
        [0..<Bmt]))"

definition ztrsm_left_lower_n ::
  "int \<Rightarrow> int \<Rightarrow> int \<Rightarrow> complex \<Rightarrow> matrix_descr \<Rightarrow> nat \<Rightarrow> matrix_descr \<Rightarrow> nat \<Rightarrow> task list" where
  "ztrsm_left_lower_n uplo transA diag alpha Ah LDA Bh LDB =
     (let Bmt = d_mt Bh; Bnt = d_nt Bh; Bmb = d_mb Bh in
      concat (map (\<lambda>k.
        let tempkm = tile_dim Bmt (d_M Bh) Bmb k;
            lalpha = (if k = 0 then alpha else 1) in
        map (\<lambda>n. INSERT_TASK_ztrsm CblasLeft uplo transA diag tempkm (tile_dim Bnt (d_N Bh) (d_nb Bh) n) lalpha
          Ah k k LDA Bh k n LDB) [0..<Bnt] @
        concat (map (\<lambda>m. map (\<lambda>n.
          INSERT_TASK_zgemm CblasNoTrans CblasNoTrans (tile_dim Bmt (d_M Bh) Bmb m) (tile_dim Bnt (d_N Bh) (d_nb Bh) n) Bmb (- 1)
            Ah m k LDA Bh k n LDB lalpha Bh m n LDB) [0..<Bnt]) [k + 1..<Bmt]))
        [0..<Bmt]))"

definition ztrsm_left_lower_t ::
  "int \<Rightarrow> int \<Rightarrow> int \<Rightarrow> complex \<Rightarrow> matrix_descr \<Rightarrow> nat \<Rightarrow> matrix_descr \<Rightarrow> nat \<Rightarrow> task list" where
  "ztrsm_left_lower_t uplo transA diag alpha Ah LDA Bh LDB =
     (let Bmt = d_mt Bh; Bnt = d_nt Bh; Bm = d_M Bh; Bmb = d_mb Bh in
      concat (map (\<lambda>k.
        let tempkm = (if k = 0 then Bm - (Bmt - 1) * Bmb else Bmb);
            lalpha = (if k = 0 then alpha else 1) in
        map (\<lambda>n. INSERT_TASK_ztrsm CblasLeft uplo transA diag tempkm (tile_dim Bnt (d_N Bh) (d_nb Bh) n) lalpha
          Ah (Bmt - 1 - k) (Bmt - 1 - k) LDA Bh (Bmt - 1 - k) n LDB) [0..<Bnt] @
        concat (map (\<lambda>m. map (\<lambda>n.
          INSERT_TASK_zgemm transA CblasNoTrans Bmb (tile_dim Bnt (d_N Bh) (d_nb Bh) n) tempkm (- 1)
            Ah (Bmt - 1 - k) (Bmt - 1 - m) LDA Bh (Bmt - 1 - k) n LDB lalpha Bh (Bmt - 1 - m) n LDB) [0..<Bnt]) [k + 1..<Bmt]))
        [0..<Bmt]))"

definition ztrsm_right_upper_n ::
  "int \<Rightarrow> int \<Rightarrow> int \<Rightarrow> complex \<Rightarrow> matrix_descr \<Rightarrow> nat \<Rightarrow> matrix_descr \<Rightarrow> nat \<Rightarrow> task list" where
  "ztrsm_right_upper_n uplo transA diag alpha Ah LDA Bh LDB =
     (let Bmt = d_mt Bh; Bnt = d_nt Bh; Bnb = d_nb Bh; Bmb = d_mb Bh in
      concat (map (\<lambda>k.
        let tempkn = tile_dim Bnt (d_N Bh) Bnb k;
            lalpha = (if k = 0 then alpha else 1) in
        map (\<lambda>m. INSERT_TASK_ztrsm CblasRight uplo transA diag (tile_dim Bmt (d_M Bh) Bmb m) tempkn lalpha
          Ah k k LDA Bh m k LDB) [0..<Bmt] @
        concat (map (\<lambda>m. map (\<lambda>n.
          INSERT_TASK_zgemm CblasNoTrans CblasNoTrans (tile_dim Bmt (d_M Bh) Bmb m) (tile_dim Bnt (d_N Bh) Bnb n) Bmb (- 1)
            Bh m k LDB Ah k n LDA lalpha Bh m n LDB) [k + 1..<Bnt]) [0..<Bmt]))
        [0..<Bnt]))"

definition ztrsm_right_upper_t ::
  "int \<Rightarrow> int \<Rightarrow> int \<Rightarrow> complex \<Rightarrow> matrix_descr \<Rightarrow> nat \<Rightarrow> matrix_descr \<Rightarrow> nat \<Rightarrow> task list" where
  "ztrsm_right_upper_t uplo transA diag alpha Ah LDA Bh LDB =
     (let Bmt = d_mt Bh; Bnt = d_nt Bh; Bn = d_N Bh; Bnb = d_nb Bh; minvalpha = - 1 / alpha in
      concat (map (\<lambda>k.
        let tempkn = (if k = 0 then Bn - (Bnt - 1) * Bnb else Bnb) in
        concat (map (\<lambda>m.
          let tempmm = tile_dim Bmt (d_M Bh) (d_mb Bh) m in
          INSERT_TASK_ztrsm CblasRight uplo transA diag tempmm tempkn alpha
            Ah (Bnt - 1 - k) (Bnt - 1 - k) LDA Bh m (Bnt - 1 - k) LDB #
          map (\<lambda>n. INSERT_TASK_zgemm CblasNoTrans transA tempmm Bnb tempkn minvalpha
            Bh m (Bnt - 1 - k) LDB Ah (Bnt - 1 - n) (Bnt - 1 - k) LDA 1 Bh m (Bnt - 1 - n) LDB) [k + 1..<Bnt])
          [0..<Bmt])) [0..<Bnt]))"

definition ztrsm_right_lower_n ::
  "int \<Rightarrow> int \<Rightarrow> int \<Rightarrow> complex \<Rightarrow> matrix_descr \<Rightarrow> nat \<Rightarrow> matrix_descr \<Rightarrow> nat \<Rightarrow> task list" where
  "ztrsm_right_lower_n uplo transA diag alpha Ah LDA Bh LDB =
     (let Bmt = d_mt Bh; Bnt = d_nt Bh; Bn = d_N Bh; Bnb = d_nb Bh in
      concat (map (\<lambda>k.
        let tempkn = (if k = 0 then Bn - (Bnt - 1) * Bnb else Bnb);
            lalpha = (if k = 0 then alpha else 1) in
        concat (map (\<lambda>m.
          let tempmm = tile_dim Bmt (d_M Bh) (d_mb Bh) m in
          INSERT_TASK_ztrsm CblasRight uplo transA diag tempmm tempkn lalpha
            Ah (Bnt - 1 - k) (Bnt - 1 - k) LDA Bh m (Bnt - 1 - k) LDB #
          map (\<lambda>n. INSERT_TASK_zgemm CblasNoTrans CblasNoTrans tempmm Bnb tempkn (- 1)
            Bh m (Bnt - 1 - k) LDB Ah (Bnt - 1 - k) (Bnt - 1 - n) LDA lalpha Bh m (Bnt - 1 - n) LDB) [k + 1..<Bnt])
          [0..<Bmt])) [0..<Bnt]))"

definition ztrsm_right_lower_t ::
  "int \<Rightarrow> int \<Rightarrow> int \<Rightarrow> complex \<Rightarrow> matrix_descr \<Rightarrow> nat \<Rightarrow> matrix_descr \<Rightarrow> nat \<Rightarrow> task list" where
  "ztrsm_right_lower_t uplo transA diag alpha Ah LDA Bh LDB =
     (let Bmt = d_mt Bh; Bnt = d_nt Bh; Bnb = d_nb Bh; minvalpha = - 1 / alpha in
      concat (map (\<lambda>k.
        let tempkn = tile_dim Bnt (d_N Bh) Bnb k in
        concat (map (\<lambda>m.
          let tempmm = tile_dim Bmt (d_M Bh) (d_mb Bh) m in
          INSERT_TASK_ztrsm CblasRight uplo transA diag tempmm tempkn alpha
            Ah k k LDA Bh m k LDB #
          map (\<lambda>n. INSERT_TASK_zgemm CblasNoTrans transA tempmm (tile_dim Bnt (d_N Bh) Bnb n) (d_mb Bh) minvalpha
            Bh m k LDB Ah n k LDA 1 Bh m n LDB) [k + 1..<Bnt])
          [0..<Bmt])) [0..<Bnt]))"

text \<open>\<open>minvalpha = -1/alpha\<close> is computed in every branch but used only in two; with \<open>alpha = 0\<close> its C value
  is not a number, where the quotient of the logic is \<open>0\<close>. The theorems about these branches assume
  \<open>alpha \<noteq> 0\<close>.\<close>

definition ztrsm_tasks ::
  "int \<Rightarrow> int \<Rightarrow> int \<Rightarrow> int \<Rightarrow> complex \<Rightarrow> matrix_descr \<Rightarrow> nat \<Rightarrow> matrix_descr \<Rightarrow> nat \<Rightarrow> task list" where
  "ztrsm_tasks side uplo transA diag =
     (if side = CblasLeft then
        (if uplo = CblasUpper then
           (if transA = CblasNoTrans then ztrsm_left_upper_n uplo transA diag else ztrsm_left_upper_t uplo transA diag)
         else
           (if transA = CblasNoTrans then ztrsm_left_lower_n uplo transA diag else ztrsm_left_lower_t uplo transA diag))
      else
        (if uplo = CblasUpper then
           (if transA = CblasNoTrans then ztrsm_right_upper_n uplo transA diag else ztrsm_right_upper_t uplo transA diag)
         else
           (if transA = CblasNoTrans then ztrsm_right_lower_n uplo transA diag else ztrsm_right_lower_t uplo transA diag)))"

definition xkblas_ztrsm_async ::
  "int \<Rightarrow> int \<Rightarrow> int \<Rightarrow> int \<Rightarrow> int \<Rightarrow> int \<Rightarrow> complex \<Rightarrow> nat \<Rightarrow> int \<Rightarrow> nat \<Rightarrow> int \<Rightarrow> ldreg \<Rightarrow> xk_ctx
     \<Rightarrow> (task list \<times> xk_ctx) outcome" where
  "xkblas_ztrsm_async side uplo transA diag N NRHS alpha A LDA B LDB R ctxt =
     (case ztrsm_args side uplo transA diag N NRHS LDA LDB of
        Some c \<Rightarrow> Aborted c
      | None \<Rightarrow>
          if kaapi_min (size_of_int N) (size_of_int NRHS) = 0 then Returned ([], ctxt)
          else let NA = nat (if side = CblasLeft then N else NRHS) in
            (case setup_operands KERN_TRSM (nat N) (nat NRHS) NA
                    [(A, NA, NA, size_of_int LDA), (B, nat N, nat NRHS, size_of_int LDB)] B R ctxt of
               None \<Rightarrow> Trapped
             | Some c5 \<Rightarrow>
                 Returned (ztrsm_tasks side uplo transA diag alpha (the (xc_descr c5 A)) (size_of_int LDA)
                   (the (xc_descr c5 B)) (size_of_int LDB), c5)))"

section \<open>The state of a solve in progress\<close>

text \<open>\<open>W p l\<close> is the coefficient of unknown \<open>l\<close> in equation \<open>p\<close>. A tile \<open>(r,q)\<close> of \<open>S\<close> is solved: its
  equations hold, with the right-hand side \<open>al*X0\<close>. In the others the products with the tiles \<open>U r q\<close>
  have been eliminated; \<open>a U\<close> is the factor by which such a tile still has to be scaled.\<close>

definition tsum :: "int \<Rightarrow> (nat \<Rightarrow> nat \<Rightarrow> complex) \<Rightarrow> nat \<Rightarrow> nat \<Rightarrow> cmat \<Rightarrow> nat \<Rightarrow> nat \<Rightarrow> nat \<Rightarrow> complex" where
  "tsum side W NB td X k i j = (\<Sum>l<td. W (pos side i j) (k * NB + l) * lin side X i j (k * NB + l))"

definition eqn :: "int \<Rightarrow> (nat \<Rightarrow> nat \<Rightarrow> complex) \<Rightarrow> nat \<Rightarrow> cmat \<Rightarrow> nat \<Rightarrow> nat \<Rightarrow> complex" where
  "eqn side W D X i j = (\<Sum>l<D. W (pos side i j) l * lin side X i j l)"

definition solve_state ::
  "int \<Rightarrow> (nat \<Rightarrow> nat \<Rightarrow> complex) \<Rightarrow> nat \<Rightarrow> nat \<Rightarrow> nat \<Rightarrow> complex \<Rightarrow> cmat \<Rightarrow> (nat set \<Rightarrow> complex)
     \<Rightarrow> (nat \<times> nat) set \<Rightarrow> (nat \<Rightarrow> nat \<Rightarrow> nat set) \<Rightarrow> cmat \<Rightarrow> bool" where
  "solve_state side W M N NB al X0 a S U X \<longleftrightarrow> (\<forall>i<M. \<forall>j<N.
     let r = pos side i j div NB; q = opos side i j div NB; D = tri_dim side M N in
     if (r, q) \<in> S then eqn side W D X i j = al * X0 i j
     else a (U r q) * X i j = al * X0 i j -
       (\<Sum>k\<in>U r q. tsum side W NB (tile_dim (xkblas_num_of_tiles D NB) D NB k) X k i j))"

text \<open>What the bookkeeping has to satisfy.\<close>

definition book_ok :: "int \<Rightarrow> (nat \<Rightarrow> nat \<Rightarrow> complex) \<Rightarrow> nat \<Rightarrow> nat \<Rightarrow> nat \<Rightarrow> (nat \<times> nat) set \<Rightarrow> (nat \<Rightarrow> nat \<Rightarrow> nat set) \<Rightarrow> bool" where
  "book_ok side W kt qt NB S U \<longleftrightarrow>
     (\<forall>r<kt. \<forall>q<qt. (r, q) \<notin> S \<longrightarrow> U r q \<subseteq> {..<kt} \<and> r \<notin> U r q \<and> (\<forall>k\<in>U r q. (k, q) \<in> S)) \<and>
     (\<forall>r q p l. (r, q) \<in> S \<longrightarrow> p div NB = r \<longrightarrow> W p l \<noteq> 0 \<longrightarrow> l div NB < kt \<longrightarrow> (l div NB, q) \<in> S)"

lemma lin_unchanged:
  "(l div NB, opos side i j div NB) \<noteq> (r, q) \<Longrightarrow>
   (\<And>i j. i < M \<Longrightarrow> j < N \<Longrightarrow> \<not> line_tile side NB r q i j \<Longrightarrow> X' i j = X i j) \<Longrightarrow>
   i < M \<Longrightarrow> j < N \<Longrightarrow> l < tri_dim side M N \<Longrightarrow> lin side X' i j l = lin side X i j l"
  by (auto simp: lin_def tri_dim_def line_tile_def pos_def opos_def split: if_splits)

lemma tsum_unchanged:
  assumes "(k, opos side i j div NB) \<noteq> (r, q)"
    and "\<And>i j. i < M \<Longrightarrow> j < N \<Longrightarrow> \<not> line_tile side NB r q i j \<Longrightarrow> X' i j = X i j"
    and "i < M" "j < N" "k < xkblas_num_of_tiles (tri_dim side M N) NB" "0 < NB"
  shows "tsum side W NB (tile_dim (xkblas_num_of_tiles (tri_dim side M N) NB) (tri_dim side M N) NB k) X' k i j =
         tsum side W NB (tile_dim (xkblas_num_of_tiles (tri_dim side M N) NB) (tri_dim side M N) NB k) X k i j"
  unfolding tsum_def
proof (rule sum.cong [OF refl])
  fix l assume l: "l \<in> {..<tile_dim (xkblas_num_of_tiles (tri_dim side M N) NB) (tri_dim side M N) NB k}"
  have "(k * NB + l) div NB = k" using tile_dim_le [OF assms(6,5)] l by (intro tile_index_div) auto
  moreover have "k * NB + l < tri_dim side M N" using tile_dim_bound [OF assms(6,5)] l by auto
  ultimately have "lin side X' i j (k * NB + l) = lin side X i j (k * NB + l)"
    using assms(1-4) by (intro lin_unchanged [of _ NB side i j r q M N]) auto
  then show "W (pos side i j) (k * NB + l) * lin side X' i j (k * NB + l) =
      W (pos side i j) (k * NB + l) * lin side X i j (k * NB + l)" by simp
qed

text \<open>The equations of solved tiles, and the sums of eliminated tiles, do not see a change of an unsolved tile.\<close>

lemma solve_state_change:
  assumes st: "solve_state side W M N NB al X0 a S U X" and NB: "0 < NB"
    and bk: "book_ok side W (xkblas_num_of_tiles (tri_dim side M N) NB) qt NB S U"
    and qt: "\<forall>i<M. \<forall>j<N. opos side i j div NB < qt"
    and rq: "(r, q) \<notin> S"
    and off: "\<forall>i<M. \<forall>j<N. \<not> line_tile side NB r q i j \<longrightarrow> X' i j = X i j"
    and ij: "i < M" "j < N"
  shows "(pos side i j div NB, opos side i j div NB) \<in> S \<Longrightarrow> eqn side W (tri_dim side M N) X' i j = al * X0 i j"
    and "(pos side i j div NB, opos side i j div NB) \<notin> S \<Longrightarrow> k \<in> U (pos side i j div NB) (opos side i j div NB) \<Longrightarrow>
      tsum side W NB (tile_dim (xkblas_num_of_tiles (tri_dim side M N) NB) (tri_dim side M N) NB k) X' k i j =
      tsum side W NB (tile_dim (xkblas_num_of_tiles (tri_dim side M N) NB) (tri_dim side M N) NB k) X k i j"
proof -
  let ?D = "tri_dim side M N" and ?kt = "xkblas_num_of_tiles (tri_dim side M N) NB"
  let ?r = "pos side i j div NB" and ?q = "opos side i j div NB"
  have pD: "pos side i j < ?D" using ij by (simp add: pos_def tri_dim_def)
  then have kt: "?r < ?kt" by (rule tile_of_index(1) [OF NB])
  { assume S: "(?r, ?q) \<in> S"
    have "eqn side W ?D X' i j = eqn side W ?D X i j"
      unfolding eqn_def
    proof (rule sum.cong [OF refl])
      fix l assume l: "l \<in> {..<?D}"
      show "W (pos side i j) l * lin side X' i j l = W (pos side i j) l * lin side X i j l"
      proof (cases "W (pos side i j) l = 0")
        case False
        have "(l div NB, ?q) \<in> S"
          using bk S False tile_of_index(1) [OF NB, of l ?D] l unfolding book_ok_def by blast
        then have "lin side X' i j l = lin side X i j l"
          using rq l off ij by (intro lin_unchanged [of _ NB side i j r q M N]) auto
        then show ?thesis by simp
      qed simp
    qed
    then show "eqn side W ?D X' i j = al * X0 i j" using st S ij by (auto simp: solve_state_def Let_def) }
  { assume S: "(?r, ?q) \<notin> S" and k: "k \<in> U ?r ?q"
    then have "(k, ?q) \<in> S" "k < ?kt" using bk kt qt ij unfolding book_ok_def by blast+
    then show "tsum side W NB (tile_dim ?kt ?D NB k) X' k i j = tsum side W NB (tile_dim ?kt ?D NB k) X k i j"
      using rq off ij NB by (intro tsum_unchanged [where r = r and q = q]) auto }
qed

lemma solve_elim_step:
  assumes st: "solve_state side W M N NB al X0 a S U X" and NB: "0 < NB"
    and bk: "book_ok side W (xkblas_num_of_tiles (tri_dim side M N) NB) qt NB S U"
    and qt: "\<forall>i<M. \<forall>j<N. opos side i j div NB < qt"
    and rq: "(r, q) \<notin> S" and k: "k \<noteq> r" "k \<notin> U r q" "finite (U r q)" "k < xkblas_num_of_tiles (tri_dim side M N) NB"
    and scale: "\<And>x s. a (insert k (U r q)) * (z * x + c * s) = a (U r q) * x - s"
  shows "solve_state side W M N NB al X0 a S (\<lambda>r' q'. if r' = r \<and> q' = q then insert k (U r q) else U r' q')
    (\<lambda>i j. if line_tile side NB r q i j
       then z * X i j + c * tsum side W NB (tile_dim (xkblas_num_of_tiles (tri_dim side M N) NB) (tri_dim side M N) NB k) X k i j
       else X i j)" (is "solve_state _ _ _ _ _ _ _ _ _ ?U ?X")
  unfolding solve_state_def
proof (intro allI impI)
  fix i j assume ij: "i < M" "j < N"
  let ?D = "tri_dim side M N"
  let ?td = "tile_dim (xkblas_num_of_tiles ?D NB) ?D NB"
  let ?r = "pos side i j div NB" and ?q = "opos side i j div NB"
  have off: "\<forall>i<M. \<forall>j<N. \<not> line_tile side NB r q i j \<longrightarrow> ?X i j = X i j" by simp
  note ch = solve_state_change [OF st NB bk qt rq off ij]
  have kq: "tsum side W NB (?td k) ?X k i j = tsum side W NB (?td k) X k i j"
    using k(1,4) ij NB by (intro tsum_unchanged [where r = r and q = q]) auto
  show "let r' = ?r; q' = ?q; D = ?D in
     if (r', q') \<in> S then eqn side W D ?X i j = al * X0 i j
     else a (?U r' q') * ?X i j = al * X0 i j - (\<Sum>k\<in>?U r' q'. tsum side W NB (tile_dim (xkblas_num_of_tiles D NB) D NB k) ?X k i j)"
  proof (cases "line_tile side NB r q i j")
    case True
    then have e: "?r = r" "?q = q" by (auto simp: line_tile_def)
    have old: "a (U r q) * X i j = al * X0 i j - (\<Sum>k\<in>U r q. tsum side W NB (?td k) X k i j)"
      using st ij rq e by (auto simp: solve_state_def Let_def)
    have sums: "(\<Sum>k'\<in>insert k (U r q). tsum side W NB (?td k') ?X k' i j) =
        tsum side W NB (?td k) X k i j + (\<Sum>k\<in>U r q. tsum side W NB (?td k) X k i j)"
      using ch(2) e rq k(2,3) by (simp add: kq)
    have "a (insert k (U r q)) * ?X i j = a (U r q) * X i j - tsum side W NB (?td k) X k i j"
      using True scale by simp
    then have "a (insert k (U r q)) * ?X i j = al * X0 i j - (\<Sum>k'\<in>insert k (U r q). tsum side W NB (?td k') ?X k' i j)"
      unfolding sums old by simp
    then show ?thesis using e rq unfolding Let_def by (simp only: simp_thms if_True if_False)
  next
    case False
    then have e: "\<not> (?r = r \<and> ?q = q)" by (auto simp: line_tile_def)
    show ?thesis
    proof (cases "(?r, ?q) \<in> S")
      case True then show ?thesis using ch(1) unfolding Let_def by (simp only: simp_thms if_True)
    next
      case S: False
      have "(\<Sum>k\<in>U ?r ?q. tsum side W NB (?td k) ?X k i j) = (\<Sum>k\<in>U ?r ?q. tsum side W NB (?td k) X k i j)"
        by (rule sum.cong [OF refl ch(2) [OF S]])
      moreover have "a (U ?r ?q) * X i j = al * X0 i j - (\<Sum>k\<in>U ?r ?q. tsum side W NB (?td k) X k i j)"
        using st ij S by (auto simp: solve_state_def Let_def)
      ultimately have "a (U ?r ?q) * ?X i j = al * X0 i j - (\<Sum>k\<in>U ?r ?q. tsum side W NB (?td k) ?X k i j)"
        using off ij False by simp
      then show ?thesis using S e unfolding Let_def by (simp only: if_False)
    qed
  qed
qed

lemma solve_diag_step:
  assumes st: "solve_state side W M N NB al X0 a S U X" and NB: "0 < NB"
    and bk: "book_ok side W (xkblas_num_of_tiles (tri_dim side M N) NB) qt NB S U"
    and qt: "\<forall>i<M. \<forall>j<N. opos side i j div NB < qt"
    and rq: "(r, q) \<notin> S" "finite (U r q)"
    and off: "\<forall>i<M. \<forall>j<N. \<not> line_tile side NB r q i j \<longrightarrow> X' i j = X i j"
    and new: "\<And>i j. i < M \<Longrightarrow> j < N \<Longrightarrow> line_tile side NB r q i j \<Longrightarrow>
      tsum side W NB (tile_dim (xkblas_num_of_tiles (tri_dim side M N) NB) (tri_dim side M N) NB r) X' r i j = a (U r q) * X i j"
    and all: "\<And>p l. p div NB = r \<Longrightarrow> l < tri_dim side M N \<Longrightarrow> W p l \<noteq> 0 \<Longrightarrow> l div NB \<in> insert r (U r q)"
  shows "solve_state side W M N NB al X0 a (insert (r, q) S) U X'"
  unfolding solve_state_def
proof (intro allI impI)
  fix i j assume ij: "i < M" "j < N"
  let ?D = "tri_dim side M N"
  let ?kt = "xkblas_num_of_tiles ?D NB"
  let ?td = "tile_dim ?kt ?D NB"
  let ?r = "pos side i j div NB" and ?q = "opos side i j div NB"
  note ch = solve_state_change [OF st NB bk qt rq(1) off ij]
  have pD: "pos side i j < ?D" using ij by (simp add: pos_def tri_dim_def)
  then have kt: "?r < ?kt" by (rule tile_of_index(1) [OF NB])
  show "let r' = ?r; q' = ?q; D = ?D in
     if (r', q') \<in> insert (r, q) S then eqn side W D X' i j = al * X0 i j
     else a (U r' q') * X' i j = al * X0 i j - (\<Sum>k\<in>U r' q'. tsum side W NB (tile_dim (xkblas_num_of_tiles D NB) D NB k) X' k i j)"
  proof (cases "line_tile side NB r q i j")
    case True
    then have e: "?r = r" "?q = q" by (auto simp: line_tile_def)
    have U: "U r q \<subseteq> {..<?kt}" "r \<notin> U r q" using bk kt qt ij rq(1) e unfolding book_ok_def by blast+
    have "eqn side W ?D X' i j = (\<Sum>k\<in>insert r (U r q). tsum side W NB (?td k) X' k i j)"
      unfolding eqn_def tsum_def
      by (rule sum_tiles_subset [OF NB, where f = "\<lambda>l. W (pos side i j) l * lin side X' i j l", symmetric])
         (use U(1) kt e all [of "pos side i j"] in auto)
    also have "\<dots> = a (U r q) * X i j + (\<Sum>k\<in>U r q. tsum side W NB (?td k) X k i j)"
      using ch(2) e rq U new [OF ij True] by simp
    also have "\<dots> = al * X0 i j" using st ij rq e by (auto simp: solve_state_def Let_def)
    finally show ?thesis using e by (simp add: Let_def)
  next
    case False
    then have e: "\<not> (?r = r \<and> ?q = q)" by (auto simp: line_tile_def)
    show ?thesis
    proof (cases "(?r, ?q) \<in> S")
      case True then show ?thesis using ch(1) by (simp add: Let_def)
    next
      case S: False
      then show ?thesis using st ij e off False ch(2) [OF S] by (auto simp: solve_state_def Let_def)
    qed
  qed
qed

section \<open>The two tasks\<close>

lemma trsm_task_exec:
  assumes K: "trsm_ok K" and v: "valid_side side" "valid_uplo uplo" "valid_trans transA" "valid_diag diag"
    and geo: "tile_of M N NB NB m n tm tn" and ldb: "M \<le> ldb" and r: "r = (if side = CblasLeft then m else n)"
    and hB: "h_data hB = B + (m * NB + n * NB * ldb) * ELTSIZE"
    and hA: "h_data hA = A + (r * NB + r * NB * lda) * ELTSIZE"
    and dA: "arrays_disjoint A lda (tri_dim side M N) (tri_dim side M N) B ldb M N"
    and ns: "tri_nonsingular diag (tri_dim side M N) (view mem A lda)"
  shows "\<exists>X'. exec_task K J (TTrsm side uplo transA diag tm tn z hA lda hB ldb) (store_block B ldb M N X mem) =
      store_block B ldb M N X' mem \<and>
    (\<forall>i<M. \<forall>j<N. if in_tile NB m n i j
      then tile_sum side uplo transA diag (view mem A lda) NB (tri_dim side tm tn) X' r i j = z * X i j
      else X' i j = X i j)"
proof -
  let ?F = "\<lambda>mem'. kb_trsm K side uplo transA diag tm tn z (view mem' (h_data hA) lda) (view mem' (h_data hB) ldb)"
  let ?mem = "store_block B ldb M N X mem"
  let ?td = "tri_dim side tm tn"
  let ?X = "\<lambda>i j. if i div NB = m \<and> j div NB = n then ?F ?mem (i - m * NB) (j - n * NB) else X i j"
  have NB: "0 < NB" using geo by (simp add: tile_of_def)
  note fits = tile_of_fits [OF geo]
  have fit: "r * NB + ?td \<le> tri_dim side M N" using fits r by (simp add: tri_dim_def)
  have tNB: "tm \<le> NB" "tn \<le> NB" using geo by (auto simp: tile_of_def tile_dim_le)
  have "tri_nonsingular diag ?td (view ?mem (h_data hA) lda)"
    unfolding tri_nonsingular_def
  proof (cases "diag = CblasUnit")
    case False
    have "view ?mem (h_data hA) lda i i = view mem A lda (r * NB + i) (r * NB + i)" if "i < ?td" for i
      using view_operand [OF ldb dA, of "r * NB" i "r * NB" i X mem] that fit by (simp add: hA)
    moreover have "view mem A lda (r * NB + i) (r * NB + i) \<noteq> 0" if "i < ?td" for i
      using ns False that fit by (simp add: tri_nonsingular_def)
    ultimately show "diag = CblasUnit \<or> (\<forall>i<?td. view ?mem (h_data hA) lda i i \<noteq> 0)" by simp
  qed simp
  then have sol: "trsm_solves side uplo transA diag tm tn z (view ?mem (h_data hA) lda) (view ?mem (h_data hB) ldb) (?F ?mem)"
    using K v by (auto simp: trsm_ok_def tri_dim_def)
  have val: "tile_sum side uplo transA diag (view mem A lda) NB ?td ?X r i j = z * X i j"
    if ij: "i < M" "j < N" "i div NB = m" "j div NB = n" for i j
  proof -
    have q: "i - m * NB < tm" "j - n * NB < tn" "m * NB + (i - m * NB) = i" "n * NB + (j - n * NB) = j"
      using iffD2 [OF tile_of_member [OF geo ij(1,2)] conjI [OF ij(3,4)]] by linarith+
    have d1: "(m * NB + l) div NB = m" if "l < tm" for l using that tNB NB by auto
    have d2: "(n * NB + l) div NB = n" if "l < tn" for l using that tNB NB by auto
    have lin: "lin side (?F ?mem) (i - m * NB) (j - n * NB) l = lin side ?X i j (r * NB + l)" if "l < ?td" for l
      using that r d1 d2 ij by (cases "side = CblasLeft") (auto simp: lin_def tri_dim_def)
    have "z * X i j = z * view ?mem (h_data hB) ldb (i - m * NB) (j - n * NB)"
      using view_result [OF ldb, of "m * NB" "i - m * NB" "n * NB" "j - n * NB" N B X mem] q ij by (simp add: hB)
    also have "\<dots> = trmm_val side uplo transA diag tm tn 1 (view ?mem (h_data hA) lda) (?F ?mem) (i - m * NB) (j - n * NB)"
      using sol q by (simp add: trsm_solves_def)
    also have "\<dots> = tile_sum side uplo transA diag (view mem A lda) NB ?td ?X r i j"
      unfolding trmm_val_coef tile_sum_def mult_1
      by (rule sum.cong)
         (simp_all add: lin diag_lin(2,3) [OF geo ldb hB r _ ij] diag_coef [OF ldb dA hA fit])
    finally show ?thesis by simp
  qed
  have "exec_task K J (TTrsm side uplo transA diag tm tn z hA lda hB ldb) ?mem = store_block B ldb M N ?X mem"
    by (rule tile_store [where F = ?F, OF _ geo ldb]) (simp add: ztrsm_body_def hB)
  then show ?thesis using val by (intro exI [of _ ?X]) (auto simp: in_tile_def)
qed

text \<open>The tasks of a step in a form common to the eight branches: \<open>tr_task\<close> solves tile \<open>t\<close> of line \<open>q\<close>,
  \<open>el_task\<close> eliminates it from tile \<open>r\<close>.\<close>

definition tr_task ::
  "int \<Rightarrow> int \<Rightarrow> int \<Rightarrow> int \<Rightarrow> nat \<Rightarrow> nat \<Rightarrow> nat \<Rightarrow> matrix_descr \<Rightarrow> nat \<Rightarrow> matrix_descr \<Rightarrow> nat \<Rightarrow> complex \<Rightarrow> nat \<Rightarrow> nat \<Rightarrow> task" where
  "tr_task side uplo transA diag M N NB Ah lda Bh ldb z t q =
     (let m = (if side = CblasLeft then t else q); n = (if side = CblasLeft then q else t) in
      TTrsm side uplo transA diag (tile_dim (d_mt Bh) M NB m) (tile_dim (d_nt Bh) N NB n) z
        (xkblas_get_handle Ah t t) lda (xkblas_get_handle Bh m n) ldb)"

definition el_task ::
  "int \<Rightarrow> int \<Rightarrow> nat \<Rightarrow> nat \<Rightarrow> nat \<Rightarrow> matrix_descr \<Rightarrow> nat \<Rightarrow> matrix_descr \<Rightarrow> nat \<Rightarrow> complex \<Rightarrow> complex \<Rightarrow> nat \<Rightarrow> nat \<Rightarrow> nat \<Rightarrow> task" where
  "el_task side transA M N NB Ah lda Bh ldb z c t r q =
     (if side = CblasLeft then
        TGemm transA CblasNoTrans (tile_dim (d_mt Bh) M NB r) (tile_dim (d_nt Bh) N NB q) (tile_dim (d_mt Bh) M NB t) c
          (if transA = CblasNoTrans then xkblas_get_handle Ah r t else xkblas_get_handle Ah t r) lda
          (xkblas_get_handle Bh t q) ldb z (xkblas_get_handle Bh r q) ldb
      else
        TGemm CblasNoTrans transA (tile_dim (d_mt Bh) M NB q) (tile_dim (d_nt Bh) N NB r) (tile_dim (d_nt Bh) N NB t) c
          (xkblas_get_handle Bh q t) ldb
          (if transA = CblasNoTrans then xkblas_get_handle Ah t r else xkblas_get_handle Ah r t) lda
          z (xkblas_get_handle Bh q r) ldb)"

lemma tsum_tile_sum: "tile_sum side uplo transA diag A NB td X k i j = tsum side (tri_coef side uplo transA diag A) NB td X k i j"
  by (simp add: tile_sum_def tsum_def)

lemma line_tile_cases:
  "line_tile CblasLeft NB r q i j = in_tile NB r q i j"
  "side \<noteq> CblasLeft \<Longrightarrow> line_tile side NB r q i j = in_tile NB q r i j"
  by (auto simp: line_tile_def in_tile_def pos_def opos_def)

definition line_tiles :: "int \<Rightarrow> matrix_descr \<Rightarrow> nat" where
  "line_tiles side Bh = (if side = CblasLeft then d_nt Bh else d_mt Bh)"

lemma tr_task_spec:
  assumes K: "trsm_ok K" and v: "valid_side side" "valid_uplo uplo" "valid_trans transA" "valid_diag diag"
    and lay: "tri_layout side M N NB Ah A lda Bh B ldb" and ns: "tri_nonsingular diag (tri_dim side M N) (view mem A lda)"
    and kt: "kt = xkblas_num_of_tiles (tri_dim side M N) NB" and tq: "t < kt" "q < line_tiles side Bh"
  shows "\<exists>X'. exec_task K J (tr_task side uplo transA diag M N NB Ah lda Bh ldb z t q) (store_block B ldb M N X mem) =
      store_block B ldb M N X' mem \<and>
    (\<forall>i<M. \<forall>j<N. if line_tile side NB t q i j
      then tsum side (tri_coef side uplo transA diag (view mem A lda)) NB (tile_dim kt (tri_dim side M N) NB t) X' t i j = z * X i j
      else X' i j = X i j)"
proof -
  note L = tri_layoutD [OF lay]
  note dims = descr_of_dims [OF L(3)] descr_of_dims [OF L(4)]
  show ?thesis
  proof (cases "side = CblasLeft")
    case True
    have b: "t < d_mt Bh" "q < d_nt Bh" "t < d_mt Ah" "t < d_nt Ah"
      using tq dims kt True by (auto simp: tri_dim_def line_tiles_def)
    have geo: "tile_of M N NB NB t q (tile_dim (d_mt Bh) M NB t) (tile_dim (d_nt Bh) N NB q)"
      using b dims L(1) by (simp add: tile_of_def)
    have d: "tri_dim side (tile_dim (d_mt Bh) M NB t) (tile_dim (d_nt Bh) N NB q) = tile_dim kt (tri_dim side M N) NB t"
      using True kt dims by (simp add: tri_dim_def)
    have h: "t = (if side = CblasLeft then t else q)"
      "h_data (xkblas_get_handle Bh t q) = B + (t * NB + q * NB * ldb) * ELTSIZE"
      "h_data (xkblas_get_handle Ah t t) = A + (t * NB + t * NB * lda) * ELTSIZE"
      using b True by (simp_all add: descr_of_data [OF L(3)] descr_of_data [OF L(4)])
    have e: "tr_task side uplo transA diag M N NB Ah lda Bh ldb z t q = TTrsm side uplo transA diag
        (tile_dim (d_mt Bh) M NB t) (tile_dim (d_nt Bh) N NB q) z (xkblas_get_handle Ah t t) lda
        (xkblas_get_handle Bh t q) ldb" and lt: "line_tile side NB t q = in_tile NB t q"
      using True by (auto simp: tr_task_def line_tile_cases fun_eq_iff)
    show ?thesis
      using trsm_task_exec [OF K v geo L(2) h L(5) ns, of J z X] unfolding d e lt tsum_tile_sum .
  next
    case False
    have b: "q < d_mt Bh" "t < d_nt Bh" "t < d_mt Ah" "t < d_nt Ah"
      using tq dims kt False by (auto simp: tri_dim_def line_tiles_def)
    have geo: "tile_of M N NB NB q t (tile_dim (d_mt Bh) M NB q) (tile_dim (d_nt Bh) N NB t)"
      using b dims L(1) by (simp add: tile_of_def)
    have d: "tri_dim side (tile_dim (d_mt Bh) M NB q) (tile_dim (d_nt Bh) N NB t) = tile_dim kt (tri_dim side M N) NB t"
      using False kt dims by (simp add: tri_dim_def)
    have h: "t = (if side = CblasLeft then q else t)"
      "h_data (xkblas_get_handle Bh q t) = B + (q * NB + t * NB * ldb) * ELTSIZE"
      "h_data (xkblas_get_handle Ah t t) = A + (t * NB + t * NB * lda) * ELTSIZE"
      using b False by (simp_all add: descr_of_data [OF L(3)] descr_of_data [OF L(4)])
    have e: "tr_task side uplo transA diag M N NB Ah lda Bh ldb z t q = TTrsm side uplo transA diag
        (tile_dim (d_mt Bh) M NB q) (tile_dim (d_nt Bh) N NB t) z (xkblas_get_handle Ah t t) lda
        (xkblas_get_handle Bh q t) ldb" and lt: "line_tile side NB t q = in_tile NB q t"
      using False by (auto simp: tr_task_def line_tile_cases fun_eq_iff)
    show ?thesis
      using trsm_task_exec [OF K v geo L(2) h L(5) ns, of J z X] unfolding d e lt tsum_tile_sum .
  qed
qed

lemma el_task_spec:
  assumes K: "gemm_ok K" and v: "valid_side side" "valid_uplo uplo" "valid_trans transA"
    and lay: "tri_layout side M N NB Ah A lda Bh B ldb"
    and kt: "kt = xkblas_num_of_tiles (tri_dim side M N) NB" and tq: "t < kt" "r < kt" "q < line_tiles side Bh"
    and ord: "t \<noteq> r" "eff_lower side uplo transA = (t < r)"
  shows "exec_task K J (el_task side transA M N NB Ah lda Bh ldb z c t r q) (store_block B ldb M N X mem) =
    store_block B ldb M N (\<lambda>i j. if line_tile side NB r q i j then z * X i j + c *
      tsum side (tri_coef side uplo transA diag (view mem A lda)) NB (tile_dim kt (tri_dim side M N) NB t) X t i j
      else X i j) mem"
proof -
  note L = tri_layoutD [OF lay]
  note dims = descr_of_dims [OF L(3)] descr_of_dims [OF L(4)]
  show ?thesis
  proof (cases "side = CblasLeft")
    case True
    have b: "r < d_mt Bh" "q < d_nt Bh" "t < d_mt Bh" using tq dims kt True by (auto simp: tri_dim_def line_tiles_def)
    have d: "tile_dim kt (tri_dim side M N) NB t = tile_dim (d_mt Bh) M NB t"
      using True kt dims by (simp add: tri_dim_def)
    show ?thesis
      using left_gemm_tile_sum [OF K v(2,3) lay [unfolded True] b ord(1) ord(2) [unfolded True], of J c z X mem diag]
      unfolding d by (simp add: True el_task_def tsum_tile_sum line_tile_cases cong: if_cong)
  next
    case False
    then have sr: "side = CblasRight" "CblasRight \<noteq> CblasLeft" using v(1) by (auto simp: valid_side_def enum_simps)
    have b: "q < d_mt Bh" "r < d_nt Bh" "t < d_nt Bh" using tq dims kt False by (auto simp: tri_dim_def line_tiles_def)
    have d: "tile_dim kt (tri_dim side M N) NB t = tile_dim (d_nt Bh) N NB t"
      using False kt dims by (simp add: tri_dim_def)
    show ?thesis
      using right_gemm_tile_sum [OF K v(2,3) lay [unfolded sr(1)] b ord(1) ord(2) [unfolded sr(1)], of J c z X mem diag]
      unfolding d using sr(2) by (simp add: sr(1) el_task_def tsum_tile_sum line_tile_cases cong: if_cong)
  qed
qed

section \<open>One step of the elimination\<close>

text \<open>The tasks of step \<open>k\<close>, in whatever order the loops insert them: \<open>Diag q\<close> solves tile \<open>f k\<close> of line
  \<open>q\<close>, \<open>Elim r q\<close> eliminates it from tile \<open>r\<close>; \<open>f\<close> is the order in which the tiles are solved.\<close>

datatype solve_event = Diag nat | Elim nat nat

definition events :: "(nat \<Rightarrow> nat) \<Rightarrow> nat \<Rightarrow> nat \<Rightarrow> nat \<Rightarrow> solve_event set" where
  "events f kt qt k = {e. case e of Diag q \<Rightarrow> q < qt | Elim r q \<Rightarrow> q < qt \<and> (\<exists>k'. k < k' \<and> k' < kt \<and> r = f k')}"

definition elim_order :: "bool \<Rightarrow> (nat \<Rightarrow> nat) \<Rightarrow> nat \<Rightarrow> bool" where
  "elim_order low f kt \<longleftrightarrow> inj_on f {..<kt} \<and> f ` {..<kt} = {..<kt} \<and>
     (\<forall>k k'. k < k' \<longrightarrow> k' < kt \<longrightarrow> low = (f k < f k'))"

definition solved_at :: "(nat \<Rightarrow> nat) \<Rightarrow> nat \<Rightarrow> nat \<Rightarrow> solve_event set \<Rightarrow> (nat \<times> nat) set" where
  "solved_at f qt k dn = (f ` {..<k}) \<times> {..<qt} \<union> {(f k, q) |q. Diag q \<in> dn}"

definition elim_at :: "(nat \<Rightarrow> nat) \<Rightarrow> nat \<Rightarrow> solve_event set \<Rightarrow> nat \<Rightarrow> nat \<Rightarrow> nat set" where
  "elim_at f k dn r q = (if Elim r q \<in> dn then insert (f k) (f ` {..<k}) else f ` {..<k})"

lemma elim_orderD:
  assumes "elim_order low f kt"
  shows "k < kt \<Longrightarrow> f k < kt" "k < kt \<Longrightarrow> k' < kt \<Longrightarrow> f k = f k' \<Longrightarrow> k = k'"
    "r < kt \<Longrightarrow> \<exists>k<kt. r = f k" "k < k' \<Longrightarrow> k' < kt \<Longrightarrow> low = (f k < f k')"
  using assms unfolding elim_order_def inj_on_def by blast+

lemma elim_order_prefix:
  assumes "elim_order low f kt" "k < kt" "k' \<le> k"
  shows "f k \<notin> f ` {..<k'}"
proof
  assume "f k \<in> f ` {..<k'}"
  then obtain x where "x < k'" "f k = f x" by auto
  then show False using elim_orderD(2) [OF assms(1,2), of x] assms(2,3) by auto
qed

lemma book_at:
  assumes ord: "elim_order low f kt" and k: "k < kt" and dn: "dn \<subseteq> events f kt qt k"
    and pre: "\<And>r q. Elim r q \<in> dn \<Longrightarrow> Diag q \<in> dn"
    and W: "\<And>p l. W p l \<noteq> 0 \<Longrightarrow> p div NB \<noteq> l div NB \<Longrightarrow> low = (l div NB < p div NB)"
  shows "book_ok side W kt qt NB (solved_at f qt k dn) (elim_at f k dn)"
  unfolding book_ok_def
proof (intro conjI allI impI)
  fix r q assume rq: "r < kt" "q < qt" "(r, q) \<notin> solved_at f qt k dn"
  have nr: "r \<notin> f ` {..<k}" using rq by (auto simp: solved_at_def)
  show "elim_at f k dn r q \<subseteq> {..<kt}" using elim_orderD(1) [OF ord] k by (auto simp: elim_at_def)
  show "r \<notin> elim_at f k dn r q"
  proof (cases "Elim r q \<in> dn")
    case True
    then have "Elim r q \<in> events f kt qt k" using dn by blast
    then obtain k' where "k < k'" "k' < kt" "r = f k'" unfolding events_def by auto
    then have "r \<noteq> f k" using elim_orderD(2) [OF ord, of k k'] k by auto
    then show ?thesis using nr True by (simp add: elim_at_def)
  qed (use nr in \<open>simp add: elim_at_def\<close>)
  show "\<forall>x\<in>elim_at f k dn r q. (x, q) \<in> solved_at f qt k dn"
    using pre [of r q] rq(2) by (auto simp: elim_at_def solved_at_def)
next
  fix r q p l assume a: "(r, q) \<in> solved_at f qt k dn" "p div NB = r" "W p l \<noteq> 0" "l div NB < kt"
  have q: "q < qt" using a(1) dn by (auto simp: solved_at_def events_def)
  from a(1) have "\<exists>k'\<le>k. r = f k'" by (auto simp: solved_at_def intro: less_imp_le)
  then obtain k' where k': "k' \<le> k" "r = f k'" by blast
  obtain k2 where k2: "k2 < kt" "l div NB = f k2" using elim_orderD(3) [OF ord a(4)] by blast
  show "(l div NB, q) \<in> solved_at f qt k dn"
  proof (cases "l div NB = r")
    case True then show ?thesis using a(1) by simp
  next
    case False
    have low: "low = (f k2 < f k')" using W [OF a(3)] False a(2) k2 k' by auto
    have "\<not> k' < k2" using elim_orderD(4) [OF ord, of k' k2] low k2 False k' by auto
    then have "k2 < k'" using False k2 k' by (metis linorder_neqE_nat)
    then show ?thesis using k2 k'(1) q by (auto simp: solved_at_def)
  qed
qed

lemma solve_state_cong:
  assumes "solve_state side W M N NB al X0 a S U X"
    and "\<And>i j. i < M \<Longrightarrow> j < N \<Longrightarrow> ((pos side i j div NB, opos side i j div NB) \<in> S) = ((pos side i j div NB, opos side i j div NB) \<in> S')"
    and "\<And>i j. i < M \<Longrightarrow> j < N \<Longrightarrow> (pos side i j div NB, opos side i j div NB) \<notin> S \<Longrightarrow>
      U (pos side i j div NB) (opos side i j div NB) = U' (pos side i j div NB) (opos side i j div NB)"
  shows "solve_state side W M N NB al X0 a S' U' X"
  unfolding solve_state_def
proof (intro allI impI)
  fix i j assume ij: "i < M" "j < N"
  show "let r = pos side i j div NB; q = opos side i j div NB; D = tri_dim side M N in
     if (r, q) \<in> S' then eqn side W D X i j = al * X0 i j
     else a (U' r q) * X i j = al * X0 i j -
       (\<Sum>k\<in>U' r q. tsum side W NB (tile_dim (xkblas_num_of_tiles D NB) D NB k) X k i j)"
    using assms(1) [unfolded solve_state_def Let_def, rule_format, OF ij] assms(2) [OF ij] assms(3) [OF ij]
    by (cases "(pos side i j div NB, opos side i j div NB) \<in> S") (simp_all add: Let_def)
qed

text \<open>The state after the events \<open>dn\<close> of step \<open>k\<close>.\<close>

definition step_state ::
  "int \<Rightarrow> (nat \<Rightarrow> nat \<Rightarrow> complex) \<Rightarrow> nat \<Rightarrow> nat \<Rightarrow> nat \<Rightarrow> complex \<Rightarrow> cmat \<Rightarrow> (nat set \<Rightarrow> complex) \<Rightarrow> (nat \<Rightarrow> nat) \<Rightarrow> nat
     \<Rightarrow> nat \<Rightarrow> solve_event set \<Rightarrow> cmat \<Rightarrow> bool" where
  "step_state side W M N NB al X0 a f qt k dn X \<longleftrightarrow>
     solve_state side W M N NB al X0 a (solved_at f qt k dn) (elim_at f k dn) X"

text \<open>Between two steps.\<close>

lemma step_state_next:
  assumes st: "step_state side W M N NB al X0 a f qt k (events f kt qt k) X" and NB: "0 < NB"
    and kt: "kt = xkblas_num_of_tiles (tri_dim side M N) NB"
    and qt: "\<And>i j. i < M \<Longrightarrow> j < N \<Longrightarrow> opos side i j div NB < qt"
    and ord: "elim_order low f kt" and k: "k < kt"
  shows "step_state side W M N NB al X0 a f qt (Suc k) {} X"
  unfolding step_state_def
proof (rule solve_state_cong [OF st [unfolded step_state_def]])
  fix i j assume ij: "i < M" "j < N"
  let ?r = "pos side i j div NB" and ?q = "opos side i j div NB"
  have q: "?q < qt" using qt [OF ij] .
  show S: "((?r, ?q) \<in> solved_at f qt k (events f kt qt k)) = ((?r, ?q) \<in> solved_at f qt (Suc k) {})"
    using q by (auto simp: solved_at_def events_def lessThan_Suc)
  assume n: "(?r, ?q) \<notin> solved_at f qt k (events f kt qt k)"
  have "pos side i j < tri_dim side M N" using ij by (simp add: pos_def tri_dim_def)
  then have "?r < kt" unfolding kt by (rule tile_of_index(1) [OF NB])
  then obtain k' where k': "k' < kt" "?r = f k'" using elim_orderD(3) [OF ord] by blast
  have "\<not> k' \<le> k" using n k' q by (auto simp: solved_at_def events_def le_less)
  then have "\<exists>k''. k < k'' \<and> k'' < kt \<and> ?r = f k''" using k' by (intro exI [of _ k']) auto
  then have "Elim ?r ?q \<in> events f kt qt k" using q by (simp add: events_def)
  then show "elim_at f k (events f kt qt k) ?r ?q = elim_at f (Suc k) {} ?r ?q"
    by (simp add: elim_at_def lessThan_Suc)
qed

definition ev_task ::
  "int \<Rightarrow> int \<Rightarrow> int \<Rightarrow> int \<Rightarrow> nat \<Rightarrow> nat \<Rightarrow> nat \<Rightarrow> matrix_descr \<Rightarrow> nat \<Rightarrow> matrix_descr \<Rightarrow> nat
     \<Rightarrow> complex \<Rightarrow> complex \<Rightarrow> complex \<Rightarrow> nat \<Rightarrow> solve_event \<Rightarrow> task" where
  "ev_task side uplo transA diag M N NB Ah lda Bh ldb lal z c t e =
     (case e of Diag q \<Rightarrow> tr_task side uplo transA diag M N NB Ah lda Bh ldb lal t q
      | Elim r q \<Rightarrow> el_task side transA M N NB Ah lda Bh ldb z c t r q)"

lemma event_step:
  assumes K: "gemm_ok K" "trsm_ok K" and v: "valid_side side" "valid_uplo uplo" "valid_trans transA" "valid_diag diag"
    and lay: "tri_layout side M N NB Ah A lda Bh B ldb" and ns: "tri_nonsingular diag (tri_dim side M N) (view mem A lda)"
    and kt: "kt = xkblas_num_of_tiles (tri_dim side M N) NB" and qt: "qt = line_tiles side Bh"
    and ord: "elim_order (eff_lower side uplo transA) f kt" and k: "k < kt"
    and lal: "lal = a (f ` {..<k})"
    and scale: "\<And>x s. a (insert (f k) (f ` {..<k})) * (z * x + c * s) = a (f ` {..<k}) * x - s"
    and e: "e \<in> events f kt qt k" "e \<notin> dn" "\<And>r q. e = Elim r q \<Longrightarrow> Diag q \<in> dn"
    and dn: "dn \<subseteq> events f kt qt k" "\<And>r q. Elim r q \<in> dn \<Longrightarrow> Diag q \<in> dn"
  shows "btriple K J B ldb M N mem
    (step_state side (tri_coef side uplo transA diag (view mem A lda)) M N NB al X0 a f qt k dn)
    [ev_task side uplo transA diag M N NB Ah lda Bh ldb lal z c (f k) e]
    (step_state side (tri_coef side uplo transA diag (view mem A lda)) M N NB al X0 a f qt k (insert e dn))"
  unfolding btriple_def step_state_def
proof (intro allI impI)
  let ?W = "tri_coef side uplo transA diag (view mem A lda)" and ?D = "tri_dim side M N"
  let ?S = "solved_at f qt k dn" and ?U = "elim_at f k dn"
  note L = tri_layoutD [OF lay]
  note dims = descr_of_dims [OF L(4)]
  fix X assume st: "solve_state side ?W M N NB al X0 a ?S ?U X"
  have opos: "\<forall>i<M. \<forall>j<N. opos side i j div NB < qt"
    using tile_of_index(1) [OF L(1)] dims by (auto simp: opos_def qt line_tiles_def)
  have W: "?W p l \<noteq> 0 \<Longrightarrow> p div NB \<noteq> l div NB \<Longrightarrow> eff_lower side uplo transA = (l div NB < p div NB)" for p l
    using tri_coef_zero [OF v(2,3)] by blast
  note bk = book_at [where side = side, OF ord k dn W, unfolded kt]
  have fk: "f k < kt" "f k \<notin> f ` {..<k}" using elim_orderD(1) [OF ord k] elim_order_prefix [OF ord k] by auto
  have fk': "Elim (f k) q \<notin> dn" for q
  proof
    assume "Elim (f k) q \<in> dn"
    then have "Elim (f k) q \<in> events f kt qt k" using dn(1) by blast
    then obtain k' where "k < k'" "k' < kt" "f k = f k'" unfolding events_def by auto
    then show False using elim_orderD(2) [OF ord k, of k'] by auto
  qed
  show "\<exists>X'. exec_tasks K J [ev_task side uplo transA diag M N NB Ah lda Bh ldb lal z c (f k) e] (store_block B ldb M N X mem) =
      store_block B ldb M N X' mem \<and>
    solve_state side ?W M N NB al X0 a (solved_at f qt k (insert e dn)) (elim_at f k (insert e dn)) X'"
  proof (cases e)
    case (Diag q)
    then have q: "q < qt" using e(1) by (simp add: events_def)
    from tr_task_spec [OF K(2) v lay ns kt fk(1) q [unfolded qt], of J lal X]
    obtain X' where X': "exec_task K J (tr_task side uplo transA diag M N NB Ah lda Bh ldb lal (f k) q) (store_block B ldb M N X mem) =
        store_block B ldb M N X' mem"
      "\<forall>i<M. \<forall>j<N. if line_tile side NB (f k) q i j then tsum side ?W NB (tile_dim kt ?D NB (f k)) X' (f k) i j = lal * X i j
        else X' i j = X i j" by blast
    have "solve_state side ?W M N NB al X0 a (insert (f k, q) ?S) ?U X'"
    proof (rule solve_diag_step [OF st L(1) bk opos])
      show "(f k, q) \<notin> ?S" using fk(2) e(2) Diag by (auto simp: solved_at_def)
      show "finite (?U (f k) q)" by (simp add: elim_at_def)
      show "\<forall>i<M. \<forall>j<N. \<not> line_tile side NB (f k) q i j \<longrightarrow> X' i j = X i j" using X'(2) by auto
      show "i < M \<Longrightarrow> j < N \<Longrightarrow> line_tile side NB (f k) q i j \<Longrightarrow>
        tsum side ?W NB (tile_dim (xkblas_num_of_tiles ?D NB) ?D NB (f k)) X' (f k) i j = a (?U (f k) q) * X i j" for i j
        using X'(2) [rule_format, of i j] fk' by (simp add: kt [symmetric] lal [symmetric] elim_at_def)
      fix p l assume a: "p div NB = f k" "l < ?D" "?W p l \<noteq> 0"
      show "l div NB \<in> insert (f k) (?U (f k) q)"
      proof (cases "l div NB = f k")
        case False
        have "l div NB < kt" unfolding kt by (rule tile_of_index(1) [OF L(1) a(2)])
        then obtain k2 where k2: "k2 < kt" "l div NB = f k2" using elim_orderD(3) [OF ord] by blast
        have "eff_lower side uplo transA = (f k2 < f k)" using W [OF a(3)] a(1) False k2 by auto
        then have "\<not> k < k2" using elim_orderD(4) [OF ord, of k k2] k2 False by auto
        then have "k2 < k" using False k2 by (metis linorder_neqE_nat)
        then show ?thesis using k2 by (auto simp: elim_at_def)
      qed simp
    qed
    moreover have "insert (f k, q) ?S = solved_at f qt k (insert e dn)" "?U = elim_at f k (insert e dn)"
      using Diag by (auto simp: solved_at_def elim_at_def fun_eq_iff)
    ultimately show ?thesis using X'(1) Diag by (intro exI [of _ X']) (simp add: ev_task_def)
  next
    case (Elim r q)
    then obtain k' where q: "q < qt" and k': "k < k'" "k' < kt" "r = f k'" using e(1) by (auto simp: events_def)
    have rk: "r < kt" "r \<noteq> f k" "r \<notin> f ` {..<k}" "eff_lower side uplo transA = (f k < r)"
      using elim_orderD(1) [OF ord k'(2)] elim_orderD(2) [OF ord k'(2) k] elim_orderD(4) [OF ord k'(1,2)]
        elim_order_prefix [OF ord k'(2), of k] k' by auto
    have dq: "Diag q \<in> dn" using e(3) Elim by simp
    have U: "?U r q = f ` {..<k}" using e(2) Elim by (simp add: elim_at_def)
    let ?X = "\<lambda>i j. if line_tile side NB r q i j then z * X i j + c * tsum side ?W NB (tile_dim kt ?D NB (f k)) X (f k) i j else X i j"
    have "exec_task K J (el_task side transA M N NB Ah lda Bh ldb z c (f k) r q) (store_block B ldb M N X mem) =
        store_block B ldb M N ?X mem"
      by (rule el_task_spec [OF K(1) v(1-3) lay kt fk(1) rk(1) q [unfolded qt] _ rk(4)]) (use rk(2) in simp)
    moreover have "solve_state side ?W M N NB al X0 a ?S (\<lambda>r' q'. if r' = r \<and> q' = q then insert (f k) (?U r q) else ?U r' q') ?X"
      unfolding kt
    proof (rule solve_elim_step [OF st L(1) bk opos])
      show "(r, q) \<notin> ?S" using rk by (auto simp: solved_at_def)
    qed (use rk fk U scale kt in auto)
    moreover have "(\<lambda>r' q'. if r' = r \<and> q' = q then insert (f k) (?U r q) else ?U r' q') = elim_at f k (insert e dn)"
      "?S = solved_at f qt k (insert e dn)"
      using Elim U by (auto simp: solved_at_def elim_at_def fun_eq_iff)
    ultimately show ?thesis using Elim by (intro exI [of _ ?X]) (simp add: ev_task_def)
  qed
qed

section \<open>The order of the tasks in a step\<close>

definition events_list :: "(nat \<Rightarrow> nat) \<Rightarrow> nat \<Rightarrow> nat \<Rightarrow> nat \<Rightarrow> solve_event list \<Rightarrow> bool" where
  "events_list f kt qt k evs \<longleftrightarrow> distinct evs \<and> set evs = events f kt qt k \<and>
     (\<forall>pre r q post. evs = pre @ Elim r q # post \<longrightarrow> Diag q \<in> set pre)"

lemma events_run:
  assumes step: "\<And>e dn. e \<in> events f kt qt k \<Longrightarrow> e \<notin> dn \<Longrightarrow> (\<And>r q. e = Elim r q \<Longrightarrow> Diag q \<in> dn) \<Longrightarrow>
      dn \<subseteq> events f kt qt k \<Longrightarrow> (\<And>r q. Elim r q \<in> dn \<Longrightarrow> Diag q \<in> dn) \<Longrightarrow>
      btriple K J B ldb M N mem (I dn) [T e] (I (insert e dn))"
    and evs: "events_list f kt qt k evs"
  shows "btriple K J B ldb M N mem (I {}) (map T evs) (I (events f kt qt k))"
proof -
  have "btriple K J B ldb M N mem (I (set [])) (map T evs) (I (set evs))"
  proof (rule btriple_loop_map [where I = "\<lambda>xs. I (set xs)"])
    fix xs e ys assume e: "evs = xs @ e # ys"
    have pre: "Diag q \<in> set xs" if m: "Elim r q \<in> set xs" for r q
    proof -
      obtain p s where "xs = p @ Elim r q # s" using m by (meson split_list)
      then have "evs = p @ Elim r q # (s @ e # ys)" "set p \<subseteq> set xs" using e by auto
      then show ?thesis using evs unfolding events_list_def by blast
    qed
    have "btriple K J B ldb M N mem (I (set xs)) [T e] (I (insert e (set xs)))"
      by (rule step) (use evs e pre in \<open>auto simp: events_list_def\<close>)
    then show "btriple K J B ldb M N mem (I (set xs)) [T e] (I (set (xs @ [e])))" by simp
  qed
  then show ?thesis using evs by (simp add: events_list_def)
qed

lemma distinct_concat_map:
  "distinct xs \<Longrightarrow> (\<And>x. x \<in> set xs \<Longrightarrow> distinct (g x)) \<Longrightarrow>
   (\<And>x y. x \<in> set xs \<Longrightarrow> y \<in> set xs \<Longrightarrow> x \<noteq> y \<Longrightarrow> set (g x) \<inter> set (g y) = {}) \<Longrightarrow> distinct (concat (map g xs))"
proof (induction xs)
  case (Cons x xs)
  have "set (g x) \<inter> set (g y) = {}" if "y \<in> set xs" for y using Cons.prems that by auto
  then have "set (g x) \<inter> set (concat (map g xs)) = {}" by auto
  moreover have "distinct (concat (map g xs))" using Cons by auto
  ultimately show ?case using Cons.prems by simp
qed simp

definition later_tiles :: "(nat \<Rightarrow> nat) \<Rightarrow> nat \<Rightarrow> nat \<Rightarrow> nat list" where
  "later_tiles f kt k = map f [k + 1..<kt]"

lemma later_tiles_facts:
  assumes "elim_order low f kt"
  shows "distinct (later_tiles f kt k)" "r \<in> set (later_tiles f kt k) \<longleftrightarrow> (\<exists>k'. k < k' \<and> k' < kt \<and> r = f k')"
proof -
  show "distinct (later_tiles f kt k)"
    using assms by (auto simp: later_tiles_def elim_order_def distinct_map inj_on_def)
  have "set (later_tiles f kt k) = f ` {k'. k < k' \<and> k' < kt}" by (auto simp: later_tiles_def)
  then show "r \<in> set (later_tiles f kt k) \<longleftrightarrow> (\<exists>k'. k < k' \<and> k' < kt \<and> r = f k')" by (auto simp: image_iff)
qed

text \<open>The three orders of the code: all the solves first and then the eliminations, by tile or by line, or
  line by line.\<close>

definition events_by_tile :: "(nat \<Rightarrow> nat) \<Rightarrow> nat \<Rightarrow> nat \<Rightarrow> nat \<Rightarrow> solve_event list" where
  "events_by_tile f kt qt k = map Diag [0..<qt] @ concat (map (\<lambda>r. map (\<lambda>q. Elim r q) [0..<qt]) (later_tiles f kt k))"

definition events_by_line :: "(nat \<Rightarrow> nat) \<Rightarrow> nat \<Rightarrow> nat \<Rightarrow> nat \<Rightarrow> solve_event list" where
  "events_by_line f kt qt k = map Diag [0..<qt] @ concat (map (\<lambda>q. map (\<lambda>r. Elim r q) (later_tiles f kt k)) [0..<qt])"

definition events_line_wise :: "(nat \<Rightarrow> nat) \<Rightarrow> nat \<Rightarrow> nat \<Rightarrow> nat \<Rightarrow> solve_event list" where
  "events_line_wise f kt qt k = concat (map (\<lambda>q. Diag q # map (\<lambda>r. Elim r q) (later_tiles f kt k)) [0..<qt])"

lemma diags_first:
  assumes "map Diag [0..<qt] @ gs = pre @ Elim r q # post" "set gs \<subseteq> {Elim r q |r q. q < qt}"
  shows "Diag q \<in> set pre"
proof -
  from assms(1) consider us where "map Diag [0..<qt] = pre @ us" "us @ gs = Elim r q # post"
    | us where "pre = map Diag [0..<qt] @ us" "gs = us @ Elim r q # post"
    by (auto simp: append_eq_append_conv2)
  then show ?thesis
  proof cases
    case 1
    have "us = []"
    proof (rule ccontr)
      assume "us \<noteq> []"
      then have "Elim r q \<in> set us" using 1(2) by (cases us) auto
      then have "Elim r q \<in> set (map Diag [0..<qt])" unfolding 1(1) by simp
      then show False by auto
    qed
    then have "pre = map Diag [0..<qt]" "q < qt" using 1 assms(2) by auto
    then show ?thesis by simp
  next
    case 2
    then have "q < qt" using assms(2) by auto
    then show ?thesis using 2 by simp
  qed
qed

lemma line_wise_first:
  "concat (map (\<lambda>q. Diag q # map (\<lambda>r. Elim r q) ys) qs) = pre @ Elim r q # post \<Longrightarrow> Diag q \<in> set pre"
proof (induction qs arbitrary: pre)
  case (Cons q0 qs)
  let ?rest = "concat (map (\<lambda>q. Diag q # map (\<lambda>r. Elim r q) ys) qs)"
  have "pre \<noteq> []" using Cons.prems by (cases pre) auto
  then obtain pre' where pre: "pre = Diag q0 # pre'" using Cons.prems by (cases pre) auto
  then have "map (\<lambda>r. Elim r q0) ys @ ?rest = pre' @ Elim r q # post" using Cons.prems by simp
  then consider us where "map (\<lambda>r. Elim r q0) ys = pre' @ us" "us @ ?rest = Elim r q # post"
    | us where "pre' = map (\<lambda>r. Elim r q0) ys @ us" "?rest = us @ Elim r q # post"
    by (auto simp: append_eq_append_conv2)
  then show ?case
  proof cases
    case 1
    show ?thesis
    proof (cases us)
      case Nil
      then show ?thesis using Cons.IH [of "[]"] 1(2) by simp
    next
      case (Cons u us')
      then have "Elim r q \<in> set (map (\<lambda>r. Elim r q0) ys)" unfolding 1(1) using 1(2) by simp
      then show ?thesis using pre by auto
    qed
  next
    case 2 then show ?thesis using Cons.IH pre by simp
  qed
qed simp

lemma events_lists:
  assumes ord: "elim_order low f kt"
  shows "events_list f kt qt k (events_by_tile f kt qt k)"
    and "events_list f kt qt k (events_by_line f kt qt k)"
    and "events_list f kt qt k (events_line_wise f kt qt k)"
proof -
  note lt = later_tiles_facts [OF ord]
  have ev: "events f kt qt k = Diag ` {..<qt} \<union> {Elim r q |r q. r \<in> set (later_tiles f kt k) \<and> q < qt}" (is "?l = ?r")
  proof (rule set_eqI)
    fix e show "(e \<in> ?l) = (e \<in> ?r)"
      by (cases e) (simp_all add: events_def lt(2) image_iff conj_commute)
  qed
  have "set (events_by_tile f kt qt k) = events f kt qt k"
    unfolding ev events_by_tile_def by auto
  moreover have "set (events_by_line f kt qt k) = events f kt qt k"
    unfolding ev events_by_line_def by auto
  moreover have "set (events_line_wise f kt qt k) = events f kt qt k"
    unfolding ev events_line_wise_def by auto
  moreover have "distinct (events_by_tile f kt qt k)" "distinct (events_by_line f kt qt k)" "distinct (events_line_wise f kt qt k)"
    unfolding events_by_tile_def events_by_line_def events_line_wise_def
    by (auto simp: distinct_map lt(1) inj_on_def intro!: distinct_concat_map)
  moreover have "\<And>pre r q post. events_by_tile f kt qt k = pre @ Elim r q # post \<Longrightarrow> Diag q \<in> set pre"
    unfolding events_by_tile_def by (rule diags_first) auto
  moreover have "\<And>pre r q post. events_by_line f kt qt k = pre @ Elim r q # post \<Longrightarrow> Diag q \<in> set pre"
    unfolding events_by_line_def by (rule diags_first) auto
  moreover have "\<And>pre r q post. events_line_wise f kt qt k = pre @ Elim r q # post \<Longrightarrow> Diag q \<in> set pre"
    unfolding events_line_wise_def by (rule line_wise_first)
  ultimately show "events_list f kt qt k (events_by_tile f kt qt k)" "events_list f kt qt k (events_by_line f kt qt k)"
    "events_list f kt qt k (events_line_wise f kt qt k)" unfolding events_list_def by blast+
qed

section \<open>All the steps\<close>

text \<open>In two branches the scaling by \<open>alpha\<close> is delayed to the solve of each tile.\<close>

definition delayed :: "int \<Rightarrow> int \<Rightarrow> bool" where
  "delayed side transA \<longleftrightarrow> side \<noteq> CblasLeft \<and> transA \<noteq> CblasNoTrans"

definition solve_scale :: "int \<Rightarrow> int \<Rightarrow> complex \<Rightarrow> nat \<Rightarrow> complex" where
  "solve_scale side transA al k = (if delayed side transA then al else if k = 0 then al else 1)"

definition elim_scale :: "int \<Rightarrow> int \<Rightarrow> complex \<Rightarrow> nat \<Rightarrow> complex" where
  "elim_scale side transA al k = (if delayed side transA then 1 else if k = 0 then al else 1)"

definition elim_factor :: "int \<Rightarrow> int \<Rightarrow> complex \<Rightarrow> complex" where
  "elim_factor side transA al = (if delayed side transA then - 1 / al else - 1)"

definition left_over :: "int \<Rightarrow> int \<Rightarrow> complex \<Rightarrow> nat set \<Rightarrow> complex" where
  "left_over side transA al U = (if delayed side transA then al else if U = {} then al else 1)"

lemma scales:
  assumes "delayed side transA \<Longrightarrow> al \<noteq> 0"
  shows "solve_scale side transA al k = left_over side transA al (f ` {..<k})"
    and "left_over side transA al (insert t (f ` {..<k})) * (elim_scale side transA al k * x + elim_factor side transA al * s) =
         left_over side transA al (f ` {..<k}) * x - s"
  using assms by (auto simp: solve_scale_def elim_scale_def elim_factor_def left_over_def field_simps)

definition solve_order :: "bool \<Rightarrow> nat \<Rightarrow> nat \<Rightarrow> nat" where
  "solve_order low kt k = (if low then k else kt - 1 - k)"

lemma solve_order_ok: "elim_order low (solve_order low kt) kt"
proof -
  have "(\<lambda>k. kt - 1 - k) ` {..<kt} = {..<kt}"
  proof (rule set_eqI, rule iffI)
    fix x assume "x \<in> {..<kt}"
    then have "x = kt - 1 - (kt - 1 - x)" "kt - 1 - x \<in> {..<kt}" by auto
    then show "x \<in> (\<lambda>k. kt - 1 - k) ` {..<kt}" by (rule image_eqI)
  qed auto
  then show ?thesis
    by (auto simp: elim_order_def solve_order_def inj_on_def)
qed

lemma solve_steps:
  assumes K: "gemm_ok K" "trsm_ok K" and v: "valid_side side" "valid_uplo uplo" "valid_trans transA" "valid_diag diag"
    and lay: "tri_layout side M N NB Ah A lda Bh B ldb" and ns: "tri_nonsingular diag (tri_dim side M N) (view mem A lda)"
    and al: "delayed side transA \<Longrightarrow> al \<noteq> 0"
    and kt: "kt = xkblas_num_of_tiles (tri_dim side M N) NB" and qt: "qt = line_tiles side Bh"
    and f: "f = solve_order (eff_lower side uplo transA) kt"
    and evs: "\<And>k. k < kt \<Longrightarrow> events_list f kt qt k (evs k)"
  shows "\<exists>X. exec_tasks K J (concat (map (\<lambda>k. map (ev_task side uplo transA diag M N NB Ah lda Bh ldb
      (solve_scale side transA al k) (elim_scale side transA al k) (elim_factor side transA al) (f k)) (evs k)) [0..<kt])) mem =
    store_block B ldb M N X mem \<and> trsm_solves side uplo transA diag M N al (view mem A lda) (view mem B ldb) X"
proof -
  let ?W = "tri_coef side uplo transA diag (view mem A lda)" and ?X0 = "view mem B ldb" and ?a = "left_over side transA al"
  let ?I = "step_state side ?W M N NB al ?X0 ?a f qt"
  note L = tri_layoutD [OF lay]
  have ord: "elim_order (eff_lower side uplo transA) f kt" unfolding f by (rule solve_order_ok)
  have opos: "opos side i j div NB < qt" if "i < M" "j < N" for i j
    using tile_of_index(1) [OF L(1)] descr_of_dims [OF L(4)] that by (auto simp: opos_def qt line_tiles_def)
  have "btriple K J B ldb M N mem (?I (length ([] :: nat list)) {})
      (concat (map (\<lambda>k. map (ev_task side uplo transA diag M N NB Ah lda Bh ldb (solve_scale side transA al k)
        (elim_scale side transA al k) (elim_factor side transA al) (f k)) (evs k)) [0..<kt])) (?I (length [0..<kt]) {})"
  proof (rule btriple_loop [where I = "\<lambda>xs. ?I (length xs) {}"])
    fix xs k ys assume x: "[0..<kt] = xs @ k # ys"
    have "[0..<kt] ! length xs = k" unfolding x by simp
    moreover have "length xs < kt" using arg_cong [OF x, of length] by simp
    ultimately have k: "length xs = k" "k < kt" by auto
    have "btriple K J B ldb M N mem (?I k {}) (map (ev_task side uplo transA diag M N NB Ah lda Bh ldb
        (solve_scale side transA al k) (elim_scale side transA al k) (elim_factor side transA al) (f k)) (evs k))
        (?I k (events f kt qt k))"
      by (rule events_run [OF _ evs [OF k(2)]])
         (rule event_step [OF K v lay ns kt qt ord k(2) scales(1) scales(2)], auto simp: al)
    then have "btriple K J B ldb M N mem (?I k {}) (map (ev_task side uplo transA diag M N NB Ah lda Bh ldb
        (solve_scale side transA al k) (elim_scale side transA al k) (elim_factor side transA al) (f k)) (evs k))
        (?I (Suc k) {})"
      by (rule btriple_conseq) (auto intro: step_state_next [OF _ L(1) kt opos ord k(2)])
    then show "btriple K J B ldb M N mem (?I (length xs) {}) (map (ev_task side uplo transA diag M N NB Ah lda Bh ldb
        (solve_scale side transA al k) (elim_scale side transA al k) (elim_factor side transA al) (f k)) (evs k))
        (?I (length (xs @ [k])) {})" using k by simp
  qed
  moreover have "?I (length ([] :: nat list)) {} ?X0"
    by (auto simp: step_state_def solve_state_def solved_at_def elim_at_def left_over_def Let_def)
  ultimately obtain X where
    X: "exec_tasks K J (concat (map (\<lambda>k. map (ev_task side uplo transA diag M N NB Ah lda Bh ldb (solve_scale side transA al k)
        (elim_scale side transA al k) (elim_factor side transA al) (f k)) (evs k)) [0..<kt])) mem = store_block B ldb M N X mem"
    "?I (length [0..<kt]) {} X"
    using btriple_run [OF _ L(2)] by blast
  have "trsm_solves side uplo transA diag M N al (view mem A lda) ?X0 X"
    unfolding trsm_solves_def trmm_val_coef mult_1
  proof (intro allI impI)
    fix i j assume ij: "i < M" "j < N"
    have "pos side i j < tri_dim side M N" using ij by (simp add: pos_def tri_dim_def)
    then have "pos side i j div NB < kt" unfolding kt by (rule tile_of_index(1) [OF L(1)])
    then have "(pos side i j div NB, opos side i j div NB) \<in> solved_at f qt kt {}"
      using elim_orderD(3) [OF ord] opos [OF ij] by (auto simp: solved_at_def)
    then show "(\<Sum>l<tri_dim side M N. ?W (pos side i j) l * lin side X i j l) = al * ?X0 i j"
      using X(2) [unfolded step_state_def solve_state_def Let_def, rule_format, OF ij] by (simp add: eqn_def)
  qed
  with X(1) show ?thesis by blast
qed

section \<open>The eight branches\<close>

lemma map_ev_orders:
  "map T (events_by_tile f kt qt k) = map (\<lambda>q. T (Diag q)) [0..<qt] @
     concat (map (\<lambda>k'. map (\<lambda>q. T (Elim (f k') q)) [0..<qt]) [k + 1..<kt])"
  "map T (events_by_line f kt qt k) = map (\<lambda>q. T (Diag q)) [0..<qt] @
     concat (map (\<lambda>q. map (\<lambda>k'. T (Elim (f k') q)) [k + 1..<kt]) [0..<qt])"
  "map T (events_line_wise f kt qt k) =
     concat (map (\<lambda>q. T (Diag q) # map (\<lambda>k'. T (Elim (f k') q)) [k + 1..<kt]) [0..<qt])"
  by (simp_all add: events_by_tile_def events_by_line_def events_line_wise_def later_tiles_def map_concat comp_def)

definition solve_list :: "int \<Rightarrow> int \<Rightarrow> int \<Rightarrow> int \<Rightarrow> complex \<Rightarrow> nat \<Rightarrow> nat \<Rightarrow> nat \<Rightarrow> matrix_descr \<Rightarrow> nat \<Rightarrow> matrix_descr \<Rightarrow> nat
   \<Rightarrow> bool \<Rightarrow> (nat \<Rightarrow> solve_event list) \<Rightarrow> nat \<Rightarrow> task list" where
  "solve_list side uplo transA diag al M N NB Ah lda Bh ldb low evs kt =
    concat (map (\<lambda>k. map (ev_task side uplo transA diag M N NB Ah lda Bh ldb
      (solve_scale side transA al k) (elim_scale side transA al k) (elim_factor side transA al) (solve_order low kt k)) (evs k)) [0..<kt])"

lemma solve_list_eqI:
  assumes "\<And>k. k < kt \<Longrightarrow> ts k = map (ev_task side uplo transA diag M N NB Ah lda Bh ldb
      (solve_scale side transA al k) (elim_scale side transA al k) (elim_factor side transA al) (solve_order low kt k)) (evs k)"
  shows "concat (map ts [0..<kt]) = solve_list side uplo transA diag al M N NB Ah lda Bh ldb low evs kt"
  unfolding solve_list_def using assms by (intro arg_cong [where f = concat] map_cong) auto

lemma solve_by_tile:
  assumes "\<And>k. k < kt \<Longrightarrow> ts k = map (\<lambda>q. tr k q) [0..<qt] @ concat (map (\<lambda>m. map (el k m) [0..<qt]) [k + 1..<kt])"
    and "\<And>k q. k < kt \<Longrightarrow> tr k q = tr_task side uplo transA diag M N NB Ah lda Bh ldb (solve_scale side transA al k) (solve_order low kt k) q"
    and "\<And>k m q. k < m \<Longrightarrow> m < kt \<Longrightarrow> el k m q = el_task side transA M N NB Ah lda Bh ldb (elim_scale side transA al k)
      (elim_factor side transA al) (solve_order low kt k) (solve_order low kt m) q"
  shows "concat (map ts [0..<kt]) =
    solve_list side uplo transA diag al M N NB Ah lda Bh ldb low (events_by_tile (solve_order low kt) kt qt) kt"
  by (rule solve_list_eqI) (auto simp: map_ev_orders ev_task_def assms cong: map_cong intro!: arg_cong [where f = concat])

lemma solve_by_line:
  assumes "\<And>k. k < kt \<Longrightarrow> ts k = map (\<lambda>q. tr k q) [0..<qt] @ concat (map (\<lambda>q. map (\<lambda>m. el k m q) [k + 1..<kt]) [0..<qt])"
    and "\<And>k q. k < kt \<Longrightarrow> tr k q = tr_task side uplo transA diag M N NB Ah lda Bh ldb (solve_scale side transA al k) (solve_order low kt k) q"
    and "\<And>k m q. k < m \<Longrightarrow> m < kt \<Longrightarrow> el k m q = el_task side transA M N NB Ah lda Bh ldb (elim_scale side transA al k)
      (elim_factor side transA al) (solve_order low kt k) (solve_order low kt m) q"
  shows "concat (map ts [0..<kt]) =
    solve_list side uplo transA diag al M N NB Ah lda Bh ldb low (events_by_line (solve_order low kt) kt qt) kt"
  by (rule solve_list_eqI) (auto simp: map_ev_orders ev_task_def assms cong: map_cong intro!: arg_cong [where f = concat])

lemma solve_line_wise:
  assumes "\<And>k. k < kt \<Longrightarrow> ts k = concat (map (\<lambda>q. tr k q # map (\<lambda>m. el k m q) [k + 1..<kt]) [0..<qt])"
    and "\<And>k q. k < kt \<Longrightarrow> tr k q = tr_task side uplo transA diag M N NB Ah lda Bh ldb (solve_scale side transA al k) (solve_order low kt k) q"
    and "\<And>k m q. k < m \<Longrightarrow> m < kt \<Longrightarrow> el k m q = el_task side transA M N NB Ah lda Bh ldb (elim_scale side transA al k)
      (elim_factor side transA al) (solve_order low kt k) (solve_order low kt m) q"
  shows "concat (map ts [0..<kt]) =
    solve_list side uplo transA diag al M N NB Ah lda Bh ldb low (events_line_wise (solve_order low kt) kt qt) kt"
  by (rule solve_list_eqI) (auto simp: map_ev_orders ev_task_def assms cong: map_cong intro!: arg_cong [where f = concat])

lemmas solve_task_defs = tr_task_def el_task_def solve_scale_def elim_scale_def elim_factor_def delayed_def solve_order_def
  insert_defs tile_dim_def Let_def

lemma ztrsm_left_lists:
  assumes d: "descr_of Bh B M N ldb NB NB" and kt: "kt = d_mt Bh" and t: "transA \<noteq> CblasNoTrans"
  shows "ztrsm_left_upper_n uplo CblasNoTrans diag al Ah lda Bh ldb =
      solve_list CblasLeft uplo CblasNoTrans diag al M N NB Ah lda Bh ldb False (events_by_tile (solve_order False kt) kt (d_nt Bh)) kt"
    and "ztrsm_left_upper_t uplo transA diag al Ah lda Bh ldb =
      solve_list CblasLeft uplo transA diag al M N NB Ah lda Bh ldb True (events_by_tile (solve_order True kt) kt (d_nt Bh)) kt"
    and "ztrsm_left_lower_n uplo CblasNoTrans diag al Ah lda Bh ldb =
      solve_list CblasLeft uplo CblasNoTrans diag al M N NB Ah lda Bh ldb True (events_by_tile (solve_order True kt) kt (d_nt Bh)) kt"
    and "ztrsm_left_lower_t uplo transA diag al Ah lda Bh ldb =
      solve_list CblasLeft uplo transA diag al M N NB Ah lda Bh ldb False (events_by_tile (solve_order False kt) kt (d_nt Bh)) kt"
proof -
  have D: "d_M Bh = M" "d_N Bh = N" "d_mb Bh = NB" "d_nb Bh = NB" using d by (auto simp: descr_of_def)
  show "ztrsm_left_upper_n uplo CblasNoTrans diag al Ah lda Bh ldb =
      solve_list CblasLeft uplo CblasNoTrans diag al M N NB Ah lda Bh ldb False (events_by_tile (solve_order False kt) kt (d_nt Bh)) kt"
    unfolding ztrsm_left_upper_n_def Let_def D kt by (rule solve_by_tile [OF refl]) (auto simp: solve_task_defs kt)
  show "ztrsm_left_upper_t uplo transA diag al Ah lda Bh ldb =
      solve_list CblasLeft uplo transA diag al M N NB Ah lda Bh ldb True (events_by_tile (solve_order True kt) kt (d_nt Bh)) kt"
    unfolding ztrsm_left_upper_t_def Let_def D kt by (rule solve_by_tile [OF refl]) (auto simp: solve_task_defs kt t)
  show "ztrsm_left_lower_n uplo CblasNoTrans diag al Ah lda Bh ldb =
      solve_list CblasLeft uplo CblasNoTrans diag al M N NB Ah lda Bh ldb True (events_by_tile (solve_order True kt) kt (d_nt Bh)) kt"
    unfolding ztrsm_left_lower_n_def Let_def D kt by (rule solve_by_tile [OF refl]) (auto simp: solve_task_defs kt)
  show "ztrsm_left_lower_t uplo transA diag al Ah lda Bh ldb =
      solve_list CblasLeft uplo transA diag al M N NB Ah lda Bh ldb False (events_by_tile (solve_order False kt) kt (d_nt Bh)) kt"
    unfolding ztrsm_left_lower_t_def Let_def D kt by (rule solve_by_tile [OF refl]) (auto simp: solve_task_defs kt t)
qed

lemma ztrsm_right_lists:
  assumes d: "descr_of Bh B M N ldb NB NB" and kt: "kt = d_nt Bh" and t: "transA \<noteq> CblasNoTrans"
  shows "ztrsm_right_upper_n uplo CblasNoTrans diag al Ah lda Bh ldb =
      solve_list CblasRight uplo CblasNoTrans diag al M N NB Ah lda Bh ldb True (events_by_line (solve_order True kt) kt (d_mt Bh)) kt"
    and "ztrsm_right_upper_t uplo transA diag al Ah lda Bh ldb =
      solve_list CblasRight uplo transA diag al M N NB Ah lda Bh ldb False (events_line_wise (solve_order False kt) kt (d_mt Bh)) kt"
    and "ztrsm_right_lower_n uplo CblasNoTrans diag al Ah lda Bh ldb =
      solve_list CblasRight uplo CblasNoTrans diag al M N NB Ah lda Bh ldb False (events_line_wise (solve_order False kt) kt (d_mt Bh)) kt"
    and "ztrsm_right_lower_t uplo transA diag al Ah lda Bh ldb =
      solve_list CblasRight uplo transA diag al M N NB Ah lda Bh ldb True (events_line_wise (solve_order True kt) kt (d_mt Bh)) kt"
proof -
  have D: "d_M Bh = M" "d_N Bh = N" "d_mb Bh = NB" "d_nb Bh = NB" using d by (auto simp: descr_of_def)
  have s: "CblasRight \<noteq> CblasLeft" by (simp add: enum_simps)
  show "ztrsm_right_upper_n uplo CblasNoTrans diag al Ah lda Bh ldb =
      solve_list CblasRight uplo CblasNoTrans diag al M N NB Ah lda Bh ldb True (events_by_line (solve_order True kt) kt (d_mt Bh)) kt"
    unfolding ztrsm_right_upper_n_def Let_def D kt by (rule solve_by_line [OF refl]) (auto simp: solve_task_defs kt s)
  show "ztrsm_right_upper_t uplo transA diag al Ah lda Bh ldb =
      solve_list CblasRight uplo transA diag al M N NB Ah lda Bh ldb False (events_line_wise (solve_order False kt) kt (d_mt Bh)) kt"
    unfolding ztrsm_right_upper_t_def Let_def D kt by (rule solve_line_wise [OF refl]) (auto simp: solve_task_defs kt t s)
  show "ztrsm_right_lower_n uplo CblasNoTrans diag al Ah lda Bh ldb =
      solve_list CblasRight uplo CblasNoTrans diag al M N NB Ah lda Bh ldb False (events_line_wise (solve_order False kt) kt (d_mt Bh)) kt"
    unfolding ztrsm_right_lower_n_def Let_def D kt by (rule solve_line_wise [OF refl]) (auto simp: solve_task_defs kt s)
  show "ztrsm_right_lower_t uplo transA diag al Ah lda Bh ldb =
      solve_list CblasRight uplo transA diag al M N NB Ah lda Bh ldb True (events_line_wise (solve_order True kt) kt (d_mt Bh)) kt"
    unfolding ztrsm_right_lower_t_def Let_def D kt by (rule solve_line_wise [OF refl]) (auto simp: solve_task_defs kt t s)
qed
lemma ztrsm_tasks_run:
  assumes K: "gemm_ok K" "trsm_ok K"
    and v: "valid_side side" "valid_uplo uplo" "valid_trans transA" "valid_diag diag"
    and lay: "tri_layout side M N NB Ah A lda Bh B ldb" and ns: "tri_nonsingular diag (tri_dim side M N) (view mem A lda)"
    and al: "delayed side transA \<Longrightarrow> al \<noteq> 0"
  shows "\<exists>X. exec_tasks K J (ztrsm_tasks side uplo transA diag al Ah lda Bh ldb) mem = store_block B ldb M N X mem \<and>
    trsm_solves side uplo transA diag M N al (view mem A lda) (view mem B ldb) X"
proof -
  note L = tri_layoutD [OF lay]
  let ?kt = "if side = CblasLeft then d_mt Bh else d_nt Bh"
  let ?low = "eff_lower side uplo transA"
  note ord = solve_order_ok [of ?low ?kt]
  let ?order = "\<lambda>ev. ztrsm_tasks side uplo transA diag al Ah lda Bh ldb = solve_list side uplo transA diag al M N NB Ah lda Bh ldb ?low
    (ev (solve_order ?low ?kt) ?kt (line_tiles side Bh)) ?kt"
  have "?order events_by_tile \<or> ?order events_by_line \<or> ?order events_line_wise"
  proof (cases "transA = CblasNoTrans"; cases "side = CblasLeft")
    assume "transA = CblasNoTrans" "side = CblasLeft"
    then show ?thesis using ztrsm_left_lists(1,3) [OF L(4) refl, of CblasTrans] v(2)
      by (auto simp: ztrsm_tasks_def eff_lower_def line_tiles_def valid_uplo_def enum_simps)
  next
    assume "transA \<noteq> CblasNoTrans" "side = CblasLeft"
    then show ?thesis using ztrsm_left_lists(2,4) [OF L(4) refl, of transA] v(2)
      by (auto simp: ztrsm_tasks_def eff_lower_def line_tiles_def valid_uplo_def enum_simps)
  next
    assume "transA = CblasNoTrans" "side \<noteq> CblasLeft"
    then show ?thesis using ztrsm_right_lists(1,3) [OF L(4) refl, of CblasTrans] v(1,2)
      by (auto simp: ztrsm_tasks_def eff_lower_def line_tiles_def valid_uplo_def valid_side_def enum_simps)
  next
    assume "transA \<noteq> CblasNoTrans" "side \<noteq> CblasLeft"
    then show ?thesis using ztrsm_right_lists(2,4) [OF L(4) refl, of transA] v(1,2)
      by (auto simp: ztrsm_tasks_def eff_lower_def line_tiles_def valid_uplo_def valid_side_def enum_simps)
  qed
  then obtain evs where evs: "\<And>k. events_list (solve_order ?low ?kt) ?kt (line_tiles side Bh) k (evs k)"
    "ztrsm_tasks side uplo transA diag al Ah lda Bh ldb = solve_list side uplo transA diag al M N NB Ah lda Bh ldb ?low evs ?kt"
    using events_lists [OF ord] by metis
  have kt: "?kt = xkblas_num_of_tiles (tri_dim side M N) NB" using descr_of_dims [OF L(4)] by (simp add: tri_dim_def)
  show ?thesis
    unfolding evs(2) solve_list_def by (rule solve_steps [OF K v lay ns al kt refl refl evs(1)])
qed

section \<open>A solver by substitution\<close>

definition substitute :: "(nat \<Rightarrow> nat \<Rightarrow> complex) \<Rightarrow> (nat \<Rightarrow> complex) \<Rightarrow> nat \<Rightarrow> nat list \<Rightarrow> nat \<Rightarrow> complex" where
  "substitute W b D ps = foldl (\<lambda>x p. x(p := (b p - (\<Sum>l<D. W p l * x l)) / W p p)) (\<lambda>_. 0) ps"

lemma substitute_solves:
  assumes "set ps \<subseteq> {..<D}" "distinct ps" "\<And>p. p \<in> set ps \<Longrightarrow> W p p \<noteq> 0"
    and "\<And>xs p ys q. ps = xs @ p # ys \<Longrightarrow> q \<in> set xs \<Longrightarrow> W q p = 0"
  shows "(\<forall>p\<in>set ps. (\<Sum>l<D. W p l * substitute W b D ps l) = b p) \<and> (\<forall>p. p \<notin> set ps \<longrightarrow> substitute W b D ps p = 0)"
  using assms
proof (induction ps rule: rev_induct)
  case (snoc r ps)
  let ?x = "substitute W b D ps"
  have IH: "(\<forall>p\<in>set ps. (\<Sum>l<D. W p l * ?x l) = b p) \<and> (\<forall>p. p \<notin> set ps \<longrightarrow> ?x p = 0)"
  proof (rule snoc.IH)
    fix xs p ys q assume "ps = xs @ p # ys" "q \<in> set xs"
    then show "W q p = 0" using snoc.prems(4) [of xs p "ys @ [r]" q] by simp
  qed (use snoc.prems in auto)
  have x0: "?x r = 0" using IH snoc.prems(2) by simp
  have new: "substitute W b D (ps @ [r]) = ?x(r := (b r - (\<Sum>l<D. W r l * ?x l)) / W r r)" by (simp add: substitute_def)
  have sum: "(\<Sum>l<D. W p l * (?x(r := v)) l) = W p r * v + (\<Sum>l<D. W p l * ?x l)" for p v
  proof -
    have "(\<Sum>l<D. W p l * (?x(r := v)) l) = (\<Sum>l<D. W p l * ?x l + (if l = r then W p r * v else 0))"
      by (rule sum.cong) (auto simp: x0)
    also have "\<dots> = W p r * v + (\<Sum>l<D. W p l * ?x l)" using snoc.prems(1) by (simp add: sum.distrib)
    finally show ?thesis .
  qed
  have "(\<Sum>l<D. W p l * substitute W b D (ps @ [r]) l) = b p" if "p \<in> set (ps @ [r])" for p
    using that IH snoc.prems(3) [of r] snoc.prems(4) [of ps r "[]" p] unfolding new sum by auto
  then show ?case using IH new by auto
qed (simp add: substitute_def)

definition ref_trsm :: "int \<Rightarrow> int \<Rightarrow> int \<Rightarrow> int \<Rightarrow> nat \<Rightarrow> nat \<Rightarrow> complex \<Rightarrow> cmat \<Rightarrow> cmat \<Rightarrow> cmat" where
  "ref_trsm side uplo transA diag m n al A B =
     (let D = tri_dim side m n; W = tri_coef side uplo transA diag A;
          ps = (if eff_lower side uplo transA then [0..<D] else rev [0..<D]) in
      if side = CblasLeft then (\<lambda>i j. substitute W (\<lambda>p. al * B p j) D ps i)
      else (\<lambda>i j. substitute W (\<lambda>p. al * B i p) D ps j))"

lemma ref_trsm_ok: "trsm_ok (ref_blas ref_trsm)"
  unfolding trsm_ok_def
proof (intro allI impI)
  fix side uplo transA diag m n al A B
  assume v: "valid_side side" "valid_uplo uplo" "valid_trans transA" "valid_diag diag"
    and ns: "tri_nonsingular diag (if side = CblasLeft then m else n) A"
  let ?D = "tri_dim side m n" and ?W = "tri_coef side uplo transA diag A" and ?low = "eff_lower side uplo transA"
  let ?ps = "if ?low then [0..<?D] else rev [0..<?D]"
  have sol: "(\<Sum>l<?D. ?W p l * substitute ?W b ?D ?ps l) = b p" if "p < ?D" for b p
  proof -
    have ps: "set ?ps = {..<?D}" "distinct ?ps" by auto
    have "(\<forall>p\<in>set ?ps. (\<Sum>l<?D. ?W p l * substitute ?W b ?D ?ps l) = b p) \<and> (\<forall>p. p \<notin> set ?ps \<longrightarrow> substitute ?W b ?D ?ps p = 0)"
    proof (rule substitute_solves)
      fix p assume "p \<in> set ?ps"
      then show "?W p p \<noteq> 0" unfolding ps
        using ns by (auto simp: tri_coef_def tri_nonsingular_def tri_dim_def tri_el_def op_el_def split: if_splits)
    next
      fix xs p ys q assume "?ps = xs @ p # ys" "q \<in> set xs"
      then show "?W q p = 0"
        using tri_coef_zero [OF v(2,3), where NB = 1, of q p side diag A] upt_order [of ?D xs p ys q] rev_upt_order [of ?D xs p ys q]
        by (auto split: if_splits)
    qed (use ps in auto)
    then show ?thesis using that ps by blast
  qed
  show "trsm_solves side uplo transA diag m n al A B (kb_trsm (ref_blas ref_trsm) side uplo transA diag m n al A B)"
    unfolding trsm_solves_def trmm_val_coef mult_1
  proof (intro allI impI)
    fix i j assume "i < m" "j < n"
    then show "(\<Sum>l<?D. ?W (pos side i j) l * lin side (kb_trsm (ref_blas ref_trsm) side uplo transA diag m n al A B) i j l) = al * B i j"
      using sol [of "pos side i j" "\<lambda>p. if side = CblasLeft then al * B p j else al * B i p"]
      by (cases "side = CblasLeft") (simp_all add: ref_blas_def ref_trsm_def Let_def pos_def lin_def tri_dim_def cong: if_cong)
  qed
qed

section \<open>The call solves the system\<close>

lemma ztrsm_args_None:
  "ztrsm_args side uplo transA diag N NRHS LDA LDB = None \<Longrightarrow>
   valid_side side \<and> valid_uplo uplo \<and> valid_trans transA \<and> valid_diag diag \<and> 0 \<le> N \<and> 0 \<le> NRHS \<and> \<not> ld_too_small LDB N"
  by (auto simp: ztrsm_args_def Let_def valid_uplo_def valid_side_def valid_trans_def valid_diag_def enum_simps split: if_splits)

text \<open>C9. An accepted call of \<open>xkblas_ztrsm_async\<close> leaves in \<open>B\<close> a solution \<open>X\<close> of \<open>op(A)*X = alpha*B\<close>, or of
  \<open>X*op(A) = alpha*B\<close> for \<open>CblasRight\<close>, where \<open>A\<close> is a nonsingular triangular matrix, and changes nothing else.
  For \<open>CblasRight\<close> with a transposed \<open>A\<close> the call divides by \<open>alpha\<close>, so there \<open>alpha\<close> must not be zero.\<close>

theorem ztrsm_async_correct:
  assumes "gemm_ok K" "trsm_ok K" and "ztrsm_args side uplo transA diag N NRHS LDA LDB = None"
    and "LDA \<in> {0..<2 ^ 31}" "LDB \<in> {0..<2 ^ 31}" "N < 2 ^ 31" "NRHS < 2 ^ 31"
    and "unregistered ctxt A" "unregistered ctxt B" "tri_operands_apart side N NRHS A LDA B LDB"
    and "0 < xc_ngpus ctxt" "gpus_registered R KAAPI_LD_GPU c f"
    and "tri_nonsingular diag (nat (if side = CblasLeft then N else NRHS)) (view mem A (nat LDA))"
    and "side = CblasLeft \<or> transA = CblasNoTrans \<or> al \<noteq> 0"
  shows "\<exists>ts ctxt' X. xkblas_ztrsm_async side uplo transA diag N NRHS al A LDA B LDB R ctxt = Returned (ts, ctxt') \<and>
    exec_tasks K J ts mem = store_block B (nat LDB) (nat N) (nat NRHS) X mem \<and>
    trsm_solves side uplo transA diag (nat N) (nat NRHS) al (view mem A (nat LDA)) (view mem B (nat LDB)) X"
proof -
  from ztrsm_args_None [OF assms(3)] have v: "valid_side side" "valid_uplo uplo" "valid_trans transA" "valid_diag diag"
    and p: "0 \<le> N" "0 \<le> NRHS" "\<not> ld_too_small LDB N" by blast+
  have ldb: "nat N \<le> nat LDB" using p ld_ok_nonneg [of LDB N] assms(5,6) by auto
  have sz: "size_of_int N = nat N" "size_of_int NRHS = nat NRHS"
    using p assms(6,7) by (auto intro!: size_of_int_nonneg simp: SIZE_MOD_def)
  show ?thesis
  proof (cases "min (nat N) (nat NRHS) = 0")
    case True
    have "mem = store_block B (nat LDB) (nat N) (nat NRHS) (\<lambda>_ _. 0) mem"
      using ldb True by (intro store_block_eqI) (auto simp: min_def split: if_splits)
    moreover have "trsm_solves side uplo transA diag (nat N) (nat NRHS) al (view mem A (nat LDA)) (view mem B (nat LDB)) (\<lambda>_ _. 0)"
      using True by (auto simp: trsm_solves_def min_def split: if_splits)
    ultimately show ?thesis using True assms(3)
      by (intro exI [of _ "[]"] exI [of _ ctxt] exI [of _ "\<lambda>_ _. 0"]) (simp add: xkblas_ztrsm_async_def sz)
  next
    case False
    let ?NA = "nat (if side = CblasLeft then N else NRHS)"
    have ne: "A \<noteq> B" using assms(10) by (simp add: tri_operands_apart_def)
    obtain NB c' Ah Bh where su: "setup_operands KERN_TRSM (nat N) (nat NRHS) ?NA
        [(A, ?NA, ?NA, nat LDA), (B, nat N, nat NRHS, nat LDB)] B R ctxt = Some c'"
      "0 < NB" "xc_descr c' A = Some Ah" "xc_descr c' B = Some Bh"
      "descr_of Ah A ?NA ?NA (nat LDA) NB NB" "descr_of Bh B (nat N) (nat NRHS) (nat LDB) NB NB"
      using setup_two [OF ne assms(8,9) _ _ assms(11,12), of KERN_TRSM] by (metis kernel.distinct)
    have call: "xkblas_ztrsm_async side uplo transA diag N NRHS al A LDA B LDB R ctxt =
        Returned (ztrsm_tasks side uplo transA diag al Ah (nat LDA) Bh (nat LDB), c')"
      using False assms(3,4,5) su by (auto simp: xkblas_ztrsm_async_def Let_def size_of_int_ld sz)
    have lay: "tri_layout side (nat N) (nat NRHS) NB Ah A (nat LDA) Bh B (nat LDB)"
      using su assms(10) ldb by (cases "side = CblasLeft") (auto simp: tri_layout_def tri_dim_def tri_operands_apart_def Let_def)
    have ns: "tri_nonsingular diag (tri_dim side (nat N) (nat NRHS)) (view mem A (nat LDA))"
      using assms(13) by (auto simp: tri_dim_def split: if_splits)
    have al: "delayed side transA \<Longrightarrow> al \<noteq> 0" using assms(14) by (auto simp: delayed_def)
    from call ztrsm_tasks_run [OF assms(1,2) v lay ns al] show ?thesis by blast
  qed
qed

theorem ztrsm_async_correct_witness:
  "\<exists>ts ctxt' X. xkblas_ztrsm_async 142 122 112 131 3 2 \<i> 16 4 2000 4 one_gpu_reg (empty_ctx 2) = Returned (ts, ctxt') \<and>
    exec_tasks (ref_blas ref_trsm) (\<lambda>_ _ _. 7) ts (\<lambda>_. 1) = store_block 2000 4 3 2 X (\<lambda>_. 1) \<and>
    trsm_solves 142 122 112 131 3 2 \<i> (view (\<lambda>_. 1) 16 4) (view (\<lambda>_. 1) 2000 4) X"
  using ztrsm_async_correct [of "ref_blas ref_trsm" 142 122 112 131 3 2 4 4 "empty_ctx 2"
      16 2000 one_gpu_reg 1 "\<lambda>_. 1" "\<lambda>_. 1" \<i> "\<lambda>_ _ _. 7"] ref_trsm_ok
  by (simp add: ztrsm_args_def ld_too_small_def size_of_int_def SIZE_MOD_def enum_simps tri_nonsingular_def view_def
        tri_operands_apart_def arrays_disjoint_ranges ELTSIZE_def one_gpu_registered [simplified])

end
