(* ===== verification/Dataflow.thy ===== *)
theory Dataflow
  imports Blas_Tasks
begin

text \<open>
  The data-flow graph of \<open>kaapi_task.c\<close>: handles, accesses and synchronisation points in an explicit
  store, how \<open>kaapi_update_dependencies\<close> links them while tasks are inserted, and how the completion of a
  task activates its successors. Accesses and synchronisation points are the same C structure
  \<open>kaapi_access\<close>, identified here by their address; tasks and handles have numbers of their own. The queues
  a ready task is pushed into are one list: whichever thread or device takes whichever task of it, the
  protocol is the same.
\<close>

section \<open>Data\<close>

record access_node =
  ac_mode :: amode
  ac_kind :: bool            \<comment> \<open>set iff a synchronisation access\<close>
  ac_ready :: bool
  ac_data :: nat
  ac_next :: "nat option"    \<comment> \<open>next concurrent access, or first access to activate\<close>
  ac_sync :: "nat option"
  ac_task :: "nat option"
  ac_wc :: int

record dfg_handle =
  hd_sync0 :: nat            \<comment> \<open>the address of the embedded \<open>sync0\<close>\<close>
  hd_last :: "nat option"
  hd_sync :: "nat option"

record dfg_task =
  tk_wc :: int
  tk_args :: "nat list"      \<comment> \<open>the accesses among its parameters, in order\<close>
  tk_nolink :: bool          \<comment> \<open>\<open>KAAPI_TASK_FLAG_NOLINK\<close>\<close>
  tk_independent :: bool     \<comment> \<open>\<open>KAAPI_TASK_FLAG_INDEPENDENT\<close>\<close>

record dfg =
  df_acc :: "nat \<Rightarrow> access_node"
  df_top :: nat              \<comment> \<open>accesses below are allocated\<close>
  df_handle :: "nat \<Rightarrow> dfg_handle"
  df_task :: "nat \<Rightarrow> dfg_task"
  df_ntask :: nat            \<comment> \<open>tasks below are allocated\<close>
  df_ready :: "nat list"     \<comment> \<open>the pushed tasks, oldest first\<close>
  df_cnt :: nat              \<comment> \<open>\<open>thread->cnt\<close>\<close>

definition KAAPI_ACCESS_IS_CONCURRENT :: "amode \<Rightarrow> amode \<Rightarrow> bool" where
  "KAAPI_ACCESS_IS_CONCURRENT a b \<longleftrightarrow>
     a = b \<and> (b = KAAPI_ACCESS_MODE_R \<or> b = KAAPI_ACCESS_MODE_CW) \<or> (a OR b) AND KAAPI_ACCESS_MODE_P \<noteq> 0"

section \<open>Building the graph\<close>

definition upd_acc :: "nat \<Rightarrow> (access_node \<Rightarrow> access_node) \<Rightarrow> dfg \<Rightarrow> dfg" where
  "upd_acc a f st = st\<lparr>df_acc := (df_acc st)(a := f (df_acc st a))\<rparr>"

definition upd_task :: "nat \<Rightarrow> (dfg_task \<Rightarrow> dfg_task) \<Rightarrow> dfg \<Rightarrow> dfg" where
  "upd_task t f st = st\<lparr>df_task := (df_task st)(t := f (df_task st t))\<rparr>"

definition upd_handle :: "nat \<Rightarrow> (dfg_handle \<Rightarrow> dfg_handle) \<Rightarrow> dfg \<Rightarrow> dfg" where
  "upd_handle h f st = st\<lparr>df_handle := (df_handle st)(h := f (df_handle st h))\<rparr>"

definition kaapi_access_sync_init :: "nat \<Rightarrow> nat \<Rightarrow> dfg \<Rightarrow> dfg" where
  "kaapi_access_sync_init a ptr =
     upd_acc a (\<lambda>_. \<lparr>ac_mode = KAAPI_ACCESS_SYNC, ac_kind = True, ac_ready = False, ac_data = ptr,
                     ac_next = None, ac_sync = None, ac_task = None, ac_wc = 0\<rparr>)"

definition kaapi_handle_init :: "nat \<Rightarrow> nat \<Rightarrow> dfg \<Rightarrow> dfg" where
  "kaapi_handle_init h data st =
     (let s0 = hd_sync0 (df_handle st h);
          st1 = upd_acc s0 (ac_wc_update (\<lambda>_. 1)) (kaapi_access_sync_init s0 data st)
      in upd_handle h (\<lambda>H. H\<lparr>hd_last := Some s0, hd_sync := None\<rparr>) st1)"

text \<open>\<open>kaapi_data_push\<close>: fresh memory.\<close>

definition kaapi_data_push :: "dfg \<Rightarrow> nat \<times> dfg" where
  "kaapi_data_push st = (df_top st, st\<lparr>df_top := Suc (df_top st)\<rparr>)"

text \<open>\<open>kaapi_update_dependencies\<close>, block by block: fill the access; leave the last group if the new access
  is not concurrent with it; allocate the next synchronisation point if there is none; link the access; count it.\<close>

definition ud_init :: "nat \<Rightarrow> nat \<Rightarrow> amode \<Rightarrow> nat \<Rightarrow> dfg \<Rightarrow> dfg" where
  "ud_init a task mode h st =
     upd_acc a (\<lambda>A. A\<lparr>ac_data := ac_data (df_acc st (hd_sync0 (df_handle st h))), ac_next := None, ac_task := Some task,
       ac_mode := mode, ac_wc := 0\<rparr>) st"

definition ud_swap :: "amode \<Rightarrow> nat \<Rightarrow> dfg \<Rightarrow> dfg" where
  "ud_swap mode h st =
     (let lmode = ac_mode (df_acc st (the (hd_last (df_handle st h)))) in
      if lmode \<noteq> KAAPI_ACCESS_MODE_VOID \<and> \<not> KAAPI_ACCESS_IS_CONCURRENT mode lmode
      then upd_handle h (\<lambda>H. H\<lparr>hd_last := hd_sync H, hd_sync := None\<rparr>) st else st)"

definition ud_new_sync :: "nat \<Rightarrow> dfg \<Rightarrow> dfg" where
  "ud_new_sync h st =
     (case hd_sync (df_handle st h) of
        Some _ \<Rightarrow> st
      | None \<Rightarrow> (let (s, st') = kaapi_data_push st in
          upd_handle h (hd_sync_update (\<lambda>_. Some s))
            (kaapi_access_sync_init s (ac_data (df_acc st (hd_sync0 (df_handle st h)))) st')))"

definition ud_link :: "nat \<Rightarrow> nat \<Rightarrow> dfg \<Rightarrow> dfg" where
  "ud_link a h st =
     upd_handle h (hd_last_update (\<lambda>_. Some a))
       (case hd_last (df_handle st h) of None \<Rightarrow> st | Some l \<Rightarrow> upd_acc l (ac_next_update (\<lambda>_. Some a)) st)"

definition ud_count :: "nat \<Rightarrow> nat \<Rightarrow> nat \<Rightarrow> dfg \<Rightarrow> dfg" where
  "ud_count a task h st =
     (let s = hd_sync (df_handle st h) in
      upd_task task (tk_wc_update (\<lambda>w. w + 1))
        (upd_acc (the s) (ac_wc_update (\<lambda>w. w + 1)) (upd_acc a (\<lambda>A. A\<lparr>ac_sync := s, ac_ready := False\<rparr>) st)))"

definition kaapi_update_dependencies :: "nat \<Rightarrow> nat \<Rightarrow> amode \<Rightarrow> nat \<Rightarrow> dfg \<Rightarrow> dfg" where
  "kaapi_update_dependencies a task mode h st =
     ud_count a task h (ud_link a h (ud_new_sync h (ud_swap mode h (ud_init a task mode h st))))"

text \<open>The task enters the set of ready tasks: \<open>kaapi_thread_push\<close> without the choice of the queue.\<close>

definition ready_push :: "nat \<Rightarrow> dfg \<Rightarrow> dfg" where
  "ready_push t st = st\<lparr>df_ready := df_ready st @ [t]\<rparr>"

definition kaapi_task_alloc :: "dfg \<Rightarrow> nat \<times> dfg" where
  "kaapi_task_alloc st =
     (let t = df_ntask st in
      (t, st\<lparr>df_ntask := Suc t,
             df_task := (df_task st)(t := \<lparr>tk_wc = 1, tk_args = [], tk_nolink = False, tk_independent = False\<rparr>)\<rparr>))"

definition kaapi_task_commit :: "nat \<Rightarrow> dfg \<Rightarrow> dfg" where
  "kaapi_task_commit t st =
     (if tk_nolink (df_task st t) then st
      else let st1 = upd_task t (tk_wc_update (\<lambda>w. w - 1)) (st\<lparr>df_cnt := Suc (df_cnt st)\<rparr>) in
        if tk_independent (df_task st1 t) \<or> tk_wc (df_task st1 t) = 0 then ready_push t st1 else st1)"

text \<open>What every \<open>INSERT_TASK\<close> function does: allocate the task, declare its accesses in order (each access
  is a field of the task's argument), commit.\<close>

definition add_access :: "nat \<Rightarrow> nat \<times> amode \<Rightarrow> dfg \<Rightarrow> dfg" where
  "add_access t hm st =
     (let (a, st1) = kaapi_data_push st
      in kaapi_update_dependencies a t (snd hm) (fst hm) (upd_task t (tk_args_update (\<lambda>as. as @ [a])) st1))"

definition insert_task :: "(nat \<times> amode) list \<Rightarrow> dfg \<Rightarrow> dfg" where
  "insert_task accs st =
     (let (t, st1) = kaapi_task_alloc st in kaapi_task_commit t (fold (add_access t) accs st1))"

section \<open>Running the graph\<close>

definition activate_access :: "nat \<Rightarrow> dfg \<Rightarrow> dfg" where
  "activate_access a st =
     (let st1 = upd_acc a (ac_ready_update (\<lambda>_. True)) st;
          t = the (ac_task (df_acc st1 a));
          st2 = upd_task t (tk_wc_update (\<lambda>w. w - 1)) st1
      in if tk_wc (df_task st2 t) = 0 then ready_push t st2 else st2)"

partial_function (option) activate_list :: "nat option \<Rightarrow> dfg \<Rightarrow> dfg option" where
  "activate_list p st =
     (case p of None \<Rightarrow> Some st
      | Some a \<Rightarrow> (let st1 = activate_access a st in activate_list (ac_next (df_acc st1 a)) st1))"

definition kaapi_sched_activate_syncpoint :: "nat \<Rightarrow> dfg \<Rightarrow> dfg option" where
  "kaapi_sched_activate_syncpoint s st =
     (let st1 = upd_acc s (ac_wc_update (\<lambda>w. w - 1)) st in
      if ac_wc (df_acc st1 s) = 0 then activate_list (ac_next (df_acc st1 s)) st1 else Some st1)"

fun activate_all :: "nat list \<Rightarrow> dfg \<Rightarrow> dfg option" where
  "activate_all [] st = Some st"
| "activate_all (s # ss) st = Option.bind (kaapi_sched_activate_syncpoint s st) (activate_all ss)"

definition kaapi_sched_activate_successors :: "nat \<Rightarrow> dfg \<Rightarrow> dfg option" where
  "kaapi_sched_activate_successors t st =
     (if tk_independent (df_task st t) then Some st
      else activate_all
        (map (\<lambda>a. the (ac_sync (df_acc st a)))
          (filter (\<lambda>a. ac_mode (df_acc st a) AND KAAPI_ACCESS_MODE_V = 0) (tk_args (df_task st t)))) st)"

text \<open>The first part of \<open>xkblas_sync\<close>: activate the initial synchronisation point of the handles that have
  been accessed, in the order of the list.\<close>

definition xkblas_sync_start :: "nat list \<Rightarrow> dfg \<Rightarrow> dfg option" where
  "xkblas_sync_start hs st =
     activate_all (map (\<lambda>h. hd_sync0 (df_handle st h)) (filter (\<lambda>h. hd_sync (df_handle st h) \<noteq> None) hs)) st"

text \<open>One step of the execution: some pushed task is taken, run to its end, and its successors are activated.\<close>

inductive dfg_step :: "dfg \<Rightarrow> nat \<Rightarrow> dfg \<Rightarrow> bool" where
  "t \<in> set (df_ready st) \<Longrightarrow>
   kaapi_sched_activate_successors t (st\<lparr>df_ready := remove1 t (df_ready st)\<rparr>) = Some st' \<Longrightarrow> dfg_step st t st'"

inductive dfg_run :: "dfg \<Rightarrow> nat list \<Rightarrow> dfg \<Rightarrow> bool" where
  nil: "dfg_run st [] st"
| snoc: "dfg_run st ts st' \<Longrightarrow> dfg_step st' t st'' \<Longrightarrow> dfg_run st (ts @ [t]) st''"

section \<open>The shape of the graph\<close>

text \<open>The accesses to one handle form a list of groups of concurrent accesses, each behind a
  synchronisation point; the pair \<open>(x, g)\<close> is such a point with its group. A last point, with no group yet, is
  what the accesses of the last group will signal.\<close>

type_synonym groups = "(nat \<times> nat list) list"

fun list_at :: "(nat \<Rightarrow> nat option) \<Rightarrow> nat option \<Rightarrow> nat list \<Rightarrow> bool" where
  "list_at nx p [] \<longleftrightarrow> p = None"
| "list_at nx p (a # as) \<longleftrightarrow> p = Some a \<and> list_at nx (nx a) as"

fun next_node :: "groups \<Rightarrow> nat \<Rightarrow> nat" where
  "next_node [] s = s"
| "next_node ((x, g) # fs) s = x"

definition group_addrs :: "groups \<Rightarrow> nat list" where
  "group_addrs fs = concat (map (\<lambda>(x, g). x # g) fs)"

definition group_accs :: "groups \<Rightarrow> nat list" where
  "group_accs fs = concat (map snd fs)"

fun links :: "(nat \<Rightarrow> access_node) \<Rightarrow> groups \<Rightarrow> nat \<Rightarrow> bool" where
  "links ac [] s \<longleftrightarrow> ac_next (ac s) = None"
| "links ac ((x, g) # fs) s \<longleftrightarrow> g \<noteq> [] \<and> list_at (\<lambda>a. ac_next (ac a)) (ac_next (ac x)) g \<and>
     (\<forall>a\<in>set g. ac_sync (ac a) = Some (next_node fs s)) \<and> links ac fs s"

text \<open>The counter of the point behind a group: the accesses of the group that are not in \<open>D\<close>, the completed
  ones.\<close>

fun counts :: "(nat \<Rightarrow> access_node) \<Rightarrow> nat set \<Rightarrow> groups \<Rightarrow> nat \<Rightarrow> bool" where
  "counts ac D [] s \<longleftrightarrow> True"
| "counts ac D ((x, g) # fs) s \<longleftrightarrow>
     ac_wc (ac (next_node fs s)) = int (length (filter (\<lambda>a. a \<notin> D) g)) \<and> counts ac D fs s"

lemma group_addrs_simps [simp]:
  "group_addrs [] = []" "group_addrs ((x, g) # fs) = x # g @ group_addrs fs"
  "group_addrs (fs @ fs') = group_addrs fs @ group_addrs fs'"
  by (simp_all add: group_addrs_def)

lemma group_accs_simps [simp]:
  "group_accs [] = []" "group_accs ((x, g) # fs) = g @ group_accs fs"
  "group_accs (fs @ fs') = group_accs fs @ group_accs fs'"
  by (simp_all add: group_accs_def)

lemma group_accs_addrs: "set (group_accs fs) \<subseteq> set (group_addrs fs)"
  by (induction fs) auto

lemma next_node_in: "next_node fs s \<in> set (group_addrs fs) \<or> next_node fs s = s"
  by (cases "(fs, s)" rule: next_node.cases) auto

lemma next_node_append [simp]: "next_node (fs @ [(s, g)]) s' = next_node fs s"
  by (cases "(fs, s)" rule: next_node.cases) auto

lemma next_node_extend: "next_node (fs @ [(x, g)]) s = next_node (fs @ [(x, g')]) s'"
  by (cases "(fs, s)" rule: next_node.cases) auto

lemma list_at_cong:
  "list_at nx p as \<Longrightarrow> (\<And>a. a \<in> set as \<Longrightarrow> nx' a = nx a) \<Longrightarrow> list_at nx' p as"
  by (induction as arbitrary: p) auto

lemma list_at_snoc:
  "list_at nx p (as @ [l]) \<Longrightarrow> distinct (as @ [l]) \<Longrightarrow> (\<And>a. a \<in> set as \<Longrightarrow> nx' a = nx a) \<Longrightarrow>
   nx' l = Some b \<Longrightarrow> nx' b = None \<Longrightarrow> list_at nx' p (as @ [l, b])"
  by (induction as arbitrary: p) auto

text \<open>Only the links of the addresses of the groups matter.\<close>

lemma links_cong:
  assumes "links ac fs s"
    and "\<And>x. x \<in> insert s (set (group_addrs fs)) \<Longrightarrow> ac_next (ac' x) = ac_next (ac x) \<and> ac_sync (ac' x) = ac_sync (ac x)"
  shows "links ac' fs s"
  using assms by (induction ac fs s rule: links.induct) (auto intro: list_at_cong)

lemma counts_cong:
  assumes "counts ac D fs s"
    and "\<And>x. x \<in> insert s (set (group_addrs fs)) \<Longrightarrow> x \<noteq> next_node fs s \<Longrightarrow> ac_wc (ac' x) = ac_wc (ac x)"
    and "distinct (s # group_addrs fs)"
    and "\<And>a. a \<in> set (group_accs fs) \<Longrightarrow> (a \<in> D') = (a \<in> D)"
  shows "counts ac' D' fs s"
  using assms
proof (induction ac D fs s rule: counts.induct)
  case (2 ac D x g fs s)
  have y: "next_node fs s \<in> insert s (set (group_addrs fs))" using next_node_in [of fs s] by auto
  then have "next_node fs s \<noteq> x" using 2(4) by auto
  then have "ac_wc (ac' (next_node fs s)) = ac_wc (ac (next_node fs s))" using 2(3) y by auto
  moreover have "filter (\<lambda>a. a \<notin> D') g = filter (\<lambda>a. a \<notin> D) g" using 2(5) by (intro filter_cong) auto
  moreover have "counts ac' D' fs s" using 2 by (intro 2(1)) auto
  ultimately show ?case using 2(2) by simp
qed simp

lemma links_new_group:
  assumes "links ac fs s"
    and "\<And>x. x \<in> set (group_addrs fs) \<Longrightarrow> ac_next (ac' x) = ac_next (ac x) \<and> ac_sync (ac' x) = ac_sync (ac x)"
    and "ac_next (ac' s) = Some a" "ac_next (ac' a) = None" "ac_sync (ac' a) = Some s'" "ac_next (ac' s') = None"
  shows "links ac' (fs @ [(s, [a])]) s'"
  using assms by (induction ac fs s rule: links.induct) (auto intro: list_at_cong)

lemma links_extend:
  assumes "links ac (fs @ [(x, g @ [l])]) s" "distinct (group_addrs (fs @ [(x, g @ [l])]))"
    and "\<And>y. y \<in> insert s (set (group_addrs (fs @ [(x, g @ [l])]))) \<Longrightarrow> ac_sync (ac' y) = ac_sync (ac y) \<and>
      (y \<noteq> l \<longrightarrow> ac_next (ac' y) = ac_next (ac y))"
    and "l \<noteq> s" "ac_next (ac' l) = Some a" "ac_next (ac' a) = None" "ac_sync (ac' a) = Some s"
  shows "links ac' (fs @ [(x, g @ [l, a])]) s"
  using assms(1-3)
proof (induction fs)
  case Nil
  have "list_at (\<lambda>a. ac_next (ac' a)) (ac_next (ac x)) (g @ [l, a])"
    by (rule list_at_snoc [where nx = "\<lambda>a. ac_next (ac a)"]) (use Nil assms(4-7) in auto)
  then show ?case using Nil assms by auto
next
  case (Cons p fs)
  obtain y h where p: "p = (y, h)" by (cases p)
  have "links ac' (fs @ [(x, g @ [l, a])]) s"
    using Cons.prems p by (intro Cons.IH) auto
  moreover have "next_node (fs @ [(x, g @ [l, a])]) s = next_node (fs @ [(x, g @ [l])]) s" by (rule next_node_extend)
  moreover have "list_at (\<lambda>a. ac_next (ac' a)) (ac_next (ac' y)) h"
  proof -
    have "list_at (\<lambda>a. ac_next (ac a)) (ac_next (ac y)) h" using Cons.prems(1) p by simp
    moreover have "ac_next (ac' z) = ac_next (ac z)" if "z \<in> insert y (set h)" for z
      using Cons.prems(2,3) p that by auto
    ultimately show ?thesis by (auto intro: list_at_cong)
  qed
  ultimately show ?case using Cons.prems p by auto
qed

definition plain_mode :: "amode \<Rightarrow> bool" where
  "plain_mode m \<longleftrightarrow> m \<in> {KAAPI_ACCESS_MODE_R, KAAPI_ACCESS_MODE_W, KAAPI_ACCESS_MODE_CW, KAAPI_ACCESS_MODE_RW}"

lemma plain_concurrent:
  "plain_mode m \<Longrightarrow> plain_mode m' \<Longrightarrow>
   KAAPI_ACCESS_IS_CONCURRENT m m' \<longleftrightarrow> m = m' \<and> (m = KAAPI_ACCESS_MODE_R \<or> m = KAAPI_ACCESS_MODE_CW)"
  by (auto simp: plain_mode_def KAAPI_ACCESS_IS_CONCURRENT_def amode_defs)

lemma plain_mode_simps:
  "plain_mode m \<Longrightarrow> m \<noteq> KAAPI_ACCESS_MODE_VOID" "plain_mode m \<Longrightarrow> m AND KAAPI_ACCESS_MODE_V = 0"
  "plain_mode m \<Longrightarrow> KAAPI_ACCESS_IS_CONCURRENT m KAAPI_ACCESS_SYNC"
  by (auto simp: plain_mode_def KAAPI_ACCESS_IS_CONCURRENT_def amode_defs)

definition handle_ok :: "dfg \<Rightarrow> nat \<Rightarrow> groups \<Rightarrow> nat \<Rightarrow> bool" where
  "handle_ok st h fs s \<longleftrightarrow> distinct (s # group_addrs fs) \<and> (\<forall>x\<in>insert s (set (group_addrs fs)). x < df_top st) \<and>
     links (df_acc st) fs s \<and> hd_sync0 (df_handle st h) = next_node fs s \<and>
     (if fs = [] then hd_last (df_handle st h) = Some s \<and> hd_sync (df_handle st h) = None \<and>
         ac_mode (df_acc st s) = KAAPI_ACCESS_SYNC
      else hd_last (df_handle st h) = Some (last (group_accs fs)) \<and> hd_sync (df_handle st h) = Some s)"

lemma links_nonempty: "links ac fs s \<Longrightarrow> (x, g) \<in> set fs \<Longrightarrow> g \<noteq> []"
  by (induction ac fs s rule: links.induct) auto

lemma last_group:
  assumes "links ac fs s" "fs \<noteq> []"
  obtains f x g l where "fs = f @ [(x, g @ [l])]" "last (group_accs fs) = l"
proof -
  obtain f x g' where f: "fs = f @ [(x, g')]" using assms(2) by (metis rev_exhaust surj_pair)
  then have "g' \<noteq> []" using links_nonempty [OF assms(1), of x g'] by simp
  then obtain g l where "g' = g @ [l]" by (metis rev_exhaust)
  with f that show thesis by simp
qed

definition new_access :: "dfg \<Rightarrow> nat \<Rightarrow> amode \<Rightarrow> nat \<Rightarrow> nat \<Rightarrow> access_node" where
  "new_access st t m h s = (df_acc st (df_top st))\<lparr>ac_data := ac_data (df_acc st (hd_sync0 (df_handle st h))), ac_next := None,
     ac_task := Some t, ac_mode := m, ac_wc := 0, ac_sync := Some s, ac_ready := False\<rparr>"

lemma tk_args_app: "tk_args_update (\<lambda>as. as @ xs) T = T\<lparr>tk_args := tk_args T @ xs\<rparr>"
  by (rule dfg_task.equality) simp_all

lemma wc_inc:
  "tk_wc_update (\<lambda>w. w + 1) T = T\<lparr>tk_wc := tk_wc T + 1\<rparr>" "ac_wc_update (\<lambda>w. w + 1) A = A\<lparr>ac_wc := ac_wc A + 1\<rparr>"
  by (rule dfg_task.equality access_node.equality; simp)+

lemma add_access_extend:
  assumes ok: "handle_ok st h fs s" and fs: "fs \<noteq> []" and l: "last (group_accs fs) = l"
    and m: "KAAPI_ACCESS_IS_CONCURRENT m (ac_mode (df_acc st l))"
  shows "add_access t (h, m) st =
    st\<lparr>df_top := Suc (df_top st),
       df_acc := (df_acc st)(l := (df_acc st l)\<lparr>ac_next := Some (df_top st)\<rparr>, df_top st := new_access st t m h s,
         s := (df_acc st s)\<lparr>ac_wc := ac_wc (df_acc st s) + 1\<rparr>),
       df_handle := (df_handle st)(h := (df_handle st h)\<lparr>hd_last := Some (df_top st)\<rparr>),
       df_task := (df_task st)(t := (df_task st t)\<lparr>tk_args := tk_args (df_task st t) @ [df_top st], tk_wc := tk_wc (df_task st t) + 1\<rparr>)\<rparr>"
proof -
  obtain f x g where f: "fs = f @ [(x, g @ [l])]"
    using ok fs l by (auto simp: handle_ok_def elim: last_group)
  have ne: "l \<noteq> df_top st" "s \<noteq> df_top st" "l \<noteq> s" using ok unfolding f by (auto simp: handle_ok_def)
  have H: "hd_last (df_handle st h) = Some l" "hd_sync (df_handle st h) = Some s" using ok fs l by (auto simp: handle_ok_def)
  let ?a = "df_top st" and ?T = "(df_task st t)\<lparr>tk_args := tk_args (df_task st t) @ [df_top st]\<rparr>"
  let ?A = "(df_acc st ?a)\<lparr>ac_data := ac_data (df_acc st (hd_sync0 (df_handle st h))), ac_next := None, ac_task := Some t,
    ac_mode := m, ac_wc := 0\<rparr>"
  let ?st1 = "st\<lparr>df_top := Suc ?a, df_acc := (df_acc st)(?a := ?A), df_task := (df_task st)(t := ?T)\<rparr>"
  have 0: "ud_init ?a t m h (upd_task t (tk_args_update (\<lambda>as. as @ [?a])) (st\<lparr>df_top := Suc ?a\<rparr>)) = ?st1"
    by (rule dfg.equality) (simp_all add: ud_init_def upd_acc_def upd_task_def tk_args_app)
  have 1: "add_access t (h, m) st = ud_count ?a t h (ud_link ?a h (ud_new_sync h (ud_swap m h ?st1)))"
    by (simp only: add_access_def kaapi_data_push_def kaapi_update_dependencies_def case_prod_conv fst_conv snd_conv Let_def 0)
  have 2: "ud_swap m h ?st1 = ?st1" using m H ne by (simp add: ud_swap_def)
  have 3: "ud_new_sync h ?st1 = ?st1" using H by (simp add: ud_new_sync_def)
  let ?st2 = "?st1\<lparr>df_acc := (df_acc st)(?a := ?A, l := (df_acc st l)\<lparr>ac_next := Some ?a\<rparr>),
    df_handle := (df_handle st)(h := (df_handle st h)\<lparr>hd_last := Some ?a\<rparr>)\<rparr>"
  have 4: "ud_link ?a h ?st1 = ?st2" using H ne by (simp add: ud_link_def upd_acc_def upd_handle_def)
  have 5: "ud_count ?a t h ?st2 = ?st2\<lparr>df_acc := (df_acc ?st2)(?a := new_access st t m h s, s := (df_acc st s)\<lparr>ac_wc := ac_wc (df_acc st s) + 1\<rparr>),
      df_task := (df_task st)(t := ?T\<lparr>tk_wc := tk_wc (df_task st t) + 1\<rparr>)\<rparr>"
    by (rule dfg.equality) (use H ne in \<open>simp_all add: ud_count_def upd_acc_def upd_task_def new_access_def wc_inc Let_def\<close>)
  have 6: "(df_acc st)(?a := ?A, l := (df_acc st l)\<lparr>ac_next := Some ?a\<rparr>, ?a := new_access st t m h s) =
      (df_acc st)(l := (df_acc st l)\<lparr>ac_next := Some ?a\<rparr>, ?a := new_access st t m h s)"
    using ne by (simp add: fun_upd_twist)
  show ?thesis unfolding 1 2 3 4 5 by (simp add: 6)
qed

lemma add_access_new_group:
  assumes ok: "handle_ok st h fs s"
    and m: "if fs = [] then plain_mode m else ac_mode (df_acc st (last (group_accs fs))) \<noteq> KAAPI_ACCESS_MODE_VOID \<and>
      \<not> KAAPI_ACCESS_IS_CONCURRENT m (ac_mode (df_acc st (last (group_accs fs))))"
  shows "add_access t (h, m) st =
    st\<lparr>df_top := Suc (Suc (df_top st)),
       df_acc := (df_acc st)(s := (df_acc st s)\<lparr>ac_next := Some (df_top st)\<rparr>,
         df_top st := new_access st t m h (Suc (df_top st)),
         Suc (df_top st) := \<lparr>ac_mode = KAAPI_ACCESS_SYNC, ac_kind = True, ac_ready = False,
           ac_data = ac_data (df_acc st (hd_sync0 (df_handle st h))), ac_next = None, ac_sync = None, ac_task = None, ac_wc = 1\<rparr>),
       df_handle := (df_handle st)(h := (df_handle st h)\<lparr>hd_last := Some (df_top st), hd_sync := Some (Suc (df_top st))\<rparr>),
       df_task := (df_task st)(t := (df_task st t)\<lparr>tk_args := tk_args (df_task st t) @ [df_top st], tk_wc := tk_wc (df_task st t) + 1\<rparr>)\<rparr>"
proof -
  let ?a = "df_top st" and ?T = "(df_task st t)\<lparr>tk_args := tk_args (df_task st t) @ [df_top st]\<rparr>"
  let ?d = "ac_data (df_acc st (hd_sync0 (df_handle st h)))"
  let ?A = "(df_acc st ?a)\<lparr>ac_data := ?d, ac_next := None, ac_task := Some t, ac_mode := m, ac_wc := 0\<rparr>"
  let ?S = "\<lparr>ac_mode = KAAPI_ACCESS_SYNC, ac_kind = True, ac_ready = False, ac_data = ?d, ac_next = None, ac_sync = None,
    ac_task = None, ac_wc = 0\<rparr>"
  let ?st1 = "st\<lparr>df_top := Suc ?a, df_acc := (df_acc st)(?a := ?A), df_task := (df_task st)(t := ?T)\<rparr>"
  have 0: "ud_init ?a t m h (upd_task t (tk_args_update (\<lambda>as. as @ [?a])) (st\<lparr>df_top := Suc ?a\<rparr>)) = ?st1"
    by (rule dfg.equality) (simp_all add: ud_init_def upd_acc_def upd_task_def tk_args_app)
  have 1: "add_access t (h, m) st = ud_count ?a t h (ud_link ?a h (ud_new_sync h (ud_swap m h ?st1)))"
    by (simp only: add_access_def kaapi_data_push_def kaapi_update_dependencies_def case_prod_conv fst_conv snd_conv Let_def 0)
  have s: "s < ?a" "hd_sync0 (df_handle st h) < ?a"
    using ok next_node_in [of fs s] by (auto simp: handle_ok_def)
  have 2: "ud_swap m h ?st1 = ?st1\<lparr>df_handle := (df_handle st)(h := (df_handle st h)\<lparr>hd_last := Some s, hd_sync := None\<rparr>)\<rparr>"
  proof (cases "fs = []")
    case True
    then have "hd_last (df_handle st h) = Some s" "hd_sync (df_handle st h) = None" "ac_mode (df_acc st s) = KAAPI_ACCESS_SYNC"
      using ok by (auto simp: handle_ok_def)
    moreover from this have e: "(df_handle st h)\<lparr>hd_last := Some s, hd_sync := None\<rparr> = df_handle st h"
      by (intro dfg_handle.equality) simp_all
    ultimately have "ud_swap m h ?st1 = ?st1" using m True s(1) plain_mode_simps(3) [of m] by (simp add: ud_swap_def)
    then show ?thesis unfolding e by simp
  next
    case False
    then obtain f x g l where f: "fs = f @ [(x, g @ [l])]" "last (group_accs fs) = l"
      using ok by (auto simp: handle_ok_def elim: last_group)
    moreover have "l < ?a" using ok unfolding f by (auto simp: handle_ok_def)
    moreover have "hd_last (df_handle st h) = Some l" "hd_sync (df_handle st h) = Some s"
      using ok False f(2) by (auto simp: handle_ok_def)
    ultimately show ?thesis using m False by (simp add: ud_swap_def upd_handle_def)
  qed
  let ?st2 = "?st1\<lparr>df_top := Suc (Suc ?a), df_acc := (df_acc st)(?a := ?A, Suc ?a := ?S),
    df_handle := (df_handle st)(h := (df_handle st h)\<lparr>hd_last := Some s, hd_sync := Some (Suc ?a)\<rparr>)\<rparr>"
  have 3: "ud_new_sync h (?st1\<lparr>df_handle := (df_handle st)(h := (df_handle st h)\<lparr>hd_last := Some s, hd_sync := None\<rparr>)\<rparr>) = ?st2"
    using s by (simp add: ud_new_sync_def kaapi_data_push_def kaapi_access_sync_init_def upd_acc_def upd_handle_def)
  let ?st3 = "?st2\<lparr>df_acc := (df_acc st)(?a := ?A, Suc ?a := ?S, s := (df_acc st s)\<lparr>ac_next := Some ?a\<rparr>),
    df_handle := (df_handle st)(h := (df_handle st h)\<lparr>hd_last := Some ?a, hd_sync := Some (Suc ?a)\<rparr>)\<rparr>"
  have e: "H\<lparr>hd_sync := x, hd_last := y\<rparr> = H\<lparr>hd_last := y, hd_sync := x\<rparr>" for H :: dfg_handle and x y
    by (rule dfg_handle.equality) simp_all
  have 4: "ud_link ?a h ?st2 = ?st3"
    by (rule dfg.equality) (use s in \<open>simp_all add: ud_link_def upd_acc_def upd_handle_def e\<close>)
  have 5: "ud_count ?a t h ?st3 = ?st3\<lparr>df_acc := (df_acc ?st3)(?a := new_access st t m h (Suc ?a), Suc ?a := ?S\<lparr>ac_wc := 1\<rparr>),
      df_task := (df_task st)(t := ?T\<lparr>tk_wc := tk_wc (df_task st t) + 1\<rparr>)\<rparr>"
    by (rule dfg.equality) (use s in \<open>simp_all add: ud_count_def upd_acc_def upd_task_def new_access_def wc_inc Let_def\<close>)
  have 6: "(df_acc st)(?a := ?A, Suc ?a := ?S, s := X, ?a := Y, Suc ?a := Z) = (df_acc st)(s := X, ?a := Y, Suc ?a := Z)" for X Y Z
    using s by (auto simp: fun_eq_iff)
  show ?thesis unfolding 1 2 3 4 5 by (simp add: 6)
qed

definition conc_groups :: "(nat \<Rightarrow> access_node) \<Rightarrow> groups \<Rightarrow> bool" where
  "conc_groups ac fs \<longleftrightarrow> (\<forall>(x, g)\<in>set fs. \<forall>a\<in>set g. \<forall>b\<in>set g. a \<noteq> b \<longrightarrow>
     KAAPI_ACCESS_IS_CONCURRENT (ac_mode (ac a)) (ac_mode (ac b)))"

definition node_set :: "groups \<Rightarrow> nat \<Rightarrow> nat set" where
  "node_set fs s = insert s (set (group_addrs fs))"

lemma counts_append:
  "counts ac D (fs @ [(x, g)]) s \<longleftrightarrow> counts ac D fs x \<and> ac_wc (ac s) = int (length (filter (\<lambda>a. a \<notin> D) g))"
proof (induction fs)
  case (Cons p fs) then show ?case by (cases p) auto
qed simp

lemma conc_groups_simps [simp]:
  "conc_groups ac []"
  "conc_groups ac ((x, g) # fs) \<longleftrightarrow> (\<forall>a\<in>set g. \<forall>b\<in>set g. a \<noteq> b \<longrightarrow>
     KAAPI_ACCESS_IS_CONCURRENT (ac_mode (ac a)) (ac_mode (ac b))) \<and> conc_groups ac fs"
  "conc_groups ac (fs @ fs') \<longleftrightarrow> conc_groups ac fs \<and> conc_groups ac fs'"
  by (simp_all add: conc_groups_def ball_Un)

lemma conc_groups_cong:
  "conc_groups ac fs \<Longrightarrow> (\<And>a. a \<in> set (group_accs fs) \<Longrightarrow> ac_mode (ac' a) = ac_mode (ac a)) \<Longrightarrow> conc_groups ac' fs"
  by (induction fs) auto

lemma concurrent_trans:
  "plain_mode a \<Longrightarrow> plain_mode b \<Longrightarrow> plain_mode c \<Longrightarrow> KAAPI_ACCESS_IS_CONCURRENT a b \<Longrightarrow>
   KAAPI_ACCESS_IS_CONCURRENT b c \<Longrightarrow> KAAPI_ACCESS_IS_CONCURRENT a c \<and> KAAPI_ACCESS_IS_CONCURRENT c a"
  by (auto simp: plain_concurrent)

lemma concurrent_sym:
  "plain_mode a \<Longrightarrow> plain_mode b \<Longrightarrow> KAAPI_ACCESS_IS_CONCURRENT a b \<Longrightarrow> KAAPI_ACCESS_IS_CONCURRENT b a"
  by (auto simp: plain_concurrent)

definition handle_fresh :: "dfg \<Rightarrow> groups \<Rightarrow> nat \<Rightarrow> bool" where
  "handle_fresh st fs s \<longleftrightarrow> counts (df_acc st) {} fs s \<and> ac_wc (df_acc st (next_node fs s)) = 1 \<and>
     conc_groups (df_acc st) fs \<and> (\<forall>a\<in>set (group_accs fs). plain_mode (ac_mode (df_acc st a)))"

text \<open>A new access either joins the last group of its handle or opens a new one.\<close>

lemma add_access_handle:
  assumes ok: "handle_ok st h fs s" and fr: "handle_fresh st fs s" and m: "plain_mode m"
    and st': "st' = add_access t (h, m) st"
  shows "\<exists>fs' s'. handle_ok st' h fs' s' \<and> handle_fresh st' fs' s' \<and> group_accs fs' = group_accs fs @ [df_top st] \<and>
    node_set fs' s' \<subseteq> node_set fs s \<union> {df_top st, Suc (df_top st)} \<and>
    (\<forall>x. x \<notin> node_set fs s \<union> {df_top st, Suc (df_top st)} \<longrightarrow> df_acc st' x = df_acc st x) \<and>
    (\<forall>x. x < df_top st \<longrightarrow> ac_mode (df_acc st' x) = ac_mode (df_acc st x) \<and> ac_task (df_acc st' x) = ac_task (df_acc st x)) \<and>
    ac_mode (df_acc st' (df_top st)) = m \<and> ac_task (df_acc st' (df_top st)) = Some t"
proof -
  let ?l = "last (group_accs fs)"
  have D: "distinct (s # group_addrs fs)" "\<forall>x\<in>node_set fs s. x < df_top st" "links (df_acc st) fs s"
    using ok by (auto simp: handle_ok_def node_set_def)
  note F = fr [unfolded handle_fresh_def]
  show ?thesis
  proof (cases "fs \<noteq> [] \<and> KAAPI_ACCESS_IS_CONCURRENT m (ac_mode (df_acc st ?l))")
    case True
    then obtain f x g l where f: "fs = f @ [(x, g @ [l])]" "?l = l" using D(3) by (auto elim: last_group)
    have e: "st' = st\<lparr>df_top := Suc (df_top st),
       df_acc := (df_acc st)(l := (df_acc st l)\<lparr>ac_next := Some (df_top st)\<rparr>, df_top st := new_access st t m h s,
         s := (df_acc st s)\<lparr>ac_wc := ac_wc (df_acc st s) + 1\<rparr>),
       df_handle := (df_handle st)(h := (df_handle st h)\<lparr>hd_last := Some (df_top st)\<rparr>),
       df_task := (df_task st)(t := (df_task st t)\<lparr>tk_args := tk_args (df_task st t) @ [df_top st], tk_wc := tk_wc (df_task st t) + 1\<rparr>)\<rparr>"
      unfolding st' using True f by (intro add_access_extend [OF ok _ f(2)]) auto
    let ?fs = "f @ [(x, g @ [l, df_top st])]"
    have lt: "l < df_top st" "s < df_top st" "x < df_top st" "\<forall>y\<in>set g \<union> set (group_addrs f). y < df_top st"
      using D(2) unfolding f node_set_def by auto
    have ls: "l \<noteq> s" using D(1) unfolding f by auto
    have "links (df_acc st') ?fs s"
      by (rule links_extend [OF D(3) [unfolded f]]) (use D lt ls in \<open>auto simp: e f new_access_def node_set_def\<close>)
    then have 1: "handle_ok st' h ?fs s"
      using ok lt f by (auto simp: handle_ok_def e next_node_extend [of f x "g @ [l, df_top st]" s "g @ [l]" s] intro: less_SucI)
    have cs: "counts (df_acc st) {} f x" "ac_wc (df_acc st s) = int (length g + 1)"
      using F f(1) by (simp_all add: counts_append)
    have "counts (df_acc st') {} f x"
      by (rule counts_cong [OF cs(1)]) (use f lt D in \<open>auto simp: e new_access_def node_set_def\<close>)
    then have "counts (df_acc st') {} ?fs s"
      using cs(2) lt(2) by (simp add: counts_append e new_access_def)
    moreover have nx: "next_node ?fs s = next_node fs s" unfolding f by (rule next_node_extend)
    moreover have nn: "next_node fs s \<noteq> s" "next_node fs s < df_top st" using D f(1) by (cases f; auto simp: node_set_def)+
    then have "ac_wc (df_acc st' (next_node ?fs s)) = 1"
      using F f(1) nn by (auto simp: e new_access_def nx)
    moreover have pl: "plain_mode (ac_mode (df_acc st a)) \<and> ac_mode (df_acc st' a) = ac_mode (df_acc st a)"
      if "a \<in> set (group_accs fs)" for a
    proof -
      have "a < df_top st" using that group_accs_addrs D(2) by (fastforce simp: node_set_def)
      then show ?thesis using F that by (auto simp: e new_access_def)
    qed
    moreover have ma: "ac_mode (df_acc st' (df_top st)) = m" using lt by (simp add: e new_access_def)
    moreover have "conc_groups (df_acc st') ?fs"
    proof -
      have "conc_groups (df_acc st') fs" using F pl by (auto intro: conc_groups_cong)
      moreover have "KAAPI_ACCESS_IS_CONCURRENT m (ac_mode (df_acc st' b)) \<and> KAAPI_ACCESS_IS_CONCURRENT (ac_mode (df_acc st' b)) m"
        if "b \<in> set (g @ [l])" for b
      proof (cases "b = l")
        case True
        then show ?thesis using \<open>fs \<noteq> [] \<and> _\<close> f pl [of l] m by (auto intro: concurrent_sym)
      next
        case False
        then have "KAAPI_ACCESS_IS_CONCURRENT (ac_mode (df_acc st l)) (ac_mode (df_acc st b))"
          using F f(1) that by auto
        then show ?thesis using concurrent_trans [of m "ac_mode (df_acc st l)" "ac_mode (df_acc st b)"]
          \<open>fs \<noteq> [] \<and> _\<close> f pl [of l] pl [of b] m that by auto
      qed
      ultimately show ?thesis using f(1) ma by auto
    qed
    moreover have "\<forall>a\<in>set (group_accs ?fs). plain_mode (ac_mode (df_acc st' a))"
      using f(1) pl ma m by auto
    ultimately have 2: "handle_fresh st' ?fs s" by (simp add: handle_fresh_def)
    show ?thesis
      by (rule exI [of _ ?fs], rule exI [of _ s]) (use 1 2 f lt ls in \<open>auto simp: node_set_def e new_access_def\<close>)
  next
    case False
    let ?a = "df_top st"
    let ?fs = "fs @ [(s, [?a])]"
    have c: "if fs = [] then plain_mode m else ac_mode (df_acc st ?l) \<noteq> KAAPI_ACCESS_MODE_VOID \<and>
        \<not> KAAPI_ACCESS_IS_CONCURRENT m (ac_mode (df_acc st ?l))"
    proof (cases "fs = []")
      case False
      then obtain f x g l where f: "fs = f @ [(x, g @ [l])]" "?l = l" using D(3) by (auto elim: last_group)
      then have "plain_mode (ac_mode (df_acc st ?l))" using F by auto
      then show ?thesis using False \<open>\<not> (fs \<noteq> [] \<and> _)\<close> plain_mode_simps(1) by auto
    qed (use m in simp)
    note e = add_access_new_group [OF ok c, of t, folded st']
    have "links (df_acc st') ?fs (Suc ?a)"
      by (rule links_new_group [OF D(3)]) (use D in \<open>auto simp: e new_access_def node_set_def\<close>)
    then have 1: "handle_ok st' h ?fs (Suc ?a)"
      using ok D by (auto simp: handle_ok_def e node_set_def)
    have lt: "\<forall>y\<in>set (group_addrs fs). y < ?a" "s < ?a" using D(2) by (auto simp: node_set_def)
    have nn: "next_node fs s < ?a" using next_node_in [of fs s] lt by auto
    have "counts (df_acc st') {} fs s"
      by (rule counts_cong [where ac = "df_acc st" and D = "{}"]) (use F lt D in \<open>auto simp: e new_access_def\<close>)
    then have "counts (df_acc st') {} ?fs (Suc ?a)"
      by (simp add: counts_append e new_access_def)
    moreover have "ac_wc (df_acc st' (next_node ?fs (Suc ?a))) = 1"
      using F nn by (auto simp: e new_access_def)
    moreover have pl: "plain_mode (ac_mode (df_acc st' a)) \<and> ac_mode (df_acc st' a) = ac_mode (df_acc st a)"
      if "a \<in> set (group_accs fs)" for a
    proof -
      have "a < ?a" using that group_accs_addrs lt(1) by blast
      then show ?thesis using F that by (auto simp: e new_access_def)
    qed
    moreover have ma: "ac_mode (df_acc st' ?a) = m" by (simp add: e new_access_def)
    moreover have "conc_groups (df_acc st') ?fs"
      using F pl by (auto intro: conc_groups_cong)
    moreover have "\<forall>a\<in>set (group_accs ?fs). plain_mode (ac_mode (df_acc st' a))"
      using F pl ma m by auto
    ultimately have 2: "handle_fresh st' ?fs (Suc ?a)" by (simp add: handle_fresh_def)
    show ?thesis
      by (rule exI [of _ ?fs], rule exI [of _ "Suc ?a"]) (use 1 2 D in \<open>auto simp: node_set_def e new_access_def\<close>)
  qed
qed

text \<open>The whole graph: the handles \<open>H\<close> with their groups \<open>G\<close> and pending points \<open>P\<close>, and the tasks with the
  accesses \<open>accs\<close> they declared.\<close>

definition task_ok :: "nat set \<Rightarrow> (nat \<Rightarrow> groups) \<Rightarrow> (nat \<times> amode) list \<Rightarrow> dfg \<Rightarrow> nat \<Rightarrow> bool" where
  "task_ok H G as st t \<longleftrightarrow> \<not> tk_nolink (df_task st t) \<and> \<not> tk_independent (df_task st t) \<and>
     distinct (tk_args (df_task st t)) \<and> (\<forall>a\<in>set (tk_args (df_task st t)). ac_task (df_acc st a) = Some t) \<and>
     list_all2 (\<lambda>a (h, m). h \<in> H \<and> a \<in> set (group_accs (G h)) \<and> ac_mode (df_acc st a) = m) (tk_args (df_task st t)) as"

definition graph_ok :: "nat set \<Rightarrow> (nat \<Rightarrow> groups) \<Rightarrow> (nat \<Rightarrow> nat) \<Rightarrow> (nat \<Rightarrow> (nat \<times> amode) list) \<Rightarrow> dfg \<Rightarrow> bool" where
  "graph_ok H G P accs st \<longleftrightarrow>
     (\<forall>h\<in>H. handle_ok st h (G h) (P h) \<and> conc_groups (df_acc st) (G h) \<and>
        sorted (map (\<lambda>a. the (ac_task (df_acc st a))) (group_accs (G h))) \<and>
        (\<forall>a\<in>set (group_accs (G h)). plain_mode (ac_mode (df_acc st a)) \<and>
           (\<exists>t<df_ntask st. ac_task (df_acc st a) = Some t \<and> a \<in> set (tk_args (df_task st t))))) \<and>
     (\<forall>h\<in>H. \<forall>h'\<in>H. h \<noteq> h' \<longrightarrow> node_set (G h) (P h) \<inter> node_set (G h') (P h') = {}) \<and>
     (\<forall>t<df_ntask st. task_ok H G (accs t) st t)"

text \<open>The counters before \<open>xkblas_sync\<close>; \<open>c\<close> is the task that is allocated and not committed.\<close>

definition fresh_ok :: "nat set \<Rightarrow> (nat \<Rightarrow> groups) \<Rightarrow> (nat \<Rightarrow> nat) \<Rightarrow> nat option \<Rightarrow> dfg \<Rightarrow> bool" where
  "fresh_ok H G P c st \<longleftrightarrow>
     (\<forall>h\<in>H. counts (df_acc st) {} (G h) (P h) \<and> ac_wc (df_acc st (next_node (G h) (P h))) = 1) \<and>
     (\<forall>t<df_ntask st. tk_wc (df_task st t) = int (length (tk_args (df_task st t))) + (if c = Some t then 1 else 0)) \<and>
     distinct (df_ready st) \<and> set (df_ready st) = {t. t < df_ntask st \<and> c \<noteq> Some t \<and> tk_args (df_task st t) = []}"

lemma node_set_finite_facts:
  "next_node fs s \<in> node_set fs s" "set (group_accs fs) \<subseteq> node_set fs s"
  using next_node_in [of fs s] group_accs_addrs [of fs] by (auto simp: node_set_def)

lemma handle_frame:
  assumes "handle_ok st h fs s" "\<forall>x\<in>node_set fs s. df_acc st' x = df_acc st x"
    and "df_handle st' h = df_handle st h" "df_top st \<le> df_top st'"
  shows "handle_ok st' h fs s"
proof -
  have "links (df_acc st') fs s"
    by (rule links_cong [of "df_acc st"]) (use assms in \<open>auto simp: handle_ok_def node_set_def\<close>)
  then show ?thesis using assms by (fastforce simp: handle_ok_def node_set_def)
qed

lemma counts_frame:
  assumes "counts (df_acc st) D fs s" "\<forall>x\<in>node_set fs s. df_acc st' x = df_acc st x" "distinct (s # group_addrs fs)"
  shows "counts (df_acc st') D fs s"
  by (rule counts_cong [OF assms(1)]) (use assms in \<open>auto simp: node_set_def\<close>)

lemma add_access_task:
  assumes ok: "handle_ok st h fs s" and fr: "handle_fresh st fs s" and m: "plain_mode m"
  shows "df_task (add_access t (h, m) st) = (df_task st)(t := (df_task st t)\<lparr>tk_args := tk_args (df_task st t) @ [df_top st],
      tk_wc := tk_wc (df_task st t) + 1\<rparr>)"
    and "df_ntask (add_access t (h, m) st) = df_ntask st" "df_ready (add_access t (h, m) st) = df_ready st"
    and "df_top st < df_top (add_access t (h, m) st)"
    and "h' \<noteq> h \<Longrightarrow> df_handle (add_access t (h, m) st) h' = df_handle st h'"
proof -
  have "(df_task (add_access t (h, m) st) = (df_task st)(t := (df_task st t)\<lparr>tk_args := tk_args (df_task st t) @ [df_top st],
      tk_wc := tk_wc (df_task st t) + 1\<rparr>)) \<and> df_ntask (add_access t (h, m) st) = df_ntask st \<and>
    df_ready (add_access t (h, m) st) = df_ready st \<and> df_top st < df_top (add_access t (h, m) st) \<and>
    (\<forall>h'. h' \<noteq> h \<longrightarrow> df_handle (add_access t (h, m) st) h' = df_handle st h')"
  proof (cases "fs \<noteq> [] \<and> KAAPI_ACCESS_IS_CONCURRENT m (ac_mode (df_acc st (last (group_accs fs))))")
    case True
    then show ?thesis by (subst (1 2 3 4 5) add_access_extend [OF ok _ refl]) auto
  next
    case False
    have "if fs = [] then plain_mode m else ac_mode (df_acc st (last (group_accs fs))) \<noteq> KAAPI_ACCESS_MODE_VOID \<and>
        \<not> KAAPI_ACCESS_IS_CONCURRENT m (ac_mode (df_acc st (last (group_accs fs))))"
    proof (cases "fs = []")
      case False
      then obtain f x g l where "fs = f @ [(x, g @ [l])]" "last (group_accs fs) = l"
        using ok by (auto simp: handle_ok_def elim: last_group)
      then have "plain_mode (ac_mode (df_acc st (last (group_accs fs))))" using fr by (auto simp: handle_fresh_def)
      then show ?thesis using False \<open>\<not> (fs \<noteq> [] \<and> _)\<close> plain_mode_simps(1) by auto
    qed (use m in simp)
    then show ?thesis by (subst (1 2 3 4 5) add_access_new_group [OF ok]) auto
  qed
  then show "df_task (add_access t (h, m) st) = (df_task st)(t := (df_task st t)\<lparr>tk_args := tk_args (df_task st t) @ [df_top st],
      tk_wc := tk_wc (df_task st t) + 1\<rparr>)"
    and "df_ntask (add_access t (h, m) st) = df_ntask st" "df_ready (add_access t (h, m) st) = df_ready st"
    and "df_top st < df_top (add_access t (h, m) st)"
    and "h' \<noteq> h \<Longrightarrow> df_handle (add_access t (h, m) st) h' = df_handle st h'" by blast+
qed

lemma add_access_graph:
  assumes g: "graph_ok H G P accs st" and f: "fresh_ok H G P (Some t) st" and t: "df_ntask st = Suc t"
    and h: "h \<in> H" and m: "plain_mode m"
  shows "\<exists>G' P'. graph_ok H G' P' (accs(t := accs t @ [(h, m)])) (add_access t (h, m) st) \<and>
    fresh_ok H G' P' (Some t) (add_access t (h, m) st) \<and> df_ntask (add_access t (h, m) st) = Suc t"
proof -
  let ?st = "add_access t (h, m) st" and ?a = "df_top st"
  note G = g [unfolded graph_ok_def] and F = f [unfolded fresh_ok_def]
  have ok: "handle_ok st h (G h) (P h)" using G h by blast
  have fr: "handle_fresh st (G h) (P h)" using G F h by (auto simp: handle_fresh_def)
  obtain fs' s' where n: "handle_ok ?st h fs' s'" "handle_fresh ?st fs' s'" "group_accs fs' = group_accs (G h) @ [?a]"
    "node_set fs' s' \<subseteq> node_set (G h) (P h) \<union> {?a, Suc ?a}"
    "\<forall>x. x \<notin> node_set (G h) (P h) \<union> {?a, Suc ?a} \<longrightarrow> df_acc ?st x = df_acc st x"
    "\<forall>x. x < ?a \<longrightarrow> ac_mode (df_acc ?st x) = ac_mode (df_acc st x) \<and> ac_task (df_acc ?st x) = ac_task (df_acc st x)"
    "ac_mode (df_acc ?st ?a) = m" "ac_task (df_acc ?st ?a) = Some t"
    using add_access_handle [OF ok fr m refl] by blast
  note T = add_access_task [OF ok fr m, where t = t]
  let ?G = "G(h := fs')" and ?P = "P(h := s')"
  have low: "x < ?a" if "h' \<in> H" "x \<in> node_set (G h') (P h')" for h' x
    using G that by (auto simp: handle_ok_def node_set_def)
  have same: "df_acc ?st x = df_acc st x" if "h' \<in> H" "h' \<noteq> h" "x \<in> node_set (G h') (P h')" for h' x
  proof -
    have "x \<notin> node_set (G h) (P h)" using G h that by blast
    then show ?thesis using n(5) low [OF that(1,3)] by auto
  qed
  have accs_low: "a < ?a" if "h' \<in> H" "a \<in> set (group_accs (G h'))" for a h'
    using low [OF that(1)] that(2) node_set_finite_facts(2) by blast
  have 1: "handle_ok ?st h' (?G h') (?P h')" if "h' \<in> H" for h'
    using n(1) G that same T(4,5) by (cases "h' = h") (auto intro: handle_frame)
  have 2: "conc_groups (df_acc ?st) (?G h')" if "h' \<in> H" for h'
  proof (cases "h' = h")
    case False
    then show ?thesis using G that n(6) accs_low [OF that] by (auto intro: conc_groups_cong)
  qed (use n(2) in \<open>auto simp: handle_fresh_def\<close>)
  have tle: "the (ac_task (df_acc st a)) \<le> t" if "h' \<in> H" "a \<in> set (group_accs (G h'))" for a h'
    using G that t by fastforce
  have 3: "sorted (map (\<lambda>a. the (ac_task (df_acc ?st a))) (group_accs (?G h')))" if "h' \<in> H" for h'
  proof -
    have "map (\<lambda>a. the (ac_task (df_acc ?st a))) (group_accs (G h')) = map (\<lambda>a. the (ac_task (df_acc st a))) (group_accs (G h'))"
      using n(6) accs_low [OF that] by auto
    moreover have "sorted (map (\<lambda>a. the (ac_task (df_acc st a))) (group_accs (G h')))" using G that by blast
    ultimately have "sorted (map (\<lambda>a. the (ac_task (df_acc ?st a))) (group_accs (G h')))" by argo
    moreover have "the (ac_task (df_acc ?st a)) \<le> t" if "a \<in> set (group_accs (G h'))" for a
      using tle [OF \<open>h' \<in> H\<close> that] n(6) accs_low [OF \<open>h' \<in> H\<close> that] by simp
    ultimately show ?thesis using n(3,8) by (auto simp: sorted_append)
  qed
  have 4: "plain_mode (ac_mode (df_acc ?st a)) \<and> (\<exists>t<df_ntask ?st. ac_task (df_acc ?st a) = Some t \<and> a \<in> set (tk_args (df_task ?st t)))"
    if "h' \<in> H" "a \<in> set (group_accs (?G h'))" for h' a
  proof (cases "a = ?a")
    case True then show ?thesis using n(7,8) m t T by auto
  next
    case False
    then have a: "a \<in> set (group_accs (G h'))" using that n(3) by (auto split: if_splits)
    then obtain u where u: "plain_mode (ac_mode (df_acc st a))" "u < df_ntask st" "ac_task (df_acc st a) = Some u"
      "a \<in> set (tk_args (df_task st u))"
      using conjunct1 [OF G, THEN bspec, OF \<open>h' \<in> H\<close>] a by auto
    have "a \<in> set (tk_args (df_task ?st u))" using u(4) unfolding T(1) by auto
    moreover have "ac_mode (df_acc ?st a) = ac_mode (df_acc st a)" "ac_task (df_acc ?st a) = Some u"
      using n(6) accs_low [OF that(1) a] u(3) by simp_all
    ultimately show ?thesis using u(1,2) unfolding T(2) by auto
  qed
  have dis: "node_set fs' s' \<inter> node_set (G h2) (P h2) = {}" if "h2 \<in> H" "h2 \<noteq> h" for h2
  proof -
    have "node_set (G h) (P h) \<inter> node_set (G h2) (P h2) = {}" using G h that by blast
    moreover have "?a \<notin> node_set (G h2) (P h2)" "Suc ?a \<notin> node_set (G h2) (P h2)" using low [OF that(1)] by fastforce+
    ultimately show ?thesis using n(4) by blast
  qed
  have 5: "node_set (?G h1) (?P h1) \<inter> node_set (?G h2) (?P h2) = {}" if "h1 \<in> H" "h2 \<in> H" "h1 \<noteq> h2" for h1 h2
  proof -
    consider "h1 = h" "h2 \<noteq> h" | "h1 \<noteq> h" "h2 = h" | "h1 \<noteq> h" "h2 \<noteq> h" using \<open>h1 \<noteq> h2\<close> by blast
    then show ?thesis
    proof cases
      case 1 then show ?thesis using dis that by simp
    next
      case 2 then show ?thesis using dis [of h1] that by (simp add: Int_commute)
    next
      case 3
      have "node_set (G h1) (P h1) \<inter> node_set (G h2) (P h2) = {}" using G that by blast
      then show ?thesis using 3 by simp
    qed
  qed
  have 6: "task_ok H ?G ((accs(t := accs t @ [(h, m)])) t') ?st t'" if "t' < df_ntask ?st" for t'
  proof -
    have old: "task_ok H G (accs t') st t'" using G that T by simp
    let ?as = "tk_args (df_task st t')"
    have args: "a < ?a \<and> a \<noteq> ?a" if "a \<in> set ?as" for a
      using old that accs_low by (fastforce simp: task_ok_def list_all2_conv_all_nth in_set_conv_nth)
    have "list_all2 (\<lambda>a (h', m). h' \<in> H \<and> a \<in> set (group_accs (?G h')) \<and> ac_mode (df_acc ?st a) = m) ?as (accs t')"
      using old n(3,6) args unfolding task_ok_def by (auto elim!: list.rel_mono_strong)
    moreover have "\<forall>a\<in>set ?as. ac_task (df_acc ?st a) = Some t'" using old n(6) args by (auto simp: task_ok_def)
    ultimately show ?thesis
      using old T(1) args h n(3,7,8) by (auto simp: task_ok_def intro: list_all2_appendI)
  qed
  have "graph_ok H ?G ?P (accs(t := accs t @ [(h, m)])) ?st"
    unfolding graph_ok_def using 1 2 3 4 5 6 by blast
  moreover have "fresh_ok H ?G ?P (Some t) ?st"
  proof -
    have "counts (df_acc ?st) {} (?G h') (?P h') \<and> ac_wc (df_acc ?st (next_node (?G h') (?P h'))) = 1" if "h' \<in> H" for h'
    proof (cases "h' = h")
      case False
      have "counts (df_acc ?st) {} (G h') (P h')"
        by (rule counts_frame) (use F G that same [OF that False] in \<open>auto simp: handle_ok_def\<close>)
      then show ?thesis using F that False same [OF that False node_set_finite_facts(1)] by simp
    qed (use n(2) in \<open>simp add: handle_fresh_def\<close>)
    then show ?thesis using F T t unfolding fresh_ok_def by (auto simp: less_Suc_eq)
  qed
  ultimately show ?thesis using T t by fastforce
qed

lemma add_accesses_graph:
  assumes "graph_ok H G P accs st" "fresh_ok H G P (Some t) st" "df_ntask st = Suc t"
    and "\<forall>(h, m)\<in>set as. h \<in> H \<and> plain_mode m"
  shows "\<exists>G' P'. graph_ok H G' P' (accs(t := accs t @ as)) (fold (add_access t) as st) \<and>
    fresh_ok H G' P' (Some t) (fold (add_access t) as st) \<and> df_ntask (fold (add_access t) as st) = Suc t"
  using assms
proof (induction as arbitrary: st G P accs)
  case (Cons x as)
  obtain h m where x: "x = (h, m)" by (cases x)
  obtain G' P' where 1: "graph_ok H G' P' (accs(t := accs t @ [(h, m)])) (add_access t (h, m) st)"
    "fresh_ok H G' P' (Some t) (add_access t (h, m) st)" "df_ntask (add_access t (h, m) st) = Suc t"
    using add_access_graph [OF Cons.prems(1-3), of h m] Cons.prems(4) x by auto
  have "\<forall>(h, m)\<in>set as. h \<in> H \<and> plain_mode m" using Cons.prems(4) by simp
  moreover have "(accs(t := accs t @ [(h, m)]))(t := (accs(t := accs t @ [(h, m)])) t @ as) = accs(t := accs t @ x # as)"
    by (simp add: x)
  ultimately show ?case using Cons.IH [OF 1] by (simp only: x fold_simps)
qed auto

lemma graph_ok_alloc:
  assumes "graph_ok H G P accs st" "fresh_ok H G P None st" "kaapi_task_alloc st = (t, st1)"
  shows "t = df_ntask st" "graph_ok H G P (accs(t := [])) st1" "fresh_ok H G P (Some t) st1" "df_ntask st1 = Suc t"
proof -
  have st1: "t = df_ntask st" "st1 = st\<lparr>df_ntask := Suc t,
      df_task := (df_task st)(t := \<lparr>tk_wc = 1, tk_args = [], tk_nolink = False, tk_independent = False\<rparr>)\<rparr>"
    using assms(3) by (auto simp: kaapi_task_alloc_def Let_def)
  note G = assms(1) [unfolded graph_ok_def]
  have h: "handle_ok st1 h (G h) (P h)" if "h \<in> H" for h
    using G that by (auto simp: handle_ok_def st1)
  have a: "plain_mode (ac_mode (df_acc st1 a)) \<and> (\<exists>t<df_ntask st1. ac_task (df_acc st1 a) = Some t \<and> a \<in> set (tk_args (df_task st1 t)))"
    if ha: "h \<in> H" "a \<in> set (group_accs (G h))" for h a
  proof -
    obtain u where "plain_mode (ac_mode (df_acc st a))" "u < df_ntask st" "ac_task (df_acc st a) = Some u"
      "a \<in> set (tk_args (df_task st u))"
      using conjunct1 [OF G, THEN bspec, OF ha(1)] ha(2) by auto
    then show ?thesis by (auto simp: st1 intro!: exI [of _ u])
  qed
  have k: "task_ok H G ((accs(t := [])) u) st1 u" if "u < df_ntask st1" for u
    using G that by (auto simp: st1 task_ok_def less_Suc_eq)
  show "t = df_ntask st" "df_ntask st1 = Suc t" by (simp_all add: st1)
  show "graph_ok H G P (accs(t := [])) st1"
    unfolding graph_ok_def using G h a k by (auto simp: st1)
  show "fresh_ok H G P (Some t) st1"
    using assms(2) by (auto simp: fresh_ok_def st1 less_Suc_eq)
qed

lemma graph_ok_cong:
  assumes "graph_ok H G P accs st"
    and "\<And>a. ac_next (df_acc st' a) = ac_next (df_acc st a) \<and> ac_sync (df_acc st' a) = ac_sync (df_acc st a) \<and>
      ac_task (df_acc st' a) = ac_task (df_acc st a) \<and> ac_mode (df_acc st' a) = ac_mode (df_acc st a)"
    and "\<And>t. tk_args (df_task st' t) = tk_args (df_task st t) \<and> tk_nolink (df_task st' t) = tk_nolink (df_task st t) \<and>
      tk_independent (df_task st' t) = tk_independent (df_task st t)"
    and "df_top st' = df_top st" "df_handle st' = df_handle st" "df_ntask st' = df_ntask st"
  shows "graph_ok H G P accs st'"
proof -
  have h: "handle_ok st' h fs s" if "handle_ok st h fs s" for h fs s
    using that assms(2,4,5) links_cong [of "df_acc st" fs s "df_acc st'"] by (auto simp: handle_ok_def)
  have c: "conc_groups (df_acc st') fs" if "conc_groups (df_acc st) fs" for fs
    using that assms(2) by (auto intro: conc_groups_cong)
  show ?thesis
    using assms(1) h c unfolding graph_ok_def task_ok_def assms(2-6)
    by (simp add: assms(2,3))
qed

lemma insert_task_graph:
  assumes g: "graph_ok H G P accs st" and f: "fresh_ok H G P None st" and as: "\<forall>(h, m)\<in>set as. h \<in> H \<and> plain_mode m"
  shows "\<exists>G' P'. graph_ok H G' P' (accs(df_ntask st := as)) (insert_task as st) \<and> fresh_ok H G' P' None (insert_task as st) \<and>
    df_ntask (insert_task as st) = Suc (df_ntask st)"
proof -
  obtain t st1 where al: "kaapi_task_alloc st = (t, st1)" by (cases "kaapi_task_alloc st")
  note A = graph_ok_alloc [OF g f al]
  let ?st = "fold (add_access t) as st1"
  obtain G' P' where B: "graph_ok H G' P' (accs(t := as)) ?st" "fresh_ok H G' P' (Some t) ?st" "df_ntask ?st = Suc t"
    using add_accesses_graph [OF A(2-4) as] by auto
  have "\<forall>u<df_ntask ?st. task_ok H G' ((accs(t := as)) u) ?st u" using B(1) unfolding graph_ok_def by blast
  then have tk: "task_ok H G' as ?st t" using B(3) spec [of _ t] by auto
  have e: "insert_task as st = kaapi_task_commit t ?st" by (simp add: insert_task_def al)
  have "graph_ok H G' P' (accs(t := as)) (kaapi_task_commit t ?st)"
    by (rule graph_ok_cong [OF B(1)]) (auto simp: kaapi_task_commit_def upd_task_def ready_push_def Let_def)
  moreover have "fresh_ok H G' P' None (kaapi_task_commit t ?st)"
    using B(2,3) tk
    by (auto simp: fresh_ok_def kaapi_task_commit_def upd_task_def ready_push_def Let_def task_ok_def less_Suc_eq)
  moreover have "df_ntask (kaapi_task_commit t ?st) = Suc t"
    using B(3) by (auto simp: kaapi_task_commit_def upd_task_def ready_push_def Let_def)
  ultimately show ?thesis unfolding e A(1) by blast
qed

text \<open>\<open>kaapi_handle_init\<close> of a handle whose \<open>sync0\<close> is at an address of its own.\<close>

definition handles_init :: "nat list \<Rightarrow> dfg \<Rightarrow> dfg" where
  "handles_init hs st = fold (\<lambda>h. kaapi_handle_init h h) hs st"

definition dfg_empty :: "(nat \<Rightarrow> access_node) \<Rightarrow> (nat \<Rightarrow> dfg_task) \<Rightarrow> nat \<Rightarrow> dfg" where
  "dfg_empty ac tk n = \<lparr>df_acc = ac, df_top = n, df_handle = (\<lambda>h. \<lparr>hd_sync0 = h, hd_last = None, hd_sync = None\<rparr>),
     df_task = tk, df_ntask = 0, df_ready = [], df_cnt = 0\<rparr>"

definition dfg_build :: "nat list \<Rightarrow> (nat \<times> amode) list list \<Rightarrow> dfg \<Rightarrow> dfg" where
  "dfg_build hs tss st = fold insert_task tss (handles_init hs st)"

lemma handles_init_acc:
  "distinct hs \<Longrightarrow> (\<forall>h. hd_sync0 (df_handle st h) = h) \<Longrightarrow>
   df_acc (handles_init hs st) = (\<lambda>a. if a \<in> set hs then \<lparr>ac_mode = KAAPI_ACCESS_SYNC, ac_kind = True, ac_ready = False, ac_data = a,
      ac_next = None, ac_sync = None, ac_task = None, ac_wc = 1\<rparr> else df_acc st a) \<and>
   (\<forall>h. df_handle (handles_init hs st) h = (if h \<in> set hs then \<lparr>hd_sync0 = h, hd_last = Some h, hd_sync = None\<rparr> else df_handle st h)) \<and>
   df_top (handles_init hs st) = df_top st \<and> df_ntask (handles_init hs st) = df_ntask st \<and>
   df_ready (handles_init hs st) = df_ready st"
proof (induction hs arbitrary: st)
  case (Cons h hs)
  let ?st = "kaapi_handle_init h h st"
  have 1: "df_acc ?st = (df_acc st)(h := \<lparr>ac_mode = KAAPI_ACCESS_SYNC, ac_kind = True, ac_ready = False, ac_data = h,
      ac_next = None, ac_sync = None, ac_task = None, ac_wc = 1\<rparr>)"
    "df_handle ?st = (df_handle st)(h := \<lparr>hd_sync0 = h, hd_last = Some h, hd_sync = None\<rparr>)"
    "df_top ?st = df_top st" "df_ntask ?st = df_ntask st" "df_ready ?st = df_ready st"
    using Cons.prems(2) by (auto simp: kaapi_handle_init_def kaapi_access_sync_init_def upd_acc_def upd_handle_def Let_def fun_eq_iff
        intro: dfg_handle.equality)
  have "handles_init (h # hs) st = handles_init hs ?st" by (simp add: handles_init_def)
  moreover have "\<forall>h. hd_sync0 (df_handle ?st h) = h" using Cons.prems(2) by (simp add: 1)
  ultimately show ?case using Cons.IH [of ?st] Cons.prems(1) by (auto simp: 1 fun_eq_iff)
qed (simp add: handles_init_def)

lemma dfg_init_ok:
  assumes "distinct hs" "\<forall>h\<in>set hs. h < n"
  shows "graph_ok (set hs) (\<lambda>_. []) (\<lambda>h. h) accs (handles_init hs (dfg_empty ac tk n)) \<and>
    fresh_ok (set hs) (\<lambda>_. []) (\<lambda>h. h) None (handles_init hs (dfg_empty ac tk n)) \<and>
    df_ntask (handles_init hs (dfg_empty ac tk n)) = 0"
  using handles_init_acc [OF assms(1), of "dfg_empty ac tk n"] assms(2)
  by (auto simp: dfg_empty_def graph_ok_def fresh_ok_def handle_ok_def node_set_def)

lemma insert_tasks_graph:
  assumes "graph_ok H G P accs st" "fresh_ok H G P None st" "\<forall>as\<in>set us. \<forall>(h, m)\<in>set as. h \<in> H \<and> plain_mode m"
  shows "\<exists>G P accs'. graph_ok H G P accs' (fold insert_task us st) \<and> fresh_ok H G P None (fold insert_task us st) \<and>
      df_ntask (fold insert_task us st) = df_ntask st + length us \<and>
      (\<forall>t. accs' t = (if df_ntask st \<le> t \<and> t < df_ntask st + length us then us ! (t - df_ntask st) else accs t))"
  using assms
proof (induction us arbitrary: st G P accs)
  case (Cons as us)
  obtain G' P' where 1: "graph_ok H G' P' (accs(df_ntask st := as)) (insert_task as st)"
    "fresh_ok H G' P' None (insert_task as st)" "df_ntask (insert_task as st) = Suc (df_ntask st)"
    using insert_task_graph [OF Cons.prems(1,2), of as] Cons.prems(3) by auto
  have "\<forall>as\<in>set us. \<forall>(h, m)\<in>set as. h \<in> H \<and> plain_mode m" using Cons.prems(3) by simp
  from Cons.IH [OF 1(1,2) this] obtain G2 P2 accs2 where 2:
    "graph_ok H G2 P2 accs2 (fold insert_task us (insert_task as st))"
    "fresh_ok H G2 P2 None (fold insert_task us (insert_task as st))"
    "df_ntask (fold insert_task us (insert_task as st)) = Suc (df_ntask st) + length us"
    "\<forall>t. accs2 t = (if Suc (df_ntask st) \<le> t \<and> t < Suc (df_ntask st) + length us then us ! (t - Suc (df_ntask st))
       else (accs(df_ntask st := as)) t)" unfolding 1(3) by blast
  have "\<forall>t. accs2 t = (if df_ntask st \<le> t \<and> t < df_ntask st + length (as # us) then (as # us) ! (t - df_ntask st) else accs t)"
    using 2(4) by (auto simp: nth_Cons' Suc_le_eq)
  moreover have "df_ntask (fold insert_task us (insert_task as st)) = df_ntask st + length (as # us)" using 2(3) by simp
  ultimately show ?case unfolding fold_simps using 2(1,2) by blast
next
  case (Nil st G P accs)
  then show ?case by (intro exI [of _ G] exI [of _ P] exI [of _ accs]) auto
qed

lemma dfg_build_ok:
  assumes "distinct hs" "\<forall>h\<in>set hs. h < n" "\<forall>as\<in>set tss. \<forall>(h, m)\<in>set as. h \<in> set hs \<and> plain_mode m"
  shows "\<exists>G P. graph_ok (set hs) G P (\<lambda>t. tss ! t) (dfg_build hs tss (dfg_empty ac tk n)) \<and>
    fresh_ok (set hs) G P None (dfg_build hs tss (dfg_empty ac tk n)) \<and>
    df_ntask (dfg_build hs tss (dfg_empty ac tk n)) = length tss"
proof -
  let ?st = "handles_init hs (dfg_empty ac tk n)"
  have i: "graph_ok (set hs) (\<lambda>_. []) (\<lambda>h. h) (\<lambda>_. []) ?st" "fresh_ok (set hs) (\<lambda>_. []) (\<lambda>h. h) None ?st" "df_ntask ?st = 0"
    using dfg_init_ok [OF assms(1,2)] by blast+
  from insert_tasks_graph [OF i(1,2) assms(3)]
  obtain G P accs' where r: "graph_ok (set hs) G P accs' (fold insert_task tss ?st)"
    "fresh_ok (set hs) G P None (fold insert_task tss ?st)" "df_ntask (fold insert_task tss ?st) = length tss"
    "\<forall>t. accs' t = (if 0 \<le> t \<and> t < 0 + length tss then tss ! (t - 0) else [])" unfolding i(3) by auto
  have "graph_ok (set hs) G P (\<lambda>t. tss ! t) (fold insert_task tss ?st)"
    using r(1,3,4) unfolding graph_ok_def by simp
  with r(2,3) show ?thesis unfolding dfg_build_def by blast
qed
end
