(* ===== verification/Dataflow_Run.thy ===== *)
theory Dataflow_Run
  imports Dataflow
begin

text \<open>
  The execution of a data-flow graph of \<open>kaapi_task.c\<close>: what \<open>kaapi_sched_activate_syncpoint\<close> and
  \<open>kaapi_sched_activate_successors\<close> do to the counters of a graph built by \<open>kaapi_update_dependencies\<close>, and
  what every run of the ready tasks guarantees.
\<close>

section \<open>Activation\<close>

text \<open>A group is active when its point has been reached: the first one once the handle has been started, the
  others once every access of the group before is completed.\<close>

fun active_accs :: "bool \<Rightarrow> nat set \<Rightarrow> groups \<Rightarrow> nat set" where
  "active_accs on D [] = {}"
| "active_accs on D ((x, g) # fs) = (if on then set g \<union> active_accs (set g \<subseteq> D) D fs else {})"

definition first_group :: "groups \<Rightarrow> nat list" where
  "first_group fs = (case fs of [] \<Rightarrow> [] | (x, g) # _ \<Rightarrow> g)"

lemma first_group_simps [simp]: "first_group [] = []" "first_group ((x, g) # fs) = g"
  by (simp_all add: first_group_def)

lemma active_accs_sub: "active_accs on D fs \<subseteq> set (group_accs fs)"
  by (induction on D fs rule: active_accs.induct) auto

lemma active_accs_False [simp]: "active_accs False D fs = {}"
  by (cases fs) auto

lemma active_accs_cong:
  "(\<And>a. a \<in> set (group_accs fs) \<Longrightarrow> (a \<in> D') = (a \<in> D)) \<Longrightarrow> active_accs on D' fs = active_accs on D fs"
proof (induction on D fs rule: active_accs.induct)
  case (2 on D x g fs)
  have "(set g \<subseteq> D') = (set g \<subseteq> D)" using 2(2) by auto
  then show ?case using 2 by simp
qed simp

lemma active_start:
  assumes "\<forall>(x, g)\<in>set fs. g \<noteq> []" "D \<inter> set (group_accs fs) = {}"
  shows "active_accs True D fs = set (first_group fs)"
proof (cases fs)
  case (Cons p fs')
  then obtain x g where "p = (x, g)" "g \<noteq> []" "D \<inter> set g = {}" using assms by (cases p) auto
  then have "\<not> set g \<subseteq> D" by (cases g) auto
  with Cons \<open>p = (x, g)\<close> show ?thesis by simp
qed simp

lemma active_insert:
  assumes "distinct (group_accs (f @ (x, g) # f2))" "a \<in> set g" "a \<in> active_accs on D (f @ (x, g) # f2)" "a \<notin> D"
    and "D \<inter> set (group_accs (f @ (x, g) # f2)) \<subseteq> active_accs on D (f @ (x, g) # f2)"
    and "\<forall>(x, g)\<in>set f2. g \<noteq> []"
  shows "active_accs on (insert a D) (f @ (x, g) # f2) = active_accs on D (f @ (x, g) # f2) \<union>
    (if set g \<subseteq> insert a D then set (first_group f2) else {})"
  using assms
proof (induction f arbitrary: on)
  case Nil
  then have "on" by (auto split: if_splits)
  moreover have g: "\<not> set g \<subseteq> D" using Nil(2,4) by auto
  moreover have "D \<inter> set (group_accs f2) = {}" using Nil(1,5) g \<open>on\<close> by auto
  then have "insert a D \<inter> set (group_accs f2) = {}" using Nil(1,2) by auto
  then have "active_accs True (insert a D) f2 = set (first_group f2)" by (intro active_start Nil(6))
  ultimately show ?case by auto
next
  case (Cons p f)
  obtain y h where p: "p = (y, h)" by (cases p)
  have a: "a \<notin> set h" "a \<in> set (group_accs (f @ (x, g) # f2))" using Cons.prems(1,2) p by auto
  have "on" using Cons.prems(3) p by (auto split: if_splits)
  have i: "(set h \<subseteq> insert a D) = (set h \<subseteq> D)" using a by auto
  have d: "distinct (group_accs (f @ (x, g) # f2))" "set h \<inter> set (group_accs (f @ (x, g) # f2)) = {}"
    using Cons.prems(1) p by auto
  have "active_accs (set h \<subseteq> D) (insert a D) (f @ (x, g) # f2) = active_accs (set h \<subseteq> D) D (f @ (x, g) # f2) \<union>
      (if set g \<subseteq> insert a D then set (first_group f2) else {})"
    by (rule Cons.IH [OF d(1) Cons.prems(2) _ Cons.prems(4) _ Cons.prems(6)]) (use Cons.prems(3,5) \<open>on\<close> p a d(2) in auto)
  then show ?case using \<open>on\<close> p i by auto
qed

lemma active_prefix:
  assumes "b \<in> active_accs on D (f @ fs)" "b \<in> set (group_accs fs)" "distinct (group_accs (f @ fs))"
  shows "set (group_accs f) \<subseteq> D"
  using assms
proof (induction f arbitrary: on)
  case (Cons p f)
  obtain y h where p: "p = (y, h)" by (cases p)
  have "b \<notin> set h" using Cons.prems(2,3) p by auto
  then have "b \<in> active_accs (set h \<subseteq> D) D (f @ fs)" using Cons.prems(1) p by (auto split: if_splits)
  then have "set h \<subseteq> D" "b \<in> active_accs True D (f @ fs)" by (cases "set h \<subseteq> D"; simp)+
  then show ?case using Cons.IH [of True] Cons.prems(2,3) p by auto
qed simp

text \<open>Completing one access updates the counter of the point that follows its group.\<close>

lemma counts_complete:
  assumes "counts ac D (f @ (x, g) # f2) s" "distinct (s # group_addrs (f @ (x, g) # f2))" "a \<in> set g" "a \<notin> D"
    and "ac_wc (ac' (next_node f2 s)) = ac_wc (ac (next_node f2 s)) - 1"
    and "\<And>y. y \<noteq> next_node f2 s \<Longrightarrow> ac_wc (ac' y) = ac_wc (ac y)"
  shows "counts ac' (insert a D) (f @ (x, g) # f2) s \<and> next_node (f @ (x, g) # f2) s \<noteq> next_node f2 s"
  using assms
proof (induction f)
  case Nil
  have y: "next_node f2 s \<in> insert s (set (group_addrs f2))" using next_node_in [of f2 s] by auto
  have "distinct g" using Nil(2) by auto
  then have "length (filter (\<lambda>b. b \<notin> D) g) = Suc (length (filter (\<lambda>b. b \<notin> insert a D) g))"
    using Nil(3,4) by (induction g) (auto intro!: arg_cong [where f = length] filter_cong)
  moreover have na: "a \<notin> set (group_accs f2)" using Nil(2,3) group_accs_addrs by auto
  have "counts ac' (insert a D) f2 s"
  proof (rule counts_cong)
    show "counts ac D f2 s" using Nil(1) by simp
    show "ac_wc (ac' y) = ac_wc (ac y)" if "y \<noteq> next_node f2 s" for y using Nil(6) that .
    show "distinct (s # group_addrs f2)" using Nil(2) by simp
    show "(b \<in> insert a D) = (b \<in> D)" if "b \<in> set (group_accs f2)" for b using that na by auto
  qed
  moreover have "x \<noteq> next_node f2 s" using y Nil(2) by auto
  ultimately show ?case using Nil by simp
next
  case (Cons p f)
  obtain y h where p: "p = (y, h)" by (cases p)
  have IH: "counts ac' (insert a D) (f @ (x, g) # f2) s \<and> next_node (f @ (x, g) # f2) s \<noteq> next_node f2 s"
    using Cons.prems p by (intro Cons.IH) auto
  moreover have "a \<notin> set h" using Cons.prems(2,3) p by auto
  then have "filter (\<lambda>b. b \<notin> insert a D) h = filter (\<lambda>b. b \<notin> D) h" by (intro filter_cong) auto
  moreover have "next_node f2 s \<in> insert s (set (group_addrs f2))" using next_node_in [of f2 s] by auto
  then have "y \<noteq> next_node f2 s" using Cons.prems(2) p by auto
  ultimately show ?case using Cons.prems(1,6) p by simp
qed

lemma links_sync:
  "links ac (f @ (x, g) # f2) s \<Longrightarrow> a \<in> set g \<Longrightarrow> ac_sync (ac a) = Some (next_node f2 s) \<and> links ac f2 s"
  by (induction f) auto

lemma group_of:
  assumes "a \<in> set (group_accs fs)"
  obtains f x g f2 where "fs = f @ (x, g) # f2" "a \<in> set g"
proof -
  obtain p where "p \<in> set fs" "a \<in> set (snd p)" using assms by (auto simp: group_accs_def)
  moreover from this obtain f f2 where "fs = f @ p # f2" by (meson split_list)
  ultimately show thesis using that [of f "fst p" "snd p" f2] by simp
qed

text \<open>The counters of the tasks and the ready list, when the accesses \<open>A\<close> are active and the tasks \<open>E\<close> have
  been taken.\<close>

definition tasks_run :: "nat set \<Rightarrow> nat set \<Rightarrow> dfg \<Rightarrow> bool" where
  "tasks_run A E st \<longleftrightarrow>
     (\<forall>t<df_ntask st. tk_wc (df_task st t) = int (length (filter (\<lambda>a. a \<notin> A) (tk_args (df_task st t))))) \<and>
     distinct (df_ready st) \<and>
     set (df_ready st) = {t. t < df_ntask st \<and> set (tk_args (df_task st t)) \<subseteq> A \<and> t \<notin> E} \<and>
     (\<forall>t\<in>E. t < df_ntask st \<and> set (tk_args (df_task st t)) \<subseteq> A)"

definition args_ok :: "dfg \<Rightarrow> bool" where
  "args_ok st \<longleftrightarrow> (\<forall>t<df_ntask st. distinct (tk_args (df_task st t)) \<and>
     (\<forall>a\<in>set (tk_args (df_task st t)). ac_task (df_acc st a) = Some t))"

definition access_owned :: "dfg \<Rightarrow> nat \<Rightarrow> bool" where
  "access_owned st a \<longleftrightarrow> (\<exists>t<df_ntask st. ac_task (df_acc st a) = Some t \<and> a \<in> set (tk_args (df_task st t)))"

text \<open>Activation and the counters of the points change none of the links.\<close>

definition same_links :: "dfg \<Rightarrow> dfg \<Rightarrow> bool" where
  "same_links st st' \<longleftrightarrow>
     (\<forall>a. ac_next (df_acc st' a) = ac_next (df_acc st a) \<and> ac_sync (df_acc st' a) = ac_sync (df_acc st a) \<and>
        ac_task (df_acc st' a) = ac_task (df_acc st a) \<and> ac_mode (df_acc st' a) = ac_mode (df_acc st a)) \<and>
     (\<forall>t. tk_args (df_task st' t) = tk_args (df_task st t) \<and> tk_nolink (df_task st' t) = tk_nolink (df_task st t) \<and>
        tk_independent (df_task st' t) = tk_independent (df_task st t)) \<and>
     df_top st' = df_top st \<and> df_handle st' = df_handle st \<and> df_ntask st' = df_ntask st"

lemma same_links_refl [simp]: "same_links st st"
  by (simp add: same_links_def)

lemma same_links_trans: "same_links st st' \<Longrightarrow> same_links st' st'' \<Longrightarrow> same_links st st''"
  by (simp add: same_links_def)

lemma same_links_graph: "graph_ok H G P accs st \<Longrightarrow> same_links st st' \<Longrightarrow> graph_ok H G P accs st'"
  by (rule graph_ok_cong) (auto simp: same_links_def)

lemma same_links_args: "args_ok st \<Longrightarrow> same_links st st' \<Longrightarrow> args_ok st'"
  "access_owned st a \<Longrightarrow> same_links st st' \<Longrightarrow> access_owned st' a"
  by (auto simp: args_ok_def access_owned_def same_links_def)

lemma activate_access_links [simp]: "same_links st (activate_access a st)"
  by (auto simp: same_links_def activate_access_def upd_acc_def upd_task_def ready_push_def Let_def)

lemma activate_access_wc [simp]: "ac_wc (df_acc (activate_access a st) x) = ac_wc (df_acc st x)"
  by (auto simp: activate_access_def upd_acc_def upd_task_def ready_push_def Let_def)

lemma filter_insert_length:
  "distinct as \<Longrightarrow> a \<in> set as \<Longrightarrow> a \<notin> A \<Longrightarrow>
   length (filter (\<lambda>b. b \<notin> A) as) = Suc (length (filter (\<lambda>b. b \<notin> insert a A) as))"
proof (induction as)
  case (Cons b as)
  show ?case
  proof (cases "a = b")
    case True
    then have "filter (\<lambda>c. c \<notin> insert a A) as = filter (\<lambda>c. c \<notin> A) as" using Cons.prems by (intro filter_cong) auto
    then show ?thesis using True Cons.prems(3) by simp
  qed (use Cons in auto)
qed simp

lemma filter_insert_other: "a \<notin> set as \<Longrightarrow> filter (\<lambda>b. b \<notin> insert a A) as = filter (\<lambda>b. b \<notin> A) as"
  by (rule filter_cong) auto

lemma activate_access_run:
  assumes T: "tasks_run A E st" and ok: "args_ok st" and a: "access_owned st a" "a \<notin> A"
  shows "tasks_run (insert a A) E (activate_access a st)"
proof -
  obtain t where t: "t < df_ntask st" "ac_task (df_acc st a) = Some t" "a \<in> set (tk_args (df_task st t))"
    using a(1) by (auto simp: access_owned_def)
  have other: "a \<notin> set (tk_args (df_task st u))" if "u < df_ntask st" "u \<noteq> t" for u
    using ok that t(2) by (auto simp: args_ok_def)
  have d: "distinct (tk_args (df_task st t))" using ok t(1) by (simp add: args_ok_def)
  have wc: "tk_wc (df_task st t) = int (length (filter (\<lambda>b. b \<notin> insert a A) (tk_args (df_task st t)))) + 1"
    using T t filter_insert_length [OF d t(3) a(2)] by (simp add: tasks_run_def)
  have zero: "tk_wc (df_task st t) - 1 = 0 \<longleftrightarrow> set (tk_args (df_task st t)) \<subseteq> insert a A"
    using wc by (auto simp: filter_empty_conv)
  have nr: "t \<notin> set (df_ready st)" using T t a(2) by (auto simp: tasks_run_def)
  have nE: "t \<notin> E" using T t(3) a(2) by (auto simp: tasks_run_def)
  let ?st = "activate_access a st"
  have st: "df_ntask ?st = df_ntask st" "\<And>u. tk_args (df_task ?st u) = tk_args (df_task st u)"
    "df_task ?st t = (df_task st t)\<lparr>tk_wc := tk_wc (df_task st t) - 1\<rparr>" "\<And>u. u \<noteq> t \<Longrightarrow> df_task ?st u = df_task st u"
    "df_ready ?st = (if tk_wc (df_task st t) - 1 = 0 then df_ready st @ [t] else df_ready st)"
    using t(2) by (auto simp: activate_access_def upd_acc_def upd_task_def ready_push_def Let_def)
  have ready: "(u \<in> set (df_ready ?st)) = (u < df_ntask st \<and> set (tk_args (df_task st u)) \<subseteq> insert a A \<and> u \<notin> E)" for u
  proof (cases "u = t")
    case True
    then show ?thesis using nr nE t(1) zero by (auto simp: st(5))
  next
    case False
    have "u < df_ntask st \<Longrightarrow> (set (tk_args (df_task st u)) \<subseteq> insert a A) = (set (tk_args (df_task st u)) \<subseteq> A)"
      using other [of u] False by auto
    then show ?thesis using T False by (auto simp: st(5) tasks_run_def)
  qed
  have "tk_wc (df_task ?st u) = int (length (filter (\<lambda>b. b \<notin> insert a A) (tk_args (df_task st u))))" if "u < df_ntask st" for u
  proof (cases "u = t")
    case True then show ?thesis using wc by (simp add: st(3))
  next
    case False then show ?thesis using T that filter_insert_other [OF other [OF that False], of A] by (simp add: st(4) tasks_run_def)
  qed
  moreover have "distinct (df_ready ?st)" using T nr by (auto simp: st(5) tasks_run_def)
  moreover have "\<forall>u\<in>E. u < df_ntask ?st \<and> set (tk_args (df_task ?st u)) \<subseteq> insert a A"
    using T by (auto simp: st tasks_run_def)
  ultimately show ?thesis unfolding tasks_run_def st(1,2) using ready by auto
qed

lemma activate_fold_run:
  assumes "tasks_run A E st" "args_ok st" "distinct as" "set as \<inter> A = {}" "\<forall>a\<in>set as. access_owned st a"
  shows "tasks_run (A \<union> set as) E (fold activate_access as st) \<and> same_links st (fold activate_access as st) \<and>
    (\<forall>x. ac_wc (df_acc (fold activate_access as st) x) = ac_wc (df_acc st x))"
  using assms
proof (induction as arbitrary: st A)
  case (Cons a as)
  let ?st = "activate_access a st"
  have l: "same_links st ?st" by simp
  have "tasks_run (insert a A) E ?st" using Cons.prems by (intro activate_access_run) auto
  moreover have "args_ok ?st" using Cons.prems(2) l by (rule same_links_args)
  moreover have "\<forall>b\<in>set as. access_owned ?st b" using Cons.prems(5) same_links_args(2) [OF _ l] by auto
  ultimately have "tasks_run (insert a A \<union> set as) E (fold activate_access as ?st) \<and> same_links ?st (fold activate_access as ?st) \<and>
    (\<forall>x. ac_wc (df_acc (fold activate_access as ?st) x) = ac_wc (df_acc ?st x))"
    using Cons.prems by (intro Cons.IH) auto
  then show ?case using same_links_trans [OF l] by simp
qed simp

text \<open>The walk along a group ends, and activates its accesses in order.\<close>

lemma activate_list_at:
  "list_at (\<lambda>x. ac_next (df_acc st x)) p as \<Longrightarrow> activate_list p st = Some (fold activate_access as st)"
proof (induction as arbitrary: p st)
  case Nil then show ?case by (simp add: activate_list.simps)
next
  case (Cons a as)
  let ?st = "activate_access a st"
  have l: "ac_next (df_acc ?st x) = ac_next (df_acc st x)" for x
    using activate_access_links [of st a] by (simp add: same_links_def)
  have "list_at (\<lambda>x. ac_next (df_acc ?st x)) (ac_next (df_acc ?st a)) as" using Cons.prems by (simp add: l)
  from Cons.IH [OF this] show ?case using Cons.prems by (subst activate_list.simps) (simp add: Let_def)
qed

lemma activate_syncpoint_effect:
  assumes "links (df_acc st) f2 s" "y = next_node f2 s"
  defines "st1 \<equiv> upd_acc y (ac_wc_update (\<lambda>w. w - 1)) st"
  shows "kaapi_sched_activate_syncpoint y st =
    Some (if ac_wc (df_acc st y) = 1 then fold activate_access (first_group f2) st1 else st1)"
proof -
  have "list_at (\<lambda>x. ac_next (df_acc st1 x)) (ac_next (df_acc st1 y)) (first_group f2)"
  proof (cases f2)
    case Nil then show ?thesis using assms by (simp add: upd_acc_def)
  next
    case (Cons p f3)
    obtain x g where "p = (x, g)" by (cases p)
    then show ?thesis using assms Cons by (auto simp: upd_acc_def elim!: list_at_cong)
  qed
  from activate_list_at [OF this] show ?thesis
    by (auto simp: kaapi_sched_activate_syncpoint_def Let_def st1_def upd_acc_def)
qed

section \<open>The invariant of a run\<close>

text \<open>The handles \<open>S\<close> have been started, the accesses \<open>D\<close> completed, the tasks \<open>E\<close> taken.\<close>

definition active_set :: "nat set \<Rightarrow> (nat \<Rightarrow> groups) \<Rightarrow> nat set \<Rightarrow> nat set \<Rightarrow> nat set" where
  "active_set H G S D = (\<Union>h\<in>H. active_accs (h \<in> S) D (G h))"

definition run_ok ::
  "nat set \<Rightarrow> (nat \<Rightarrow> groups) \<Rightarrow> (nat \<Rightarrow> nat) \<Rightarrow> (nat \<Rightarrow> (nat \<times> amode) list) \<Rightarrow> nat set \<Rightarrow> nat set \<Rightarrow> nat set \<Rightarrow> dfg \<Rightarrow> bool" where
  "run_ok H G P accs S D E st \<longleftrightarrow> graph_ok H G P accs st \<and>
     (\<forall>h\<in>H. counts (df_acc st) D (G h) (P h) \<and>
        ac_wc (df_acc st (next_node (G h) (P h))) = (if h \<in> S then 0 else 1)) \<and>
     D \<subseteq> active_set H G S D \<and> tasks_run (active_set H G S D) E st"

lemma graph_okD:
  assumes "graph_ok H G P accs st" "h \<in> H"
  shows "handle_ok st h (G h) (P h)" "distinct (P h # group_addrs (G h))" "links (df_acc st) (G h) (P h)"
    "distinct (group_accs (G h))" "\<forall>(x, g)\<in>set (G h). g \<noteq> []" "\<forall>a\<in>set (group_accs (G h)). access_owned st a"
proof -
  show h: "handle_ok st h (G h) (P h)" using assms by (simp add: graph_ok_def)
  then show d: "distinct (P h # group_addrs (G h))" and l: "links (df_acc st) (G h) (P h)" by (auto simp: handle_ok_def)
  have "distinct (group_addrs fs) \<Longrightarrow> distinct (group_accs fs)" for fs
    by (induction fs) (use group_accs_addrs in fastforce)+
  then show "distinct (group_accs (G h))" using d by simp
  show "\<forall>(x, g)\<in>set (G h). g \<noteq> []" using links_nonempty [OF l] by blast
  show "\<forall>a\<in>set (group_accs (G h)). access_owned st a" using assms by (auto simp: graph_ok_def access_owned_def)
qed

lemma graph_ok_args: "graph_ok H G P accs st \<Longrightarrow> args_ok st"
  by (auto simp: graph_ok_def args_ok_def task_ok_def)

lemma graph_ok_disjoint:
  assumes "graph_ok H G P accs st" "h \<in> H" "h' \<in> H" "h \<noteq> h'" "x \<in> node_set (G h) (P h)"
  shows "x \<notin> node_set (G h') (P h')"
  using assms unfolding graph_ok_def by blast

lemma active_set_other:
  assumes "graph_ok H G P accs st" "h \<in> H" "a \<in> set (group_accs (G h))"
  shows "a \<in> active_set H G S D \<longleftrightarrow> a \<in> active_accs (h \<in> S) D (G h)"
proof
  assume "a \<in> active_set H G S D"
  then obtain h' where h': "h' \<in> H" "a \<in> active_accs (h' \<in> S) D (G h')" by (auto simp: active_set_def)
  have "a \<in> node_set (G h') (P h')" "a \<in> node_set (G h) (P h)"
    using h'(2) active_accs_sub [of "h' \<in> S" D "G h'"] node_set_finite_facts(2) assms(3) by blast+
  then have "h' = h" using graph_ok_disjoint [OF assms(1,2) h'(1)] by blast
  with h'(2) show "a \<in> active_accs (h \<in> S) D (G h)" by simp
qed (use assms(2) in \<open>auto simp: active_set_def\<close>)

lemma complete_access:
  assumes R: "run_ok H G P accs S D E st" and h: "h \<in> H" and a: "a \<in> set (group_accs (G h))" "a \<in> active_set H G S D" "a \<notin> D"
  shows "\<exists>st'. kaapi_sched_activate_syncpoint (the (ac_sync (df_acc st a))) st = Some st' \<and>
    run_ok H G P accs S (insert a D) E st' \<and> same_links st st'"
proof -
  have g: "graph_ok H G P accs st" using R by (simp add: run_ok_def)
  note O = graph_okD [OF g h]
  obtain f x gr f2 where fs: "G h = f @ (x, gr) # f2" "a \<in> set gr" using a(1) by (rule group_of)
  let ?y = "next_node f2 (P h)"
  have sy: "ac_sync (df_acc st a) = Some ?y" "links (df_acc st) f2 (P h)"
    using links_sync [of "df_acc st" f x gr f2 "P h" a] O(3) fs by auto
  let ?st1 = "upd_acc ?y (ac_wc_update (\<lambda>w. w - 1)) st"
  let ?new = "first_group f2"
  let ?st' = "if ac_wc (df_acc st ?y) = 1 then fold activate_access ?new ?st1 else ?st1"
  let ?A = "active_set H G S D"
  have cnt: "counts (df_acc st) D (f @ (x, gr) # f2) (P h)" using R h fs(1) by (auto simp: run_ok_def)
  have y_in: "?y \<in> node_set (G h) (P h)" using next_node_in [of f2 "P h"] fs(1) by (auto simp: node_set_def)
  have "counts (df_acc st) D ((x, gr) # f2) (P h)" using cnt by (induction f) auto
  then have wy: "ac_wc (df_acc st ?y) = int (length (filter (\<lambda>b. b \<notin> D) gr))" by simp
  have dg: "distinct gr" using O(4) fs(1) by simp
  have one: "ac_wc (df_acc st ?y) = 1 \<longleftrightarrow> set gr \<subseteq> insert a D"
    using filter_insert_length [OF dg fs(2) a(3)] by (auto simp: wy filter_empty_conv)
  have l1: "same_links st ?st1" by (simp add: same_links_def upd_acc_def)
  have g1: "graph_ok H G P accs ?st1" by (rule same_links_graph [OF g l1])
  have aA: "a \<in> active_accs (h \<in> S) D (f @ (x, gr) # f2)" using a(1,2) active_set_other [OF g h] fs(1) by metis
  have Dact: "D \<inter> set (group_accs (f @ (x, gr) # f2)) \<subseteq> active_accs (h \<in> S) D (f @ (x, gr) # f2)"
  proof
    fix b assume "b \<in> D \<inter> set (group_accs (f @ (x, gr) # f2))"
    then have "b \<in> active_set H G S D" "b \<in> set (group_accs (G h))" using R fs(1) by (auto simp: run_ok_def)
    then show "b \<in> active_accs (h \<in> S) D (f @ (x, gr) # f2)" using active_set_other [OF g h, of b S D] fs(1) by simp
  qed
  have ins: "active_accs (h \<in> S) (insert a D) (G h) = active_accs (h \<in> S) D (G h) \<union> (if set gr \<subseteq> insert a D then set ?new else {})"
    unfolding fs(1) by (rule active_insert [OF _ fs(2) aA a(3) Dact]) (use O(4,5) fs(1) in auto)
  have new_in: "set ?new \<subseteq> set (group_accs (G h))" by (cases f2) (auto simp: fs(1))
  have new_A: "set ?new \<inter> ?A = {}"
  proof (rule ccontr)
    assume "set ?new \<inter> ?A \<noteq> {}"
    then obtain b where b: "b \<in> set ?new" "b \<in> ?A" by blast
    have "b \<in> set (group_accs f2)" using b(1) by (cases f2) auto
    moreover have "b \<in> active_accs (h \<in> S) D ((f @ [(x, gr)]) @ f2)"
      using b new_in active_set_other [OF g h, of b S D] fs(1) by auto
    ultimately have "set (group_accs (f @ [(x, gr)])) \<subseteq> D"
      using O(4) fs(1) by (intro active_prefix [of b]) auto
    then show False using fs(2) a(3) by auto
  qed
  have other: "active_accs (h' \<in> S) (insert a D) (G h') = active_accs (h' \<in> S) D (G h')" if "h' \<in> H" "h' \<noteq> h" for h'
  proof (rule active_accs_cong)
    fix b assume "b \<in> set (group_accs (G h'))"
    then have "b \<in> node_set (G h') (P h')" by (rule subsetD [OF node_set_finite_facts(2)])
    moreover have "a \<notin> node_set (G h') (P h')"
      by (rule graph_ok_disjoint [OF g h that(1) that(2) [symmetric]]) (rule subsetD [OF node_set_finite_facts(2) a(1)])
    ultimately have "b \<noteq> a" by blast
    then show "(b \<in> insert a D) = (b \<in> D)" by simp
  qed
  have A': "active_set H G S (insert a D) = ?A \<union> (if set gr \<subseteq> insert a D then set ?new else {})"
  proof -
    have "active_set H G S (insert a D) = (\<Union>h'\<in>H. active_accs (h' \<in> S) D (G h') \<union>
        (if h' = h \<and> set gr \<subseteq> insert a D then set ?new else {}))"
      unfolding active_set_def
    proof (rule SUP_cong [OF refl])
      fix h' assume "h' \<in> H"
      then show "active_accs (h' \<in> S) (insert a D) (G h') = active_accs (h' \<in> S) D (G h') \<union>
          (if h' = h \<and> set gr \<subseteq> insert a D then set ?new else {})"
        using ins other [of h'] by (cases "h' = h") simp_all
    qed
    also have "\<dots> = ?A \<union> (if set gr \<subseteq> insert a D then set ?new else {})"
      using h by (auto simp: active_set_def split: if_splits)
    finally show ?thesis .
  qed
  have T1: "tasks_run ?A E ?st1"
    using R by (simp add: run_ok_def tasks_run_def upd_acc_def)
  have ow: "\<forall>b\<in>set ?new. access_owned ?st1 b"
    using O(6) new_in same_links_args(2) [OF _ l1] by blast
  have dn: "distinct ?new" using O(4) fs(1) by (cases f2) auto
  have fold: "tasks_run (?A \<union> set ?new) E (fold activate_access ?new ?st1)" "same_links ?st1 (fold activate_access ?new ?st1)"
    "\<forall>x. ac_wc (df_acc (fold activate_access ?new ?st1) x) = ac_wc (df_acc ?st1 x)"
    using activate_fold_run [OF T1 graph_ok_args [OF g1] dn new_A ow] by blast+
  have l': "same_links st ?st'" using l1 fold(2) same_links_trans by auto
  have wc': "ac_wc (df_acc ?st' z) = (if z = ?y then ac_wc (df_acc st z) - 1 else ac_wc (df_acc st z))" for z
    using fold(3) by (simp add: upd_acc_def)
  have T': "tasks_run (active_set H G S (insert a D)) E ?st'"
    using T1 fold(1) one by (simp add: A')
  have C': "counts (df_acc ?st') (insert a D) (G h') (P h') \<and> ac_wc (df_acc ?st' (next_node (G h') (P h'))) = (if h' \<in> S then 0 else 1)"
    if h': "h' \<in> H" for h'
  proof (cases "h' = h")
    case True
    have "counts (df_acc ?st') (insert a D) (f @ (x, gr) # f2) (P h) \<and> next_node (f @ (x, gr) # f2) (P h) \<noteq> ?y"
      using counts_complete [OF cnt _ fs(2) a(3), of "df_acc ?st'"] O(2) fs(1) wc' by auto
    then show ?thesis using True R h fs(1) wc' by (auto simp: run_ok_def)
  next
    case False
    have no: "?y \<notin> node_set (G h') (P h')" "a \<notin> set (group_accs (G h'))"
      using graph_ok_disjoint [OF g h h' False [symmetric]] y_in subsetD [OF node_set_finite_facts(2) a(1), of "P h"]
        node_set_finite_facts(2) [of "G h'" "P h'"] by blast+
    have "counts (df_acc ?st') (insert a D) (G h') (P h')"
      by (rule counts_cong [of "df_acc st" D]) (use R h' no wc' graph_okD(2) [OF g h'] in \<open>auto simp: run_ok_def node_set_def\<close>)
    moreover have "next_node (G h') (P h') \<noteq> ?y" using no(1) node_set_finite_facts(1) [of "G h'" "P h'"] by metis
    ultimately show ?thesis using R h' wc' by (simp add: run_ok_def)
  qed
  have "insert a D \<subseteq> active_set H G S (insert a D)" using R a(2) by (auto simp: A' run_ok_def)
  then have "run_ok H G P accs S (insert a D) E ?st'"
    using same_links_graph [OF g l'] C' T' by (simp add: run_ok_def)
  moreover have "kaapi_sched_activate_syncpoint ?y st = Some ?st'"
    by (rule activate_syncpoint_effect [OF sy(2) refl])
  ultimately show ?thesis using sy(1) l' by auto
qed

lemma active_mono: "D \<subseteq> D' \<Longrightarrow> active_accs on D fs \<subseteq> active_accs on D' fs"
proof (induction on D fs rule: active_accs.induct)
  case (2 on D x g fs)
  show ?case
  proof (cases "set g \<subseteq> D")
    case True
    then have "set g \<subseteq> D'" using 2(2) by simp
    then show ?thesis using 2 True by auto
  qed auto
qed simp

lemma active_set_mono: "D \<subseteq> D' \<Longrightarrow> active_set H G S D \<subseteq> active_set H G S D'"
  unfolding active_set_def by (intro UN_mono order_refl active_mono)

lemma active_reached:
  "set (group_accs f) \<subseteq> D \<Longrightarrow> on \<Longrightarrow> set g \<subseteq> active_accs on D (f @ (x, g) # f2)"
proof (induction f arbitrary: on)
  case (Cons p f)
  obtain y h where p: "p = (y, h)" by (cases p)
  have "set g \<subseteq> active_accs (set h \<subseteq> D) D (f @ (x, g) # f2)" using Cons p by (intro Cons.IH) auto
  then show ?case using Cons.prems(2) p by auto
qed simp

lemma activate_all_completed:
  assumes "run_ok H G P accs S D E st" "distinct as" "\<forall>a\<in>set as. \<exists>h\<in>H. a \<in> set (group_accs (G h))"
    and "set as \<subseteq> active_set H G S D" "set as \<inter> D = {}"
  shows "\<exists>st'. activate_all (map (\<lambda>a. the (ac_sync (df_acc st a))) as) st = Some st' \<and>
    run_ok H G P accs S (D \<union> set as) E st' \<and> same_links st st'"
  using assms
proof (induction as arbitrary: st D)
  case (Cons a as)
  obtain h where h: "h \<in> H" "a \<in> set (group_accs (G h))" using Cons.prems(3) by auto
  obtain st1 where 1: "kaapi_sched_activate_syncpoint (the (ac_sync (df_acc st a))) st = Some st1"
    "run_ok H G P accs S (insert a D) E st1" "same_links st st1"
    using complete_access [OF Cons.prems(1) h] Cons.prems(4,5) by auto
  have same: "map (\<lambda>a. the (ac_sync (df_acc st1 a))) as = map (\<lambda>a. the (ac_sync (df_acc st a))) as"
    using 1(3) by (simp add: same_links_def)
  have "\<exists>st'. activate_all (map (\<lambda>a. the (ac_sync (df_acc st1 a))) as) st1 = Some st' \<and>
    run_ok H G P accs S (insert a D \<union> set as) E st' \<and> same_links st1 st'"
    using Cons.prems active_set_mono [of D "insert a D" H G S] by (intro Cons.IH [OF 1(2)]) auto
  then show ?case using 1 same_links_trans [OF 1(3)] by (auto simp: same)
qed simp

text \<open>Starting a handle.\<close>

lemma start_handle:
  assumes R: "run_ok H G P accs S D E st" and h: "h \<in> H" "h \<notin> S" "G h \<noteq> []"
  shows "\<exists>st'. kaapi_sched_activate_syncpoint (hd_sync0 (df_handle st h)) st = Some st' \<and>
    run_ok H G P accs (insert h S) D E st' \<and> same_links st st'"
proof -
  have g: "graph_ok H G P accs st" using R by (simp add: run_ok_def)
  note O = graph_okD [OF g h(1)]
  let ?y = "next_node (G h) (P h)" and ?A = "active_set H G S D" and ?new = "first_group (G h)"
  let ?st1 = "upd_acc ?y (ac_wc_update (\<lambda>w. w - 1)) st"
  let ?st' = "fold activate_access ?new ?st1"
  have s0: "hd_sync0 (df_handle st h) = ?y" using O(1) by (simp add: handle_ok_def)
  have w1: "ac_wc (df_acc st ?y) = 1" using R h by (simp add: run_ok_def)
  have l1: "same_links st ?st1" by (simp add: same_links_def upd_acc_def)
  have D0: "D \<inter> set (group_accs (G h)) = {}"
  proof (rule ccontr)
    assume "D \<inter> set (group_accs (G h)) \<noteq> {}"
    then obtain b where b: "b \<in> D" "b \<in> set (group_accs (G h))" by blast
    then have "b \<in> ?A" using R by (auto simp: run_ok_def)
    then show False using active_set_other [OF g h(1) b(2), of S D] h(2) by simp
  qed
  have A': "active_set H G (insert h S) D = ?A \<union> set ?new"
  proof -
    have "active_set H G (insert h S) D = (\<Union>h'\<in>H. active_accs (h' \<in> S) D (G h') \<union> (if h' = h then set ?new else {}))"
      unfolding active_set_def
    proof (rule SUP_cong [OF refl])
      fix h' assume "h' \<in> H"
      show "active_accs (h' \<in> insert h S) D (G h') = active_accs (h' \<in> S) D (G h') \<union> (if h' = h then set ?new else {})"
        using active_start [OF O(5) D0] h(2) by (cases "h' = h") simp_all
    qed
    then show ?thesis using h(1) by (auto simp: active_set_def split: if_splits)
  qed
  have new_in: "set ?new \<subseteq> set (group_accs (G h))" by (cases "G h") auto
  have new_A: "set ?new \<inter> ?A = {}" using new_in active_set_other [OF g h(1), of _ S D] h(2) by auto
  have T1: "tasks_run ?A E ?st1" using R by (simp add: run_ok_def tasks_run_def upd_acc_def)
  have ow: "\<forall>b\<in>set ?new. access_owned ?st1 b" using O(6) new_in same_links_args(2) [OF _ l1] by blast
  have dn: "distinct ?new" using O(4) by (cases "G h") auto
  have fold: "tasks_run (?A \<union> set ?new) E ?st'" "same_links ?st1 ?st'" "\<forall>x. ac_wc (df_acc ?st' x) = ac_wc (df_acc ?st1 x)"
    using activate_fold_run [OF T1 graph_ok_args [OF same_links_graph [OF g l1]] dn new_A ow] by blast+
  have wc': "ac_wc (df_acc ?st' z) = (if z = ?y then ac_wc (df_acc st z) - 1 else ac_wc (df_acc st z))" for z
    using fold(3) by (simp add: upd_acc_def)
  have C': "counts (df_acc ?st') D (G h') (P h') \<and> ac_wc (df_acc ?st' (next_node (G h') (P h'))) = (if h' \<in> insert h S then 0 else 1)"
    if h': "h' \<in> H" for h'
  proof (cases "h' = h")
    case True
    have "counts (df_acc ?st') D (G h) (P h)"
      by (rule counts_cong [of "df_acc st" D]) (use R h wc' O(2) in \<open>auto simp: run_ok_def\<close>)
    then show ?thesis using True w1 wc' by simp
  next
    case False
    have no: "?y \<notin> node_set (G h') (P h')"
      by (rule graph_ok_disjoint [OF g h(1) h' False [symmetric] node_set_finite_facts(1)])
    have "counts (df_acc ?st') D (G h') (P h')"
      by (rule counts_cong [of "df_acc st" D]) (use R h' no wc' graph_okD(2) [OF g h'] in \<open>auto simp: run_ok_def node_set_def\<close>)
    moreover have "next_node (G h') (P h') \<noteq> ?y" using no node_set_finite_facts(1) [of "G h'" "P h'"] by metis
    ultimately show ?thesis using R h' wc' False by (simp add: run_ok_def)
  qed
  have l': "same_links st ?st'" using same_links_trans [OF l1 fold(2)] .
  have "run_ok H G P accs (insert h S) D E ?st'"
    using same_links_graph [OF g l'] C' fold(1) R by (auto simp: run_ok_def A')
  moreover have "kaapi_sched_activate_syncpoint ?y st = Some ?st'"
    using activate_syncpoint_effect [OF O(3) refl] w1 by simp
  ultimately show ?thesis using s0 l' by auto
qed

lemma start_handles:
  assumes "run_ok H G P accs S D E st" "distinct hs" "set hs \<subseteq> H" "set hs \<inter> S = {}"
  shows "\<exists>st'. xkblas_sync_start hs st = Some st' \<and>
    run_ok H G P accs (S \<union> {h\<in>set hs. G h \<noteq> []}) D E st' \<and> same_links st st'"
  using assms
proof (induction hs arbitrary: st S)
  case Nil then show ?case by (simp add: xkblas_sync_start_def)
next
  case (Cons h hs)
  have hH: "h \<in> H" using Cons.prems(3) by simp
  have "graph_ok H G P accs st" using Cons.prems(1) by (simp add: run_ok_def)
  from graph_okD(1) [OF this hH] have sync: "hd_sync (df_handle st h) \<noteq> None \<longleftrightarrow> G h \<noteq> []"
    by (cases "G h = []") (auto simp: handle_ok_def)
  show ?case
  proof (cases "G h = []")
    case True
    have "xkblas_sync_start (h # hs) st = xkblas_sync_start hs st" using sync True by (simp add: xkblas_sync_start_def)
    moreover have "{h'\<in>set (h # hs). G h' \<noteq> []} = {h'\<in>set hs. G h' \<noteq> []}" using True by auto
    ultimately show ?thesis using Cons.IH [OF Cons.prems(1)] Cons.prems by simp
  next
    case False
    obtain st1 where 1: "kaapi_sched_activate_syncpoint (hd_sync0 (df_handle st h)) st = Some st1"
      "run_ok H G P accs (insert h S) D E st1" "same_links st st1"
      using start_handle [OF Cons.prems(1) hH _ False] Cons.prems(4) by auto
    have "df_handle st1 = df_handle st" using 1(3) by (simp add: same_links_def)
    then have e: "xkblas_sync_start (h # hs) st = xkblas_sync_start hs st1"
      using sync False 1(1) by (simp add: xkblas_sync_start_def)
    have "\<exists>st'. xkblas_sync_start hs st1 = Some st' \<and>
      run_ok H G P accs (insert h S \<union> {h'\<in>set hs. G h' \<noteq> []}) D E st' \<and> same_links st1 st'"
      using Cons.prems by (intro Cons.IH [OF 1(2)]) auto
    moreover have "insert h S \<union> {h'\<in>set hs. G h' \<noteq> []} = S \<union> {h'\<in>set (h # hs). G h' \<noteq> []}" using False by auto
    ultimately show ?thesis unfolding e using same_links_trans [OF 1(3)] by auto
  qed
qed

section \<open>One step of the execution\<close>

definition args_of :: "dfg \<Rightarrow> nat set \<Rightarrow> nat set" where
  "args_of st E = (\<Union>t\<in>E. set (tk_args (df_task st t)))"

lemma same_links_args_of: "same_links st st' \<Longrightarrow> args_of st' E = args_of st E"
  by (simp add: args_of_def same_links_def)

lemma arg_of_task:
  assumes "graph_ok H G P accs st" "t < df_ntask st" "a \<in> set (tk_args (df_task st t))"
  shows "ac_task (df_acc st a) = Some t" "\<exists>h\<in>H. a \<in> set (group_accs (G h))" "plain_mode (ac_mode (df_acc st a))"
proof -
  have k: "task_ok H G (accs t) st t" using assms by (simp add: graph_ok_def)
  then show "ac_task (df_acc st a) = Some t" using assms(3) by (simp add: task_ok_def)
  show h: "\<exists>h\<in>H. a \<in> set (group_accs (G h))"
    using k assms(3) by (fastforce simp: task_ok_def list_all2_conv_all_nth in_set_conv_nth)
  then obtain h where "h \<in> H" "a \<in> set (group_accs (G h))" by blast
  then show "plain_mode (ac_mode (df_acc st a))" using assms(1) unfolding graph_ok_def by blast
qed

lemma exec_step:
  assumes R: "run_ok H G P accs S (args_of st E) E st" and t: "t \<in> set (df_ready st)"
  shows "\<exists>st'. dfg_step st t st'"
    and "dfg_step st t st' \<Longrightarrow> run_ok H G P accs S (args_of st' (insert t E)) (insert t E) st' \<and> same_links st st'"
proof -
  let ?D = "args_of st E" and ?A = "active_set H G S (args_of st E)"
  let ?st0 = "st\<lparr>df_ready := remove1 t (df_ready st)\<rparr>"
  let ?as = "tk_args (df_task st t)"
  have g: "graph_ok H G P accs st" and T: "tasks_run ?A E st" using R by (auto simp: run_ok_def)
  have tn: "t < df_ntask st" "set ?as \<subseteq> ?A" "t \<notin> E" using T t by (auto simp: tasks_run_def)
  have k: "task_ok H G (accs t) st t" using g tn(1) by (simp add: graph_ok_def)
  have l0: "same_links st ?st0" by (simp add: same_links_def)
  have "tasks_run ?A (insert t E) ?st0"
    using T tn by (auto simp: tasks_run_def)
  then have R0: "run_ok H G P accs S ?D (insert t E) ?st0"
    using R same_links_graph [OF g l0] by (simp add: run_ok_def)
  have new: "set ?as \<inter> ?D = {}"
  proof -
    have "a \<notin> set (tk_args (df_task st e))" if "a \<in> set ?as" "e \<in> E" for a e
      using arg_of_task(1) [OF g tn(1) that(1)] arg_of_task(1) [OF g, of e a] that(2) T tn(3) by (auto simp: tasks_run_def)
    then show ?thesis by (auto simp: args_of_def)
  qed
  have modes: "filter (\<lambda>a. ac_mode (df_acc st a) AND KAAPI_ACCESS_MODE_V = 0) ?as = ?as"
    using arg_of_task(3) [OF g tn(1)] plain_mode_simps(2) by (auto simp: filter_id_conv)
  have "\<exists>st'. activate_all (map (\<lambda>a. the (ac_sync (df_acc ?st0 a))) ?as) ?st0 = Some st' \<and>
      run_ok H G P accs S (?D \<union> set ?as) (insert t E) st' \<and> same_links ?st0 st'"
    by (rule activate_all_completed [OF R0]) (use k arg_of_task(2) [OF g tn(1)] tn(2) new in \<open>auto simp: task_ok_def\<close>)
  then obtain st1 where st1: "activate_all (map (\<lambda>a. the (ac_sync (df_acc st a))) ?as) ?st0 = Some st1"
    "run_ok H G P accs S (?D \<union> set ?as) (insert t E) st1" "same_links ?st0 st1" by auto
  have succ: "kaapi_sched_activate_successors t ?st0 = Some st1"
    using k st1(1) by (simp add: kaapi_sched_activate_successors_def task_ok_def modes)
  have l: "same_links st st1" using same_links_trans [OF l0 st1(3)] .
  show "\<exists>st'. dfg_step st t st'" using succ t by (auto intro: dfg_step.intros)
  assume "dfg_step st t st'"
  then have "st' = st1" using succ by (auto elim: dfg_step.cases)
  moreover have "?D \<union> set ?as = args_of st1 (insert t E)"
    by (simp add: same_links_args_of [OF l]) (auto simp: args_of_def)
  ultimately show "run_ok H G P accs S (args_of st' (insert t E)) (insert t E) st' \<and> same_links st st'"
    using st1(2) l by simp
qed

lemma run_invariant:
  assumes "dfg_run st ts st'" "run_ok H G P accs S {} {} st"
  shows "run_ok H G P accs S (args_of st' (set ts)) (set ts) st' \<and> same_links st st' \<and> distinct ts"
  using assms
proof (induction rule: dfg_run.induct)
  case (nil st) then show ?case by (simp add: args_of_def)
next
  case (snoc st ts st' t st'')
  then have I: "run_ok H G P accs S (args_of st' (set ts)) (set ts) st'" "same_links st st'" "distinct ts" by blast+
  have t: "t \<in> set (df_ready st')" using snoc.hyps(2) by (auto elim: dfg_step.cases)
  have "t \<notin> set ts" using I(1) t by (auto simp: run_ok_def tasks_run_def)
  then show ?case using exec_step(2) [OF I(1) t snoc.hyps(2)] same_links_trans [OF I(2)] I(3) by simp
qed

section \<open>Order\<close>

definition conflict :: "(nat \<times> amode) list \<Rightarrow> (nat \<times> amode) list \<Rightarrow> bool" where
  "conflict as bs \<longleftrightarrow> (\<exists>(h, m)\<in>set as. \<exists>(h', m')\<in>set bs. h = h' \<and> \<not> KAAPI_ACCESS_IS_CONCURRENT m m')"

lemma sorted_append_le:
  "sorted (map f (xs @ ys)) \<Longrightarrow> a \<in> set xs \<Longrightarrow> b \<in> set ys \<Longrightarrow> f a \<le> f b"
  by (auto simp: sorted_append)

text \<open>Of two conflicting accesses to a handle, the one that was declared first must be completed before the
  other can be active.\<close>

lemma conflicting_accesses:
  assumes g: "graph_ok H G P accs st" and h: "h \<in> H" and ab: "a \<in> set (group_accs (G h))" "b \<in> set (group_accs (G h))" "a \<noteq> b"
    and nc: "\<not> KAAPI_ACCESS_IS_CONCURRENT (ac_mode (df_acc st a)) (ac_mode (df_acc st b))"
  shows "(the (ac_task (df_acc st a)) \<le> the (ac_task (df_acc st b)) \<and> (\<forall>on D. b \<in> active_accs on D (G h) \<longrightarrow> a \<in> D)) \<or>
    (the (ac_task (df_acc st b)) \<le> the (ac_task (df_acc st a)) \<and> (\<forall>on D. a \<in> active_accs on D (G h) \<longrightarrow> b \<in> D))"
proof -
  note O = graph_okD [OF g h]
  have conc: "conc_groups (df_acc st) (G h)" and sorted: "sorted (map (\<lambda>a. the (ac_task (df_acc st a))) (group_accs (G h)))"
    using g h by (auto simp: graph_ok_def)
  obtain f x gr f2 where fs: "G h = f @ (x, gr) # f2" "b \<in> set gr" using ab(2) by (rule group_of)
  have "a \<notin> set gr" using conc nc ab(3) fs by auto
  then consider "a \<in> set (group_accs f)" | "a \<in> set (group_accs f2)" using ab(1) fs(1) by auto
  then show ?thesis
  proof cases
    case 1
    have "the (ac_task (df_acc st a)) \<le> the (ac_task (df_acc st b))"
      by (rule sorted_append_le [of _ "group_accs f" "gr @ group_accs f2"]) (use sorted fs 1 in auto)
    moreover have "a \<in> D" if "b \<in> active_accs on D (G h)" for on D
      using active_prefix [of b on D f "(x, gr) # f2"] that fs O(4) 1 by auto
    ultimately show ?thesis by blast
  next
    case 2
    have "the (ac_task (df_acc st b)) \<le> the (ac_task (df_acc st a))"
      by (rule sorted_append_le [of _ "group_accs f @ gr" "group_accs f2"]) (use sorted fs 2 in auto)
    moreover have "b \<in> D" if "a \<in> active_accs on D (G h)" for on D
      using active_prefix [of a on D "f @ [(x, gr)]" f2] that fs O(4) 2 by auto
    ultimately show ?thesis by blast
  qed
qed

lemma declared_access:
  assumes "graph_ok H G P accs st" "t < df_ntask st" "i < length (accs t)" "accs t ! i = (h, m)"
  shows "h \<in> H" "i < length (tk_args (df_task st t))" "tk_args (df_task st t) ! i \<in> set (group_accs (G h))"
    "ac_mode (df_acc st (tk_args (df_task st t) ! i)) = m" "ac_task (df_acc st (tk_args (df_task st t) ! i)) = Some t"
proof -
  have k: "task_ok H G (accs t) st t" using assms by (simp add: graph_ok_def)
  then show l: "i < length (tk_args (df_task st t))" using assms(3) by (auto simp: task_ok_def dest: list_all2_lengthD)
  show "h \<in> H" "tk_args (df_task st t) ! i \<in> set (group_accs (G h))" "ac_mode (df_acc st (tk_args (df_task st t) ! i)) = m"
    using k l assms(4) by (auto simp: task_ok_def list_all2_conv_all_nth)
  show "ac_task (df_acc st (tk_args (df_task st t) ! i)) = Some t" using k l by (simp add: task_ok_def)
qed

lemma ready_conflict:
  assumes R: "run_ok H G P accs S (args_of st E) E st" and t: "t \<in> set (df_ready st)" and u: "u < df_ntask st"
    and i: "i < length (accs u)" "accs u ! i = (h, m)" and j: "j < length (accs t)" "accs t ! j = (h, m')"
    and nc: "\<not> KAAPI_ACCESS_IS_CONCURRENT m m'" and ut: "u < t \<or> u = t \<and> i \<noteq> j"
  shows "u \<noteq> t \<and> u \<in> E"
proof -
  have g: "graph_ok H G P accs st" and T: "tasks_run (active_set H G S (args_of st E)) E st" using R by (auto simp: run_ok_def)
  have tn: "t < df_ntask st" "set (tk_args (df_task st t)) \<subseteq> active_set H G S (args_of st E)" "t \<notin> E"
    using T t by (auto simp: tasks_run_def)
  note a = declared_access [OF g u i] and b = declared_access [OF g tn(1) j]
  let ?a = "tk_args (df_task st u) ! i" and ?b = "tk_args (df_task st t) ! j"
  have d: "distinct (tk_args (df_task st t))" using g tn(1) by (simp add: graph_ok_def task_ok_def)
  have ne: "?a \<noteq> ?b" using ut a(2,5) b(2,5) d by (auto simp: nth_eq_iff_index_eq)
  have act: "z \<in> active_accs (h \<in> S) (args_of st E) (G h)" if "z \<in> set (tk_args (df_task st t))" "z \<in> set (group_accs (G h))" for z
    using active_set_other [OF g a(1) that(2), of S] that(1) tn(2) by auto
  have taken: "v \<in> E" if "z \<in> args_of st E" "ac_task (df_acc st z) = Some v" for z v
    using that arg_of_task(1) [OF g] T by (force simp: args_of_def tasks_run_def)
  have sym: "\<not> KAAPI_ACCESS_IS_CONCURRENT (ac_mode (df_acc st ?a)) (ac_mode (df_acc st ?b))" using nc a(4) b(4) by simp
  from conflicting_accesses [OF g a(1,3) b(3) ne sym]
  show ?thesis
  proof
    assume "the (ac_task (df_acc st ?a)) \<le> the (ac_task (df_acc st ?b)) \<and> (\<forall>on D. ?b \<in> active_accs on D (G h) \<longrightarrow> ?a \<in> D)"
    then have "?a \<in> args_of st E" using act [of ?b] b(2,3) by auto
    then have "u \<in> E" using taken a(5) by blast
    then show ?thesis using tn(3) by blast
  next
    assume c: "the (ac_task (df_acc st ?b)) \<le> the (ac_task (df_acc st ?a)) \<and> (\<forall>on D. ?a \<in> active_accs on D (G h) \<longrightarrow> ?b \<in> D)"
    then have "u = t" using a(5) b(5) ut by auto
    then have "?b \<in> args_of st E" using c act [of ?a] a(2,3) by auto
    then have "t \<in> E" using taken b(5) by blast
    then show ?thesis using tn(3) by blast
  qed
qed

section \<open>Progress\<close>

lemma progress:
  assumes R: "run_ok H G P accs {h\<in>H. G h \<noteq> []} (args_of st E) E st"
    and once: "\<forall>t<df_ntask st. distinct (map fst (accs t))" and left: "E \<noteq> {..<df_ntask st}"
  shows "\<exists>t. t \<in> set (df_ready st)"
proof -
  let ?S = "{h\<in>H. G h \<noteq> []}"
  have g: "graph_ok H G P accs st" and T: "tasks_run (active_set H G ?S (args_of st E)) E st" using R by (auto simp: run_ok_def)
  define t where "t = (LEAST t. t < df_ntask st \<and> t \<notin> E)"
  have "\<exists>t. t < df_ntask st \<and> t \<notin> E" using left T by (auto simp: tasks_run_def)
  then have t: "t < df_ntask st" "t \<notin> E" unfolding t_def by (metis (mono_tags, lifting) LeastI)+
  have before: "u \<in> E" if "u < t" for u
    using not_less_Least [OF that [unfolded t_def]] that t(1) by auto
  have k: "task_ok H G (accs t) st t" using g t(1) by (simp add: graph_ok_def)
  have "b \<in> active_set H G ?S (args_of st E)" if b: "b \<in> set (tk_args (df_task st t))" for b
  proof -
    obtain j h m where j: "j < length (tk_args (df_task st t))" "tk_args (df_task st t) ! j = b" "accs t ! j = (h, m)"
      "j < length (accs t)"
    proof -
      have "length (tk_args (df_task st t)) = length (accs t)" using k by (auto simp: task_ok_def dest: list_all2_lengthD)
      moreover obtain j where "j < length (tk_args (df_task st t))" "tk_args (df_task st t) ! j = b"
        using b by (auto simp: in_set_conv_nth)
      ultimately show thesis using that [of j "fst (accs t ! j)" "snd (accs t ! j)"] by simp
    qed
    note dj = declared_access [OF g t(1) j(4,3)]
    have h: "h \<in> H" "b \<in> set (group_accs (G h))" using dj j(2) by auto
    note O = graph_okD [OF g h(1)]
    obtain f x gr f2 where fs: "G h = f @ (x, gr) # f2" "b \<in> set gr" using h(2) by (rule group_of)
    have sorted: "sorted (map (\<lambda>a. the (ac_task (df_acc st a))) (group_accs (G h)))" using g h by (auto simp: graph_ok_def)
    have "a \<in> args_of st E" if a: "a \<in> set (group_accs f)" for a
    proof -
      have aG: "a \<in> set (group_accs (G h))" using a fs(1) by simp
      then obtain u where u: "u < df_ntask st" "ac_task (df_acc st a) = Some u" "a \<in> set (tk_args (df_task st u))"
        using O(6) by (auto simp: access_owned_def)
      have "the (ac_task (df_acc st a)) \<le> the (ac_task (df_acc st b))"
        by (rule sorted_append_le [of _ "group_accs f" "gr @ group_accs f2"]) (use sorted fs a in auto)
      then have "u \<le> t" using u(2) dj(5) j(2) by simp
      moreover have "u \<noteq> t"
      proof
        assume "u = t"
        then obtain i where i: "i < length (tk_args (df_task st t))" "tk_args (df_task st t) ! i = a" using u(3)
          by (auto simp: in_set_conv_nth)
        have "i < length (accs t)" using i(1) k by (auto simp: task_ok_def dest: list_all2_lengthD)
        then obtain h' m' where h': "accs t ! i = (h', m')" "i < length (accs t)" by (cases "accs t ! i") auto
        note di = declared_access [OF g t(1) h'(2,1)]
        have "h' = h"
        proof (rule ccontr)
          assume n: "h' \<noteq> h"
          have "a \<in> node_set (G h') (P h')" "a \<in> node_set (G h) (P h)"
            using di(3) i(2) aG node_set_finite_facts(2) by blast+
          then show False using graph_ok_disjoint [OF g di(1) h(1) n] by blast
        qed
        then have "map fst (accs t) ! i = map fst (accs t) ! j" using h' j(3,4) by simp
        moreover have "distinct (map fst (accs t))" using once t(1) by blast
        ultimately have "i = j" using h'(2) j(4) nth_eq_iff_index_eq [of "map fst (accs t)" i j] by simp
        then have "a = b" using i(2) j(2) by simp
        then show False using O(4) fs a by auto
      qed
      ultimately have "u \<in> E" using before by simp
      then show ?thesis using u(3) by (auto simp: args_of_def)
    qed
    then have pre: "set (group_accs f) \<subseteq> args_of st E" by blast
    have hS: "h \<in> ?S" using h(1) fs(1) by simp
    have "set gr \<subseteq> active_accs (h \<in> ?S) (args_of st E) (G h)"
      unfolding fs(1) by (rule active_reached [OF pre hS])
    then show ?thesis using fs(2) h(1) by (auto simp: active_set_def)
  qed
  then show ?thesis using T t by (auto simp: tasks_run_def)
qed

section \<open>Properties\<close>

definition dfg_wf :: "nat list \<Rightarrow> (nat \<times> amode) list list \<Rightarrow> nat \<Rightarrow> bool" where
  "dfg_wf hs tss n \<longleftrightarrow> distinct hs \<and> (\<forall>h\<in>set hs. h < n) \<and> (\<forall>as\<in>set tss. \<forall>(h, m)\<in>set as. h \<in> set hs \<and> plain_mode m)"

lemma fresh_run_ok:
  assumes "graph_ok H G P accs st" "fresh_ok H G P None st"
  shows "run_ok H G P accs {} {} {} st"
  using assms by (auto simp: run_ok_def fresh_ok_def active_set_def tasks_run_def)

lemma dfg_started:
  assumes wf: "dfg_wf hs tss n"
  obtains G P st where "xkblas_sync_start hs (dfg_build hs tss (dfg_empty ac tk n)) = Some st"
    "run_ok (set hs) G P (\<lambda>t. tss ! t) {h\<in>set hs. G h \<noteq> []} {} {} st" "df_ntask st = length tss"
proof -
  obtain G P where b: "graph_ok (set hs) G P (\<lambda>t. tss ! t) (dfg_build hs tss (dfg_empty ac tk n))"
    "fresh_ok (set hs) G P None (dfg_build hs tss (dfg_empty ac tk n))"
    "df_ntask (dfg_build hs tss (dfg_empty ac tk n)) = length tss"
    using dfg_build_ok [of hs n tss ac tk] wf by (auto simp: dfg_wf_def)
  have "distinct hs" using wf by (simp add: dfg_wf_def)
  from start_handles [OF fresh_run_ok [OF b(1,2)] this] obtain st where
    "xkblas_sync_start hs (dfg_build hs tss (dfg_empty ac tk n)) = Some st"
    "run_ok (set hs) G P (\<lambda>t. tss ! t) {h\<in>set hs. G h \<noteq> []} {} {} st" "same_links (dfg_build hs tss (dfg_empty ac tk n)) st"
    by auto
  with b(3) show thesis by (intro that [of st G P]) (auto simp: same_links_def)
qed

lemma dfg_startedD:
  assumes "dfg_wf hs tss n" "xkblas_sync_start hs (dfg_build hs tss (dfg_empty ac tk n)) = Some st"
  obtains G P where "run_ok (set hs) G P (\<lambda>t. tss ! t) {h\<in>set hs. G h \<noteq> []} {} {} st" "df_ntask st = length tss"
proof -
  obtain G P st1 where "xkblas_sync_start hs (dfg_build hs tss (dfg_empty ac tk n)) = Some st1"
    "run_ok (set hs) G P (\<lambda>t. tss ! t) {h\<in>set hs. G h \<noteq> []} {} {} st1" "df_ntask st1 = length tss"
    by (rule dfg_started [OF assms(1)])
  with assms(2) show thesis by (intro that [of G P]) simp_all
qed

lemma run_progress:
  assumes "dfg_wf hs tss n" "\<forall>as\<in>set tss. distinct (map fst as)"
  shows "\<exists>st. xkblas_sync_start hs (dfg_build hs tss (dfg_empty ac tk n)) = Some st \<and>
    (\<forall>ts st'. dfg_run st ts st' \<longrightarrow> (\<forall>t\<in>set (df_ready st'). \<exists>st''. dfg_step st' t st'') \<and>
       ((\<exists>t st''. dfg_step st' t st'') \<or> distinct ts \<and> set ts = {..<length tss}))"
proof -
  obtain G P st where R: "xkblas_sync_start hs (dfg_build hs tss (dfg_empty ac tk n)) = Some st"
    "run_ok (set hs) G P (\<lambda>t. tss ! t) {h\<in>set hs. G h \<noteq> []} {} {} st" "df_ntask st = length tss"
    by (rule dfg_started [OF assms(1)])
  have "(\<forall>t\<in>set (df_ready st'). \<exists>st''. dfg_step st' t st'') \<and>
       ((\<exists>t st''. dfg_step st' t st'') \<or> distinct ts \<and> set ts = {..<length tss})" if r: "dfg_run st ts st'" for ts st'
  proof -
    note I = run_invariant [OF r R(2)]
    have n: "df_ntask st' = length tss" using I R(3) by (simp add: same_links_def)
    have s: "\<forall>t\<in>set (df_ready st'). \<exists>st''. dfg_step st' t st''" using exec_step(1) [OF conjunct1 [OF I]] by blast
    have "\<exists>t. t \<in> set (df_ready st')" if "set ts \<noteq> {..<length tss}"
      using progress [OF conjunct1 [OF I]] that assms(2) n by auto
    with s I show ?thesis by blast
  qed
  with R(1) show ?thesis by blast
qed

lemma full_run:
  assumes "dfg_wf hs tss n" "\<forall>as\<in>set tss. distinct (map fst as)"
  shows "\<exists>st ts st'. xkblas_sync_start hs (dfg_build hs tss (dfg_empty ac tk n)) = Some st \<and> dfg_run st ts st' \<and>
    length ts = length tss"
proof -
  from run_progress [OF assms, of ac tk] obtain st where
    P: "xkblas_sync_start hs (dfg_build hs tss (dfg_empty ac tk n)) = Some st \<and>
      (\<forall>ts st'. dfg_run st ts st' \<longrightarrow> (\<forall>t\<in>set (df_ready st'). \<exists>st''. dfg_step st' t st'') \<and>
         ((\<exists>t st''. dfg_step st' t st'') \<or> distinct ts \<and> set ts = {..<length tss}))" ..
  note st = conjunct1 [OF P] conjunct2 [OF P]
  have "\<exists>ts st'. dfg_run st ts st' \<and> length ts = k" if "k \<le> length tss" for k
    using that
  proof (induction k)
    case 0 then show ?case using dfg_run.nil by fastforce
  next
    case (Suc k)
    then obtain ts st' where r: "dfg_run st ts st'" "length ts = k" by auto
    have "\<not> (distinct ts \<and> set ts = {..<length tss})"
    proof
      assume d: "distinct ts \<and> set ts = {..<length tss}"
      have "card (set ts) = k" using distinct_card [OF conjunct1 [OF d]] r(2) by simp
      moreover have "card (set ts) = length tss" unfolding conjunct2 [OF d] by (rule card_lessThan)
      ultimately show False using Suc.prems by simp
    qed
    moreover have "(\<exists>t st''. dfg_step st' t st'') \<or> distinct ts \<and> set ts = {..<length tss}"
      by (rule conjunct2 [OF mp [OF spec [OF spec [OF st(2), of ts], of st'] r(1)]])
    ultimately obtain t st'' where "dfg_step st' t st''" by auto
    then show ?case using dfg_run.snoc [OF r(1)] r(2) by (intro exI [of _ "ts @ [t]"]) auto
  qed
  with st(1) show ?thesis by blast
qed

lemma run_order:
  assumes "dfg_wf hs tss n" "xkblas_sync_start hs (dfg_build hs tss (dfg_empty ac tk n)) = Some st" "dfg_run st ts st'"
  shows "distinct ts \<and> set ts \<subseteq> {..<length tss} \<and>
    (\<forall>i<length ts. \<forall>u<ts ! i. conflict (tss ! u) (tss ! (ts ! i)) \<longrightarrow> u \<in> set (take i ts))"
proof -
  obtain G P where R: "run_ok (set hs) G P (\<lambda>t. tss ! t) {h\<in>set hs. G h \<noteq> []} {} {} st" "df_ntask st = length tss"
    by (rule dfg_startedD [OF assms(1,2)])
  have "set ts \<subseteq> {..<length tss} \<and> (\<forall>i<length ts. \<forall>u<ts ! i. conflict (tss ! u) (tss ! (ts ! i)) \<longrightarrow> u \<in> set (take i ts))"
    using assms(3) R
  proof (induction rule: dfg_run.induct)
    case (snoc st ts st' t st'')
    note I = run_invariant [OF snoc.hyps(1) snoc.prems(1)]
    have n: "df_ntask st' = length tss" using I snoc.prems(2) by (simp add: same_links_def)
    have t: "t \<in> set (df_ready st')" using snoc.hyps(2) by (auto elim: dfg_step.cases)
    then have tn: "t < length tss" using I n by (auto simp: run_ok_def tasks_run_def)
    have "u \<in> set ts" if u: "u < t" "conflict (tss ! u) (tss ! t)" for u
    proof -
      obtain i j h m m' where "i < length (tss ! u)" "tss ! u ! i = (h, m)" "j < length (tss ! t)" "tss ! t ! j = (h, m')"
        "\<not> KAAPI_ACCESS_IS_CONCURRENT m m'" using u(2) by (auto simp: conflict_def in_set_conv_nth)
      then show ?thesis using ready_conflict [OF conjunct1 [OF I] t, of u i h m j m'] u(1) tn n by auto
    qed
    then show ?case using snoc tn by (auto simp: nth_append less_Suc_eq)
  qed simp
  then show ?thesis using run_invariant [OF assms(3) R(1)] by blast
qed

text \<open>C24. Every run of the ready tasks respects the program: no task is run twice, and a task runs only after all
  the tasks inserted before it that have an access conflicting with one of its own, that is, on the same handle
  and not both reads.\<close>

theorem dataflow_order:
  assumes "dfg_wf hs tss n" "xkblas_sync_start hs (dfg_build hs tss (dfg_empty ac tk n)) = Some st" "dfg_run st ts st'"
  shows "distinct ts \<and> set ts \<subseteq> {..<length tss} \<and>
    (\<forall>i<length ts. \<forall>u<ts ! i. conflict (tss ! u) (tss ! (ts ! i)) \<longrightarrow> u \<in> set (take i ts))"
  by (rule run_order [OF assms])

theorem dataflow_order_witness:
  "\<forall>ac tk. \<exists>st ts st'. xkblas_sync_start [0, 1] (dfg_build [0, 1] [[(0, 6)], [(0, 2), (1, 6)], [(1, 2)]] (dfg_empty ac tk 2)) = Some st \<and>
     dfg_run st ts st' \<and> distinct ts \<and> set ts \<subseteq> {..<3} \<and> length ts = 3"
proof (intro allI)
  fix ac tk
  let ?W = "\<lambda>ac tk. \<exists>st ts st'. xkblas_sync_start [0, 1] (dfg_build [0, 1] [[(0, 6)], [(0, 2), (1, 6)], [(1, 2)]] (dfg_empty ac tk 2)) = Some st \<and>
       dfg_run st ts st' \<and> distinct ts \<and> set ts \<subseteq> {..<3} \<and> length ts = 3"
  let ?tss = "[[(0, 6)], [(0, 2), (1, 6)], [(1, 2)]] :: (nat \<times> amode) list list"
  have wf: "dfg_wf [0, 1] ?tss 2" by (auto simp: dfg_wf_def plain_mode_def amode_defs)
  then obtain st ts st' where r: "xkblas_sync_start [0, 1] (dfg_build [0, 1] ?tss (dfg_empty ac tk 2)) = Some st"
    "dfg_run st ts st'" "length ts = 3"
    using full_run [of "[0, 1]" ?tss 2 ac tk] by auto
  have "distinct ts \<and> set ts \<subseteq> {..<3}" using dataflow_order [OF wf r(1,2)] by (simp add: numeral_3_eq_3)
  with r show "?W ac tk" by blast
qed

text \<open>C25. No deadlock: when every task accesses a handle at most once, \<open>xkblas_sync\<close> starts the graph, every
  activation returns, and as long as a task has not run, some task can; so a run that cannot be continued has
  run every task exactly once.\<close>

theorem dataflow_progress:
  assumes "dfg_wf hs tss n" "\<forall>as\<in>set tss. distinct (map fst as)"
  shows "\<exists>st. xkblas_sync_start hs (dfg_build hs tss (dfg_empty ac tk n)) = Some st \<and>
    (\<forall>ts st'. dfg_run st ts st' \<longrightarrow> (\<forall>t\<in>set (df_ready st'). \<exists>st''. dfg_step st' t st'') \<and>
       ((\<exists>t st''. dfg_step st' t st'') \<or> distinct ts \<and> set ts = {..<length tss}))"
  by (rule run_progress [OF assms])

theorem dataflow_progress_witness:
  "\<forall>ac tk. \<exists>st. xkblas_sync_start [0, 1] (dfg_build [0, 1] [[(0, 6)], [(0, 2), (1, 6)]] (dfg_empty ac tk 2)) = Some st \<and>
    (\<forall>ts st'. dfg_run st ts st' \<longrightarrow> (\<exists>t st''. dfg_step st' t st'') \<or> set ts = {..<2})"
proof (intro allI)
  fix ac tk
  let ?W = "\<lambda>ac tk. \<exists>st. xkblas_sync_start [0, 1] (dfg_build [0, 1] [[(0, 6)], [(0, 2), (1, 6)]] (dfg_empty ac tk 2)) = Some st \<and>
      (\<forall>ts st'. dfg_run st ts st' \<longrightarrow> (\<exists>t st''. dfg_step st' t st'') \<or> set ts = {..<2})"
  let ?tss = "[[(0, 6)], [(0, 2), (1, 6)]] :: (nat \<times> amode) list list"
  have wf: "dfg_wf [0, 1] ?tss 2" by (auto simp: dfg_wf_def plain_mode_def amode_defs)
  have "\<forall>as\<in>set ?tss. distinct (map fst as)" by simp
  from dataflow_progress [OF wf this, of ac tk] show "?W ac tk"
  proof (rule ex_forward)
    fix st
    assume P: "xkblas_sync_start [0, 1] (dfg_build [0, 1] ?tss (dfg_empty ac tk 2)) = Some st \<and>
      (\<forall>ts st'. dfg_run st ts st' \<longrightarrow> (\<forall>t\<in>set (df_ready st'). \<exists>st''. dfg_step st' t st'') \<and>
         ((\<exists>t st''. dfg_step st' t st'') \<or> distinct ts \<and> set ts = {..<length ?tss}))"
    have n: "length ?tss = 2" by simp
    have "(\<exists>t st''. dfg_step st' t st'') \<or> set ts = {..<2}" if "dfg_run st ts st'" for ts st'
      by (rule disj_forward [OF conjunct2 [OF mp [OF spec [OF spec [OF conjunct2 [OF P], of ts], of st'] that]]], assumption)
        (simp only: n)
    then show "xkblas_sync_start [0, 1] (dfg_build [0, 1] ?tss (dfg_empty ac tk 2)) = Some st \<and>
      (\<forall>ts st'. dfg_run st ts st' \<longrightarrow> (\<exists>t st''. dfg_step st' t st'') \<or> set ts = {..<2})"
      by (intro conjI [OF conjunct1 [OF P]] allI impI)
  qed
qed

text \<open>C40. A task that declares two conflicting accesses to one handle waits for itself: no run ever executes it.\<close>

theorem double_access_never_runs:
  assumes "dfg_wf hs tss n" "xkblas_sync_start hs (dfg_build hs tss (dfg_empty ac tk n)) = Some st" "dfg_run st ts st'"
    and "t < length tss" "i < length (tss ! t)" "j < length (tss ! t)" "i \<noteq> j"
    and "tss ! t ! i = (h, m)" "tss ! t ! j = (h, m')" "\<not> KAAPI_ACCESS_IS_CONCURRENT m m'"
  shows "t \<notin> set ts"
proof -
  obtain G P where R: "run_ok (set hs) G P (\<lambda>t. tss ! t) {h\<in>set hs. G h \<noteq> []} {} {} st" "df_ntask st = length tss"
    by (rule dfg_startedD [OF assms(1,2)])
  show ?thesis
    using assms(3) R
  proof (induction rule: dfg_run.induct)
    case (snoc st ts st' t' st'')
    note I = run_invariant [OF snoc.hyps(1) snoc.prems(1)]
    have n: "df_ntask st' = length tss" using I snoc.prems(2) by (simp add: same_links_def)
    have t': "t' \<in> set (df_ready st')" using snoc.hyps(2) by (auto elim: dfg_step.cases)
    have "t' \<noteq> t"
      using ready_conflict [OF conjunct1 [OF I] t', of t i h m j m'] assms(4-10) n by auto
    then show ?case using snoc by auto
  qed simp
qed

theorem double_access_never_runs_witness:
  "\<forall>ac tk. \<exists>st. xkblas_sync_start [0] (dfg_build [0] [[(0, 6), (0, 6)]] (dfg_empty ac tk 1)) = Some st \<and>
    (\<forall>ts st'. dfg_run st ts st' \<longrightarrow> 0 \<notin> set ts)"
proof (intro allI)
  fix ac tk
  let ?W = "\<lambda>ac tk. \<exists>st. xkblas_sync_start [0] (dfg_build [0] [[(0, 6), (0, 6)]] (dfg_empty ac tk 1)) = Some st \<and>
      (\<forall>ts st'. dfg_run st ts st' \<longrightarrow> 0 \<notin> set ts)"
  have wf: "dfg_wf [0] [[(0, 6), (0, 6)]] 1" by (auto simp: dfg_wf_def plain_mode_def amode_defs)
  obtain st where st: "xkblas_sync_start [0] (dfg_build [0] [[(0, 6), (0, 6)]] (dfg_empty ac tk 1)) = Some st"
    by (rule dfg_started [OF wf, of ac tk], rule that)
  have "0 \<notin> set ts" if "dfg_run st ts st'" for ts st'
    by (rule double_access_never_runs [OF wf st that, where i = 0 and j = 1 and h = 0 and m = 6 and m' = 6])
       (simp_all add: KAAPI_ACCESS_IS_CONCURRENT_def amode_defs)
  with st show "?W ac tk" by blast
qed

end
