(* ===== verification/Task_Order.thy ===== *)
theory Task_Order
  imports XK_Prelude
begin

text \<open>
  The result of a run does not depend on the order in which the ready tasks are taken. The first locale says
  it for any operations of which the independent ones commute; the second one gives commutation from the
  memory each operation reads and writes (Bernstein's conditions). \<open>Schedule\<close> interprets them on the tile tasks.
\<close>

section \<open>Orders that respect the dependencies\<close>

definition sound_order :: "('t \<Rightarrow> 't \<Rightarrow> bool) \<Rightarrow> 't list \<Rightarrow> nat list \<Rightarrow> bool" where
  "sound_order clash ts xs \<longleftrightarrow> distinct xs \<and> set xs = {..<length ts} \<and>
     (\<forall>ys t zs. xs = ys @ t # zs \<longrightarrow> (\<forall>u<t. clash (ts ! u) (ts ! t) \<longrightarrow> u \<in> set ys))"

lemma sound_order_mono:
  assumes "sound_order c ts xs"
    and "\<And>t u. t \<in> set ts \<Longrightarrow> u \<in> set ts \<Longrightarrow> d t u \<Longrightarrow> c t u"
  shows "sound_order d ts xs"
  unfolding sound_order_def
proof (intro conjI allI impI)
  show "distinct xs" "set xs = {..<length ts}" using assms(1) by (auto simp: sound_order_def)
  fix as t bs u assume x: "xs = as @ t # bs" "u < t" "d (ts ! u) (ts ! t)"
  have "t \<in> {..<length ts}" using x(1) assms(1) unfolding sound_order_def by (metis in_set_conv_decomp)
  then have "c (ts ! u) (ts ! t)" using x(2,3) by (intro assms(2)) auto
  then show "u \<in> set as" using assms(1) x by (auto simp: sound_order_def)
qed

text \<open>The last task of the program can be taken out of the order.\<close>

lemma sound_order_snoc:
  assumes r: "sound_order clash (ts @ [x]) xs"
  obtains as bs where "xs = as @ length ts # bs" "sound_order clash ts (as @ bs)"
    "\<And>b. b \<in> set bs \<Longrightarrow> b < length ts \<and> \<not> clash (ts ! b) x"
proof -
  have d: "distinct xs" "set xs = {..<Suc (length ts)}" using r by (auto simp: sound_order_def)
  then obtain as bs where x: "xs = as @ length ts # bs" using split_list [of "length ts" xs] by auto
  have "set (as @ bs) = set xs - {length ts}" using d(1) unfolding x by auto
  also have "\<dots> = {..<length ts}" unfolding d(2) by (simp add: lessThan_Suc)
  finally have s: "set (as @ bs) = {..<length ts}" .
  have "sound_order clash ts (as @ bs)"
    unfolding sound_order_def
  proof (intro conjI allI impI)
    show "distinct (as @ bs)" "set (as @ bs) = {..<length ts}" using d s by (auto simp: x)
    fix cs t ds u assume e: "as @ bs = cs @ t # ds" and u: "u < t" "clash (ts ! u) (ts ! t)"
    have "t \<in> set (as @ bs)" unfolding e by simp
    then have t: "t < length ts" unfolding s by simp
    have c: "clash ((ts @ [x]) ! u) ((ts @ [x]) ! t)" using u t by (simp add: nth_append)
    consider es where "as = cs @ t # es" "ds = es @ bs" | es where "cs = as @ es" "bs = es @ t # ds"
    proof -
      obtain us where us: "as = cs @ us \<and> us @ bs = t # ds \<or> cs = as @ us \<and> bs = us @ t # ds"
        using e by (auto simp: append_eq_append_conv2)
      show thesis using us \<open>\<And>es. as = cs @ t # es \<Longrightarrow> ds = es @ bs \<Longrightarrow> thesis\<close>
          \<open>\<And>es. cs = as @ es \<Longrightarrow> bs = es @ t # ds \<Longrightarrow> thesis\<close> by (cases us) auto
    qed
    then show "u \<in> set cs"
    proof cases
      case 1
      then have "xs = cs @ t # (es @ length ts # bs)" using x by simp
      then show ?thesis using r u c unfolding sound_order_def by blast
    next
      case 2
      then have "xs = (as @ length ts # es) @ t # ds" using x by simp
      then have "u \<in> set (as @ length ts # es)" using r u c unfolding sound_order_def by blast
      then show ?thesis using 2 u t by auto
    qed
  qed
  moreover have "b < length ts \<and> \<not> clash (ts ! b) x" if b: "b \<in> set bs" for b
  proof -
    have l: "b < length ts" using s b by auto
    have "b \<notin> set as" using d(1) b unfolding x by auto
    moreover have "clash ((ts @ [x]) ! b) ((ts @ [x]) ! length ts) \<longrightarrow> b \<in> set as"
      using r x l unfolding sound_order_def by blast
    ultimately show ?thesis using l by (simp add: nth_append)
  qed
  ultimately show thesis using that x by blast
qed

locale commuting_tasks =
  fixes run :: "'t \<Rightarrow> 's \<Rightarrow> 's" and clash :: "'t \<Rightarrow> 't \<Rightarrow> bool" and T :: "'t set"
  assumes commute: "t \<in> T \<Longrightarrow> u \<in> T \<Longrightarrow> \<not> clash t u \<Longrightarrow> run t (run u s) = run u (run t s)"
begin

lemma commute_past:
  assumes "x \<in> T" "\<And>b. b \<in> set bs \<Longrightarrow> ts ! b \<in> T \<and> \<not> clash (ts ! b) x"
  shows "fold (\<lambda>i. run (ts ! i)) bs (run x s) = run x (fold (\<lambda>i. run (ts ! i)) bs s)"
  using assms(2)
proof (induction bs arbitrary: s)
  case (Cons b bs)
  have "run (ts ! b) (run x s) = run x (run (ts ! b) s)" using Cons.prems by (intro commute assms(1)) auto
  then show ?case using Cons by simp
qed simp

lemma nth_cong_fold:
  "(\<And>i. i \<in> set xs \<Longrightarrow> ts ! i = us ! i) \<Longrightarrow> fold (\<lambda>i. run (ts ! i)) xs s = fold (\<lambda>i. run (us ! i)) xs s"
  by (rule fold_cong) auto

lemma schedule_sequential:
  assumes "set ts \<subseteq> T" "sound_order clash ts xs"
  shows "fold (\<lambda>i. run (ts ! i)) xs s = fold run ts s"
  using assms
proof (induction ts arbitrary: xs rule: rev_induct)
  case Nil then show ?case by (simp add: sound_order_def)
next
  case (snoc x ts)
  obtain as bs where x: "xs = as @ length ts # bs" "sound_order clash ts (as @ bs)"
    "\<And>b. b \<in> set bs \<Longrightarrow> b < length ts \<and> \<not> clash (ts ! b) x"
    using sound_order_snoc [OF snoc.prems(2)] by metis
  have l: "i < length ts" if "i \<in> set (as @ bs)" for i using x(2) that by (auto simp: sound_order_def)
  let ?F = "\<lambda>ts xs. fold (\<lambda>i. run (ts ! i)) xs"
  have "?F (ts @ [x]) xs s = ?F (ts @ [x]) bs (run x (?F (ts @ [x]) as s))" unfolding x(1) by simp
  also have "\<dots> = ?F ts bs (run x (?F ts as s))"
    using l by (simp add: nth_append cong: fold_cong)
  also have "\<dots> = run x (?F ts bs (?F ts as s))"
    using snoc.prems(1) x(3) by (intro commute_past) auto
  also have "?F ts bs (?F ts as s) = ?F ts (as @ bs) s" by simp
  also have "\<dots> = fold run ts s" using snoc.prems(1) x(2) by (intro snoc.IH) auto
  finally show ?case by simp
qed

end

locale footprint_tasks =
  fixes run :: "'t \<Rightarrow> ('a \<Rightarrow> 'v) \<Rightarrow> 'a \<Rightarrow> 'v" and reads :: "'t \<Rightarrow> 'a set" and writes :: "'t \<Rightarrow> 'a set" and T :: "'t set"
  assumes frame: "t \<in> T \<Longrightarrow> x \<notin> writes t \<Longrightarrow> run t m x = m x"
    and local: "t \<in> T \<Longrightarrow> (\<And>x. x \<in> reads t \<Longrightarrow> m x = m' x) \<Longrightarrow> x \<in> writes t \<Longrightarrow> run t m x = run t m' x"
begin

definition touch :: "'t \<Rightarrow> 't \<Rightarrow> bool" where
  "touch t u \<longleftrightarrow> writes t \<inter> (reads u \<union> writes u) \<noteq> {} \<or> writes u \<inter> (reads t \<union> writes t) \<noteq> {}"

lemma run_run:
  assumes "t \<in> T" "u \<in> T" "\<not> touch t u"
  shows "run t (run u m) x = (if x \<in> writes t then run t m x else run u m x)"
proof (cases "x \<in> writes t")
  case True
  have "run u m y = m y" if "y \<in> reads t" for y using assms that by (intro frame) (auto simp: touch_def)
  then have "run t (run u m) x = run t m x" by (rule local [OF assms(1) _ True])
  then show ?thesis using True by simp
next
  case False then show ?thesis using frame [OF assms(1)] by simp
qed

lemma touch_commute:
  assumes "t \<in> T" "u \<in> T" "\<not> touch t u"
  shows "run t (run u m) = run u (run t m)"
proof
  fix x
  have "\<not> touch u t" using assms(3) by (auto simp: touch_def)
  then show "run t (run u m) x = run u (run t m) x"
    using run_run [OF assms] run_run [OF assms(2,1)] frame [OF assms(1)] frame [OF assms(2)] assms(3)
    by (auto simp: touch_def)
qed

end

sublocale footprint_tasks \<subseteq> commuting_tasks run touch T
  by unfold_locales (rule touch_commute)

end
