(* ===== verification/Schedule.thy ===== *)
theory Schedule
  imports Gemm Dataflow_Run Task_Order
begin

text \<open>
  The tile tasks under the data-flow scheduler. The footprint of a task is the set of elements of the tiles it
  declares, read or written according to the access modes; a kernel that reads its operands and nothing else
  makes the tasks an instance of \<open>footprint_tasks\<close>. When different written tiles occupy different memory, the
  order kept by the graph of \<open>Dataflow\<close> is enough: every run of the runtime computes what the tasks compute one
  after the other, in the order of insertion.
\<close>

section \<open>Footprints\<close>

text \<open>The \<open>VIEW_PARAM\<close> of the task formats: leading dimension, rows and columns of the tiles of
  \<open>task_accesses\<close>, in the same order.\<close>

fun task_dims :: "task \<Rightarrow> (nat \<times> nat \<times> nat) list" where
  "task_dims (TGemm ta tb m n k al A lda B ldb be C ldc) =
     [(lda, if ta = CblasNoTrans then (m, k) else (k, m)), (ldb, if tb = CblasNoTrans then (k, n) else (n, k)), (ldc, m, n)]"
| "task_dims (TGemmt uplo ta tb n k al A lda B ldb be C ldc) =
     [(lda, if ta = CblasNoTrans then (n, k) else (k, n)), (ldb, if tb = CblasNoTrans then (k, n) else (n, k)), (ldc, n, n)]"
| "task_dims (TSymm side uplo m n al A lda B ldb be C ldc) =
     [(lda, if side = CblasLeft then (m, m) else (n, n)), (ldb, m, n), (ldc, m, n)]"
| "task_dims (THemm side uplo m n al A lda B ldb be C ldc) =
     [(lda, if side = CblasLeft then (m, m) else (n, n)), (ldb, m, n), (ldc, m, n)]"
| "task_dims (TSyrk uplo trn n k al A lda be C ldc) =
     [(lda, if trn = CblasNoTrans then (n, k) else (k, n)), (ldc, n, n)]"
| "task_dims (THerk uplo trn n k al A lda be C ldc) =
     [(lda, if trn = CblasNoTrans then (n, k) else (k, n)), (ldc, n, n)]"
| "task_dims (TSyr2k uplo trn n k al A lda B ldb be C ldc) =
     [(lda, if trn = CblasNoTrans then (n, k) else (k, n)), (ldb, if trn = CblasNoTrans then (n, k) else (k, n)), (ldc, n, n)]"
| "task_dims (THer2k uplo trn n k al A lda B ldb be C ldc) =
     [(lda, if trn = CblasNoTrans then (n, k) else (k, n)), (ldb, if trn = CblasNoTrans then (n, k) else (k, n)), (ldc, n, n)]"
| "task_dims (TTrmm side uplo transA diag m n al A lda B ldb) =
     [(lda, if side = CblasLeft then (m, m) else (n, n)), (ldb, m, n)]"
| "task_dims (TTrsm side uplo transA diag m n al A lda B ldb) =
     [(lda, if side = CblasLeft then (m, m) else (n, n)), (ldb, m, n)]"

definition task_blocks :: "task \<Rightarrow> ((handle \<times> amode) \<times> nat \<times> nat \<times> nat) list" where
  "task_blocks t = zip (task_accesses t) (task_dims t)"

fun block_has :: "(handle \<times> amode) \<times> nat \<times> nat \<times> nat \<Rightarrow> nat \<Rightarrow> bool" where
  "block_has ((h, md), ld, m, n) x \<longleftrightarrow> in_block (h_data h) ld m n x"

fun block_mode :: "(handle \<times> amode) \<times> nat \<times> nat \<times> nat \<Rightarrow> amode" where
  "block_mode ((h, md), ld, m, n) = md"

fun block_handle :: "(handle \<times> amode) \<times> nat \<times> nat \<times> nat \<Rightarrow> handle" where
  "block_handle ((h, md), ld, m, n) = h"

definition task_reads :: "task \<Rightarrow> nat set" where
  "task_reads t = {x. \<exists>b\<in>set (task_blocks t). block_mode b AND KAAPI_ACCESS_MODE_R \<noteq> 0 \<and> block_has b x}"

definition task_writes :: "task \<Rightarrow> nat set" where
  "task_writes t = {x. \<exists>b\<in>set (task_blocks t). block_mode b AND KAAPI_ACCESS_MODE_W \<noteq> 0 \<and> block_has b x}"

text \<open>The tile the body stores is the last one; its leading dimension must cover its rows.\<close>

definition task_fits :: "task \<Rightarrow> bool" where
  "task_fits t \<longleftrightarrow> fst (snd (last (task_dims t))) \<le> fst (last (task_dims t))"

section \<open>Kernels that read their operands only\<close>

text \<open>Documented of every BLAS routine: the result tile depends on the elements of the operand tiles only.\<close>

definition gemm_local :: "blas \<Rightarrow> bool" where
  "gemm_local K \<longleftrightarrow> (\<forall>ta tb m n k al A A' B B' be C C'.
     agree_on (if ta = CblasNoTrans then m else k) (if ta = CblasNoTrans then k else m) A A' \<longrightarrow>
     agree_on (if tb = CblasNoTrans then k else n) (if tb = CblasNoTrans then n else k) B B' \<longrightarrow> agree_on m n C C' \<longrightarrow>
     agree_on m n (kb_gemm K ta tb m n k al A B be C) (kb_gemm K ta tb m n k al A' B' be C'))"

definition sided_local :: "(int \<Rightarrow> int \<Rightarrow> nat \<Rightarrow> nat \<Rightarrow> complex \<Rightarrow> cmat \<Rightarrow> cmat \<Rightarrow> complex \<Rightarrow> cmat \<Rightarrow> cmat) \<Rightarrow> bool" where
  "sided_local f \<longleftrightarrow> (\<forall>side uplo m n al A A' B B' be C C'.
     agree_on (if side = CblasLeft then m else n) (if side = CblasLeft then m else n) A A' \<longrightarrow>
     agree_on m n B B' \<longrightarrow> agree_on m n C C' \<longrightarrow> agree_on m n (f side uplo m n al A B be C) (f side uplo m n al A' B' be C'))"

definition rank_k_local :: "(int \<Rightarrow> int \<Rightarrow> nat \<Rightarrow> nat \<Rightarrow> 'a \<Rightarrow> cmat \<Rightarrow> 'a \<Rightarrow> cmat \<Rightarrow> cmat) \<Rightarrow> bool" where
  "rank_k_local f \<longleftrightarrow> (\<forall>uplo trn n k al A A' be C C'.
     agree_on (if trn = CblasNoTrans then n else k) (if trn = CblasNoTrans then k else n) A A' \<longrightarrow>
     agree_on n n C C' \<longrightarrow> agree_on n n (f uplo trn n k al A be C) (f uplo trn n k al A' be C'))"

definition rank_2k_local :: "(int \<Rightarrow> int \<Rightarrow> nat \<Rightarrow> nat \<Rightarrow> complex \<Rightarrow> cmat \<Rightarrow> cmat \<Rightarrow> 'a \<Rightarrow> cmat \<Rightarrow> cmat) \<Rightarrow> bool" where
  "rank_2k_local f \<longleftrightarrow> (\<forall>uplo trn n k al A A' B B' be C C'.
     agree_on (if trn = CblasNoTrans then n else k) (if trn = CblasNoTrans then k else n) A A' \<longrightarrow>
     agree_on (if trn = CblasNoTrans then n else k) (if trn = CblasNoTrans then k else n) B B' \<longrightarrow>
     agree_on n n C C' \<longrightarrow> agree_on n n (f uplo trn n k al A B be C) (f uplo trn n k al A' B' be C'))"

definition tri_local :: "(int \<Rightarrow> int \<Rightarrow> int \<Rightarrow> int \<Rightarrow> nat \<Rightarrow> nat \<Rightarrow> complex \<Rightarrow> cmat \<Rightarrow> cmat \<Rightarrow> cmat) \<Rightarrow> bool" where
  "tri_local f \<longleftrightarrow> (\<forall>side uplo ta diag m n al A A' B B'.
     agree_on (if side = CblasLeft then m else n) (if side = CblasLeft then m else n) A A' \<longrightarrow>
     agree_on m n B B' \<longrightarrow> agree_on m n (f side uplo ta diag m n al A B) (f side uplo ta diag m n al A' B'))"

definition blas_local :: "blas \<Rightarrow> bool" where
  "blas_local K \<longleftrightarrow> gemm_local K \<and> sided_local (kb_symm K) \<and> sided_local (kb_hemm K) \<and> rank_k_local (kb_syrk K) \<and>
     rank_k_local (kb_herk K) \<and> rank_2k_local (kb_syr2k K) \<and> rank_2k_local (kb_her2k K) \<and>
     tri_local (kb_trmm K) \<and> tri_local (kb_trsm K)"

lemma agree_view:
  "(\<And>x. in_block p ld m n x \<Longrightarrow> mem x = mem' x) \<Longrightarrow> agree_on m n (view mem p ld) (view mem' p ld)"
  by (auto simp: agree_on_def view_def in_block_def)

lemma agree_acquired:
  "(md AND KAAPI_ACCESS_MODE_R \<noteq> 0 \<Longrightarrow> agree_on m n (view mem (h_data h) ld) (view mem' (h_data h) ld)) \<Longrightarrow>
   agree_on m n (acquired J md mem h ld) (acquired J md mem' h ld)"
  by (auto simp: acquired_def agree_on_def)

lemma mode_bits [simp]:
  "KAAPI_ACCESS_MODE_R \<noteq> 0" "KAAPI_ACCESS_MODE_W \<noteq> 0" "KAAPI_ACCESS_MODE_RW AND KAAPI_ACCESS_MODE_R \<noteq> 0"
  "KAAPI_ACCESS_MODE_W AND KAAPI_ACCESS_MODE_R = 0" "KAAPI_ACCESS_MODE_R AND KAAPI_ACCESS_MODE_W = 0"
  "KAAPI_ACCESS_MODE_RW AND KAAPI_ACCESS_MODE_W \<noteq> 0"
  "w_or_rw be AND KAAPI_ACCESS_MODE_R \<noteq> 0 \<longleftrightarrow> be \<noteq> 0" "w_or_rw be AND KAAPI_ACCESS_MODE_W \<noteq> 0"
  by (simp_all add: amode_defs w_or_rw_def)

text \<open>What a task stores, as a function of the memory.\<close>

fun task_value :: "blas \<Rightarrow> (nat \<Rightarrow> cmat) \<Rightarrow> task \<Rightarrow> mem \<Rightarrow> cmat" where
  "task_value K J (TGemm ta tb m n k al A lda B ldb be C ldc) mem =
     kb_gemm K ta tb m n k al (view mem (h_data A) lda) (view mem (h_data B) ldb) be (acquired J (w_or_rw be) mem C ldc)"
| "task_value K J (TGemmt uplo ta tb n k al A lda B ldb be C ldc) mem =
     kb_gemm K ta tb n n k al (view mem (h_data A) lda) (view mem (h_data B) ldb) be (acquired J (w_or_rw be) mem C ldc)"
| "task_value K J (TSymm side uplo m n al A lda B ldb be C ldc) mem =
     kb_symm K side uplo m n al (view mem (h_data A) lda) (view mem (h_data B) ldb) be (acquired J (w_or_rw be) mem C ldc)"
| "task_value K J (THemm side uplo m n al A lda B ldb be C ldc) mem =
     kb_hemm K side uplo m n al (view mem (h_data A) lda) (view mem (h_data B) ldb) be (acquired J (w_or_rw be) mem C ldc)"
| "task_value K J (TSyrk uplo trn n k al A lda be C ldc) mem =
     kb_syrk K uplo trn n k al (view mem (h_data A) lda) be (acquired J (w_or_rw be) mem C ldc)"
| "task_value K J (THerk uplo trn n k al A lda be' C ldc) mem =
     kb_herk K uplo trn n k al (view mem (h_data A) lda) be' (acquired J KAAPI_ACCESS_MODE_RW mem C ldc)"
| "task_value K J (TSyr2k uplo trn n k al A lda B ldb be C ldc) mem =
     kb_syr2k K uplo trn n k al (view mem (h_data A) lda) (view mem (h_data B) ldb) be (acquired J (w_or_rw be) mem C ldc)"
| "task_value K J (THer2k uplo trn n k al A lda B ldb be' C ldc) mem =
     kb_her2k K uplo trn n k al (view mem (h_data A) lda) (view mem (h_data B) ldb) be' (acquired J KAAPI_ACCESS_MODE_RW mem C ldc)"
| "task_value K J (TTrmm side uplo transA diag m n al A lda B ldb) mem =
     kb_trmm K side uplo transA diag m n al (view mem (h_data A) lda) (acquired J KAAPI_ACCESS_MODE_RW mem B ldb)"
| "task_value K J (TTrsm side uplo transA diag m n al A lda B ldb) mem =
     kb_trsm K side uplo transA diag m n al (view mem (h_data A) lda) (acquired J KAAPI_ACCESS_MODE_RW mem B ldb)"

lemma exec_task_store:
  "exec_task K J t mem = store_block (h_data (fst (last (task_accesses t)))) (fst (last (task_dims t)))
     (fst (snd (last (task_dims t)))) (snd (snd (last (task_dims t)))) (task_value K J t mem) mem"
  by (cases t) (simp_all add: body_defs)

lemma blas_localD:
  assumes "blas_local K"
  shows "gemm_local K" "sided_local (kb_symm K)" "sided_local (kb_hemm K)" "rank_k_local (kb_syrk K)"
    "rank_k_local (kb_herk K)" "rank_2k_local (kb_syr2k K)" "rank_2k_local (kb_her2k K)"
    "tri_local (kb_trmm K)" "tri_local (kb_trsm K)"
  using assms by (simp_all add: blas_local_def)

lemma reads_block:
  "b \<in> set (task_blocks t) \<Longrightarrow> block_mode b AND KAAPI_ACCESS_MODE_R \<noteq> 0 \<Longrightarrow> block_has b x \<Longrightarrow> x \<in> task_reads t"
  "b \<in> set (task_blocks t) \<Longrightarrow> block_mode b AND KAAPI_ACCESS_MODE_W \<noteq> 0 \<Longrightarrow> block_has b x \<Longrightarrow> x \<in> task_writes t"
  by (auto simp: task_reads_def task_writes_def)

lemma task_value_local:
  assumes K: "blas_local K" and m: "\<And>x. x \<in> task_reads t \<Longrightarrow> mem x = mem' x"
  shows "agree_on (fst (snd (last (task_dims t)))) (snd (snd (last (task_dims t)))) (task_value K J t mem) (task_value K J t mem')"
proof -
  have v: "agree_on (fst (snd (task_dims t ! i))) (snd (snd (task_dims t ! i)))
      (view mem (h_data (fst (task_accesses t ! i))) (fst (task_dims t ! i)))
      (view mem' (h_data (fst (task_accesses t ! i))) (fst (task_dims t ! i)))"
    if i: "i < length (task_accesses t)" "i < length (task_dims t)" "snd (task_accesses t ! i) AND KAAPI_ACCESS_MODE_R \<noteq> 0" for i
  proof (intro agree_view m reads_block(1))
    have "task_blocks t ! i \<in> set (task_blocks t)" using i by (intro nth_mem) (simp add: task_blocks_def)
    then show "(task_accesses t ! i, task_dims t ! i) \<in> set (task_blocks t)" using i by (simp add: task_blocks_def)
    show "block_mode (task_accesses t ! i, task_dims t ! i) AND KAAPI_ACCESS_MODE_R \<noteq> 0"
      using i(3) by (cases "task_accesses t ! i"; cases "task_dims t ! i") simp
    fix x assume "in_block (h_data (fst (task_accesses t ! i))) (fst (task_dims t ! i)) (fst (snd (task_dims t ! i)))
      (snd (snd (task_dims t ! i))) x"
    then show "block_has (task_accesses t ! i, task_dims t ! i) x"
      by (cases "task_accesses t ! i"; cases "task_dims t ! i") simp
  qed
  note L = blas_localD [OF K, unfolded gemm_local_def sided_local_def rank_k_local_def rank_2k_local_def tri_local_def, rule_format]
  show ?thesis
  proof (cases t)
    case (TGemm ta tb m n k al A lda B ldb be C ldc)
    then show ?thesis using v [of 0] v [of 1] v [of 2] by (auto intro!: L(1) agree_acquired split: if_splits)
  next
    case (TGemmt uplo ta tb n k al A lda B ldb be C ldc)
    then show ?thesis using v [of 0] v [of 1] v [of 2] by (auto intro!: L(1) agree_acquired split: if_splits)
  next
    case (TSymm side uplo m n al A lda B ldb be C ldc)
    then show ?thesis using v [of 0] v [of 1] v [of 2] by (auto intro!: L(2) agree_acquired split: if_splits)
  next
    case (THemm side uplo m n al A lda B ldb be C ldc)
    then show ?thesis using v [of 0] v [of 1] v [of 2] by (auto intro!: L(3) agree_acquired split: if_splits)
  next
    case (TSyrk uplo trn n k al A lda be C ldc)
    then show ?thesis using v [of 0] v [of 1] v [of 2] by (auto intro!: L(4) agree_acquired split: if_splits)
  next
    case (THerk uplo trn n k al A lda be C ldc)
    then show ?thesis using v [of 0] v [of 1] v [of 2] by (auto intro!: L(5) agree_acquired split: if_splits)
  next
    case (TSyr2k uplo trn n k al A lda B ldb be C ldc)
    then show ?thesis using v [of 0] v [of 1] v [of 2] by (auto intro!: L(6) agree_acquired split: if_splits)
  next
    case (THer2k uplo trn n k al A lda B ldb be C ldc)
    then show ?thesis using v [of 0] v [of 1] v [of 2] by (auto intro!: L(7) agree_acquired split: if_splits)
  next
    case (TTrmm side uplo transA diag m n al A lda B ldb)
    then show ?thesis using v [of 0] v [of 1] v [of 2] by (auto intro!: L(8) agree_acquired split: if_splits)
  next
    case (TTrsm side uplo transA diag m n al A lda B ldb)
    then show ?thesis using v [of 0] v [of 1] v [of 2] by (auto intro!: L(9) agree_acquired split: if_splits)
  qed
qed

section \<open>The tasks as an instance\<close>

lemma last_block:
  "(last (task_accesses t), last (task_dims t)) \<in> set (task_blocks t)"
  "snd (last (task_accesses t)) AND KAAPI_ACCESS_MODE_W \<noteq> 0"
  by (cases t; simp add: task_blocks_def)+

lemma stored_writes:
  assumes "in_block (h_data (fst (last (task_accesses t)))) (fst (last (task_dims t))) (fst (snd (last (task_dims t))))
    (snd (snd (last (task_dims t)))) x"
  shows "x \<in> task_writes t"
proof (rule reads_block(2) [OF last_block(1)])
  show "block_mode (last (task_accesses t), last (task_dims t)) AND KAAPI_ACCESS_MODE_W \<noteq> 0"
    using last_block(2) [of t] by (cases "last (task_accesses t)"; cases "last (task_dims t)") simp
  show "block_has (last (task_accesses t), last (task_dims t)) x"
    using assms by (cases "last (task_accesses t)"; cases "last (task_dims t)") simp
qed

text \<open>An element in a tile declared written, but that the body does not store, is in a tile declared read too.\<close>

lemma written_not_stored:
  assumes "x \<in> task_writes t"
  shows "x \<in> task_reads t \<or> in_block (h_data (fst (last (task_accesses t)))) (fst (last (task_dims t)))
    (fst (snd (last (task_dims t)))) (snd (snd (last (task_dims t)))) x"
  using assms by (cases t) (auto simp: task_writes_def task_reads_def task_blocks_def)

lemma exec_frame:
  assumes "task_fits t" "x \<notin> task_writes t"
  shows "exec_task K J t mem x = mem x"
  unfolding exec_task_store by (rule store_block_miss) (use assms stored_writes [of t x] in \<open>auto simp: task_fits_def\<close>)

lemma exec_local:
  assumes K: "blas_local K" and t: "task_fits t" and m: "\<And>x. x \<in> task_reads t \<Longrightarrow> mem x = mem' x"
    and x: "x \<in> task_writes t"
  shows "exec_task K J t mem x = exec_task K J t mem' x"
proof (cases "in_block (h_data (fst (last (task_accesses t)))) (fst (last (task_dims t)))
    (fst (snd (last (task_dims t)))) (snd (snd (last (task_dims t)))) x")
  case True
  then show ?thesis
    using task_value_local [OF K m, where t = t and J = J] t
    by (auto simp: exec_task_store in_block_def agree_on_def task_fits_def store_block_hit)
next
  case False
  then have "mem x = mem' x" using written_not_stored [OF x] m by blast
  then show ?thesis using False t by (simp add: exec_task_store task_fits_def store_block_miss)
qed

interpretation tile: footprint_tasks "exec_task K J" task_reads task_writes "{t. blas_local K \<and> task_fits t}" for K J
proof
  fix t x m m'
  assume "t \<in> {t. blas_local K \<and> task_fits t}"
  then show "x \<notin> task_writes t \<Longrightarrow> exec_task K J t m x = m x"
    "(\<And>x. x \<in> task_reads t \<Longrightarrow> m x = m' x) \<Longrightarrow> x \<in> task_writes t \<Longrightarrow> exec_task K J t m x = exec_task K J t m' x"
    by (auto intro: exec_frame exec_local)
qed

section \<open>The graph of the tasks\<close>

text \<open>Handles are numbered by their position in the list of the context.\<close>

definition handle_no :: "handle list \<Rightarrow> handle \<Rightarrow> nat" where
  "handle_no hs h = length (takeWhile (\<lambda>x. x \<noteq> h) hs)"

definition task_graph :: "handle list \<Rightarrow> task list \<Rightarrow> (nat \<times> amode) list list" where
  "task_graph hs ts = map (\<lambda>t. map (\<lambda>(h, m). (handle_no hs h, m)) (task_accesses t)) ts"

definition tiles_apart :: "task list \<Rightarrow> bool" where
  "tiles_apart ts \<longleftrightarrow> (\<forall>t\<in>set ts. \<forall>u\<in>set ts. \<forall>b\<in>set (task_blocks t). \<forall>c\<in>set (task_blocks u).
     block_mode b AND KAAPI_ACCESS_MODE_W \<noteq> 0 \<longrightarrow> block_handle b \<noteq> block_handle c \<longrightarrow> (\<forall>x. \<not> (block_has b x \<and> block_has c x)))"

definition tasks_declared :: "handle list \<Rightarrow> task list \<Rightarrow> bool" where
  "tasks_declared hs ts \<longleftrightarrow> (\<forall>t\<in>set ts. task_fits t \<and> distinct (map fst (task_accesses t)) \<and>
     fst ` set (task_accesses t) \<subseteq> set hs)"

lemma no_tasks: "tiles_apart []" "tasks_declared hs []"
  by (simp_all add: tiles_apart_def tasks_declared_def)

lemma handle_no_less: "h \<in> set hs \<Longrightarrow> handle_no hs h < length hs"
  unfolding handle_no_def by (induction hs) auto

lemma handle_no_nth: "h \<in> set hs \<Longrightarrow> hs ! handle_no hs h = h"
  using handle_no_less [of h hs] nth_length_takeWhile [of "\<lambda>x. x \<noteq> h" hs] by (simp add: handle_no_def)

lemma handle_no_inj: "inj_on (handle_no hs) (set hs)"
  by (rule inj_on_inverseI [where g = "\<lambda>n. hs ! n"]) (rule handle_no_nth)

lemma task_modes: "(h, m) \<in> set (task_accesses t) \<Longrightarrow>
    m = KAAPI_ACCESS_MODE_R \<or> m = KAAPI_ACCESS_MODE_W \<or> m = KAAPI_ACCESS_MODE_RW"
  by (cases t) (auto simp: w_or_rw_def)

lemma task_modes_plain: "(h, m) \<in> set (task_accesses t) \<Longrightarrow> plain_mode m"
  using task_modes by (fastforce simp: plain_mode_def)

lemma dfg_wf_task_graph:
  assumes "tasks_declared hs ts"
  shows "dfg_wf [0..<length hs] (task_graph hs ts) (length hs)" "\<forall>as\<in>set (task_graph hs ts). distinct (map fst as)"
proof -
  show "dfg_wf [0..<length hs] (task_graph hs ts) (length hs)"
    using assms by (fastforce simp: dfg_wf_def task_graph_def tasks_declared_def intro: handle_no_less task_modes_plain)
  show "\<forall>as\<in>set (task_graph hs ts). distinct (map fst as)"
  proof
    fix as assume "as \<in> set (task_graph hs ts)"
    then obtain t where t: "t \<in> set ts" "as = map (\<lambda>(h, m). (handle_no hs h, m)) (task_accesses t)"
      by (auto simp: task_graph_def)
    have "map fst as = map (handle_no hs) (map fst (task_accesses t))" by (simp add: t(2) comp_def split_def)
    moreover have "inj_on (handle_no hs) (set (map fst (task_accesses t)))"
      using assms t(1) inj_on_subset [OF handle_no_inj] by (fastforce simp: tasks_declared_def)
    moreover have "distinct (map fst (task_accesses t))" using assms t(1) by (simp add: tasks_declared_def)
    ultimately show "distinct (map fst as)" using distinct_map by metis
  qed
qed

lemma write_not_concurrent:
  assumes "(h, m) \<in> set (task_accesses t)" "m AND KAAPI_ACCESS_MODE_W \<noteq> 0" "(h', m') \<in> set (task_accesses u)"
  shows "\<not> KAAPI_ACCESS_IS_CONCURRENT m m'" "\<not> KAAPI_ACCESS_IS_CONCURRENT m' m"
  using assms plain_concurrent [OF task_modes_plain [OF assms(1)] task_modes_plain [OF assms(3)]]
    plain_concurrent [OF task_modes_plain [OF assms(3)] task_modes_plain [OF assms(1)]] task_modes [OF assms(1)]
  by (auto simp: amode_defs)

lemma block_access:
  "b \<in> set (task_blocks t) \<Longrightarrow> (block_handle b, block_mode b) \<in> set (task_accesses t)"
  by (cases b) (auto simp: task_blocks_def dest: set_zip_leftD)

lemma overlap_conflict:
  assumes "tiles_apart ts" "t \<in> set ts" "u \<in> set ts" "x \<in> task_writes t" "x \<in> task_reads u \<union> task_writes u"
  obtains h m m' where "(h, m) \<in> set (task_accesses t)" "(h, m') \<in> set (task_accesses u)"
    "\<not> KAAPI_ACCESS_IS_CONCURRENT m m'" "\<not> KAAPI_ACCESS_IS_CONCURRENT m' m"
proof -
  obtain b where b: "b \<in> set (task_blocks t)" "block_mode b AND KAAPI_ACCESS_MODE_W \<noteq> 0" "block_has b x"
    using assms(4) by (auto simp: task_writes_def)
  obtain c where c: "c \<in> set (task_blocks u)" "block_has c x"
    using assms(5) by (auto simp: task_writes_def task_reads_def)
  have "block_handle b = block_handle c" using assms(1-3) b c unfolding tiles_apart_def by blast
  then show thesis
    using that block_access [OF b(1)] block_access [OF c(1)]
      write_not_concurrent [OF block_access [OF b(1)] b(2) block_access [OF c(1)]] by metis
qed

lemma touch_conflict:
  assumes "tiles_apart ts" "i < length ts" "j < length ts" "tile.touch (ts ! i) (ts ! j)"
  shows "conflict (task_graph hs ts ! i) (task_graph hs ts ! j)"
proof -
  have ij: "ts ! i \<in> set ts" "ts ! j \<in> set ts" using assms by auto
  consider x where "x \<in> task_writes (ts ! i)" "x \<in> task_reads (ts ! j) \<union> task_writes (ts ! j)"
    | x where "x \<in> task_writes (ts ! j)" "x \<in> task_reads (ts ! i) \<union> task_writes (ts ! i)"
    using assms(4) by (auto simp: tile.touch_def)
  then obtain h m m' where "(h, m) \<in> set (task_accesses (ts ! i))" "(h, m') \<in> set (task_accesses (ts ! j))"
    "\<not> KAAPI_ACCESS_IS_CONCURRENT m m'"
    using overlap_conflict [OF assms(1) ij] overlap_conflict [OF assms(1) ij(2,1)] by metis
  then have "(handle_no hs h, m) \<in> set (task_graph hs ts ! i)" "(handle_no hs h, m') \<in> set (task_graph hs ts ! j)"
    using assms(2,3) by (force simp: task_graph_def)+
  with \<open>\<not> KAAPI_ACCESS_IS_CONCURRENT m m'\<close> show ?thesis unfolding conflict_def by blast
qed

section \<open>Every run computes the sequential result\<close>

definition graph_start :: "handle list \<Rightarrow> task list \<Rightarrow> (nat \<Rightarrow> access_node) \<Rightarrow> (nat \<Rightarrow> dfg_task) \<Rightarrow> dfg option" where
  "graph_start hs ts ac tk =
     xkblas_sync_start [0..<length hs] (dfg_build [0..<length hs] (task_graph hs ts) (dfg_empty ac tk (length hs)))"

definition run_tasks :: "blas \<Rightarrow> (nat \<Rightarrow> cmat) \<Rightarrow> task list \<Rightarrow> nat list \<Rightarrow> mem \<Rightarrow> mem" where
  "run_tasks K J ts xs mem = fold (\<lambda>i. exec_task K J (ts ! i)) xs mem"

lemma complete_run_result:
  assumes K: "blas_local K" and d: "tasks_declared hs ts" and ap: "tiles_apart ts"
    and st: "graph_start hs ts ac tk = Some st" and r: "dfg_run st xs st'" and full: "set xs = {..<length ts}"
  shows "run_tasks K J ts xs mem = exec_tasks K J ts mem"
proof -
  note wf = dfg_wf_task_graph [OF d]
  have o: "distinct xs" "\<forall>i<length xs. \<forall>u<xs ! i. conflict (task_graph hs ts ! u) (task_graph hs ts ! (xs ! i)) \<longrightarrow> u \<in> set (take i xs)"
    using run_order [OF wf(1) st [unfolded graph_start_def] r] by auto
  have "sound_order tile.touch ts xs"
    unfolding sound_order_def
  proof (intro conjI allI impI)
    fix ys t zs u assume x: "xs = ys @ t # zs" "u < t" "tile.touch (ts ! u) (ts ! t)"
    have "t \<in> {..<length ts}" unfolding full [symmetric] x(1) by simp
    then have "conflict (task_graph hs ts ! u) (task_graph hs ts ! t)"
      using x(2,3) by (intro touch_conflict [OF ap]) auto
    moreover have "length ys < length xs" "xs ! length ys = t" "take (length ys) xs = ys" unfolding x(1) by auto
    ultimately show "u \<in> set ys" using o(2) x(2) by metis
  qed (use o(1) full in auto)
  moreover have "set ts \<subseteq> {t. blas_local K \<and> task_fits t}" using K d by (auto simp: tasks_declared_def)
  ultimately show ?thesis
    unfolding run_tasks_def exec_tasks_def by (rule tile.schedule_sequential [rotated])
qed

lemma runtime_result:
  assumes "blas_local K" "tasks_declared hs ts" "tiles_apart ts"
  shows "\<exists>st. graph_start hs ts ac tk = Some st \<and> (\<exists>xs st'. dfg_run st xs st' \<and> (\<forall>t st''. \<not> dfg_step st' t st'')) \<and>
    (\<forall>xs st'. dfg_run st xs st' \<longrightarrow> (\<forall>t st''. \<not> dfg_step st' t st'') \<longrightarrow>
       run_tasks K J ts xs mem = exec_tasks K J ts mem)"
proof -
  note wf = dfg_wf_task_graph [OF assms(2)]
  have n: "length (task_graph hs ts) = length ts" by (simp add: task_graph_def)
  obtain st where st: "graph_start hs ts ac tk = Some st" and
    P: "\<And>xs st'. dfg_run st xs st' \<Longrightarrow> (\<exists>t st''. dfg_step st' t st'') \<or> distinct xs \<and> set xs = {..<length ts}"
    using run_progress [OF wf, of ac tk] unfolding graph_start_def n by metis
  have R: "run_tasks K J ts xs mem = exec_tasks K J ts mem" if "dfg_run st xs st'" "\<forall>t st''. \<not> dfg_step st' t st''" for xs st'
    using complete_run_result [OF assms st that(1)] P [OF that(1)] that(2) by blast
  obtain xs st' where r: "dfg_run st xs st'" "length xs = length ts"
    using full_run [OF wf, of ac tk] st unfolding graph_start_def n by (metis option.inject)
  have stop: "\<not> dfg_step st' t st''" for t st''
  proof
    assume "dfg_step st' t st''"
    then have "dfg_run st (xs @ [t]) st''" by (rule dfg_run.snoc [OF r(1)])
    then have "distinct (xs @ [t]) \<and> set (xs @ [t]) \<subseteq> {..<length ts}"
      using run_order [OF wf(1) st [unfolded graph_start_def]] n by metis
    then have "card (set (xs @ [t])) = length ts + 1" "card (set (xs @ [t])) \<le> card {..<length ts}"
      using r(2) distinct_card [of "xs @ [t]"] card_mono [of "{..<length ts}" "set (xs @ [t])"] by auto
    then show False by simp
  qed
  show ?thesis using st r(1) stop R by (intro exI [of _ st]) blast
qed

section \<open>The reference kernels are local\<close>

lemma ref_gemm_local: "gemm_local (ref_blas s)"
  by (auto simp: gemm_local_def ref_blas_def agree_on_def gemm_val_def op_el_def cong: sum.cong_simp if_cong)

lemma ref_symm_local: "sided_local symm_val" "sided_local hemm_val"
  by (auto simp: sided_local_def agree_on_def symm_val_def sym_el_def hemm_val_def herm_el_def cong: sum.cong_simp if_cong)

lemma ref_rank_k_local:
  "rank_k_local (\<lambda>uplo trn n k al A be C. only_tri uplo (syrk_val trn k al A be C) C)"
  "rank_k_local (\<lambda>uplo trn n k al A be C. only_tri uplo (herk_val trn k al A be C) C)"
  by (auto simp: rank_k_local_def agree_on_def only_tri_def syrk_val_def herk_val_def real_diag_def cong: sum.cong_simp if_cong)

lemma ref_rank_2k_local:
  "rank_2k_local (\<lambda>uplo trn n k al A B be C. only_tri uplo (syr2k_val trn k al A B be C) C)"
  "rank_2k_local (\<lambda>uplo trn n k al A B be C. only_tri uplo (her2k_val trn k al A B be C) C)"
  by (auto simp: rank_2k_local_def agree_on_def only_tri_def syr2k_val_def her2k_val_def real_diag_def cong: sum.cong_simp if_cong)

lemma ref_trmm_local: "tri_local trmm_val"
  by (auto simp: tri_local_def agree_on_def trmm_val_def op_el_def tri_el_def cong: sum.cong_simp if_cong)

lemma ref_blas_local: "tri_local s \<Longrightarrow> blas_local (ref_blas s)"
  using ref_gemm_local [of s] ref_symm_local ref_rank_k_local ref_rank_2k_local ref_trmm_local
  by (simp add: blas_local_def ref_blas_def)

lemma no_solver_local: "tri_local (\<lambda>_ _ _ _ _ _ _ _ B. B)"
  by (simp add: tri_local_def)

section \<open>Property\<close>

text \<open>C2. Whatever ready task is taken next, whichever device takes it, the runtime computes the result of the tasks run
  one after the other in their order of insertion: the graph of the inserted tasks is started, some run of it comes to
  its end, and every run that cannot be continued leaves the memory of the sequential execution. The tasks are any
  tile tasks that declare every handle once, and whose written tiles do not overlap the tiles of other handles.\<close>

theorem any_run_sequential:
  assumes "blas_local K" "tasks_declared hs ts" "tiles_apart ts"
  shows "\<exists>st. graph_start hs ts ac tk = Some st \<and> (\<exists>xs st'. dfg_run st xs st' \<and> (\<forall>t st''. \<not> dfg_step st' t st'')) \<and>
    (\<forall>xs st'. dfg_run st xs st' \<longrightarrow> (\<forall>t st''. \<not> dfg_step st' t st'') \<longrightarrow>
       run_tasks K J ts xs mem = exec_tasks K J ts mem)"
  by (rule runtime_result [OF assms])

theorem any_run_sequential_witness:
  "\<forall>ac tk. \<exists>st xs st'. graph_start [\<lparr>h_mat = 1, h_idx = 0, h_data = 16\<rparr>, \<lparr>h_mat = 2, h_idx = 0, h_data = 32\<rparr>]
      [TTrmm 141 121 111 131 1 1 2 \<lparr>h_mat = 1, h_idx = 0, h_data = 16\<rparr> 1 \<lparr>h_mat = 2, h_idx = 0, h_data = 32\<rparr> 1,
       TTrmm 141 121 111 131 1 1 3 \<lparr>h_mat = 1, h_idx = 0, h_data = 16\<rparr> 1 \<lparr>h_mat = 2, h_idx = 0, h_data = 32\<rparr> 1] ac tk = Some st \<and>
    dfg_run st xs st' \<and>
    run_tasks (ref_blas (\<lambda>_ _ _ _ _ _ _ _ B. B)) (\<lambda>_ _ _. 7)
      [TTrmm 141 121 111 131 1 1 2 \<lparr>h_mat = 1, h_idx = 0, h_data = 16\<rparr> 1 \<lparr>h_mat = 2, h_idx = 0, h_data = 32\<rparr> 1,
       TTrmm 141 121 111 131 1 1 3 \<lparr>h_mat = 1, h_idx = 0, h_data = 16\<rparr> 1 \<lparr>h_mat = 2, h_idx = 0, h_data = 32\<rparr> 1] xs (\<lambda>_. 1) =
    exec_tasks (ref_blas (\<lambda>_ _ _ _ _ _ _ _ B. B)) (\<lambda>_ _ _. 7)
      [TTrmm 141 121 111 131 1 1 2 \<lparr>h_mat = 1, h_idx = 0, h_data = 16\<rparr> 1 \<lparr>h_mat = 2, h_idx = 0, h_data = 32\<rparr> 1,
       TTrmm 141 121 111 131 1 1 3 \<lparr>h_mat = 1, h_idx = 0, h_data = 16\<rparr> 1 \<lparr>h_mat = 2, h_idx = 0, h_data = 32\<rparr> 1] (\<lambda>_. 1)"
proof (intro allI)
  fix ac tk
  let ?a = "\<lparr>h_mat = 1, h_idx = 0, h_data = 16\<rparr>" and ?b = "\<lparr>h_mat = 2, h_idx = 0, h_data = 32\<rparr>"
  let ?ts = "[TTrmm 141 121 111 131 1 1 2 ?a 1 ?b 1, TTrmm 141 121 111 131 1 1 3 ?a 1 ?b 1]"
  let ?K = "ref_blas (\<lambda>_ _ _ _ _ _ _ _ B. B)"
  have 1: "tasks_declared [?a, ?b] ?ts" by (simp add: tasks_declared_def task_fits_def)
  have 2: "tiles_apart ?ts"
    by (auto simp: tiles_apart_def task_blocks_def in_block_def elt_addr_def)
  show "\<exists>st xs st'. graph_start [?a, ?b] ?ts ac tk = Some st \<and> dfg_run st xs st' \<and>
    run_tasks ?K (\<lambda>_ _ _. 7) ?ts xs (\<lambda>_. 1) = exec_tasks ?K (\<lambda>_ _ _. 7) ?ts (\<lambda>_. 1)"
    using any_run_sequential [OF ref_blas_local [OF no_solver_local] 1 2, where ac = ac and tk = tk] by blast
qed

end
