(* ===== verification/Gemm_Run.thy ===== *)
theory Gemm_Run
  imports Schedule
begin

text \<open>
  The tasks of \<open>xkblas_zgemm_async\<close> satisfy the conditions of \<open>Schedule\<close>: they declare every handle once, and the
  tiles of \<open>C\<close>, the only ones written, overlap neither each other nor the tiles of \<open>A\<close> and \<open>B\<close>.
\<close>

lemma tile_in_array:
  assumes "in_block (p + (r + c * ld) * ELTSIZE) ld m n x" "r + m \<le> M" "c + n \<le> N"
  shows "in_block p ld M N x"
proof -
  obtain i j where "i < m" "j < n" "x = elt_addr p ld (r + i) (c + j)"
    using assms(1) by (auto simp: in_block_def elt_addr_tile)
  moreover from this have "r + i < M" "c + j < N" using assms(2,3) by auto
  ultimately show ?thesis unfolding in_block_def by blast
qed

lemma arrays_disjoint_blocks:
  "arrays_disjoint a lda ma na c ldc mc nc \<Longrightarrow> in_block a lda ma na x \<Longrightarrow> \<not> in_block c ldc mc nc x"
  by (auto simp: arrays_disjoint_def in_block_def)

lemma same_tile:
  assumes "in_block (p + (m * NB + n * NB * ld) * ELTSIZE) ld tm tn x"
    and "in_block (p + (m' * NB + n' * NB * ld) * ELTSIZE) ld tm' tn' x"
    and "m * NB + tm \<le> ld" "m' * NB + tm' \<le> ld" "tm \<le> NB" "tm' \<le> NB" "tn \<le> NB" "tn' \<le> NB"
  shows "m = m' \<and> n = n'"
proof -
  obtain i j where ij: "i < tm" "j < tn" "x = elt_addr p ld (m * NB + i) (n * NB + j)"
    using assms(1) by (auto simp: in_block_def elt_addr_tile)
  obtain i' j' where ij': "i' < tm'" "j' < tn'" "x = elt_addr p ld (m' * NB + i') (n' * NB + j')"
    using assms(2) by (auto simp: in_block_def elt_addr_tile)
  have e: "m * NB + i = m' * NB + i'" "n * NB + j = n' * NB + j'"
    using elt_addr_inj [of "m * NB + i" ld "m' * NB + i'" p "n * NB + j" "n' * NB + j'"] ij ij' assms(3,4) by auto
  have "(m * NB + i) div NB = m" "(m' * NB + i') div NB = m'" "(n * NB + j) div NB = n" "(n' * NB + j') div NB = n'"
    using ij ij' assms by (intro tile_index_div; simp)+
  then show ?thesis using e by metis
qed

text \<open>A task of the call: the tiles it works on.\<close>

definition gemm_task ::
  "int \<Rightarrow> int \<Rightarrow> nat \<Rightarrow> nat \<Rightarrow> nat \<Rightarrow> nat \<Rightarrow> complex \<Rightarrow> matrix_descr \<Rightarrow> nat \<Rightarrow> matrix_descr \<Rightarrow> nat \<Rightarrow> complex
     \<Rightarrow> matrix_descr \<Rightarrow> nat \<Rightarrow> nat \<Rightarrow> nat \<Rightarrow> nat \<Rightarrow> task" where
  "gemm_task ta tb M N Kd NB al Ah lda Bh ldb z Ch ldc m n k =
     TGemm ta tb (tile_dim (xkblas_num_of_tiles M NB) M NB m) (tile_dim (xkblas_num_of_tiles N NB) N NB n)
       (tile_dim (xkblas_num_of_tiles Kd NB) Kd NB k) al
       (if ta = CblasNoTrans then xkblas_get_handle Ah m k else xkblas_get_handle Ah k m) lda
       (if tb = CblasNoTrans then xkblas_get_handle Bh k n else xkblas_get_handle Bh n k) ldb z
       (xkblas_get_handle Ch m n) ldc"

lemma zgemm_tasks_form:
  assumes lay: "gemm_layout ta tb M N Kd NB Ah A lda Bh B ldb Ch C ldc"
    and t: "t \<in> set (zgemm_tasks ta tb M N (if ta = CblasNoTrans then M else Kd) (if ta = CblasNoTrans then Kd else M)
        al Ah lda Bh ldb be Ch ldc)"
  obtains m n k z where "m < xkblas_num_of_tiles M NB" "n < xkblas_num_of_tiles N NB" "k < xkblas_num_of_tiles Kd NB"
    "t = gemm_task ta tb M N Kd NB al Ah lda Bh ldb z Ch ldc m n k"
proof -
  have d: "descr_of Ah A (if ta = CblasNoTrans then M else Kd) (if ta = CblasNoTrans then Kd else M) lda NB NB"
    "descr_of Ch C M N ldc NB NB" using lay by (auto simp: gemm_layout_def Let_def)
  note dims = descr_of_dims [OF d(1)] descr_of_dims [OF d(2)]
  show thesis
    using t dims
    by (cases "ta = CblasNoTrans"; cases "tb = CblasNoTrans")
       (auto simp: zgemm_tasks_def zgemm_tile_def insert_defs Let_def gemm_task_def intro: that)
qed

lemma gemm_task_accesses:
  "task_accesses (gemm_task ta tb M N Kd NB al Ah lda Bh ldb z Ch ldc m n k) =
    [(if ta = CblasNoTrans then xkblas_get_handle Ah m k else xkblas_get_handle Ah k m, KAAPI_ACCESS_MODE_R),
     (if tb = CblasNoTrans then xkblas_get_handle Bh k n else xkblas_get_handle Bh n k, KAAPI_ACCESS_MODE_R),
     (xkblas_get_handle Ch m n, w_or_rw z)]"
  by (simp add: gemm_task_def)

lemma zgemm_tasks_declared:
  assumes lay: "gemm_layout ta tb M N Kd NB Ah A lda Bh B ldb Ch C ldc" and abc: "distinct [A, B, C]"
    and hs: "\<forall>t\<in>set ts. fst ` set (task_accesses t) \<subseteq> set hs"
    and ts: "ts = zgemm_tasks ta tb M N (if ta = CblasNoTrans then M else Kd) (if ta = CblasNoTrans then Kd else M)
        al Ah lda Bh ldb be Ch ldc"
  shows "tasks_declared hs ts"
  unfolding tasks_declared_def
proof (intro ballI conjI)
  fix t assume t: "t \<in> set ts"
  then obtain m n k z where k: "m < xkblas_num_of_tiles M NB" "n < xkblas_num_of_tiles N NB" "k < xkblas_num_of_tiles Kd NB"
    "t = gemm_task ta tb M N Kd NB al Ah lda Bh ldb z Ch ldc m n k"
    unfolding ts by (rule zgemm_tasks_form [OF lay])
  have NB: "0 < NB" "M \<le> ldc" using lay by (auto simp: gemm_layout_def Let_def)
  have "tile_dim (xkblas_num_of_tiles M NB) M NB m \<le> ldc" using tile_dim_bound [OF NB(1) k(1)] NB(2) by simp
  then show "task_fits t" by (simp add: k(4) gemm_task_def task_fits_def)
  have "descr_of Ah A (if ta = CblasNoTrans then M else Kd) (if ta = CblasNoTrans then Kd else M) lda NB NB"
    "descr_of Bh B (if tb = CblasNoTrans then Kd else N) (if tb = CblasNoTrans then N else Kd) ldb NB NB"
    "descr_of Ch C M N ldc NB NB" using lay by (auto simp: gemm_layout_def Let_def)
  then have "h_mat (if ta = CblasNoTrans then xkblas_get_handle Ah m k else xkblas_get_handle Ah k m) = A"
    "h_mat (if tb = CblasNoTrans then xkblas_get_handle Bh k n else xkblas_get_handle Bh n k) = B"
    "h_mat (xkblas_get_handle Ch m n) = C"
    using k by (auto simp: descr_of_def)
  then show "distinct (map fst (task_accesses t))" using abc unfolding k(4) gemm_task_accesses by auto
qed (use hs in auto)

text \<open>The tiles of \<open>A\<close> and \<open>B\<close> lie in their arrays, and only the tile of \<open>C\<close> is written.\<close>

lemma gemm_task_blocks:
  assumes lay: "gemm_layout ta tb M N Kd NB Ah A lda Bh B ldb Ch C ldc"
    and k: "m < xkblas_num_of_tiles M NB" "n < xkblas_num_of_tiles N NB" "k < xkblas_num_of_tiles Kd NB"
    and b: "b \<in> set (task_blocks (gemm_task ta tb M N Kd NB al Ah lda Bh ldb z Ch ldc m n k))" "block_has b x"
  shows "block_mode b AND KAAPI_ACCESS_MODE_W = 0 \<and> \<not> in_block C ldc M N x \<or>
    block_handle b = xkblas_get_handle Ch m n \<and> in_block C ldc M N x \<and>
      in_block (C + (m * NB + n * NB * ldc) * ELTSIZE) ldc (tile_dim (xkblas_num_of_tiles M NB) M NB m)
        (tile_dim (xkblas_num_of_tiles N NB) N NB n) x"
proof -
  have NB: "0 < NB" and ap: "arrays_disjoint A lda (if ta = CblasNoTrans then M else Kd) (if ta = CblasNoTrans then Kd else M) C ldc M N"
      "arrays_disjoint B ldb (if tb = CblasNoTrans then Kd else N) (if tb = CblasNoTrans then N else Kd) C ldc M N"
    and d: "descr_of Ah A (if ta = CblasNoTrans then M else Kd) (if ta = CblasNoTrans then Kd else M) lda NB NB"
    "descr_of Bh B (if tb = CblasNoTrans then Kd else N) (if tb = CblasNoTrans then N else Kd) ldb NB NB"
    "descr_of Ch C M N ldc NB NB" using lay by (auto simp: gemm_layout_def Let_def)
  note dims = descr_of_dims [OF d(1)] descr_of_dims [OF d(2)] descr_of_dims [OF d(3)]
  note bnd = tile_dim_bound [OF NB k(1)] tile_dim_bound [OF NB k(2)] tile_dim_bound [OF NB k(3)]
  have "in_block A lda (if ta = CblasNoTrans then M else Kd) (if ta = CblasNoTrans then Kd else M) x \<and> block_mode b = KAAPI_ACCESS_MODE_R \<or>
    in_block B ldb (if tb = CblasNoTrans then Kd else N) (if tb = CblasNoTrans then N else Kd) x \<and> block_mode b = KAAPI_ACCESS_MODE_R \<or>
    block_handle b = xkblas_get_handle Ch m n \<and>
      in_block (C + (m * NB + n * NB * ldc) * ELTSIZE) ldc (tile_dim (xkblas_num_of_tiles M NB) M NB m)
        (tile_dim (xkblas_num_of_tiles N NB) N NB n) x"
  proof -
    let ?m = "tile_dim (xkblas_num_of_tiles M NB) M NB m" and ?n = "tile_dim (xkblas_num_of_tiles N NB) N NB n"
      and ?k = "tile_dim (xkblas_num_of_tiles Kd NB) Kd NB k"
    let ?a = "if ta = CblasNoTrans then xkblas_get_handle Ah m k else xkblas_get_handle Ah k m"
      and ?b = "if tb = CblasNoTrans then xkblas_get_handle Bh k n else xkblas_get_handle Bh n k"
    consider "b = ((?a, KAAPI_ACCESS_MODE_R), lda, if ta = CblasNoTrans then (?m, ?k) else (?k, ?m))"
      | "b = ((?b, KAAPI_ACCESS_MODE_R), ldb, if tb = CblasNoTrans then (?k, ?n) else (?n, ?k))"
      | "b = ((xkblas_get_handle Ch m n, w_or_rw z), ldc, ?m, ?n)"
      using b(1) by (auto simp: task_blocks_def gemm_task_def)
    then show ?thesis
    proof cases
      case 1
      have "h_data ?a = A + (if ta = CblasNoTrans then m * NB + k * NB * lda else k * NB + m * NB * lda) * ELTSIZE"
        using descr_of_data [OF d(1)] dims k by simp
      then show ?thesis using 1 b(2) bnd by (auto intro: tile_in_array split: if_splits)
    next
      case 2
      have "h_data ?b = B + (if tb = CblasNoTrans then k * NB + n * NB * ldb else n * NB + k * NB * ldb) * ELTSIZE"
        using descr_of_data [OF d(2)] dims k by simp
      then show ?thesis using 2 b(2) bnd by (auto intro: tile_in_array split: if_splits)
    next
      case 3
      have "h_data (xkblas_get_handle Ch m n) = C + (m * NB + n * NB * ldc) * ELTSIZE"
        using descr_of_data [OF d(3)] dims k by simp
      then show ?thesis using 3 b(2) by simp
    qed
  qed
  then show ?thesis
    using arrays_disjoint_blocks [OF ap(1)] arrays_disjoint_blocks [OF ap(2)]
      tile_in_array [OF _ bnd(1,2)] by auto
qed

lemma zgemm_tiles_apart:
  assumes lay: "gemm_layout ta tb M N Kd NB Ah A lda Bh B ldb Ch C ldc"
    and ts: "ts = zgemm_tasks ta tb M N (if ta = CblasNoTrans then M else Kd) (if ta = CblasNoTrans then Kd else M)
        al Ah lda Bh ldb be Ch ldc"
  shows "tiles_apart ts"
  unfolding tiles_apart_def
proof (intro ballI allI impI notI)
  fix t u b c x
  assume a: "t \<in> set ts" "u \<in> set ts" "b \<in> set (task_blocks t)" "c \<in> set (task_blocks u)"
    "block_mode b AND KAAPI_ACCESS_MODE_W \<noteq> 0" "block_handle b \<noteq> block_handle c" "block_has b x \<and> block_has c x"
  obtain m n k z where t: "m < xkblas_num_of_tiles M NB" "n < xkblas_num_of_tiles N NB" "k < xkblas_num_of_tiles Kd NB"
    "t = gemm_task ta tb M N Kd NB al Ah lda Bh ldb z Ch ldc m n k"
    using a(1) unfolding ts by (rule zgemm_tasks_form [OF lay])
  obtain m' n' k' z' where u: "m' < xkblas_num_of_tiles M NB" "n' < xkblas_num_of_tiles N NB" "k' < xkblas_num_of_tiles Kd NB"
    "u = gemm_task ta tb M N Kd NB al Ah lda Bh ldb z' Ch ldc m' n' k'"
    using a(2) unfolding ts by (rule zgemm_tasks_form [OF lay])
  have NB: "0 < NB" "M \<le> ldc" using lay by (auto simp: gemm_layout_def Let_def)
  have B: "block_handle b = xkblas_get_handle Ch m n" "in_block C ldc M N x"
    "in_block (C + (m * NB + n * NB * ldc) * ELTSIZE) ldc (tile_dim (xkblas_num_of_tiles M NB) M NB m)
        (tile_dim (xkblas_num_of_tiles N NB) N NB n) x"
    using gemm_task_blocks [OF lay t(1-3)] a(3,5,7) unfolding t(4) by blast+
  have C: "block_handle c = xkblas_get_handle Ch m' n'"
    "in_block (C + (m' * NB + n' * NB * ldc) * ELTSIZE) ldc (tile_dim (xkblas_num_of_tiles M NB) M NB m')
        (tile_dim (xkblas_num_of_tiles N NB) N NB n') x"
    using gemm_task_blocks [OF lay u(1-3)] a(4,7) B(2) unfolding u(4) by blast+
  have "m * NB + tile_dim (xkblas_num_of_tiles M NB) M NB m \<le> ldc" "m' * NB + tile_dim (xkblas_num_of_tiles M NB) M NB m' \<le> ldc"
    using tile_dim_bound [OF NB(1) t(1)] tile_dim_bound [OF NB(1) u(1)] NB(2) by simp_all
  then have "m = m' \<and> n = n'"
    using NB t u by (intro same_tile [OF B(3) C(2)] tile_dim_le)
  then show False using B(1) C(1) a(6) by simp
qed

end
