(* ===== verification/Get_Source.thy ===== *)
theory Get_Source
  imports Blas_Tasks
begin

text \<open>
  Masks of address spaces, and the plugins' choice of the replica a copy starts from: \<open>KAAPI_MEMORY_FFS\<close> and
  \<open>_kaapi_get_random_bit1\<close> (\<open>kaapi_memory.h\<close>), \<open>host_get_source\<close>, \<open>cuda_get_source\<close> and
  \<open>kaapi_hip_get_source\<close> (the plugins). The C library's \<open>rand_r\<close> is an argument: a function from a seed to a
  number and the next seed. The locale \<open>source_plugin\<close> is what \<open>kaapi_memory.c\<close> needs of \<open>f_get_source\<close>; each of
  the three plugins is an interpretation of it.
\<close>

section \<open>Masks\<close>

text \<open>\<open>1UL << lid\<close>, in the 16 bits of the fields.\<close>

definition lid_mask :: "nat \<Rightarrow> 16 word" where "lid_mask lid = push_bit lid 1"

lemma bit_lid_mask [simp]: "bit (lid_mask lid) k \<longleftrightarrow> lid < 16 \<and> k = lid"
  by (auto simp: lid_mask_def bit_simps)

lemma word16_zero: "(w :: 16 word) = 0 \<longleftrightarrow> (\<forall>k<16. \<not> bit w k)"
  unfolding bit_eq_iff by (auto dest: bit_imp_le_length)

lemma mask_bits [simp]:
  "w AND lid_mask lid = 0 \<longleftrightarrow> \<not> (lid < 16 \<and> bit w lid)"
  "bit (w OR lid_mask lid) k \<longleftrightarrow> bit w k \<or> lid < 16 \<and> k = lid"
  "bit (w AND NOT (lid_mask lid)) k \<longleftrightarrow> bit w k \<and> k \<noteq> lid"
  "w AND NOT (lid_mask lid) = 0 \<longleftrightarrow> (\<forall>k. k < 16 \<longrightarrow> k \<noteq> lid \<longrightarrow> \<not> bit w k)"
  unfolding word16_zero by (auto simp: bit_and_iff bit_or_iff bit_not_iff dest: bit_imp_le_length)

lemma lid_mask_zero [simp]: "lid_mask lid = 0 \<longleftrightarrow> 16 \<le> lid"
  unfolding word16_zero by (cases "lid < 16") auto

lemma bit16_less: "bit (w :: 16 word) l \<Longrightarrow> l < 16"
  by (auto dest: bit_imp_le_length)

definition mask_lids :: "16 word \<Rightarrow> nat list" where
  "mask_lids w = filter (bit w) [0..<16]"

lemma set_mask_lids [simp]: "set (mask_lids w) = {k. bit w k}"
  by (auto simp: mask_lids_def dest: bit16_less)

lemma distinct_mask_lids [simp]: "distinct (mask_lids w)"
  by (simp add: mask_lids_def)

lemma mask_lids_Nil [simp]: "mask_lids w = [] \<longleftrightarrow> w = 0"
  by (auto simp: mask_lids_def filter_empty_conv word16_zero)

lemma mask_lids_clear: "mask_lids (w AND NOT (lid_mask k)) = filter (\<lambda>l. l \<noteq> k) (mask_lids w)"
  by (auto simp: mask_lids_def intro: filter_cong)

section \<open>Bit scans\<close>

definition KAAPI_MEMORY_FFS :: "16 word \<Rightarrow> nat" where
  "KAAPI_MEMORY_FFS w = (case mask_lids w of [] \<Rightarrow> 0 | k # ks \<Rightarrow> k + 1)"

definition KAAPI_MEMORY_POPCNT :: "16 word \<Rightarrow> nat" where
  "KAAPI_MEMORY_POPCNT w = length (mask_lids w)"

primrec random_bit_loop :: "nat \<Rightarrow> 16 word \<Rightarrow> nat \<Rightarrow> nat" where
  "random_bit_loop 0 v idx = idx"
| "random_bit_loop (Suc n) v idx =
     (let idx = KAAPI_MEMORY_FFS v in random_bit_loop n (v AND NOT (lid_mask (idx - 1))) idx)"

definition kaapi_get_random_bit1 :: "('s \<Rightarrow> nat \<times> 's) \<Rightarrow> 16 word \<Rightarrow> 's \<Rightarrow> nat \<times> 's" where
  "kaapi_get_random_bit1 rand_r v seed =
     (if v = 0 then (0, seed)
      else let (r, seed) = rand_r seed; k = r mod KAAPI_MEMORY_POPCNT v in (random_bit_loop (k + 1) v 0, seed))"

lemma ffs_zero [simp]: "KAAPI_MEMORY_FFS w = 0 \<longleftrightarrow> w = 0" "0 < KAAPI_MEMORY_FFS w \<longleftrightarrow> w \<noteq> 0"
proof -
  show z: "KAAPI_MEMORY_FFS w = 0 \<longleftrightarrow> w = 0"
    unfolding mask_lids_Nil [symmetric] by (cases "mask_lids w") (simp_all add: KAAPI_MEMORY_FFS_def del: mask_lids_Nil)
  show "0 < KAAPI_MEMORY_FFS w \<longleftrightarrow> w \<noteq> 0" unfolding z [symmetric] by simp
qed

lemma ffs_bit: "w \<noteq> 0 \<Longrightarrow> bit w (KAAPI_MEMORY_FFS w - Suc 0)"
proof -
  assume "w \<noteq> 0"
  then obtain k ks where k: "mask_lids w = k # ks" by (cases "mask_lids w") auto
  then have "bit w k" using set_mask_lids [of w] by auto
  then show ?thesis using k by (simp add: KAAPI_MEMORY_FFS_def)
qed

lemma ffs_least: "bit w k \<Longrightarrow> KAAPI_MEMORY_FFS w \<le> k + 1"
proof -
  assume k: "bit w k"
  then obtain l ls where l: "mask_lids w = l # ls" by (cases "mask_lids w") auto
  have "sorted (mask_lids w)" by (simp add: mask_lids_def sorted_wrt_filter)
  moreover have "k \<in> set (mask_lids w)" using k by simp
  ultimately show ?thesis using l by (auto simp: KAAPI_MEMORY_FFS_def)
qed

lemma random_bit_loop_nth: "n < length (mask_lids v) \<Longrightarrow> random_bit_loop (Suc n) v idx = mask_lids v ! n + 1"
proof (induction n arbitrary: v idx)
  case 0
  then show ?case by (cases "mask_lids v") (auto simp: KAAPI_MEMORY_FFS_def)
next
  case (Suc n)
  then obtain k ks where v: "mask_lids v = k # ks" by (cases "mask_lids v") auto
  have "k \<notin> set ks" using distinct_mask_lids [of v] v by simp
  then have "mask_lids (v AND NOT (lid_mask k)) = ks"
    unfolding mask_lids_clear v by (auto simp: filter_id_conv)
  then have "random_bit_loop (Suc n) (v AND NOT (lid_mask k)) (k + 1) = ks ! n + 1"
    using Suc(1) [of "v AND NOT (lid_mask k)" "k + 1"] Suc(2) v by simp
  then show ?case by (simp add: KAAPI_MEMORY_FFS_def v del: random_bit_loop.simps(2)) (simp add: KAAPI_MEMORY_FFS_def v)
qed

lemma random_bit_ok:
  assumes "v \<noteq> 0"
  shows "fst (kaapi_get_random_bit1 rand_r v seed) \<noteq> 0" "bit v (fst (kaapi_get_random_bit1 rand_r v seed) - Suc 0)"
proof -
  obtain r seed' where r: "rand_r seed = (r, seed')" by (cases "rand_r seed")
  let ?k = "r mod length (mask_lids v)"
  have "0 < length (mask_lids v)" using assms by simp
  then have k: "?k < length (mask_lids v)" by (rule mod_less_divisor)
  have "fst (kaapi_get_random_bit1 rand_r v seed) = mask_lids v ! ?k + 1"
    using assms random_bit_loop_nth [OF k] by (simp add: kaapi_get_random_bit1_def r KAAPI_MEMORY_POPCNT_def)
  moreover have "mask_lids v ! ?k \<in> set (mask_lids v)" using k by (rule nth_mem)
  ultimately show "fst (kaapi_get_random_bit1 rand_r v seed) \<noteq> 0" "bit v (fst (kaapi_get_random_bit1 rand_r v seed) - Suc 0)"
    by simp_all
qed

section \<open>The plugins\<close>

definition KAAPI_NO_LID :: nat where "KAAPI_NO_LID = 65535"

definition host_get_source :: "16 word \<Rightarrow> 16 word \<Rightarrow> nat" where
  "host_get_source valid_bit xfer_bit =
     (if valid_bit \<noteq> 0 then KAAPI_MEMORY_FFS valid_bit else KAAPI_MEMORY_FFS xfer_bit) - 1"

text \<open>The affinity masks are those of the device, from the best link to the last but one performance rank.\<close>

fun cuda_affinity_loop :: "16 word list \<Rightarrow> 16 word \<Rightarrow> 16 word \<Rightarrow> nat option" where
  "cuda_affinity_loop [] valid_bit xfer_bit = None"
| "cuda_affinity_loop (a # affinity) valid_bit xfer_bit =
     (let lid_src = (if valid_bit \<noteq> 0 then KAAPI_MEMORY_FFS (valid_bit AND a) else KAAPI_MEMORY_FFS (xfer_bit AND a)) in
      if lid_src \<noteq> 0 then Some (lid_src - 1) else cuda_affinity_loop affinity valid_bit xfer_bit)"

definition random_source :: "('s \<Rightarrow> nat \<times> 's) \<Rightarrow> 's \<Rightarrow> 16 word \<Rightarrow> 16 word \<Rightarrow> nat" where
  "random_source rand_r seed valid_bit xfer_bit =
     (if valid_bit \<noteq> 0 then fst (kaapi_get_random_bit1 rand_r valid_bit seed) - 1
      else if xfer_bit \<noteq> 0 then fst (kaapi_get_random_bit1 rand_r xfer_bit seed) - 1
      else KAAPI_NO_LID)"

definition cuda_get_source :: "16 word list \<Rightarrow> ('s \<Rightarrow> nat \<times> 's) \<Rightarrow> 's \<Rightarrow> 16 word \<Rightarrow> 16 word \<Rightarrow> nat" where
  "cuda_get_source affinity rand_r seed valid_bit xfer_bit =
     (case cuda_affinity_loop affinity valid_bit xfer_bit of
        Some lid_src \<Rightarrow> lid_src
      | None \<Rightarrow> random_source rand_r seed valid_bit xfer_bit)"

fun hip_affinity_loop :: "16 word list \<Rightarrow> ('s \<Rightarrow> nat \<times> 's) \<Rightarrow> 's \<Rightarrow> 16 word \<Rightarrow> 16 word \<Rightarrow> nat option \<times> 's" where
  "hip_affinity_loop [] rand_r seed valid_bit xfer_bit = (None, seed)"
| "hip_affinity_loop (a # affinity) rand_r seed valid_bit xfer_bit =
     (let (lid_src, seed) = (if valid_bit \<noteq> 0 then kaapi_get_random_bit1 rand_r (valid_bit AND a) seed
                             else kaapi_get_random_bit1 rand_r (xfer_bit AND a) seed) in
      if lid_src \<noteq> 0 then (Some (lid_src - 1), seed) else hip_affinity_loop affinity rand_r seed valid_bit xfer_bit)"

definition kaapi_hip_get_source :: "16 word list \<Rightarrow> ('s \<Rightarrow> nat \<times> 's) \<Rightarrow> 's \<Rightarrow> 16 word \<Rightarrow> 16 word \<Rightarrow> nat" where
  "kaapi_hip_get_source affinity rand_r seed valid_bit xfer_bit =
     (case hip_affinity_loop affinity rand_r seed valid_bit xfer_bit of
        (Some lid_src, seed) \<Rightarrow> lid_src
      | (None, seed) \<Rightarrow> random_source rand_r seed valid_bit xfer_bit)"

section \<open>What the memory component needs of them\<close>

definition get_source_ok :: "(16 word \<Rightarrow> 16 word \<Rightarrow> nat) \<Rightarrow> bool" where
  "get_source_ok gs \<longleftrightarrow> (\<forall>v x. (v \<noteq> 0 \<longrightarrow> bit v (gs v x)) \<and> (x \<noteq> 0 \<longrightarrow> bit x (gs 0 x)))"

locale source_plugin =
  fixes gs :: "16 word \<Rightarrow> 16 word \<Rightarrow> nat"
  assumes from_valid: "v \<noteq> 0 \<Longrightarrow> bit v (gs v x)"
    and from_xfer: "x \<noteq> 0 \<Longrightarrow> bit x (gs 0 x)"
begin

lemma from_valid_less: "v \<noteq> 0 \<Longrightarrow> gs v x < 16"
  by (rule bit16_less [OF from_valid])

lemma from_xfer_less: "x \<noteq> 0 \<Longrightarrow> gs 0 x < 16"
  by (rule bit16_less [OF from_xfer])

lemma found: "v \<noteq> 0 \<Longrightarrow> gs v x \<noteq> KAAPI_NO_LID" "x \<noteq> 0 \<Longrightarrow> gs 0 x \<noteq> KAAPI_NO_LID"
  using from_valid_less [of v x] from_xfer_less [of x] by (auto simp: KAAPI_NO_LID_def)

end

lemma source_plugin_iff: "source_plugin gs \<longleftrightarrow> get_source_ok gs"
  by (auto simp: source_plugin_def get_source_ok_def)

interpretation host: source_plugin host_get_source
  by unfold_locales (simp_all add: host_get_source_def ffs_bit)

lemma masked_ffs: "w AND a \<noteq> 0 \<Longrightarrow> bit w (KAAPI_MEMORY_FFS (w AND a) - Suc 0)"
  using ffs_bit [of "w AND a"] by (simp add: bit_and_iff)

lemma masked_random:
  "fst (kaapi_get_random_bit1 rand_r (w AND a) seed) \<noteq> 0 \<Longrightarrow> bit w (fst (kaapi_get_random_bit1 rand_r (w AND a) seed) - Suc 0)"
  using random_bit_ok(2) [of "w AND a" rand_r seed]
  by (cases "w AND a = 0") (auto simp: bit_and_iff kaapi_get_random_bit1_def [of _ 0])

lemma cuda_affinity_ok: "cuda_affinity_loop affinity v x = Some l \<Longrightarrow> bit (if v \<noteq> 0 then v else x) l"
  by (induction affinity) (auto simp: Let_def masked_ffs split: if_splits)

lemma hip_affinity_ok: "hip_affinity_loop affinity rand_r seed v x = (Some l, seed') \<Longrightarrow> bit (if v \<noteq> 0 then v else x) l"
proof (induction affinity arbitrary: seed)
  case (Cons a affinity)
  then show ?case
    using masked_random [of rand_r v a seed] masked_random [of rand_r x a seed]
    by (auto simp: split_beta Let_def split: if_splits)
qed simp

lemma random_source_ok: "v \<noteq> 0 \<or> x \<noteq> 0 \<Longrightarrow> bit (if v \<noteq> 0 then v else x) (random_source rand_r seed v x)"
  by (auto simp: random_source_def random_bit_ok)

interpretation cuda: source_plugin "cuda_get_source affinity rand_r seed" for affinity rand_r seed
proof unfold_locales
  show "v \<noteq> 0 \<Longrightarrow> bit v (cuda_get_source affinity rand_r seed v x)" for v x
    using cuda_affinity_ok [of affinity v x] random_source_ok [of v x rand_r seed]
    by (auto simp: cuda_get_source_def split: option.split)
  show "x \<noteq> 0 \<Longrightarrow> bit x (cuda_get_source affinity rand_r seed 0 x)" for x
    using cuda_affinity_ok [of affinity 0 x] random_source_ok [of 0 x rand_r seed]
    by (auto simp: cuda_get_source_def split: option.split)
qed

interpretation hip: source_plugin "kaapi_hip_get_source affinity rand_r seed" for affinity rand_r seed
proof unfold_locales
  show "v \<noteq> 0 \<Longrightarrow> bit v (kaapi_hip_get_source affinity rand_r seed v x)" for v x
    using hip_affinity_ok [of affinity rand_r seed v x] random_source_ok [of v x rand_r]
    by (auto simp: kaapi_hip_get_source_def split: option.split prod.split)
  show "x \<noteq> 0 \<Longrightarrow> bit x (kaapi_hip_get_source affinity rand_r seed 0 x)" for x
    using hip_affinity_ok [of affinity rand_r seed 0 x] random_source_ok [of 0 x rand_r]
    by (auto simp: kaapi_hip_get_source_def split: option.split prod.split)
qed

text \<open>C30. Whatever the affinity masks and the random numbers, the three plugins choose a replica of the valid mask
  when there is one, and otherwise one of the transfer mask.\<close>

theorem plugins_find_source:
  assumes "valid_bit \<noteq> 0 \<or> xfer_bit \<noteq> 0"
  shows "\<forall>lid\<in>{host_get_source valid_bit xfer_bit, cuda_get_source affinity rand_r seed valid_bit xfer_bit,
      kaapi_hip_get_source affinity rand_r seed valid_bit xfer_bit}.
    bit (if valid_bit \<noteq> 0 then valid_bit else xfer_bit) lid"
  using assms by (cases "valid_bit = 0")
    (auto simp: host.from_valid host.from_xfer cuda.from_valid cuda.from_xfer hip.from_valid hip.from_xfer)

lemma plugins_find_source_witness:
  "bit (12 :: 16 word) (cuda_get_source [3, 8] (\<lambda>s. (s, s + 1)) 5 12 0) \<and> cuda_get_source [3, 8] (\<lambda>s. (s, s + 1)) 5 12 0 = 3"
proof -
  have "cuda_get_source [3, 8] (\<lambda>s. (s, s + 1)) 5 12 0 = 3" by code_simp
  then show ?thesis using plugins_find_source [of 12 0 "[3, 8]" "\<lambda>s. (s, s + 1)" 5] by simp
qed

end
