(* ===== verification/Replica.thy ===== *)
theory Replica
  imports Get_Source
begin

text \<open>
  The replicas of one datum (\<open>kaapi_memory.c\<close>): the metadata block with its bit fields, the replica of each
  address space, the callbacks that wait for a reception, the copies that are posted but not completed, and the
  content of each replica. Address space 0 is the host. The completion of a posted copy is an operation of its own.
  \<open>kaapi_dsm_fetch_on\<close> is one operation, although the code chooses the source under one lock, links the callbacks under
  two others and posts the copy after having released them: what can happen in between is the eviction of the source,
  which the theory \<open>Coherence\<close> allows at any later time anyway.

  The plugin's \<open>f_get_source\<close> is the argument \<open>gs\<close>; the lemmas of the section on sources hold under the
  contract \<open>source_plugin\<close>, which the three plugins meet. The bytes of a replica whose memory has been freed
  are arbitrary.
\<close>

section \<open>Data\<close>

text \<open>The callbacks of a reception: \<open>callback_set_valid\<close> for a task that has acquired the datum, \<open>callback_epilogue_writeback\<close> for
  a write-back task, the forwarding of the data to another replica, and \<open>callback_nop\<close>.\<close>

datatype cbk = Notify nat | Epilogue nat | Resend nat | Cbk_nop

record 'v mdi =
  md_alloc :: "16 word"
  md_valid :: "16 word"
  md_xfer :: "16 word"
  md_wish :: "16 word"
  md_pinned :: "nat \<Rightarrow> int"
  md_cbk :: "nat \<Rightarrow> cbk list"            \<comment> \<open>callbacks of the replica; the first is the embedded one\<close>
  md_data :: "nat \<Rightarrow> 'v"                 \<comment> \<open>content of the replica\<close>
  md_copies :: "(nat \<times> nat) list"        \<comment> \<open>posted copies: source, destination\<close>

definition KAAPI_MEMORY_MAX_NODES :: nat where "KAAPI_MEMORY_MAX_NODES = 16"

section \<open>Bit fields\<close>

definition kaapi_memory_replica_is_allocated :: "'v mdi \<Rightarrow> nat \<Rightarrow> bool" where
  "kaapi_memory_replica_is_allocated m lid \<longleftrightarrow> md_alloc m AND lid_mask lid \<noteq> 0"

definition kaapi_memory_replica_set_allocated :: "'v mdi \<Rightarrow> nat \<Rightarrow> 'v mdi" where
  "kaapi_memory_replica_set_allocated m lid = m\<lparr>md_alloc := md_alloc m OR lid_mask lid\<rparr>"

definition kaapi_memory_replica_unset_allocated :: "'v mdi \<Rightarrow> nat \<Rightarrow> 'v mdi" where
  "kaapi_memory_replica_unset_allocated m lid = m\<lparr>md_alloc := md_alloc m AND NOT (lid_mask lid)\<rparr>"

definition kaapi_memory_replica_is_valid :: "'v mdi \<Rightarrow> nat \<Rightarrow> bool" where
  "kaapi_memory_replica_is_valid m lid \<longleftrightarrow> md_valid m AND lid_mask lid \<noteq> 0"

definition kaapi_memory_replica_is_valid_excepton :: "'v mdi \<Rightarrow> nat \<Rightarrow> bool" where
  "kaapi_memory_replica_is_valid_excepton m lid \<longleftrightarrow> md_valid m AND NOT (lid_mask lid) \<noteq> 0"

definition kaapi_memory_replica_set_valid :: "'v mdi \<Rightarrow> nat \<Rightarrow> 'v mdi" where
  "kaapi_memory_replica_set_valid m lid = m\<lparr>md_valid := md_valid m OR lid_mask lid\<rparr>"

definition kaapi_memory_replica_unset_valid :: "'v mdi \<Rightarrow> nat \<Rightarrow> 'v mdi" where
  "kaapi_memory_replica_unset_valid m lid = m\<lparr>md_valid := md_valid m AND NOT (lid_mask lid)\<rparr>"

definition kaapi_memory_replica_set_all_dirty_except :: "'v mdi \<Rightarrow> nat \<Rightarrow> 'v mdi" where
  "kaapi_memory_replica_set_all_dirty_except m lid = m\<lparr>md_valid := lid_mask lid\<rparr>"

definition kaapi_memory_replica_is_xfer :: "'v mdi \<Rightarrow> nat \<Rightarrow> bool" where
  "kaapi_memory_replica_is_xfer m lid \<longleftrightarrow> md_xfer m AND lid_mask lid \<noteq> 0"

definition kaapi_memory_replica_set_xfer :: "'v mdi \<Rightarrow> nat \<Rightarrow> 'v mdi" where
  "kaapi_memory_replica_set_xfer m lid = m\<lparr>md_xfer := md_xfer m OR lid_mask lid\<rparr>"

definition kaapi_memory_replica_unset_xfer :: "'v mdi \<Rightarrow> nat \<Rightarrow> 'v mdi" where
  "kaapi_memory_replica_unset_xfer m lid = m\<lparr>md_xfer := md_xfer m AND NOT (lid_mask lid)\<rparr>"

definition kaapi_memory_replica_is_notpinned :: "'v mdi \<Rightarrow> nat \<Rightarrow> bool" where
  "kaapi_memory_replica_is_notpinned m lid \<longleftrightarrow> md_pinned m lid = 0"

definition kaapi_memory_replica_mark_pinned :: "'v mdi \<Rightarrow> nat \<Rightarrow> 'v mdi" where
  "kaapi_memory_replica_mark_pinned m lid = m\<lparr>md_pinned := (md_pinned m)(lid := md_pinned m lid + 1)\<rparr>"

definition kaapi_memory_replica_unmark_pinned :: "'v mdi \<Rightarrow> nat \<Rightarrow> 'v mdi" where
  "kaapi_memory_replica_unmark_pinned m lid = m\<lparr>md_pinned := (md_pinned m)(lid := md_pinned m lid - 1)\<rparr>"

definition kaapi_memory_replica_clear_wish :: "'v mdi \<Rightarrow> 'v mdi" where
  "kaapi_memory_replica_clear_wish m = m\<lparr>md_wish := 0\<rparr>"

definition kaapi_memory_replica_set_wish :: "'v mdi \<Rightarrow> nat \<Rightarrow> 'v mdi" where
  "kaapi_memory_replica_set_wish m lid = m\<lparr>md_wish := md_wish m OR lid_mask lid\<rparr>"

definition kaapi_memory_replica_has_wish :: "'v mdi \<Rightarrow> nat \<Rightarrow> bool" where
  "kaapi_memory_replica_has_wish m lid \<longleftrightarrow> md_valid m AND lid_mask lid \<noteq> 0"

definition kaapi_memory_replica_is_valid_somewhere :: "'v mdi \<Rightarrow> bool" where
  "kaapi_memory_replica_is_valid_somewhere m \<longleftrightarrow> md_valid m \<noteq> 0"

definition kaapi_memory_replica_is_xfer_tosomewhere :: "'v mdi \<Rightarrow> bool" where
  "kaapi_memory_replica_is_xfer_tosomewhere m \<longleftrightarrow> md_xfer m \<noteq> 0"

definition kaapi_memory_replica_unset_wish :: "'v mdi \<Rightarrow> nat \<Rightarrow> 'v mdi" where
  "kaapi_memory_replica_unset_wish m lid = m\<lparr>md_wish := md_wish m AND NOT (lid_mask lid)\<rparr>"

definition kaapi_memory_replica_unset_pinned :: "'v mdi \<Rightarrow> nat \<Rightarrow> 'v mdi" where
  "kaapi_memory_replica_unset_pinned m lid = m\<lparr>md_pinned := (md_pinned m)(lid := 0)\<rparr>"

lemmas replica_bits = kaapi_memory_replica_is_allocated_def kaapi_memory_replica_set_allocated_def
  kaapi_memory_replica_unset_allocated_def kaapi_memory_replica_is_valid_def kaapi_memory_replica_is_valid_excepton_def
  kaapi_memory_replica_set_valid_def kaapi_memory_replica_unset_valid_def kaapi_memory_replica_set_all_dirty_except_def
  kaapi_memory_replica_is_xfer_def kaapi_memory_replica_set_xfer_def kaapi_memory_replica_unset_xfer_def
  kaapi_memory_replica_is_notpinned_def kaapi_memory_replica_mark_pinned_def kaapi_memory_replica_unmark_pinned_def

section \<open>Transfers\<close>

text \<open>A new metadata block: with a pointer, the application's memory, pinned, is the only replica; without one there is none.\<close>

definition kaapi_new_mdi :: "bool \<Rightarrow> (nat \<Rightarrow> 'v) \<Rightarrow> 'v mdi" where
  "kaapi_new_mdi has_ptr content =
     \<lparr>md_alloc = (if has_ptr then lid_mask 0 else 0), md_valid = (if has_ptr then lid_mask 0 else 0), md_xfer = 0, md_wish = 0,
      md_pinned = (if has_ptr then (\<lambda>_. 0)(0 := 1) else (\<lambda>_. 0)), md_cbk = (\<lambda>_. []), md_data = content, md_copies = []\<rparr>"

text \<open>\<open>_kaapi_get_source_lid\<close>, as compiled (\<open>KAAPI_USE_FAVOR_D2D_1\<close>), for a destination whose node has a memory
  device. The result 65535 of the plugin is its \<open>(uint16_t)-1\<close>. The retry loops end only if the plugin lets them.\<close>

partial_function (option) get_source_xfer ::
  "(16 word \<Rightarrow> 16 word \<Rightarrow> nat) \<Rightarrow> 'v mdi \<Rightarrow> 16 word \<Rightarrow> nat option option" where
  "get_source_xfer gs m xfer_bit =
     (if xfer_bit = 0 then Some (Some 0)
      else let lid_src = gs 0 xfer_bit in
        if lid_src = KAAPI_NO_LID then Some None
        else if kaapi_memory_replica_is_xfer m lid_src \<or> kaapi_memory_replica_is_valid m lid_src then Some (Some lid_src)
        else get_source_xfer gs m (xfer_bit AND NOT (lid_mask lid_src)))"

partial_function (option) get_source_valid ::
  "(16 word \<Rightarrow> 16 word \<Rightarrow> nat) \<Rightarrow> 'v mdi \<Rightarrow> 16 word \<Rightarrow> 16 word \<Rightarrow> nat option option" where
  "get_source_valid gs m valid_bit xfer_bit =
     (if valid_bit = 0 then Some None
      else let lid_src = gs valid_bit xfer_bit in
        if lid_src = KAAPI_NO_LID then Some None
        else if kaapi_memory_replica_is_valid m lid_src then Some (Some lid_src)
        else get_source_valid gs m (valid_bit AND NOT (lid_mask lid_src)) xfer_bit)"

partial_function (option) kaapi_get_source_lid :: "(16 word \<Rightarrow> 16 word \<Rightarrow> nat) \<Rightarrow> 'v mdi \<Rightarrow> nat option" where
  "kaapi_get_source_lid gs m =
     (let valid_bit = md_valid m AND NOT (lid_mask 0); xfer_bit = md_xfer m AND NOT (lid_mask 0) in
      if valid_bit = 0 \<and> xfer_bit = 0 then Some 0
      else Option.bind (get_source_valid gs m valid_bit xfer_bit) (\<lambda>r. case r of Some lid_src \<Rightarrow> Some lid_src
        | None \<Rightarrow> Option.bind (get_source_xfer gs m xfer_bit) (\<lambda>r. case r of Some lid_src \<Rightarrow> Some lid_src
            | None \<Rightarrow> kaapi_get_source_lid gs m)))"

definition allocate_callback :: "nat \<Rightarrow> cbk \<Rightarrow> 'v mdi \<Rightarrow> 'v mdi" where
  "allocate_callback lid c m =
     m\<lparr>md_cbk := (md_cbk m)(lid := (case md_cbk m lid of [] \<Rightarrow> [c] | h # cs \<Rightarrow> h # c # cs))\<rparr>"

definition kaapi_memory_copy_async :: "nat \<Rightarrow> nat \<Rightarrow> 'v mdi \<Rightarrow> 'v mdi" where
  "kaapi_memory_copy_async src dest m = m\<lparr>md_copies := md_copies m @ [(src, dest)]\<rparr>"

datatype io_result = Io_ok | Io_inprogress

definition kaapi_dsm_fetch_on ::
  "(16 word \<Rightarrow> 16 word \<Rightarrow> nat) \<Rightarrow> nat \<Rightarrow> cbk \<Rightarrow> 'v mdi \<Rightarrow> (io_result \<times> 'v mdi) option" where
  "kaapi_dsm_fetch_on gs dest cb m =
     (if kaapi_memory_replica_is_valid m dest then Some (Io_ok, m)
      else Option.bind (kaapi_get_source_lid gs m) (\<lambda>src.
        let d2d_route = kaapi_memory_replica_is_xfer m src \<and> \<not> kaapi_memory_replica_is_xfer m dest;
            m1 = (if d2d_route then kaapi_memory_replica_set_xfer (allocate_callback dest cb m) dest else m);
            m2 = allocate_callback (if d2d_route then src else dest) (if d2d_route then Resend dest else cb) m1
        in if kaapi_memory_replica_is_xfer m2 dest then Some (Io_inprogress, m2)
           else Some (Io_inprogress, kaapi_memory_copy_async src dest (kaapi_memory_replica_set_xfer m2 dest))))"

text \<open>\<open>callback_resend_replica_on_callback_cbk\<close> asserts that the destination is not valid.\<close>

fun run_callback :: "nat \<Rightarrow> cbk \<Rightarrow> 'v mdi \<Rightarrow> 'v mdi option" where
  "run_callback lid (Notify t) m = Some m"
| "run_callback lid (Epilogue t) m = Some m"
| "run_callback lid Cbk_nop m = Some m"
| "run_callback lid (Resend dest) m =
     (if kaapi_memory_replica_is_valid m dest then None else Some (kaapi_memory_copy_async lid dest m))"

fun run_callbacks :: "nat \<Rightarrow> cbk list \<Rightarrow> 'v mdi \<Rightarrow> 'v mdi option" where
  "run_callbacks lid [] m = Some m"
| "run_callbacks lid (c # cs) m = Option.bind (run_callback lid c m) (run_callbacks lid cs)"

definition callback_activate_replica_on_receive :: "nat \<Rightarrow> 'v mdi \<Rightarrow> 'v mdi option" where
  "callback_activate_replica_on_receive lid m =
     (let m1 = kaapi_memory_replica_unset_xfer (kaapi_memory_replica_set_valid m lid) lid in
      map_option (\<lambda>m2. m2\<lparr>md_cbk := (md_cbk m2)(lid := [])\<rparr>) (run_callbacks lid (md_cbk m1 lid) m1))"

text \<open>The device reports that a posted copy is done.\<close>

definition complete_copy :: "nat \<times> nat \<Rightarrow> 'v mdi \<Rightarrow> 'v mdi option" where
  "complete_copy c m =
     callback_activate_replica_on_receive (snd c)
       (m\<lparr>md_copies := remove1 c (md_copies m), md_data := (md_data m)(snd c := md_data m (fst c))\<rparr>)"

section \<open>Acquire, release, prefetch, evict\<close>

text \<open>What the device answers to the allocation of a replica: whether the first \<open>kaapi_memory_alloc\<close> returns a block, and for
  each turn of the retry loop, whether the eviction freed enough memory, whether \<open>kaapi_memory_alloc\<close> then returns a
  block, and which of the posted copies of this datum the poll of the device finds completed.\<close>

type_synonym device_memory = "bool \<times> (bool \<times> bool \<times> (nat \<times> nat) list) list"

fun poll_copies :: "(nat \<times> nat) list \<Rightarrow> 'v mdi \<Rightarrow> 'v mdi option" where
  "poll_copies [] m = Some m"
| "poll_copies (c # cs) m = (if c \<in> set (md_copies m) then Option.bind (complete_copy c m) (poll_copies cs) else poll_copies cs m)"

text \<open>The loop of \<open>_kaapi_dsm_allocate_replica\<close> on the turns made so far; None while it has not been left. It is only left with
  a block: the test that returns ENOMEM after it never succeeds.\<close>

fun allocate_retry :: "(bool \<times> bool \<times> (nat \<times> nat) list) list \<Rightarrow> 'v mdi \<Rightarrow> 'v mdi option" where
  "allocate_retry [] m = None"
| "allocate_retry ((evicted, got, cs) # turns) m =
     (if evicted \<and> got then Some m else Option.bind (poll_copies cs m) (allocate_retry turns))"

definition kaapi_dsm_allocate_replica :: "device_memory \<Rightarrow> nat \<Rightarrow> 'v mdi \<Rightarrow> 'v mdi option" where
  "kaapi_dsm_allocate_replica mem lid m =
     (if kaapi_memory_replica_is_allocated m lid then Some m
      else map_option (\<lambda>m1. kaapi_memory_replica_set_allocated m1 lid) (if fst mem then Some m else allocate_retry (snd mem) m))"

text \<open>The part of \<open>kaapi_dsm_acquire_data\<close> after the allocation.\<close>

definition acquire_fetch ::
  "(16 word \<Rightarrow> 16 word \<Rightarrow> nat) \<Rightarrow> nat \<Rightarrow> nat \<Rightarrow> amode \<Rightarrow> 'v mdi \<Rightarrow> (io_result \<times> 'v mdi) option" where
  "acquire_fetch gs lid t mp m =
     map_option (\<lambda>(err, m2). (err, if mp AND KAAPI_ACCESS_MODE_W \<noteq> 0 then kaapi_memory_replica_set_all_dirty_except m2 lid else m2))
       (if mp AND KAAPI_ACCESS_MODE_R \<noteq> 0 \<and> \<not> kaapi_memory_replica_is_valid m lid
        then kaapi_dsm_fetch_on gs lid (Notify t) m else Some (Io_ok, m))"

definition kaapi_dsm_acquire_data ::
  "(16 word \<Rightarrow> 16 word \<Rightarrow> nat) \<Rightarrow> device_memory \<Rightarrow> nat \<Rightarrow> nat \<Rightarrow> amode \<Rightarrow> 'v mdi \<Rightarrow> (io_result \<times> 'v mdi) option" where
  "kaapi_dsm_acquire_data gs mem lid t mp m =
     (let m1 = kaapi_memory_replica_mark_pinned m lid in
      Option.bind (if kaapi_memory_replica_is_allocated m1 lid then Some m1 else kaapi_dsm_allocate_replica mem lid m1)
        (acquire_fetch gs lid t mp))"

definition kaapi_dsm_release_data :: "nat \<Rightarrow> 'v mdi \<Rightarrow> 'v mdi" where
  "kaapi_dsm_release_data lid m = kaapi_memory_replica_unmark_pinned m lid"

definition kaapi_dsm_prefetch_on ::
  "(16 word \<Rightarrow> 16 word \<Rightarrow> nat) \<Rightarrow> device_memory \<Rightarrow> nat \<Rightarrow> cbk \<Rightarrow> 'v mdi \<Rightarrow> (io_result \<times> 'v mdi) option" where
  "kaapi_dsm_prefetch_on gs mem lid cb m =
     Option.bind (if kaapi_memory_replica_is_allocated m lid then Some m else kaapi_dsm_allocate_replica mem lid m)
       (\<lambda>m1. if \<not> kaapi_memory_replica_is_valid m1 lid then kaapi_dsm_fetch_on gs lid cb m1 else Some (Io_ok, m1))"

text \<open>The request of \<open>kaapi_memory_writeback_all\<close> for one datum of the list RW of the device lid.\<close>

definition writeback_entry ::
  "(16 word \<Rightarrow> 16 word \<Rightarrow> nat) \<Rightarrow> device_memory \<Rightarrow> nat \<Rightarrow> 'v mdi \<Rightarrow> (io_result \<times> 'v mdi) option" where
  "writeback_entry gs mem lid m =
     (if \<not> kaapi_memory_replica_is_valid m 0 \<and> kaapi_memory_replica_is_valid m lid
      then kaapi_dsm_prefetch_on gs mem 0 Cbk_nop m else Some (Io_ok, m))"

text \<open>One entry of \<open>kaapi_memory_cache_evict_fromlist\<close>; \<open>junk\<close> is what the freed memory holds afterwards. The
  result None is the failed assertion that the replica is not under transfer.\<close>

definition evict_replica :: "nat \<Rightarrow> 'v \<Rightarrow> 'v mdi \<Rightarrow> 'v mdi option" where
  "evict_replica lid junk m =
     (if kaapi_memory_replica_is_notpinned m lid \<and> kaapi_memory_replica_is_valid_excepton m lid then
        let m1 = kaapi_memory_replica_unset_allocated (kaapi_memory_replica_unset_valid m lid) lid in
        if kaapi_memory_replica_is_xfer m1 lid then None
        else Some (m1\<lparr>md_data := (md_data m1)(lid := junk)\<rparr>)
      else Some m)"

section \<open>Where a copy comes from\<close>

abbreviation on_valid :: "'v mdi \<Rightarrow> nat \<Rightarrow> bool" where "on_valid m l \<equiv> bit (md_valid m) l"
abbreviation on_xfer :: "'v mdi \<Rightarrow> nat \<Rightarrow> bool" where "on_xfer m l \<equiv> bit (md_xfer m) l"

definition add_cbk :: "cbk \<Rightarrow> cbk list \<Rightarrow> cbk list" where
  "add_cbk c cs = (case cs of [] \<Rightarrow> [c] | h # cs \<Rightarrow> h # c # cs)"

lemma add_cbk_facts [simp]:
  "set (add_cbk c cs) = insert c (set cs)" "distinct (add_cbk c cs) \<longleftrightarrow> c \<notin> set cs \<and> distinct cs"
  "add_cbk c cs \<noteq> []" "add_cbk c [] = [c]"
  by (cases cs; auto simp: add_cbk_def)+

lemma allocate_callback_alt: "allocate_callback lid c m = m\<lparr>md_cbk := (md_cbk m)(lid := add_cbk c (md_cbk m lid))\<rparr>"
  by (simp add: allocate_callback_def add_cbk_def)

context source_plugin
begin

lemma get_source:
  assumes "\<exists>l. on_valid m l"
  obtains s where "kaapi_get_source_lid gs m = Some s" "s < 16"
    "on_valid m s \<or> on_xfer m s \<and> 0 < s \<and> (\<forall>l. on_valid m l \<longrightarrow> l = 0)"
proof -
  let ?v = "md_valid m AND NOT (lid_mask 0)" and ?x = "md_xfer m AND NOT (lid_mask 0)"
  show thesis
  proof (cases "?v = 0")
    case False
    note g = from_valid_less [OF this, of ?x] from_valid [OF this, of ?x]
    then have "get_source_valid gs m ?v ?x = Some (Some (gs ?v ?x))"
      using False found(1) [OF False, of ?x]
      by (subst get_source_valid.simps) (simp add: Let_def replica_bits del: mask_bits(4))
    then have "kaapi_get_source_lid gs m = Some (gs ?v ?x)"
      using False by (subst kaapi_get_source_lid.simps) (simp add: Let_def del: mask_bits(4))
    with g show thesis by (intro that) auto
  next
    case v: True
    show thesis
    proof (cases "?x = 0")
      case True
      have "kaapi_get_source_lid gs m = Some 0" using v True by (subst kaapi_get_source_lid.simps) (simp add: Let_def)
      moreover have "on_valid m 0" using assms v by (auto dest: bit16_less)
      ultimately show thesis by (intro that) auto
    next
      case False
      note g = from_xfer_less [OF this] from_xfer [OF this]
      have "get_source_valid gs m 0 ?x = Some None" by (subst get_source_valid.simps) simp
      moreover have "get_source_xfer gs m ?x = Some (Some (gs 0 ?x))"
        using False g found(2) [OF False] by (subst get_source_xfer.simps) (simp add: Let_def replica_bits del: mask_bits(4))
      ultimately have "kaapi_get_source_lid gs m = Some (gs 0 ?x)"
        using v False by (subst kaapi_get_source_lid.simps) (simp add: Let_def del: mask_bits(4))
      moreover have "l = 0" if "on_valid m l" for l using v that bit16_less [OF that] by auto
      ultimately show thesis using g by (intro that) auto
    qed
  qed
qed

text \<open>What \<open>kaapi_dsm_fetch_on\<close> does when every valid replica is out of transfer: nothing, wait for the transfer
  under way, copy from a valid replica, or wait behind a replica that is itself under transfer.\<close>

lemma fetch_cases:
  assumes v: "\<exists>l. on_valid m l" "\<And>l. on_valid m l \<Longrightarrow> \<not> on_xfer m l" and d: "dest < 16"
  obtains (valid) "on_valid m dest" "kaapi_dsm_fetch_on gs dest c m = Some (Io_ok, m)"
    | (wait) "\<not> on_valid m dest" "on_xfer m dest"
        "kaapi_dsm_fetch_on gs dest c m = Some (Io_inprogress, m\<lparr>md_cbk := (md_cbk m)(dest := add_cbk c (md_cbk m dest))\<rparr>)"
    | (copy) s where "\<not> on_valid m dest" "\<not> on_xfer m dest" "s < 16" "on_valid m s"
        "kaapi_dsm_fetch_on gs dest c m = Some (Io_inprogress, m\<lparr>md_cbk := (md_cbk m)(dest := add_cbk c (md_cbk m dest)),
           md_xfer := md_xfer m OR lid_mask dest, md_copies := md_copies m @ [(s, dest)]\<rparr>)"
    | (route) s where "\<not> on_valid m dest" "\<not> on_xfer m dest" "0 < s" "s < 16" "on_xfer m s"
        "kaapi_dsm_fetch_on gs dest c m = Some (Io_inprogress, m\<lparr>md_cbk := (md_cbk m)(dest := add_cbk c (md_cbk m dest),
           s := add_cbk (Resend dest) (md_cbk m s)), md_xfer := md_xfer m OR lid_mask dest\<rparr>)"
proof (cases "on_valid m dest")
  case True
  then show thesis using valid d by (simp add: kaapi_dsm_fetch_on_def replica_bits)
next
  case nv: False
  obtain s where s: "kaapi_get_source_lid gs m = Some s" "s < 16"
    "on_valid m s \<or> on_xfer m s \<and> 0 < s \<and> (\<forall>l. on_valid m l \<longrightarrow> l = 0)"
    by (rule get_source [OF v(1)])
  have sd: "\<not> on_xfer m dest \<Longrightarrow> s \<noteq> dest" using s(3) nv by auto
  have V: "kaapi_memory_replica_is_valid m dest = False"
    and X: "kaapi_memory_replica_is_xfer m dest = on_xfer m dest" "kaapi_memory_replica_is_xfer m s = on_xfer m s"
    using nv d s(2) by (simp_all add: replica_bits)
  note F = kaapi_dsm_fetch_on_def [of gs dest c m, unfolded V s(1) X if_False bind.bind_lunit Let_def
      allocate_callback_alt kaapi_memory_replica_set_xfer_def kaapi_memory_copy_async_def]
  show thesis
  proof (cases "on_xfer m dest")
    case True
    show thesis
      by (rule wait [OF nv True]) (simp add: F True kaapi_memory_replica_is_xfer_def d)
  next
    case nx: False
    show thesis
    proof (cases "on_xfer m s")
      case True
      then have s0: "0 < s" using s(3) v(2) by blast
      show thesis
        by (rule route [OF nv nx s0 s(2) True]) (use d in \<open>simp add: F True nx sd kaapi_memory_replica_is_xfer_def\<close>)
    next
      case False
      then have "on_valid m s" using s(3) by blast
      then show thesis
        by (rule copy [OF nv nx s(2)]) (simp add: F nx False kaapi_memory_replica_is_xfer_def d)
    qed
  qed
qed

end

end
