(* ===== verification/Coherence.thy ===== *)
theory Coherence
  imports Replica
begin

text \<open>
  The life of one datum under the coherence protocol of \<open>kaapi_memory.c\<close>: tasks acquire it, copies complete,
  kernels write it, tasks release it, write-back requests are posted, replicas are evicted, in any order that the
  data-flow graph and the device threads allow. The acquisition is cut where other threads can come in between: the pin, the
  allocation, the fetch.

  The structural invariant \<open>coh_str\<close> relates the bit fields, the pins, the waiting callbacks and the posted copies; it holds in
  every run. The invariant \<open>coh_val\<close> on the contents of the replicas holds in the runs that keep two conditions the
  code does not enforce; the theory \<open>Coherence_Run\<close> has the consequences of both, and what happens without the conditions.
\<close>

section \<open>The use of one datum\<close>

text \<open>\<open>co_pin\<close> are the tasks between the pin and the fetch of \<open>kaapi_dsm_acquire_data\<close>, \<open>co_hold\<close> those between the fetch and
  \<open>kaapi_dsm_release_data\<close>, in the modes the data-flow graph lets use the datum together: any number of readers, or one
  writer. \<open>co_cur\<close> is the value the program order gives the datum.\<close>

record holder =
  ho_task :: nat
  ho_lid :: nat
  ho_mode :: amode
  ho_done :: bool

record 'v coh =
  co_m :: "'v mdi"
  co_pin :: "holder list"
  co_hold :: "holder list"
  co_cur :: 'v

definition ready_task :: "nat \<Rightarrow> 'v mdi \<Rightarrow> bool" where
  "ready_task t m \<longleftrightarrow> (\<forall>l<16. Notify t \<notin> set (md_cbk m l))"

definition readers :: "holder list \<Rightarrow> bool" where
  "readers hold \<longleftrightarrow> (\<forall>h\<in>set hold. ho_mode h = KAAPI_ACCESS_MODE_R)"

definition new_holder :: "nat \<Rightarrow> nat \<Rightarrow> amode \<Rightarrow> holder" where
  "new_holder t lid mp = \<lparr>ho_task = t, ho_lid = lid, ho_mode = mp, ho_done = False\<rparr>"

text \<open>What the data-flow graph lets a task do: a reader starts beside readers, a writer alone. Tasks run on devices, not on the host.\<close>

definition may_start :: "'v coh \<Rightarrow> nat \<Rightarrow> nat \<Rightarrow> amode \<Rightarrow> bool" where
  "may_start s t lid mp \<longleftrightarrow> t \<notin> ho_task ` set (co_hold s @ co_pin s) \<and> 0 < lid \<and> lid < 16 \<and>
     mp \<in> {KAAPI_ACCESS_MODE_R, KAAPI_ACCESS_MODE_W, KAAPI_ACCESS_MODE_RW} \<and>
     (if mp = KAAPI_ACCESS_MODE_R then readers (co_hold s @ co_pin s) else co_hold s @ co_pin s = [])"

text \<open>A write-back task is a reader on a device; its body, \<open>task_body_gpu\<close> of \<open>xkblas.c\<close>, posts the copy to the host and
  ends, so that the task may be released, and a writer start, before the copy arrives. \<open>kaapi_memory_writeback_all\<close> serves a
  synchronisation of the host, when no task uses the datum.

  The parameters restrict the runs: with \<open>keep_src\<close> the source of a posted copy is not evicted, with \<open>wait_wb\<close> no writer
  fetches the datum while a copy to the host is under way. The code tests neither: its runs are those of
  \<open>coh_reach False False\<close>.\<close>

inductive coh_step :: "bool \<Rightarrow> bool \<Rightarrow> 'v coh \<Rightarrow> 'v coh \<Rightarrow> bool" for keep_src wait_wb where
  acquire_pin: "may_start s t lid mp \<Longrightarrow>
    coh_step keep_src wait_wb s (s\<lparr>co_m := kaapi_memory_replica_mark_pinned (co_m s) lid, co_pin := co_pin s @ [new_holder t lid mp]\<rparr>)"
| acquire_alloc: "h \<in> set (co_pin s) \<Longrightarrow> \<not> kaapi_memory_replica_is_allocated (co_m s) (ho_lid h) \<Longrightarrow>
    coh_step keep_src wait_wb s (s\<lparr>co_m := kaapi_memory_replica_set_allocated (co_m s) (ho_lid h)\<rparr>)"
| acquire_fetch: "h \<in> set (co_pin s) \<Longrightarrow> kaapi_memory_replica_is_allocated (co_m s) (ho_lid h) \<Longrightarrow> get_source_ok gs \<Longrightarrow>
    wait_wb \<and> ho_mode h AND KAAPI_ACCESS_MODE_W \<noteq> 0 \<longrightarrow> \<not> kaapi_memory_replica_is_xfer (co_m s) 0 \<Longrightarrow>
    acquire_fetch gs (ho_lid h) (ho_task h) (ho_mode h) (co_m s) = Some (e, m) \<Longrightarrow>
    coh_step keep_src wait_wb s (s\<lparr>co_m := m, co_pin := remove1 h (co_pin s), co_hold := co_hold s @ [h]\<rparr>)"
| writeback: "h \<in> set (co_hold s) \<Longrightarrow> ho_mode h = KAAPI_ACCESS_MODE_R \<Longrightarrow> ready_task (ho_task h) (co_m s) \<Longrightarrow> get_source_ok gs \<Longrightarrow>
    kaapi_dsm_prefetch_on gs mem 0 (Epilogue (ho_task h)) (co_m s) = Some (e, m) \<Longrightarrow>
    coh_step keep_src wait_wb s (s\<lparr>co_m := m\<rparr>)"
| writeback_all: "co_hold s @ co_pin s = [] \<Longrightarrow> get_source_ok gs \<Longrightarrow> lid < 16 \<Longrightarrow> writeback_entry gs mem lid (co_m s) = Some (e, m) \<Longrightarrow>
    coh_step keep_src wait_wb s (s\<lparr>co_m := m\<rparr>)"
| arrive: "c \<in> set (md_copies (co_m s)) \<Longrightarrow> complete_copy c (co_m s) = Some m \<Longrightarrow> coh_step keep_src wait_wb s (s\<lparr>co_m := m\<rparr>)"
| kernel: "co_hold s = [h] \<Longrightarrow> ho_mode h AND KAAPI_ACCESS_MODE_W \<noteq> 0 \<Longrightarrow> ready_task (ho_task h) (co_m s) \<Longrightarrow>
    coh_step keep_src wait_wb s
      (s\<lparr>co_m := (co_m s)\<lparr>md_data := (md_data (co_m s))(ho_lid h := v)\<rparr>, co_hold := [h\<lparr>ho_done := True\<rparr>], co_cur := v\<rparr>)"
| release: "h \<in> set (co_hold s) \<Longrightarrow> ready_task (ho_task h) (co_m s) \<Longrightarrow> ho_mode h AND KAAPI_ACCESS_MODE_W \<noteq> 0 \<longrightarrow> ho_done h \<Longrightarrow>
    coh_step keep_src wait_wb s (s\<lparr>co_m := kaapi_dsm_release_data (ho_lid h) (co_m s), co_hold := remove1 h (co_hold s)\<rparr>)"
| evict: "0 < lid \<Longrightarrow> lid < 16 \<Longrightarrow> kaapi_memory_replica_is_allocated (co_m s) lid \<Longrightarrow>
    keep_src \<longrightarrow> lid \<notin> fst ` set (md_copies (co_m s)) \<Longrightarrow> evict_replica lid junk (co_m s) = Some m \<Longrightarrow>
    coh_step keep_src wait_wb s (s\<lparr>co_m := m\<rparr>)"

definition coh_init :: "(nat \<Rightarrow> 'v) \<Rightarrow> 'v coh" where
  "coh_init content = \<lparr>co_m = kaapi_new_mdi True content, co_pin = [], co_hold = [], co_cur = content 0\<rparr>"

inductive coh_reach :: "bool \<Rightarrow> bool \<Rightarrow> 'v coh \<Rightarrow> bool" for keep_src wait_wb where
  init: "coh_reach keep_src wait_wb (coh_init content)"
| step: "coh_reach keep_src wait_wb s \<Longrightarrow> coh_step keep_src wait_wb s s' \<Longrightarrow> coh_reach keep_src wait_wb s'"

inductive_cases coh_stepE: "coh_step keep_src wait_wb s s'"

section \<open>The structural invariant\<close>

definition hold_ok :: "holder list \<Rightarrow> bool" where
  "hold_ok hold \<longleftrightarrow> distinct (map ho_task hold) \<and> (\<forall>h\<in>set hold. 0 < ho_lid h \<and> ho_lid h < 16 \<and>
     ho_mode h \<in> {KAAPI_ACCESS_MODE_R, KAAPI_ACCESS_MODE_W, KAAPI_ACCESS_MODE_RW} \<and>
     (ho_mode h = KAAPI_ACCESS_MODE_R \<longrightarrow> \<not> ho_done h) \<and> (ho_mode h \<noteq> KAAPI_ACCESS_MODE_R \<longrightarrow> hold = [h]))"

fun resends :: "cbk list \<Rightarrow> nat list" where
  "resends [] = []"
| "resends (Resend e # cs) = e # resends cs"
| "resends (Notify t # cs) = resends cs"
| "resends (Epilogue t # cs) = resends cs"
| "resends (Cbk_nop # cs) = resends cs"

text \<open>Callbacks wait on replicas under transfer only; such a replica of a device has a task that waits for it.\<close>

definition pend_ok :: "'v mdi \<Rightarrow> holder list \<Rightarrow> bool" where
  "pend_ok m hold \<longleftrightarrow> (\<forall>l. distinct (resends (md_cbk m l)) \<and> (md_cbk m l \<noteq> [] \<longrightarrow> on_xfer m l) \<and>
     (on_xfer m l \<and> 0 < l \<longrightarrow> (\<exists>t. Notify t \<in> set (md_cbk m l))) \<and>
     (\<forall>t. Notify t \<in> set (md_cbk m l) \<longrightarrow> (\<exists>h\<in>set hold. ho_task h = t \<and> ho_lid h = l)))"

text \<open>Each replica under transfer is the destination of one posted copy, or waits behind one other replica under
  transfer; the waiting has no cycle.\<close>

definition flow_ok :: "'v mdi \<Rightarrow> bool" where
  "flow_ok m \<longleftrightarrow> distinct (map snd (md_copies m)) \<and> (\<forall>c\<in>set (md_copies m). on_xfer m (snd c)) \<and>
     (\<forall>s d. Resend d \<in> set (md_cbk m s) \<longrightarrow> on_xfer m d \<and> s \<noteq> d \<and> d \<notin> snd ` set (md_copies m) \<and>
        (\<forall>s'. Resend d \<in> set (md_cbk m s') \<longrightarrow> s' = s)) \<and>
     (\<exists>rank :: nat \<Rightarrow> nat. \<forall>d. on_xfer m d \<longrightarrow> d \<in> snd ` set (md_copies m) \<or>
        (\<exists>s. Resend d \<in> set (md_cbk m s) \<and> rank s < rank d))"

text \<open>Which replicas are valid. A copy to the host that was posted before a writer came may make the host valid under it.\<close>

definition read_ok :: "'v mdi \<Rightarrow> holder list \<Rightarrow> bool" where
  "read_ok m hold \<longleftrightarrow> (\<exists>l. on_valid m l) \<and> (\<forall>l. on_valid m l \<longrightarrow> \<not> on_xfer m l) \<and>
     (\<forall>h\<in>set hold. on_valid m (ho_lid h) \<or> Notify (ho_task h) \<in> set (md_cbk m (ho_lid h)))"

definition write_ok :: "'v mdi \<Rightarrow> holder \<Rightarrow> bool" where
  "write_ok m h \<longleftrightarrow> on_valid m (ho_lid h) \<and> (\<forall>l. on_valid m l \<longrightarrow> l = ho_lid h \<or> l = 0 \<and> \<not> on_xfer m 0) \<and>
     (\<forall>l. on_xfer m l \<longrightarrow> l = ho_lid h \<or> l = 0) \<and> (\<forall>l d. Resend d \<notin> set (md_cbk m l)) \<and>
     (on_xfer m (ho_lid h) \<longrightarrow> ho_mode h = KAAPI_ACCESS_MODE_RW \<and> \<not> ho_done h)"

definition str_ok :: "'v mdi \<Rightarrow> holder list \<Rightarrow> bool" where
  "str_ok m hold \<longleftrightarrow> (if readers hold then read_ok m hold else write_ok m (hd hold))"

definition pin_ok :: "'v mdi \<Rightarrow> holder list \<Rightarrow> bool" where
  "pin_ok m hold \<longleftrightarrow> (\<forall>l. 0 < l \<longrightarrow> md_pinned m l = int (length (filter (\<lambda>h. ho_lid h = l) hold)))"

definition alloc_ok :: "'v mdi \<Rightarrow> bool" where
  "alloc_ok m \<longleftrightarrow> bit (md_alloc m) 0 \<and> (\<forall>l. on_valid m l \<or> on_xfer m l \<longrightarrow> bit (md_alloc m) l)"

definition coh_str :: "'v coh \<Rightarrow> bool" where
  "coh_str s \<longleftrightarrow> hold_ok (co_hold s @ co_pin s) \<and> (\<forall>h\<in>set (co_pin s). \<not> ho_done h) \<and> pend_ok (co_m s) (co_hold s) \<and>
     flow_ok (co_m s) \<and> str_ok (co_m s) (co_hold s) \<and> pin_ok (co_m s) (co_hold s @ co_pin s) \<and> alloc_ok (co_m s)"

section \<open>The contents of the replicas\<close>

definition val_ok :: "'v mdi \<Rightarrow> holder list \<Rightarrow> 'v \<Rightarrow> bool" where
  "val_ok m hold cur \<longleftrightarrow>
     (if readers hold then (\<forall>l. on_valid m l \<longrightarrow> md_data m l = cur) \<and> (\<forall>c\<in>set (md_copies m). on_valid m (fst c))
      else let h = hd hold in (\<forall>l. on_valid m l \<longrightarrow> l = ho_lid h) \<and> \<not> on_xfer m 0 \<and>
        (if on_xfer m (ho_lid h) then \<exists>s. md_copies m = [(s, ho_lid h)] \<and> s \<noteq> ho_lid h \<and> md_data m s = cur
         else ho_mode h = KAAPI_ACCESS_MODE_RW \<or> ho_done h \<longrightarrow> md_data m (ho_lid h) = cur))"

definition coh_val :: "'v coh \<Rightarrow> bool" where
  "coh_val s \<longleftrightarrow> val_ok (co_m s) (co_hold s) (co_cur s)"

lemma coh_init_ok: "coh_str (coh_init content)" "coh_val (coh_init content)"
  by (auto simp: coh_str_def coh_val_def coh_init_def kaapi_new_mdi_def hold_ok_def pend_ok_def flow_ok_def str_ok_def
      readers_def read_ok_def pin_ok_def alloc_ok_def val_ok_def)

section \<open>Facts on modes, callbacks and holders\<close>

lemma mode_ne [simp]:
  "KAAPI_ACCESS_MODE_W \<noteq> KAAPI_ACCESS_MODE_R" "KAAPI_ACCESS_MODE_RW \<noteq> KAAPI_ACCESS_MODE_R"
  "KAAPI_ACCESS_MODE_R \<noteq> KAAPI_ACCESS_MODE_W" "KAAPI_ACCESS_MODE_RW \<noteq> KAAPI_ACCESS_MODE_W"
  "KAAPI_ACCESS_MODE_R \<noteq> KAAPI_ACCESS_MODE_RW" "KAAPI_ACCESS_MODE_W \<noteq> KAAPI_ACCESS_MODE_RW"
  by (simp_all add: amode_defs)

lemma amode_bits [simp]:
  "KAAPI_ACCESS_MODE_R AND KAAPI_ACCESS_MODE_W = 0" "KAAPI_ACCESS_MODE_W AND KAAPI_ACCESS_MODE_R = 0"
  "KAAPI_ACCESS_MODE_RW AND KAAPI_ACCESS_MODE_W \<noteq> 0" "KAAPI_ACCESS_MODE_RW AND KAAPI_ACCESS_MODE_R \<noteq> 0"
  "KAAPI_ACCESS_MODE_W \<noteq> 0" "KAAPI_ACCESS_MODE_R \<noteq> 0"
  by (simp_all add: amode_defs)

lemma new_holder_simps [simp]:
  "ho_task (new_holder t lid mp) = t" "ho_lid (new_holder t lid mp) = lid" "ho_mode (new_holder t lid mp) = mp"
  "\<not> ho_done (new_holder t lid mp)"
  by (simp_all add: new_holder_def)

lemma readers_simps [simp]:
  "readers []" "readers (h # hs) \<longleftrightarrow> ho_mode h = KAAPI_ACCESS_MODE_R \<and> readers hs" "readers (xs @ ys) \<longleftrightarrow> readers xs \<and> readers ys"
  by (auto simp: readers_def)

lemma set_resends [simp]: "set (resends cs) = {e. Resend e \<in> set cs}"
  by (induction cs rule: resends.induct) auto

lemma distinct_resends_add:
  "distinct (resends (add_cbk c cs)) \<longleftrightarrow> distinct (resends cs) \<and> (\<forall>e. c = Resend e \<longrightarrow> Resend e \<notin> set cs)"
proof (cases cs)
  case Nil then show ?thesis by (cases c) auto
next
  case (Cons h hs) then show ?thesis by (cases c; cases h) (auto simp: add_cbk_def)
qed

lemma mask_absorb: "bit w lid \<Longrightarrow> w OR lid_mask lid = w"
  unfolding bit_eq_iff by auto

text \<open>Where the tasks of a datum are not all readers, there is one task.\<close>

lemma not_readers:
  assumes "hold_ok hold" "\<not> readers hold"
  obtains h where "hold = [h]" "ho_mode h = KAAPI_ACCESS_MODE_W \<or> ho_mode h = KAAPI_ACCESS_MODE_RW" "0 < ho_lid h" "ho_lid h < 16"
proof -
  obtain h where "h \<in> set hold" "ho_mode h \<noteq> KAAPI_ACCESS_MODE_R" using assms(2) by (auto simp: readers_def)
  with assms(1) show thesis by (intro that [of h]) (auto simp: hold_ok_def)
qed

lemma writer_holds:
  assumes "coh_str s" "\<not> readers (co_hold s)"
  obtains h where "co_hold s = [h]" "co_pin s = []" "0 < ho_lid h" "ho_lid h < 16" "write_ok (co_m s) h"
    "ho_mode h = KAAPI_ACCESS_MODE_W \<or> ho_mode h = KAAPI_ACCESS_MODE_RW"
proof -
  have "hold_ok (co_hold s @ co_pin s)" "\<not> readers (co_hold s @ co_pin s)" using assms by (auto simp: coh_str_def)
  then obtain h where h: "co_hold s @ co_pin s = [h]" "ho_mode h = KAAPI_ACCESS_MODE_W \<or> ho_mode h = KAAPI_ACCESS_MODE_RW"
    "0 < ho_lid h" "ho_lid h < 16" by (rule not_readers)
  then have "co_hold s = [h]" "co_pin s = []" using assms(2) by (cases "co_hold s"; auto)+
  then show thesis using that h assms by (simp add: coh_str_def str_ok_def)
qed

lemma ready_no_notify: "pend_ok m hold \<Longrightarrow> ready_task t m \<Longrightarrow> Notify t \<notin> set (md_cbk m l)"
  using bit16_less [of "md_xfer m" l] by (fastforce simp: pend_ok_def ready_task_def)

text \<open>A ready writer has its replica out of transfer.\<close>

lemma writer_ready:
  assumes "coh_str s" "co_hold s = [h]" "0 < ho_lid h" "ready_task (ho_task h) (co_m s)"
  shows "\<not> on_xfer (co_m s) (ho_lid h)"
proof
  have P: "pend_ok (co_m s) [h]" using assms by (simp add: coh_str_def)
  assume "on_xfer (co_m s) (ho_lid h)"
  then obtain t where t: "Notify t \<in> set (md_cbk (co_m s) (ho_lid h))" using P assms(3) unfolding pend_ok_def by blast
  then have "t = ho_task h" using P unfolding pend_ok_def by auto
  then show False using t ready_no_notify [OF P assms(4)] by simp
qed

text \<open>Without a holder only the host can be under transfer.\<close>

lemma idle_facts:
  assumes "pend_ok m []" "flow_ok m"
  shows "on_xfer m l \<Longrightarrow> l = 0" "0 < l \<Longrightarrow> md_cbk m l = []" "Notify t \<notin> set (md_cbk m l)" "Resend d \<notin> set (md_cbk m l)"
proof -
  show x: "on_xfer m l \<Longrightarrow> l = 0" for l using assms(1) by (auto simp: pend_ok_def)
  then show "0 < l \<Longrightarrow> md_cbk m l = []" using assms(1) unfolding pend_ok_def by fastforce
  show "Notify t \<notin> set (md_cbk m l)" using assms(1) by (auto simp: pend_ok_def)
  show "Resend d \<notin> set (md_cbk m l)"
  proof
    assume r: "Resend d \<in> set (md_cbk m l)"
    then have "md_cbk m l \<noteq> []" by auto
    then have "on_xfer m l" using assms(1) unfolding pend_ok_def by blast
    moreover have "on_xfer m d" "l \<noteq> d" using r assms(2) unfolding flow_ok_def by blast+
    ultimately show False using x by metis
  qed
qed

end
