(* ===== verification/Coherence_Inv.thy ===== *)
theory Coherence_Inv
  imports Coherence "HOL-Library.Multiset"
begin

text \<open>
  The invariants of \<open>Coherence\<close> hold in every run: one lemma for each step and each invariant. \<open>coh_str\<close> is kept by all steps,
  \<open>coh_val\<close> by those that keep the source of a copy and let no writer start under a copy to the host.
\<close>

section \<open>A fetch beside readers\<close>

lemma flow_route:
  assumes fl: "flow_ok m" and x: "on_xfer m s" "\<not> on_xfer m lid" and e: "md_cbk m lid = []"
    and m': "\<And>d. on_xfer m' d \<longleftrightarrow> on_xfer m d \<or> d = lid" "md_copies m' = md_copies m"
      "\<And>l d. Resend d \<in> set (md_cbk m' l) \<longleftrightarrow> Resend d \<in> set (md_cbk m l) \<or> l = s \<and> d = lid"
  shows "flow_ok m'"
proof -
  note Fl = fl [unfolded flow_ok_def]
  have sl: "s \<noteq> lid" using x by auto
  have no: "lid \<notin> snd ` set (md_copies m)" "Resend lid \<notin> set (md_cbk m s')" for s' using Fl x(2) by fastforce+
  obtain rank :: "nat \<Rightarrow> nat" where r: "\<forall>d. on_xfer m d \<longrightarrow> d \<in> snd ` set (md_copies m) \<or>
    (\<exists>s. Resend d \<in> set (md_cbk m s) \<and> rank s < rank d)" using Fl by blast
  let ?rank = "rank(lid := Suc (rank s))"
  have "d \<in> snd ` set (md_copies m') \<or> (\<exists>s. Resend d \<in> set (md_cbk m' s) \<and> ?rank s < ?rank d)" if "on_xfer m' d" for d
  proof (cases "d = lid")
    case True
    then have "Resend d \<in> set (md_cbk m' s) \<and> ?rank s < ?rank d" using sl by (simp add: m')
    then show ?thesis by blast
  next
    case False
    then have "on_xfer m d" using that m'(1) by blast
    then consider "d \<in> snd ` set (md_copies m)" | s' where "Resend d \<in> set (md_cbk m s')" "rank s' < rank d"
      using r by blast
    then show ?thesis
    proof cases
      case (2 s')
      then have "s' \<noteq> lid" using e by auto
      then have "Resend d \<in> set (md_cbk m' s') \<and> ?rank s' < ?rank d" using 2 False by (simp add: m')
      then show ?thesis by blast
    qed (simp add: m')
  qed
  moreover have "on_xfer m' d \<and> l \<noteq> d \<and> d \<notin> snd ` set (md_copies m') \<and> (\<forall>s'. Resend d \<in> set (md_cbk m' s') \<longrightarrow> s' = l)"
    if "Resend d \<in> set (md_cbk m' l)" for l d
  proof (cases "d = lid")
    case True
    then have "l = s" using that no(2) m'(3) by blast
    then show ?thesis using True sl no by (simp add: m')
  next
    case False
    then have "Resend d \<in> set (md_cbk m l)" using that m'(3) by blast
    then have "on_xfer m d" "l \<noteq> d" "d \<notin> snd ` set (md_copies m)" "\<And>s'. Resend d \<in> set (md_cbk m s') \<Longrightarrow> s' = l"
      using Fl by blast+
    then show ?thesis using False by (simp add: m')
  qed
  moreover have "distinct (map snd (md_copies m'))" "\<forall>c\<in>set (md_copies m'). on_xfer m' (snd c)" using Fl by (auto simp: m')
  ultimately show ?thesis unfolding flow_ok_def by blast
qed

text \<open>A fetch that forwards nothing.\<close>

lemma flow_more:
  assumes fl: "flow_ok m" and c: "set (md_copies m) \<subseteq> set (md_copies m')" "distinct (map snd (md_copies m'))"
      "\<And>c. c \<in> set (md_copies m') \<Longrightarrow> on_xfer m' (snd c) \<and> (c \<in> set (md_copies m) \<or> \<not> on_xfer m (snd c))"
    and x: "\<And>d. on_xfer m d \<Longrightarrow> on_xfer m' d" "\<And>d. on_xfer m' d \<Longrightarrow> on_xfer m d \<or> d \<in> snd ` set (md_copies m')"
    and r: "\<And>l d. Resend d \<in> set (md_cbk m' l) \<longleftrightarrow> Resend d \<in> set (md_cbk m l)"
  shows "flow_ok m'"
proof -
  note Fl = fl [unfolded flow_ok_def]
  have "on_xfer m' d \<and> l \<noteq> d \<and> d \<notin> snd ` set (md_copies m') \<and> (\<forall>s'. Resend d \<in> set (md_cbk m' s') \<longrightarrow> s' = l)"
    if "Resend d \<in> set (md_cbk m' l)" for l d
  proof -
    have R: "Resend d \<in> set (md_cbk m l)" using that r by simp
    then have d: "on_xfer m d" "l \<noteq> d" "d \<notin> snd ` set (md_copies m)" "\<And>s'. Resend d \<in> set (md_cbk m s') \<Longrightarrow> s' = l"
      using Fl by blast+
    have "d \<notin> snd ` set (md_copies m')" using c(3) d(1,3) by fastforce
    then show ?thesis using d x(1) r by blast
  qed
  moreover have "\<exists>rank :: nat \<Rightarrow> nat. \<forall>d. on_xfer m' d \<longrightarrow> d \<in> snd ` set (md_copies m') \<or>
    (\<exists>s. Resend d \<in> set (md_cbk m' s) \<and> rank s < rank d)"
  proof -
    obtain rank :: "nat \<Rightarrow> nat" where "\<forall>d. on_xfer m d \<longrightarrow> d \<in> snd ` set (md_copies m) \<or>
      (\<exists>s. Resend d \<in> set (md_cbk m s) \<and> rank s < rank d)" using Fl by blast
    then have "\<forall>d. on_xfer m' d \<longrightarrow> d \<in> snd ` set (md_copies m') \<or> (\<exists>s. Resend d \<in> set (md_cbk m' s) \<and> rank s < rank d)"
      using x(2) c(1) unfolding r by (meson image_mono subsetD)
    then show ?thesis by blast
  qed
  ultimately show ?thesis unfolding flow_ok_def using c(2,3) by blast
qed

lemma fetch_str:
  assumes gs: "get_source_ok gs" and lid: "lid < 16"
    and inv: "pend_ok m hold" "flow_ok m" "read_ok m hold" "alloc_ok m" "bit (md_alloc m) lid"
    and cb: "\<And>d. cb \<noteq> Resend d" "0 < lid \<Longrightarrow> \<exists>t. cb = Notify t" "\<And>t. cb = Notify t \<Longrightarrow> \<exists>h\<in>set hold'. ho_task h = t \<and> ho_lid h = lid"
    and hold: "set hold \<subseteq> set hold'" "\<And>h. h \<in> set hold' \<Longrightarrow> h \<in> set hold \<or> cb = Notify (ho_task h) \<and> ho_lid h = lid"
    and f: "kaapi_dsm_fetch_on gs lid cb m = Some (e, m')"
  shows "pend_ok m' hold' \<and> flow_ok m' \<and> read_ok m' hold' \<and> alloc_ok m' \<and> md_pinned m' = md_pinned m \<and> md_valid m' = md_valid m \<and>
    md_data m' = md_data m \<and> (\<forall>c\<in>set (md_copies m'). c \<in> set (md_copies m) \<or> on_valid m (fst c))"
proof -
  note P = inv(1) [unfolded pend_ok_def] and Fl = inv(2) [unfolded flow_ok_def] and V = inv(3) [unfolded read_ok_def]
    and A = inv(4) [unfolded alloc_ok_def]
  have nx: "md_cbk m l = []" if "\<not> on_xfer m l" for l using P that by blast
  have px: "on_xfer m l" if "md_cbk m l \<noteq> []" for l using P that by blast
  have v: "\<exists>l. on_valid m l" "\<And>l. on_valid m l \<Longrightarrow> \<not> on_xfer m l" using V by auto
  have pend: "pend_ok m' hold'" if c: "\<And>l. set (md_cbk m' l) \<subseteq> set (md_cbk m l) \<union> (if l = lid then {cb} else {}) \<union> range Resend"
      "\<And>l. set (md_cbk m l) \<subseteq> set (md_cbk m' l)" "\<And>l. distinct (resends (md_cbk m' l))" "\<And>l. md_cbk m' l \<noteq> [] \<Longrightarrow> on_xfer m' l"
      "\<And>l. on_xfer m' l \<Longrightarrow> on_xfer m l \<or> l = lid \<and> cb \<in> set (md_cbk m' lid)" for m' :: "'a mdi"
    unfolding pend_ok_def
  proof (intro allI conjI impI)
    fix l t
    show "distinct (resends (md_cbk m' l))" "md_cbk m' l \<noteq> [] \<Longrightarrow> on_xfer m' l" using c(3,4) by blast+
    show "\<exists>t. Notify t \<in> set (md_cbk m' l)" if x: "on_xfer m' l \<and> 0 < l"
    proof (cases "on_xfer m l")
      case True then show ?thesis using P x c(2) [of l] by blast
    next
      case False
      then have "l = lid" "cb \<in> set (md_cbk m' lid)" using c(5) x by blast+
      then show ?thesis using cb(2) x by metis
    qed
    show "\<exists>h\<in>set hold'. ho_task h = t \<and> ho_lid h = l" if n: "Notify t \<in> set (md_cbk m' l)"
    proof (cases "Notify t \<in> set (md_cbk m l)")
      case True then show ?thesis using P hold(1) by blast
    next
      case False
      then have "cb = Notify t" "l = lid" using n c(1) [of l] by (auto split: if_splits)
      then show ?thesis using cb(3) by blast
    qed
  qed
  have read: "read_ok m' hold'" if r: "md_valid m' = md_valid m" "\<And>l. on_xfer m' l \<Longrightarrow> on_xfer m l \<or> \<not> on_valid m l"
      "\<And>l. set (md_cbk m l) \<subseteq> set (md_cbk m' l)" "on_valid m lid \<or> cb \<in> set (md_cbk m' lid)" for m' :: "'a mdi"
    unfolding read_ok_def r(1)
  proof (intro conjI ballI allI impI)
    show "\<exists>l. on_valid m l" by (rule v(1))
    show "\<not> on_xfer m' l" if "on_valid m l" for l using r(2) v(2) that by blast
    show "on_valid m (ho_lid h) \<or> Notify (ho_task h) \<in> set (md_cbk m' (ho_lid h))" if "h \<in> set hold'" for h
      using hold(2) [OF that] V r(3) [of "ho_lid h"] r(4) by blast
  qed
  show ?thesis
  proof (rule source_plugin.fetch_cases [OF gs [folded source_plugin_iff] v lid, of cb])
    assume a: "on_valid m lid" "kaapi_dsm_fetch_on gs lid cb m = Some (Io_ok, m)"
    have "pend_ok m hold'" by (rule pend) (use P in auto)
    moreover have "read_ok m hold'" by (rule read) (use a in auto)
    ultimately show ?thesis using f a inv by simp
  next
    assume a: "\<not> on_valid m lid" "on_xfer m lid" "kaapi_dsm_fetch_on gs lid cb m =
      Some (Io_inprogress, m\<lparr>md_cbk := (md_cbk m)(lid := add_cbk cb (md_cbk m lid))\<rparr>)"
    then have m': "m' = m\<lparr>md_cbk := (md_cbk m)(lid := add_cbk cb (md_cbk m lid))\<rparr>" using f by simp
    have "pend_ok m' hold'" by (rule pend) (use P a(2) cb(1) px in \<open>auto simp: m' distinct_resends_add split: if_splits\<close>)
    moreover have "read_ok m' hold'" by (rule read) (auto simp: m')
    moreover have "flow_ok m'" by (rule flow_more [OF inv(2)]) (use Fl cb(1) in \<open>auto simp: m' split: if_splits\<close>)
    ultimately show ?thesis using A by (simp add: m' alloc_ok_def)
  next
    fix s
    assume a: "\<not> on_valid m lid" "\<not> on_xfer m lid" "s < 16" "on_valid m s" "kaapi_dsm_fetch_on gs lid cb m =
      Some (Io_inprogress, m\<lparr>md_cbk := (md_cbk m)(lid := add_cbk cb (md_cbk m lid)),
           md_xfer := md_xfer m OR lid_mask lid, md_copies := md_copies m @ [(s, lid)]\<rparr>)"
    then have m': "m' = m\<lparr>md_cbk := (md_cbk m)(lid := [cb]),
           md_xfer := md_xfer m OR lid_mask lid, md_copies := md_copies m @ [(s, lid)]\<rparr>" using f nx by simp
    have no: "lid \<notin> snd ` set (md_copies m)" using Fl a(2) by fastforce
    have "pend_ok m' hold'"
      by (rule pend) (use P a(2) nx [OF a(2)] cb(1) lid distinct_resends_add [of cb "[]"] in \<open>auto simp: m'\<close>)
    moreover have "read_ok m' hold'" by (rule read) (use a nx [OF a(2)] in \<open>auto simp: m'\<close>)
    moreover have "flow_ok m'"
      by (rule flow_more [OF inv(2)]) (use Fl no lid a(2) cb(1) nx [OF a(2)] in \<open>auto simp: m' split: if_splits\<close>)
    ultimately show ?thesis using A inv(5) a(4) by (auto simp: m' alloc_ok_def)
  next
    fix s
    assume a: "\<not> on_valid m lid" "\<not> on_xfer m lid" "s < 16" "on_xfer m s" "kaapi_dsm_fetch_on gs lid cb m =
      Some (Io_inprogress, m\<lparr>md_cbk := (md_cbk m)(lid := add_cbk cb (md_cbk m lid),
           s := add_cbk (Resend lid) (md_cbk m s)), md_xfer := md_xfer m OR lid_mask lid\<rparr>)"
    then have m': "m' = m\<lparr>md_cbk := (md_cbk m)(lid := [cb], s := add_cbk (Resend lid) (md_cbk m s)),
       md_xfer := md_xfer m OR lid_mask lid\<rparr>" using f nx by simp
    have sl: "s \<noteq> lid" using a(2,4) by auto
    have no: "\<And>s'. Resend lid \<notin> set (md_cbk m s')" using Fl a(2) by fastforce
    have "pend_ok m' hold'"
      by (rule pend) (use P px a(2,4) nx [OF a(2)] cb(1) lid sl no distinct_resends_add [of cb "[]"] in
          \<open>auto simp: m' distinct_resends_add split: if_splits\<close>)
    moreover have "read_ok m' hold'" by (rule read) (use a nx [OF a(2)] sl in \<open>auto simp: m'\<close>)
    moreover have "flow_ok m'"
      by (rule flow_route [OF inv(2) a(4,2) nx [OF a(2)]]) (use lid sl cb(1) nx [OF a(2)] in \<open>auto simp: m'\<close>)
    ultimately show ?thesis using A inv(5) by (auto simp: m' alloc_ok_def)
  qed
qed

section \<open>Arrivals\<close>

lemma run_callbacks_ok:
  "(\<And>e. Resend e \<in> set cs \<Longrightarrow> \<not> on_valid m e) \<Longrightarrow>
   run_callbacks lid cs m = Some (m\<lparr>md_copies := md_copies m @ map (\<lambda>e. (lid, e)) (resends cs)\<rparr>)"
proof (induction cs arbitrary: m rule: resends.induct)
  case (2 e cs)
  have "\<not> on_valid m e" using 2(2) by auto
  then show ?case using 2(1) [of "kaapi_memory_copy_async lid e m"] 2(2)
    by (simp add: kaapi_memory_copy_async_def replica_bits)
qed auto

definition arrived :: "nat \<Rightarrow> nat \<Rightarrow> 'v mdi \<Rightarrow> 'v mdi" where
  "arrived s d m = m\<lparr>md_copies := remove1 (s, d) (md_copies m) @ map (\<lambda>e. (d, e)) (resends (md_cbk m d)),
     md_data := (md_data m)(d := md_data m s), md_valid := md_valid m OR lid_mask d,
     md_xfer := md_xfer m AND NOT (lid_mask d), md_cbk := (md_cbk m)(d := [])\<rparr>"

lemma complete_copy_ok:
  assumes "\<And>e. Resend e \<in> set (md_cbk m d) \<Longrightarrow> \<not> on_valid m e \<and> e \<noteq> d"
  shows "complete_copy (s, d) m = Some (arrived s d m)"
proof -
  have "run_callbacks d (md_cbk m d) (m\<lparr>md_copies := remove1 (s, d) (md_copies m), md_data := (md_data m)(d := md_data m s),
      md_valid := md_valid m OR lid_mask d, md_xfer := md_xfer m AND NOT (lid_mask d)\<rparr>) =
    Some (m\<lparr>md_copies := remove1 (s, d) (md_copies m) @ map (\<lambda>e. (d, e)) (resends (md_cbk m d)),
      md_data := (md_data m)(d := md_data m s), md_valid := md_valid m OR lid_mask d, md_xfer := md_xfer m AND NOT (lid_mask d)\<rparr>)"
    using assms by (subst run_callbacks_ok) auto
  then show ?thesis
    by (simp add: complete_copy_def callback_activate_replica_on_receive_def Let_def kaapi_memory_replica_set_valid_def
        kaapi_memory_replica_unset_xfer_def arrived_def)
qed

lemma snd_remove1:
  assumes "distinct (map snd cs)" "(s, d) \<in> set cs"
  shows "snd ` set (remove1 (s, d) cs) = snd ` set cs - {d}" "distinct (map snd (remove1 (s, d) cs))"
    "\<And>c. c \<in> set (remove1 (s, d) cs) \<longleftrightarrow> c \<in> set cs \<and> snd c \<noteq> d"
proof -
  have dc: "distinct cs" using assms(1) by (simp add: distinct_map)
  have u: "snd c = d \<longleftrightarrow> c = (s, d)" if "c \<in> set cs" for c
    using assms that by (metis distinct_map inj_on_def snd_conv)
  show mem: "c \<in> set (remove1 (s, d) cs) \<longleftrightarrow> c \<in> set cs \<and> snd c \<noteq> d" for c
    using u [of c] dc by (auto simp: set_remove1_eq)
  then show "snd ` set (remove1 (s, d) cs) = snd ` set cs - {d}" by force
  show "distinct (map snd (remove1 (s, d) cs))"
    using assms(1) dc by (auto simp: distinct_map set_remove1_eq inj_on_def distinct_remove1)
qed

lemma arrived_facts:
  assumes "flow_ok m" "(s, d) \<in> set (md_copies m)"
  shows "on_xfer (arrived s d m) l \<longleftrightarrow> on_xfer m l \<and> l \<noteq> d" "on_valid (arrived s d m) l \<longleftrightarrow> on_valid m l \<or> l = d"
    "md_cbk (arrived s d m) l = (if l = d then [] else md_cbk m l)" "md_data (arrived s d m) l = (if l = d then md_data m s else md_data m l)"
    "set (md_copies (arrived s d m)) = {c \<in> set (md_copies m). snd c \<noteq> d} \<union> (\<lambda>e. (d, e)) ` {e. Resend e \<in> set (md_cbk m d)}"
    "md_alloc (arrived s d m) = md_alloc m" "md_pinned (arrived s d m) = md_pinned m"
proof -
  have "on_xfer m d" using assms unfolding flow_ok_def by force
  then have "d < 16" by (rule bit16_less)
  then show "on_valid (arrived s d m) l \<longleftrightarrow> on_valid m l \<or> l = d" by (auto simp: arrived_def)
  have "distinct (map snd (md_copies m))" using assms(1) by (simp add: flow_ok_def)
  then show "set (md_copies (arrived s d m)) = {c \<in> set (md_copies m). snd c \<noteq> d} \<union> (\<lambda>e. (d, e)) ` {e. Resend e \<in> set (md_cbk m d)}"
    using snd_remove1(3) [OF _ assms(2)] by (auto simp: arrived_def)
qed (simp_all add: arrived_def)

lemma arrived_flow:
  assumes fl: "flow_ok m" and c: "(s, d) \<in> set (md_copies m)" and cb: "\<And>l. distinct (resends (md_cbk m l))"
  shows "flow_ok (arrived s d m)"
proof -
  note Fl = fl [unfolded flow_ok_def]
  have dist: "distinct (map snd (md_copies m))" using Fl by blast
  note R = snd_remove1 [OF dist c]
  let ?m = "arrived s d m"
  note A = arrived_facts [OF fl c]
  have rs: "on_xfer m e \<and> e \<noteq> s' \<and> e \<notin> snd ` set (md_copies m) \<and> e \<noteq> d" if "Resend e \<in> set (md_cbk m s')" for e s'
  proof -
    have "on_xfer m e" "s' \<noteq> e" "e \<notin> snd ` set (md_copies m)" using Fl that by blast+
    then show ?thesis using c by force
  qed
  have un: "s1 = s2" if "Resend e \<in> set (md_cbk m s1)" "Resend e \<in> set (md_cbk m s2)" for e s1 s2 using Fl that by blast
  have dj: "Resend (snd c) \<notin> set (md_cbk m d)" if "c \<in> set (md_copies m)" for c using rs that by blast
  have "distinct (map snd (md_copies ?m))"
    using R(1,2) cb [of d] dj by (auto simp: arrived_def comp_def)
  moreover have "\<forall>c\<in>set (md_copies ?m). on_xfer ?m (snd c)"
    using Fl rs unfolding A(1,5) by fastforce
  moreover have "on_xfer ?m e \<and> s' \<noteq> e \<and> e \<notin> snd ` set (md_copies ?m) \<and> (\<forall>s2. Resend e \<in> set (md_cbk ?m s2) \<longrightarrow> s2 = s')"
    if "Resend e \<in> set (md_cbk ?m s')" for s' e
  proof -
    have e: "s' \<noteq> d" "Resend e \<in> set (md_cbk m s')" using that by (auto simp: A(3) split: if_splits)
    moreover have "Resend e \<notin> set (md_cbk m d)" using un [OF e(2)] e(1) by blast
    moreover from this have "e \<notin> snd ` set (md_copies ?m)" using rs [OF e(2)] unfolding A(5) by auto
    moreover have "s2 = s'" if "Resend e \<in> set (md_cbk ?m s2)" for s2
      using that un [of e s2 s', OF _ e(2)] by (simp add: A(3) split: if_splits)
    ultimately show ?thesis using rs [OF e(2)] by (simp add: A(1))
  qed
  moreover have "\<exists>rank :: nat \<Rightarrow> nat. \<forall>e. on_xfer ?m e \<longrightarrow> e \<in> snd ` set (md_copies ?m) \<or>
    (\<exists>s'. Resend e \<in> set (md_cbk ?m s') \<and> rank s' < rank e)"
  proof -
    obtain rank :: "nat \<Rightarrow> nat" where rank: "\<forall>d. on_xfer m d \<longrightarrow> d \<in> snd ` set (md_copies m) \<or>
        (\<exists>s. Resend d \<in> set (md_cbk m s) \<and> rank s < rank d)" using Fl by blast
    have "e \<in> snd ` set (md_copies ?m) \<or> (\<exists>s'. Resend e \<in> set (md_cbk ?m s') \<and> rank s' < rank e)" if "on_xfer ?m e" for e
    proof -
      have e: "on_xfer m e" "e \<noteq> d" using that A(1) by auto
      with rank consider "e \<in> snd ` set (md_copies m)" | s' where "Resend e \<in> set (md_cbk m s')" "rank s' < rank e" by blast
      then show ?thesis
      proof cases
        case 1 then show ?thesis using e(2) unfolding A(5) by auto
      next
        case (2 s')
        then show ?thesis unfolding A(5) by (cases "s' = d") (force simp: A(3))+
      qed
    qed
    then show ?thesis by blast
  qed
  ultimately show ?thesis unfolding flow_ok_def by blast
qed

text \<open>No forwarding goes to a valid replica, so that the assertion of the callback holds.\<close>

lemma resend_invalid:
  assumes "coh_str s" "Resend e \<in> set (md_cbk (co_m s) d)"
  shows "\<not> on_valid (co_m s) e \<and> e \<noteq> d"
proof -
  have f: "on_xfer (co_m s) e" "d \<noteq> e" using assms unfolding coh_str_def flow_ok_def by blast+
  show ?thesis
  proof (cases "readers (co_hold s)")
    case True
    then have "read_ok (co_m s) (co_hold s)" using assms(1) by (simp add: coh_str_def str_ok_def)
    then show ?thesis using f unfolding read_ok_def by blast
  next
    case False
    then obtain h where "write_ok (co_m s) h" by (rule writer_holds [OF assms(1)])
    then show ?thesis using assms(2) unfolding write_ok_def by blast
  qed
qed

lemma arrive_str:
  assumes inv: "coh_str s" and c: "(a, d) \<in> set (md_copies (co_m s))"
  shows "complete_copy (a, d) (co_m s) = Some (arrived a d (co_m s))" "coh_str (s\<lparr>co_m := arrived a d (co_m s)\<rparr>)"
proof -
  let ?m = "co_m s" and ?h = "co_hold s" and ?m' = "arrived a d (co_m s)"
  have I: "hold_ok (?h @ co_pin s)" "\<forall>h\<in>set (co_pin s). \<not> ho_done h" "pend_ok ?m ?h" "flow_ok ?m" "str_ok ?m ?h"
    "pin_ok ?m (?h @ co_pin s)" "alloc_ok ?m" using inv by (simp_all add: coh_str_def)
  note A = arrived_facts [OF I(4) c]
  show "complete_copy (a, d) ?m = Some ?m'" by (rule complete_copy_ok) (rule resend_invalid [OF inv])
  have xd: "on_xfer ?m d" using I(4) c unfolding flow_ok_def by force
  have "pend_ok ?m' ?h" using I(3) unfolding pend_ok_def A by auto
  moreover have "flow_ok ?m'" by (rule arrived_flow [OF I(4) c]) (use I(3) in \<open>simp add: pend_ok_def\<close>)
  moreover have "str_ok ?m' ?h"
  proof (cases "readers ?h")
    case True
    then have "read_ok ?m ?h" using I(5) by (simp add: str_ok_def)
    then have "read_ok ?m' ?h" unfolding read_ok_def A by auto
    then show ?thesis using True by (simp add: str_ok_def)
  next
    case False
    then obtain h where h: "?h = [h]" "write_ok ?m h" by (rule writer_holds [OF inv])
    then have "d = ho_lid h \<or> d = 0" using xd unfolding write_ok_def by blast
    then have "write_ok ?m' h" using h(2) unfolding write_ok_def A by auto
    then show ?thesis using False h(1) by (simp add: str_ok_def)
  qed
  moreover have "alloc_ok ?m'" using I(7) xd unfolding alloc_ok_def A by blast
  ultimately show "coh_str (s\<lparr>co_m := ?m'\<rparr>)" using I(1,2,6) by (simp add: coh_str_def pin_ok_def A)
qed

lemma arrive_val:
  assumes inv: "coh_str s" "coh_val s" and c: "(a, d) \<in> set (md_copies (co_m s))"
  shows "coh_val (s\<lparr>co_m := arrived a d (co_m s)\<rparr>)"
proof -
  let ?m = "co_m s" and ?h = "co_hold s" and ?m' = "arrived a d (co_m s)"
  have fl: "flow_ok ?m" using inv(1) by (simp add: coh_str_def)
  note A = arrived_facts [OF fl c]
  have xd: "on_xfer ?m d" using fl c unfolding flow_ok_def by force
  have V: "val_ok ?m ?h (co_cur s)" using inv(2) by (simp add: coh_val_def)
  have "val_ok ?m' ?h (co_cur s)"
  proof (cases "readers ?h")
    case True
    then have v: "\<And>l. on_valid ?m l \<Longrightarrow> md_data ?m l = co_cur s" "\<And>c. c \<in> set (md_copies ?m) \<Longrightarrow> on_valid ?m (fst c)"
      using V by (simp_all add: val_ok_def)
    have "on_valid ?m a" using v(2) [OF c] by simp
    then show ?thesis using True v unfolding val_ok_def A by auto
  next
    case False
    then obtain h where h: "?h = [h]" "write_ok ?m h" by (rule writer_holds [OF inv(1)])
    have v: "\<And>l. on_valid ?m l \<Longrightarrow> l = ho_lid h" "\<not> on_xfer ?m 0"
      using V False h(1) by (auto simp: val_ok_def Let_def)
    have d: "d = ho_lid h" using h(2) xd v(2) unfolding write_ok_def by blast
    then have "md_data ?m a = co_cur s" using V False h(1) xd c by (auto simp: val_ok_def Let_def)
    then show ?thesis using False h(1) v d unfolding val_ok_def Let_def A by auto
  qed
  then show ?thesis by (simp add: coh_val_def)
qed

section \<open>Pin and allocation\<close>

lemma upd_simps [simp]:
  "pend_ok (m\<lparr>md_pinned := p\<rparr>) hold = pend_ok m hold" "pend_ok (m\<lparr>md_alloc := a\<rparr>) hold = pend_ok m hold"
  "pend_ok (m\<lparr>md_valid := v\<rparr>) hold = pend_ok m hold" "pend_ok (m\<lparr>md_data := d\<rparr>) hold = pend_ok m hold"
  "flow_ok (m\<lparr>md_pinned := p\<rparr>) = flow_ok m" "flow_ok (m\<lparr>md_alloc := a\<rparr>) = flow_ok m"
  "flow_ok (m\<lparr>md_valid := v\<rparr>) = flow_ok m" "flow_ok (m\<lparr>md_data := d\<rparr>) = flow_ok m"
  "read_ok (m\<lparr>md_pinned := p\<rparr>) hold = read_ok m hold" "read_ok (m\<lparr>md_alloc := a\<rparr>) hold = read_ok m hold"
  "read_ok (m\<lparr>md_data := d\<rparr>) hold = read_ok m hold"
  "write_ok (m\<lparr>md_pinned := p\<rparr>) h = write_ok m h" "write_ok (m\<lparr>md_alloc := a\<rparr>) h = write_ok m h"
  "write_ok (m\<lparr>md_data := d\<rparr>) h = write_ok m h"
  "val_ok (m\<lparr>md_pinned := p\<rparr>) hold cur = val_ok m hold cur" "val_ok (m\<lparr>md_alloc := a\<rparr>) hold cur = val_ok m hold cur"
  "alloc_ok (m\<lparr>md_pinned := p\<rparr>) = alloc_ok m" "alloc_ok (m\<lparr>md_data := d\<rparr>) = alloc_ok m"
  "pin_ok (m\<lparr>md_alloc := a\<rparr>) hold = pin_ok m hold" "pin_ok (m\<lparr>md_valid := v\<rparr>) hold = pin_ok m hold"
  "pin_ok (m\<lparr>md_data := d\<rparr>) hold = pin_ok m hold"
  by (simp_all add: pend_ok_def flow_ok_def read_ok_def write_ok_def val_ok_def alloc_ok_def pin_ok_def)

lemma str_upd_simps [simp]:
  "str_ok (m\<lparr>md_pinned := p\<rparr>) hold = str_ok m hold" "str_ok (m\<lparr>md_alloc := a\<rparr>) hold = str_ok m hold"
  "str_ok (m\<lparr>md_data := d\<rparr>) hold = str_ok m hold"
  by (simp_all add: str_ok_def)

text \<open>The invariant of the tasks does not depend on their order.\<close>

lemma hold_ok_mset: "hold_ok xs \<Longrightarrow> mset ys = mset xs \<Longrightarrow> hold_ok ys"
proof -
  assume xs: "hold_ok xs" and m: "mset ys = mset xs"
  have "mset (map ho_task ys) = mset (map ho_task xs)" using m by simp
  then have "distinct (map ho_task ys) = distinct (map ho_task xs)" by (rule mset_eq_imp_distinct_iff)
  moreover have "set ys = set xs" using m by (rule mset_eq_setD)
  moreover have "xs = [h] \<Longrightarrow> ys = [h]" for h using m by simp
  ultimately show ?thesis using xs unfolding hold_ok_def by metis
qed

lemma pin_ok_mset: "pin_ok m xs \<Longrightarrow> mset ys = mset xs \<Longrightarrow> pin_ok m ys"
  unfolding pin_ok_def by (metis mset_filter size_mset)

lemma hold_ok_remove1:
  assumes "hold_ok xs" "h \<in> set xs"
  shows "hold_ok (remove1 h xs)" "\<And>g. g \<in> set (remove1 h xs) \<longleftrightarrow> g \<in> set xs \<and> ho_task g \<noteq> ho_task h"
proof -
  have d: "distinct (map ho_task xs)" using assms(1) by (simp add: hold_ok_def)
  show mem: "g \<in> set (remove1 h xs) \<longleftrightarrow> g \<in> set xs \<and> ho_task g \<noteq> ho_task h" for g
    using d assms(2) by (auto simp: set_remove1_eq distinct_map inj_on_def)
  have "distinct (map ho_task (remove1 h xs))"
    using d mem by (auto simp: distinct_map inj_on_def distinct_remove1)
  moreover have "remove1 h xs = [g]" if "xs = [g]" "g \<in> set (remove1 h xs)" for g using that assms(2) by auto
  ultimately show "hold_ok (remove1 h xs)" using assms(1) mem unfolding hold_ok_def by blast
qed

lemma pin_step:
  assumes "may_start s t lid mp" "coh_str s"
  shows "coh_str (s\<lparr>co_m := kaapi_memory_replica_mark_pinned (co_m s) lid, co_pin := co_pin s @ [new_holder t lid mp]\<rparr>)"
    "coh_val s \<Longrightarrow> coh_val (s\<lparr>co_m := kaapi_memory_replica_mark_pinned (co_m s) lid, co_pin := co_pin s @ [new_holder t lid mp]\<rparr>)"
proof -
  let ?xs = "co_hold s @ co_pin s"
  have "hold_ok (?xs @ [new_holder t lid mp])"
    using assms by (auto simp: may_start_def coh_str_def hold_ok_def readers_def split: if_splits)
  moreover have "pin_ok (kaapi_memory_replica_mark_pinned (co_m s) lid) (?xs @ [new_holder t lid mp])"
    using assms by (auto simp: coh_str_def pin_ok_def kaapi_memory_replica_mark_pinned_def)
  ultimately show "coh_str (s\<lparr>co_m := kaapi_memory_replica_mark_pinned (co_m s) lid, co_pin := co_pin s @ [new_holder t lid mp]\<rparr>)"
    using assms(2) by (simp add: coh_str_def kaapi_memory_replica_mark_pinned_def ball_Un)
qed (simp add: coh_val_def kaapi_memory_replica_mark_pinned_def)

lemma alloc_step:
  "coh_str s \<Longrightarrow> coh_str (s\<lparr>co_m := kaapi_memory_replica_set_allocated (co_m s) lid\<rparr>)"
  "coh_val s \<Longrightarrow> coh_val (s\<lparr>co_m := kaapi_memory_replica_set_allocated (co_m s) lid\<rparr>)"
proof -
  show "coh_str s \<Longrightarrow> coh_str (s\<lparr>co_m := kaapi_memory_replica_set_allocated (co_m s) lid\<rparr>)"
    by (auto simp: coh_str_def kaapi_memory_replica_set_allocated_def alloc_ok_def)
qed (simp add: coh_val_def kaapi_memory_replica_set_allocated_def)

section \<open>Fetches\<close>

lemma acquire_read: "acquire_fetch gs lid t KAAPI_ACCESS_MODE_R m = kaapi_dsm_fetch_on gs lid (Notify t) m"
  by (cases "kaapi_dsm_fetch_on gs lid (Notify t) m") (auto simp: acquire_fetch_def kaapi_dsm_fetch_on_def)

lemma acquire_write:
  assumes "mp = KAAPI_ACCESS_MODE_W \<or> mp = KAAPI_ACCESS_MODE_RW"
  shows "acquire_fetch gs lid t mp m = map_option (\<lambda>(e, m2). (e, m2\<lparr>md_valid := lid_mask lid\<rparr>))
    (if mp = KAAPI_ACCESS_MODE_RW \<and> \<not> kaapi_memory_replica_is_valid m lid then kaapi_dsm_fetch_on gs lid (Notify t) m else Some (Io_ok, m))"
  using assms by (auto simp: acquire_fetch_def kaapi_memory_replica_set_all_dirty_except_def)

lemma read_step:
  assumes inv: "coh_str s" and h: "h \<in> set (co_pin s)" "ho_mode h = KAAPI_ACCESS_MODE_R"
    and al: "kaapi_memory_replica_is_allocated (co_m s) (ho_lid h)" and gs: "get_source_ok gs"
    and f: "kaapi_dsm_fetch_on gs (ho_lid h) (Notify (ho_task h)) (co_m s) = Some (e, m)"
  shows "coh_str (s\<lparr>co_m := m, co_pin := remove1 h (co_pin s), co_hold := co_hold s @ [h]\<rparr>)"
    "coh_val s \<Longrightarrow> coh_val (s\<lparr>co_m := m, co_pin := remove1 h (co_pin s), co_hold := co_hold s @ [h]\<rparr>)"
proof -
  have I: "hold_ok (co_hold s @ co_pin s)" "\<forall>h\<in>set (co_pin s). \<not> ho_done h" "pend_ok (co_m s) (co_hold s)" "flow_ok (co_m s)"
    "str_ok (co_m s) (co_hold s)" "pin_ok (co_m s) (co_hold s @ co_pin s)" "alloc_ok (co_m s)" using inv by (simp_all add: coh_str_def)
  have rd: "readers (co_hold s)"
  proof (rule ccontr)
    assume "\<not> readers (co_hold s)"
    then have "co_pin s = []" by (rule writer_holds [OF inv])
    then show False using h(1) by simp
  qed
  have lid: "ho_lid h < 16" "0 < ho_lid h" using I(1) h(1) by (simp_all add: hold_ok_def)
  have R: "read_ok (co_m s) (co_hold s)" using I(5) rd by (simp add: str_ok_def)
  have al': "bit (md_alloc (co_m s)) (ho_lid h)" using al lid by (simp add: replica_bits)
  have F: "pend_ok m (co_hold s @ [h]) \<and> flow_ok m \<and> read_ok m (co_hold s @ [h]) \<and> alloc_ok m \<and> md_pinned m = md_pinned (co_m s) \<and>
    md_valid m = md_valid (co_m s) \<and> md_data m = md_data (co_m s) \<and>
    (\<forall>c\<in>set (md_copies m). c \<in> set (md_copies (co_m s)) \<or> on_valid (co_m s) (fst c))"
    by (rule fetch_str [OF gs lid(1) I(3,4) R I(7) al' _ _ _ _ _ f]) auto
  have ms: "mset ((co_hold s @ [h]) @ remove1 h (co_pin s)) = mset (co_hold s @ co_pin s)" using h(1) by simp
  have "pin_ok m ((co_hold s @ [h]) @ remove1 h (co_pin s))" using F pin_ok_mset [OF I(6) ms] by (simp add: pin_ok_def)
  then show "coh_str (s\<lparr>co_m := m, co_pin := remove1 h (co_pin s), co_hold := co_hold s @ [h]\<rparr>)"
    using F hold_ok_mset [OF I(1) ms] I(2) rd h(2) by (auto simp: coh_str_def str_ok_def dest: notin_set_remove1)
  show "coh_val s \<Longrightarrow> coh_val (s\<lparr>co_m := m, co_pin := remove1 h (co_pin s), co_hold := co_hold s @ [h]\<rparr>)"
    using F rd h(2) by (auto simp: coh_val_def val_ok_def)
qed

text \<open>A request for the host, from a reader or without tasks.\<close>

lemma host_step:
  assumes inv: "coh_str s" and rd: "readers (co_hold s)" and gs: "get_source_ok gs"
    and cb: "\<And>d. cb \<noteq> Resend d" "\<And>t. cb \<noteq> Notify t" and f: "kaapi_dsm_prefetch_on gs mem 0 cb (co_m s) = Some (e, m)"
  shows "coh_str (s\<lparr>co_m := m\<rparr>)" "coh_val s \<Longrightarrow> coh_val (s\<lparr>co_m := m\<rparr>)"
proof -
  have I: "hold_ok (co_hold s @ co_pin s)" "\<forall>h\<in>set (co_pin s). \<not> ho_done h" "pend_ok (co_m s) (co_hold s)" "flow_ok (co_m s)"
    "str_ok (co_m s) (co_hold s)" "pin_ok (co_m s) (co_hold s @ co_pin s)" "alloc_ok (co_m s)" using inv by (simp_all add: coh_str_def)
  have R: "read_ok (co_m s) (co_hold s)" using I(5) rd by (simp add: str_ok_def)
  have al: "bit (md_alloc (co_m s)) 0" using I(7) by (simp add: alloc_ok_def)
  then have "kaapi_dsm_fetch_on gs 0 cb (co_m s) = Some (e, m)"
    using f by (auto simp: kaapi_dsm_prefetch_on_def kaapi_memory_replica_is_allocated_def kaapi_dsm_fetch_on_def split: if_splits)
  then have F: "pend_ok m (co_hold s) \<and> flow_ok m \<and> read_ok m (co_hold s) \<and> alloc_ok m \<and> md_pinned m = md_pinned (co_m s) \<and>
    md_valid m = md_valid (co_m s) \<and> md_data m = md_data (co_m s) \<and>
    (\<forall>c\<in>set (md_copies m). c \<in> set (md_copies (co_m s)) \<or> on_valid (co_m s) (fst c))"
    by (intro fetch_str [OF gs _ I(3,4) R I(7) al cb(1)]) (use cb(2) in auto)
  then show "coh_str (s\<lparr>co_m := m\<rparr>)" using I(1,2,6) rd by (simp add: coh_str_def str_ok_def pin_ok_def)
  show "coh_val s \<Longrightarrow> coh_val (s\<lparr>co_m := m\<rparr>)" using F rd by (auto simp: coh_val_def val_ok_def)
qed

section \<open>A writer comes\<close>

lemma fetch_idle:
  assumes inv: "pend_ok m []" "flow_ok m" "read_ok m []" and lid: "0 < lid" "lid < 16" and gs: "get_source_ok gs"
    and nv: "\<not> on_valid m lid" and f: "kaapi_dsm_fetch_on gs lid (Notify t) m = Some (e, m')"
  obtains s where "on_valid m s" "s \<noteq> lid" "m' = m\<lparr>md_cbk := (md_cbk m)(lid := [Notify t]), md_xfer := md_xfer m OR lid_mask lid,
      md_copies := md_copies m @ [(s, lid)]\<rparr>"
proof -
  note idle = idle_facts [OF inv(1,2)]
  have v: "\<exists>l. on_valid m l" "\<And>l. on_valid m l \<Longrightarrow> \<not> on_xfer m l" using inv(3) by (auto simp: read_ok_def)
  show thesis
  proof (rule source_plugin.fetch_cases [OF gs [folded source_plugin_iff] v lid(2), of "Notify t"])
    fix s assume a: "on_valid m s" "kaapi_dsm_fetch_on gs lid (Notify t) m =
      Some (Io_inprogress, m\<lparr>md_cbk := (md_cbk m)(lid := add_cbk (Notify t) (md_cbk m lid)),
        md_xfer := md_xfer m OR lid_mask lid, md_copies := md_copies m @ [(s, lid)]\<rparr>)"
    have "s \<noteq> lid" using a(1) nv by auto
    with a show thesis using f idle(2) [OF lid(1)] by (intro that) auto
  qed (use nv idle(1) lid(1) in auto)
qed

lemma write_step:
  assumes inv: "coh_str s" and h: "h \<in> set (co_pin s)" "ho_mode h \<noteq> KAAPI_ACCESS_MODE_R"
    and al: "kaapi_memory_replica_is_allocated (co_m s) (ho_lid h)" and gs: "get_source_ok gs"
    and f: "acquire_fetch gs (ho_lid h) (ho_task h) (ho_mode h) (co_m s) = Some (e, m)"
  shows "coh_str (s\<lparr>co_m := m, co_pin := remove1 h (co_pin s), co_hold := co_hold s @ [h]\<rparr>)"
    "coh_val s \<Longrightarrow> \<not> on_xfer (co_m s) 0 \<Longrightarrow> coh_val (s\<lparr>co_m := m, co_pin := remove1 h (co_pin s), co_hold := co_hold s @ [h]\<rparr>)"
proof -
  let ?m = "co_m s" and ?lid = "ho_lid h"
  have "hold_ok (co_hold s @ co_pin s)" using inv by (simp add: coh_str_def)
  then have hp: "co_hold s @ co_pin s = [h]" and mp: "ho_mode h = KAAPI_ACCESS_MODE_W \<or> ho_mode h = KAAPI_ACCESS_MODE_RW"
    and lid: "0 < ?lid" "?lid < 16" using h by (auto simp: hold_ok_def)
  then have e: "co_hold s = []" "co_pin s = [h]" using h(1) by (cases "co_hold s"; auto)+
  have I: "hold_ok [h]" "\<not> ho_done h" "pend_ok ?m []" "flow_ok ?m" "read_ok ?m []" "pin_ok ?m [h]" "alloc_ok ?m"
    using inv by (simp_all add: coh_str_def str_ok_def e)
  note idle = idle_facts [OF I(3,4)]
  have al': "bit (md_alloc ?m) ?lid" using al lid by (simp add: replica_bits)
  have nr: "\<not> readers [h]" using h(2) by simp
  have nx: "\<not> on_xfer ?m ?lid" using idle(1) [of ?lid] lid by auto
  let ?s = "s\<lparr>co_m := m, co_pin := [], co_hold := [h]\<rparr>"
  consider (ok) "m = ?m\<lparr>md_valid := lid_mask ?lid\<rparr>" "ho_mode h = KAAPI_ACCESS_MODE_RW \<longrightarrow> on_valid ?m ?lid"
    | (fetch) m2 where "m = m2\<lparr>md_valid := lid_mask ?lid\<rparr>" "ho_mode h = KAAPI_ACCESS_MODE_RW"
        "kaapi_dsm_fetch_on gs ?lid (Notify (ho_task h)) ?m = Some (e, m2)" "\<not> on_valid ?m ?lid"
    using f [unfolded acquire_write [OF mp]] lid(2) by (auto simp: replica_bits split: if_splits)
  then have "coh_str ?s \<and> (coh_val s \<longrightarrow> \<not> on_xfer ?m 0 \<longrightarrow> coh_val ?s)"
  proof cases
    case ok
    have "pend_ok ?m [h]" using I(3) by (auto simp: pend_ok_def)
    moreover have "write_ok m h" using nx idle(1,4) lid by (auto simp: write_ok_def ok(1))
    moreover have "alloc_ok m" using I(7) al' idle(1) by (auto simp: alloc_ok_def ok(1))
    ultimately have "coh_str ?s" using I nr by (simp add: coh_str_def str_ok_def ok(1))
    moreover have "coh_val ?s" if "coh_val s" "\<not> on_xfer ?m 0"
    proof -
      have "on_valid ?m l \<Longrightarrow> md_data ?m l = co_cur s" for l using that(1) by (simp add: coh_val_def val_ok_def e(1))
      then show ?thesis using that(2) nr ok nx lid I(2) by (auto simp: coh_val_def val_ok_def Let_def)
    qed
    ultimately show ?thesis by blast
  next
    case fetch
    obtain s' where s': "on_valid ?m s'" "s' \<noteq> ?lid" and m2: "m2 = ?m\<lparr>md_cbk := (md_cbk ?m)(?lid := [Notify (ho_task h)]),
        md_xfer := md_xfer ?m OR lid_mask ?lid, md_copies := md_copies ?m @ [(s', ?lid)]\<rparr>"
      by (rule fetch_idle [OF I(3-5) lid gs fetch(4,3)])
    have cx: "on_xfer ?m (snd c)" if "c \<in> set (md_copies ?m)" for c using I(4) that by (simp add: flow_ok_def)
    have "pend_ok m2 [h]" using I(3) lid idle(1) by (auto simp: pend_ok_def m2)
    moreover have "flow_ok m2"
      by (rule flow_more [OF I(4)]) (use I(4) nx cx lid idle(4) in \<open>auto simp: m2 flow_ok_def split: if_splits\<close>)
    moreover have "write_ok m h" using idle(1,4) lid fetch(2) I(2) by (auto simp: write_ok_def fetch(1) m2 split: if_splits)
    moreover have "alloc_ok m" using I(7) al' by (auto simp: alloc_ok_def fetch(1) m2)
    moreover have "pin_ok m [h]" using I(6) by (simp add: pin_ok_def fetch(1) m2)
    ultimately have "coh_str ?s" using I(1) nr by (simp add: coh_str_def str_ok_def fetch(1))
    moreover have "coh_val ?s" if v: "coh_val s" "\<not> on_xfer ?m 0"
    proof -
      have "md_data ?m s' = co_cur s" using v(1) s'(1) by (simp add: coh_val_def val_ok_def e(1))
      moreover have "md_copies ?m = []"
      proof (rule ccontr)
        assume "md_copies ?m \<noteq> []"
        then obtain c where "c \<in> set (md_copies ?m)" by (cases "md_copies ?m") auto
        then show False using cx idle(1) v(2) by metis
      qed
      ultimately show ?thesis using s'(2) nr v(2) lid fetch(2) by (auto simp: coh_val_def val_ok_def Let_def fetch(1) m2)
    qed
    ultimately show ?thesis by blast
  qed
  then show "coh_str (s\<lparr>co_m := m, co_pin := remove1 h (co_pin s), co_hold := co_hold s @ [h]\<rparr>)"
    "coh_val s \<Longrightarrow> \<not> on_xfer ?m 0 \<Longrightarrow> coh_val (s\<lparr>co_m := m, co_pin := remove1 h (co_pin s), co_hold := co_hold s @ [h]\<rparr>)"
    by (simp_all add: e)
qed

section \<open>Kernel, release, eviction\<close>

lemma kernel_step:
  assumes inv: "coh_str s" and h: "co_hold s = [h]" "ho_mode h AND KAAPI_ACCESS_MODE_W \<noteq> 0" "ready_task (ho_task h) (co_m s)"
  shows "coh_str (s\<lparr>co_m := (co_m s)\<lparr>md_data := (md_data (co_m s))(ho_lid h := v)\<rparr>, co_hold := [h\<lparr>ho_done := True\<rparr>], co_cur := v\<rparr>)"
    "coh_val s \<Longrightarrow> coh_val (s\<lparr>co_m := (co_m s)\<lparr>md_data := (md_data (co_m s))(ho_lid h := v)\<rparr>, co_hold := [h\<lparr>ho_done := True\<rparr>], co_cur := v\<rparr>)"
proof -
  let ?g = "h\<lparr>ho_done := True\<rparr>"
  have nr: "ho_mode h \<noteq> KAAPI_ACCESS_MODE_R" using h(2) by auto
  then have nr': "\<not> readers (co_hold s)" "\<not> readers [?g]" by (simp_all add: h(1))
  have w: "co_pin s = []" "0 < ho_lid h" "write_ok (co_m s) h" using writer_holds [OF inv nr'(1)] h(1) by auto
  note nx = writer_ready [OF inv h(1) w(2) h(3)]
  have I: "hold_ok [h]" "pend_ok (co_m s) [h]" "flow_ok (co_m s)" "pin_ok (co_m s) [h]" "alloc_ok (co_m s)"
    using inv by (simp_all add: coh_str_def h(1) w(1))
  have "hold_ok [?g]" using I(1) nr by (simp add: hold_ok_def)
  moreover have "pend_ok (co_m s) [?g]" using I(2) by (simp add: pend_ok_def)
  moreover have "write_ok (co_m s) ?g" using w(3) nx by (simp add: write_ok_def)
  moreover have "pin_ok (co_m s) [?g]" using I(4) by (simp add: pin_ok_def)
  ultimately show "coh_str (s\<lparr>co_m := (co_m s)\<lparr>md_data := (md_data (co_m s))(ho_lid h := v)\<rparr>, co_hold := [?g], co_cur := v\<rparr>)"
    using I(3,5) nr' w(1) by (simp add: coh_str_def str_ok_def)
  show "coh_val s \<Longrightarrow> coh_val (s\<lparr>co_m := (co_m s)\<lparr>md_data := (md_data (co_m s))(ho_lid h := v)\<rparr>, co_hold := [?g], co_cur := v\<rparr>)"
    using nx nr' by (auto simp: coh_val_def val_ok_def Let_def h(1))
qed

lemma release_step:
  assumes inv: "coh_str s" and h: "h \<in> set (co_hold s)" "ready_task (ho_task h) (co_m s)"
    and d: "ho_mode h AND KAAPI_ACCESS_MODE_W \<noteq> 0 \<longrightarrow> ho_done h"
  shows "coh_str (s\<lparr>co_m := kaapi_dsm_release_data (ho_lid h) (co_m s), co_hold := remove1 h (co_hold s)\<rparr>)"
    "coh_val s \<Longrightarrow> coh_val (s\<lparr>co_m := kaapi_dsm_release_data (ho_lid h) (co_m s), co_hold := remove1 h (co_hold s)\<rparr>)"
proof -
  let ?m = "co_m s" and ?r = "remove1 h (co_hold s)"
  have I: "hold_ok (co_hold s @ co_pin s)" "\<forall>h\<in>set (co_pin s). \<not> ho_done h" "pend_ok ?m (co_hold s)" "flow_ok ?m"
    "str_ok ?m (co_hold s)" "pin_ok ?m (co_hold s @ co_pin s)" "alloc_ok ?m" using inv by (simp_all add: coh_str_def)
  have app: "remove1 h (co_hold s @ co_pin s) = ?r @ co_pin s" using h(1) by (simp add: remove1_append)
  have hr: "hold_ok (?r @ co_pin s)" using hold_ok_remove1(1) [OF I(1), of h] h(1) app by simp
  have dist: "distinct (map ho_task (co_hold s))" using I(1) by (simp add: hold_ok_def)
  have rem: "g \<in> set ?r \<longleftrightarrow> g \<in> set (co_hold s) \<and> ho_task g \<noteq> ho_task h" for g
    using dist h(1) by (auto simp: set_remove1_eq distinct_map inj_on_def)
  have pr: "pend_ok ?m ?r"
  proof -
    have "\<exists>g\<in>set ?r. ho_task g = t \<and> ho_lid g = l" if t: "Notify t \<in> set (md_cbk ?m l)" for t l
    proof -
      obtain g where g: "g \<in> set (co_hold s)" "ho_task g = t" "ho_lid g = l" using I(3) t unfolding pend_ok_def by blast
      moreover have "t \<noteq> ho_task h" using ready_no_notify [OF I(3) h(2)] t by auto
      ultimately show ?thesis using rem [of g] by blast
    qed
    then show ?thesis using I(3) unfolding pend_ok_def by blast
  qed
  have "str_ok ?m ?r \<and> (coh_val s \<longrightarrow> val_ok ?m ?r (co_cur s))"
  proof (cases "readers (co_hold s)")
    case True
    then have "readers ?r" by (auto simp: readers_def rem)
    then show ?thesis using I(5) True by (auto simp: coh_val_def val_ok_def str_ok_def read_ok_def rem)
  next
    case False
    then obtain g where "co_hold s = [g]" "0 < ho_lid g" "write_ok ?m g"
      "ho_mode g = KAAPI_ACCESS_MODE_W \<or> ho_mode g = KAAPI_ACCESS_MODE_RW" by (rule writer_holds [OF inv])
    then have g: "co_hold s = [h]" "0 < ho_lid h" "write_ok ?m h" "ho_done h" using h(1) d by auto
    have nx: "\<not> on_xfer ?m (ho_lid h)" by (rule writer_ready [OF inv g(1,2) h(2)])
    have r: "?r = []" using g(1) by simp
    have "read_ok ?m []" using g(3) nx by (auto simp: read_ok_def write_ok_def)
    moreover have "val_ok ?m [] (co_cur s)" if "coh_val s"
    proof -
      have v: "\<And>l. on_valid ?m l \<Longrightarrow> l = ho_lid h" "\<not> on_xfer ?m 0" "md_data ?m (ho_lid h) = co_cur s"
        using that False nx g(1,4) by (auto simp: coh_val_def val_ok_def Let_def)
      have "c \<notin> set (md_copies ?m)" for c
      proof
        assume "c \<in> set (md_copies ?m)"
        then have "on_xfer ?m (snd c)" using I(4) by (simp add: flow_ok_def)
        then show False using g(3) nx v(2) unfolding write_ok_def by metis
      qed
      then show ?thesis using v by (auto simp: val_ok_def)
    qed
    ultimately show ?thesis by (simp add: str_ok_def r)
  qed
  then have sv: "str_ok ?m ?r" "coh_val s \<Longrightarrow> val_ok ?m ?r (co_cur s)" by blast+
  have count: "int (length (filter P (remove1 h xs))) = int (length (filter P xs)) - (if P h then 1 else 0)" if "h \<in> set xs" for P xs
    using that by (induction xs) auto
  have "pin_ok (kaapi_dsm_release_data (ho_lid h) ?m) (remove1 h (co_hold s @ co_pin s))"
    using I(6) h(1) by (auto simp: pin_ok_def count kaapi_dsm_release_data_def kaapi_memory_replica_unmark_pinned_def)
  then show "coh_str (s\<lparr>co_m := kaapi_dsm_release_data (ho_lid h) ?m, co_hold := ?r\<rparr>)"
    using hr I(2,4,7) pr sv(1) unfolding app
    by (simp add: coh_str_def kaapi_dsm_release_data_def kaapi_memory_replica_unmark_pinned_def)
  show "coh_val s \<Longrightarrow> coh_val (s\<lparr>co_m := kaapi_dsm_release_data (ho_lid h) ?m, co_hold := ?r\<rparr>)"
    using sv(2) by (simp add: coh_val_def kaapi_dsm_release_data_def kaapi_memory_replica_unmark_pinned_def)
qed

lemma evict_step:
  assumes inv: "coh_str s" and lid: "0 < lid" "lid < 16"
  shows "\<exists>m. evict_replica lid junk (co_m s) = Some m"
    and "evict_replica lid junk (co_m s) = Some m \<Longrightarrow> coh_str (s\<lparr>co_m := m\<rparr>)"
    and "evict_replica lid junk (co_m s) = Some m \<Longrightarrow> coh_val s \<Longrightarrow> lid \<notin> fst ` set (md_copies (co_m s)) \<Longrightarrow> coh_val (s\<lparr>co_m := m\<rparr>)"
proof -
  let ?m = "co_m s"
  have I: "hold_ok (co_hold s @ co_pin s)" "\<forall>h\<in>set (co_pin s). \<not> ho_done h" "pend_ok ?m (co_hold s)" "flow_ok ?m"
    "str_ok ?m (co_hold s)" "pin_ok ?m (co_hold s @ co_pin s)" "alloc_ok ?m" using inv by (simp_all add: coh_str_def)
  have free: "ho_lid h \<noteq> lid" if "md_pinned ?m lid = 0" "h \<in> set (co_hold s)" for h
  proof -
    have "int (length (filter (\<lambda>h. ho_lid h = lid) (co_hold s @ co_pin s))) = 0" using I(6) lid that(1) unfolding pin_ok_def by metis
    then have "filter (\<lambda>h. ho_lid h = lid) (co_hold s @ co_pin s) = []" by (simp only: of_nat_eq_0_iff length_0_conv)
    then show ?thesis using that(2) unfolding filter_empty_conv by auto
  qed
  have nx: "\<not> on_xfer ?m lid" if "md_pinned ?m lid = 0"
    using I(3) free [OF that] lid unfolding pend_ok_def by blast
  show "\<exists>m. evict_replica lid junk ?m = Some m"
    using nx lid by (auto simp: evict_replica_def replica_bits Let_def)
  have cases: "m = ?m \<or> md_pinned ?m lid = 0 \<and> (\<exists>k. k \<noteq> lid \<and> on_valid ?m k) \<and>
      m = ?m\<lparr>md_valid := md_valid ?m AND NOT (lid_mask lid), md_alloc := md_alloc ?m AND NOT (lid_mask lid), md_data := (md_data ?m)(lid := junk)\<rparr>"
    if "evict_replica lid junk ?m = Some m"
  proof (cases "kaapi_memory_replica_is_notpinned ?m lid \<and> kaapi_memory_replica_is_valid_excepton ?m lid")
    case True
    then have "md_pinned ?m lid = 0" "\<exists>k. k \<noteq> lid \<and> on_valid ?m k" using lid by (auto simp: replica_bits)
    then show ?thesis using that True nx lid by (auto simp: evict_replica_def kaapi_memory_replica_is_xfer_def
        kaapi_memory_replica_unset_valid_def kaapi_memory_replica_unset_allocated_def Let_def)
  next
    case False
    then show ?thesis using that by (simp only: evict_replica_def if_False option.inject) simp
  qed
  show "coh_str (s\<lparr>co_m := m\<rparr>)" if e: "evict_replica lid junk ?m = Some m"
    using cases [OF e]
  proof (elim disjE conjE)
    assume "m = ?m" then show ?thesis using inv by simp
  next
    assume p: "md_pinned ?m lid = 0" "\<exists>k. k \<noteq> lid \<and> on_valid ?m k" and m: "m = ?m\<lparr>md_valid := md_valid ?m AND NOT (lid_mask lid),
      md_alloc := md_alloc ?m AND NOT (lid_mask lid), md_data := (md_data ?m)(lid := junk)\<rparr>"
    have va: "on_valid m l \<longleftrightarrow> on_valid ?m l \<and> l \<noteq> lid" for l by (auto simp: m)
    have "str_ok m (co_hold s)"
    proof (cases "readers (co_hold s)")
      case True
      then have "read_ok ?m (co_hold s)" using I(5) by (simp add: str_ok_def)
      then have "read_ok m (co_hold s)" using p(2) free [OF p(1)] unfolding read_ok_def va by (auto simp: m)
      then show ?thesis using True by (simp add: str_ok_def)
    next
      case False
      then obtain h where h: "co_hold s = [h]" "write_ok ?m h" by (rule writer_holds [OF inv])
      then have "ho_lid h \<noteq> lid" using free [OF p(1)] by simp
      then have "write_ok m h" using h(2) unfolding write_ok_def va by (auto simp: m)
      then show ?thesis using False h(1) by (simp add: str_ok_def)
    qed
    moreover have "alloc_ok m" using I(7) lid nx [OF p(1)] by (auto simp: alloc_ok_def m)
    ultimately show ?thesis using I by (simp add: coh_str_def m)
  qed
  show "coh_val (s\<lparr>co_m := m\<rparr>)" if e: "evict_replica lid junk ?m = Some m" and v: "coh_val s" and src: "lid \<notin> fst ` set (md_copies ?m)"
    using cases [OF e]
  proof (elim disjE conjE)
    assume "m = ?m" then show ?thesis using v by simp
  next
    assume p: "md_pinned ?m lid = 0" and m: "m = ?m\<lparr>md_valid := md_valid ?m AND NOT (lid_mask lid),
      md_alloc := md_alloc ?m AND NOT (lid_mask lid), md_data := (md_data ?m)(lid := junk)\<rparr>"
    have sr: "fst c \<noteq> lid" if "c \<in> set (md_copies ?m)" for c using src that by auto
    show ?thesis
    proof (cases "readers (co_hold s)")
      case True then show ?thesis using v sr by (auto simp: coh_val_def val_ok_def m)
    next
      case False
      then obtain h where h: "co_hold s = [h]" by (rule writer_holds [OF inv])
      then have l: "ho_lid h \<noteq> lid" using free [OF p] by simp
      have V: "\<And>l. on_valid ?m l \<Longrightarrow> l = ho_lid h" "\<not> on_xfer ?m 0"
        "if on_xfer ?m (ho_lid h) then \<exists>s'. md_copies ?m = [(s', ho_lid h)] \<and> s' \<noteq> ho_lid h \<and> md_data ?m s' = co_cur s
         else ho_mode h = KAAPI_ACCESS_MODE_RW \<or> ho_done h \<longrightarrow> md_data ?m (ho_lid h) = co_cur s"
        using v False h(1) by (auto simp: coh_val_def val_ok_def Let_def)
      have "\<exists>s'. md_copies m = [(s', ho_lid h)] \<and> s' \<noteq> ho_lid h \<and> md_data m s' = co_cur s" if "on_xfer ?m (ho_lid h)"
        using V(3) that sr by (auto simp: m)
      then show ?thesis using False h l V by (auto simp: coh_val_def val_ok_def Let_def m)
    qed
  qed
qed

section \<open>Runs\<close>

lemma coh_step_str: "coh_step keep_src wait_wb s s' \<Longrightarrow> coh_str s \<Longrightarrow> coh_str s'"
proof (induction rule: coh_step.induct)
  case (acquire_fetch h s gs e m)
  show ?case
  proof (cases "ho_mode h = KAAPI_ACCESS_MODE_R")
    case True
    show ?thesis by (rule read_step(1) [OF acquire_fetch(6,1) True acquire_fetch(2,3)]) (use acquire_fetch(5) True in \<open>simp add: acquire_read\<close>)
  next
    case False
    show ?thesis by (rule write_step(1) [OF acquire_fetch(6,1) False acquire_fetch(2,3,5)])
  qed
next
  case (writeback h s gs mem e m)
  have "readers (co_hold s)"
  proof (rule ccontr)
    assume "\<not> readers (co_hold s)"
    then obtain g where "co_hold s = [g]" "ho_mode g = KAAPI_ACCESS_MODE_W \<or> ho_mode g = KAAPI_ACCESS_MODE_RW"
      by (rule writer_holds [OF writeback(6)])
    then show False using writeback(1,2) by auto
  qed
  then show ?case by (rule host_step(1) [OF writeback(6) _ writeback(4) _ _ writeback(5)]) auto
next
  case (writeback_all s gs lid mem e m)
  then show ?case
    by (cases "\<not> kaapi_memory_replica_is_valid (co_m s) 0 \<and> kaapi_memory_replica_is_valid (co_m s) lid")
       (auto simp: writeback_entry_def intro: host_step(1) [of s gs Cbk_nop])
next
  case (arrive c s m)
  then show ?case using arrive_str [of s "fst c" "snd c"] by simp
next
  case acquire_pin then show ?case by (rule pin_step(1))
next
  case acquire_alloc then show ?case by (intro alloc_step(1))
next
  case kernel then show ?case by (intro kernel_step(1))
next
  case release then show ?case by (intro release_step(1))
next
  case evict then show ?case by (intro evict_step(2))
qed

lemma coh_step_val: "coh_step True True s s' \<Longrightarrow> coh_str s \<Longrightarrow> coh_val s \<Longrightarrow> coh_val s'"
proof (induction rule: coh_step.induct)
  case (acquire_fetch h s gs e m)
  show ?case
  proof (cases "ho_mode h = KAAPI_ACCESS_MODE_R")
    case True
    show ?thesis
      by (rule read_step(2) [OF acquire_fetch(6,1) True acquire_fetch(2,3) _ acquire_fetch(7)])
        (use acquire_fetch(5) True in \<open>simp add: acquire_read\<close>)
  next
    case False
    have "hold_ok (co_hold s @ co_pin s)" using acquire_fetch(6) by (simp add: coh_str_def)
    then have "ho_mode h = KAAPI_ACCESS_MODE_W \<or> ho_mode h = KAAPI_ACCESS_MODE_RW" using acquire_fetch(1) False by (auto simp: hold_ok_def)
    then have "ho_mode h AND KAAPI_ACCESS_MODE_W \<noteq> 0" by auto
    then have "\<not> on_xfer (co_m s) 0" using acquire_fetch(4) by (simp add: replica_bits)
    then show ?thesis by (rule write_step(2) [OF acquire_fetch(6,1) False acquire_fetch(2,3,5,7)])
  qed
next
  case (writeback h s gs mem e m)
  have "readers (co_hold s)"
  proof (rule ccontr)
    assume "\<not> readers (co_hold s)"
    then obtain g where "co_hold s = [g]" "ho_mode g = KAAPI_ACCESS_MODE_W \<or> ho_mode g = KAAPI_ACCESS_MODE_RW"
      by (rule writer_holds [OF writeback(6)])
    then show False using writeback(1,2) by auto
  qed
  then show ?case by (rule host_step(2) [OF writeback(6) _ writeback(4) _ _ writeback(5,7)]) auto
next
  case (writeback_all s gs lid mem e m)
  then show ?case
    by (cases "\<not> kaapi_memory_replica_is_valid (co_m s) 0 \<and> kaapi_memory_replica_is_valid (co_m s) lid")
       (auto simp: writeback_entry_def intro: host_step(2) [of s gs Cbk_nop])
next
  case (arrive c s m)
  then show ?case using arrive_str(1) [of s "fst c" "snd c"] arrive_val [of s "fst c" "snd c"] by simp
next
  case acquire_pin then show ?case by (intro pin_step(2))
next
  case acquire_alloc then show ?case by (intro alloc_step(2))
next
  case kernel then show ?case by (intro kernel_step(2))
next
  case release then show ?case by (intro release_step(2))
next
  case evict then show ?case by (intro evict_step(3)) auto
qed

lemma coh_reach_str: "coh_reach keep_src wait_wb s \<Longrightarrow> coh_str s"
  by (induction rule: coh_reach.induct) (auto simp: coh_init_ok intro: coh_step_str)

lemma coh_reach_val: "coh_reach True True s \<Longrightarrow> coh_val s"
  by (induction rule: coh_reach.induct) (auto simp: coh_init_ok intro: coh_step_val coh_reach_str)

end
