(* ===== verification/Coherence_Run.thy ===== *)
theory Coherence_Run
  imports Coherence_Inv
begin

text \<open>
  What the invariants of the coherence protocol give. In every run: the service of waiting tasks, a valid replica at any time,
  no failed assertion. In the runs that keep the sources of copies and let no writer start under a copy to the host: the values
  the tasks read. Two counterexamples show that each of the two conditions is needed, and that the code enforces neither.
\<close>

section \<open>A whole acquisition is a run\<close>



lemma poll_run:
  assumes "coh_reach ks ww s"
  shows "\<exists>m. poll_copies cs (co_m s) = Some m \<and> coh_reach ks ww (s\<lparr>co_m := m\<rparr>) \<and>
    (\<forall>l. on_xfer m l \<longrightarrow> on_xfer (co_m s) l) \<and> md_alloc m = md_alloc (co_m s)"
  using assms
proof (induction cs arbitrary: s)
  case (Cons c cs)
  show ?case
  proof (cases "c \<in> set (md_copies (co_m s))")
    case True
    then have c: "(fst c, snd c) \<in> set (md_copies (co_m s))" by simp
    have inv: "coh_str s" by (rule coh_reach_str [OF Cons(2)])
    then have fl: "flow_ok (co_m s)" by (simp add: coh_str_def)
    have comp: "complete_copy c (co_m s) = Some (arrived (fst c) (snd c) (co_m s))" using arrive_str(1) [OF inv c] by simp
    let ?s = "s\<lparr>co_m := arrived (fst c) (snd c) (co_m s)\<rparr>"
    have "coh_reach ks ww ?s" by (rule coh_reach.step [OF Cons(2) coh_step.arrive [OF True comp]])
    from Cons(1) [OF this] show ?thesis using True comp by (auto simp: arrived_facts [OF fl c])
  qed (use Cons in auto)
qed auto

lemma retry_run:
  assumes "coh_reach ks ww s"
  shows "(allocate_retry turns (co_m s) = None \<longleftrightarrow> (\<forall>cs. (True, True, cs) \<notin> set turns)) \<and>
    (\<forall>m. allocate_retry turns (co_m s) = Some m \<longrightarrow> coh_reach ks ww (s\<lparr>co_m := m\<rparr>) \<and>
       (\<forall>l. on_xfer m l \<longrightarrow> on_xfer (co_m s) l) \<and> md_alloc m = md_alloc (co_m s))"
  using assms
proof (induction turns arbitrary: s)
  case (Cons turn turns)
  obtain ev got cs where t: "turn = (ev, got, cs)" by (cases turn)
  show ?case
  proof (cases "ev \<and> got")
    case True
    then show ?thesis using Cons(2) by (auto simp: t)
  next
    case False
    obtain m where m: "poll_copies cs (co_m s) = Some m" "coh_reach ks ww (s\<lparr>co_m := m\<rparr>)"
      "\<forall>l. on_xfer m l \<longrightarrow> on_xfer (co_m s) l" "md_alloc m = md_alloc (co_m s)" using poll_run [OF Cons(2)] by blast
    have e: "allocate_retry (turn # turns) (co_m s) = allocate_retry turns m" using m(1) False by (auto simp: t)
    have more: "(True, True, cs) \<in> set (turn # turns) \<longleftrightarrow> (True, True, cs) \<in> set turns" for cs using False by (auto simp: t)
    note IH = Cons(1) [OF m(2)]
    have n: "allocate_retry turns m = None \<longleftrightarrow> (\<forall>cs. (True, True, cs) \<notin> set turns)" using conjunct1 [OF IH] by simp
    have "coh_reach ks ww (s\<lparr>co_m := m'\<rparr>) \<and> (\<forall>l. on_xfer m' l \<longrightarrow> on_xfer (co_m s) l) \<and> md_alloc m' = md_alloc (co_m s)"
      if "allocate_retry turns m = Some m'" for m'
    proof -
      have "coh_reach ks ww (s\<lparr>co_m := m, co_m := m'\<rparr>) \<and> (\<forall>l. on_xfer m' l \<longrightarrow> on_xfer m l) \<and> md_alloc m' = md_alloc m"
        using conjunct2 [OF IH] that by simp
      then show ?thesis using m(3,4) by simp
    qed
    then show ?thesis unfolding e more using n by blast
  qed
qed auto

lemma allocate_run:
  assumes r: "coh_reach ks ww s" and h: "h \<in> set (co_pin s)" "ho_lid h < 16"
  shows "(kaapi_dsm_allocate_replica mem (ho_lid h) (co_m s) = None \<longleftrightarrow> \<not> kaapi_memory_replica_is_allocated (co_m s) (ho_lid h) \<and>
      \<not> fst mem \<and> (\<forall>cs. (True, True, cs) \<notin> set (snd mem))) \<and>
    (\<forall>m. kaapi_dsm_allocate_replica mem (ho_lid h) (co_m s) = Some m \<longrightarrow> coh_reach ks ww (s\<lparr>co_m := m\<rparr>) \<and>
       kaapi_memory_replica_is_allocated m (ho_lid h) \<and> (\<forall>l. on_xfer m l \<longrightarrow> on_xfer (co_m s) l))"
proof (cases "kaapi_memory_replica_is_allocated (co_m s) (ho_lid h)")
  case True
  then show ?thesis using r by (auto simp: kaapi_dsm_allocate_replica_def)
next
  case False
  have step: "coh_reach ks ww (s\<lparr>co_m := kaapi_memory_replica_set_allocated m (ho_lid h)\<rparr>) \<and>
      kaapi_memory_replica_is_allocated (kaapi_memory_replica_set_allocated m (ho_lid h)) (ho_lid h)"
    if "coh_reach ks ww (s\<lparr>co_m := m\<rparr>)" "md_alloc m = md_alloc (co_m s)" for m
  proof -
    have "\<not> kaapi_memory_replica_is_allocated (co_m (s\<lparr>co_m := m\<rparr>)) (ho_lid h)" using False that(2)
      by (simp add: kaapi_memory_replica_is_allocated_def)
    then show ?thesis using coh_reach.step [OF that(1) coh_step.acquire_alloc [of h]] h
      by (simp add: replica_bits)
  qed
  have x: "md_xfer (kaapi_memory_replica_set_allocated m lid) = md_xfer m" for m :: "'a mdi" and lid
    by (simp add: kaapi_memory_replica_set_allocated_def)
  show ?thesis
  proof (cases "fst mem")
    case True
    then show ?thesis using False r step [of "co_m s"] by (auto simp: kaapi_dsm_allocate_replica_def x)
  next
    case nf: False
    have "kaapi_dsm_allocate_replica mem (ho_lid h) (co_m s) =
      map_option (\<lambda>m1. kaapi_memory_replica_set_allocated m1 (ho_lid h)) (allocate_retry (snd mem) (co_m s))"
      using False nf by (simp add: kaapi_dsm_allocate_replica_def)
    then show ?thesis using retry_run [OF r, of "snd mem"] False nf step
      by (cases "allocate_retry (snd mem) (co_m s)") (simp_all add: x)
  qed
qed

lemma fetch_returns:
  assumes gs: "get_source_ok gs" and inv: "coh_str s" and rd: "readers (co_hold s)" and lid: "lid < 16"
  shows "\<exists>r. kaapi_dsm_fetch_on gs lid c (co_m s) = Some r"
proof -
  have "read_ok (co_m s) (co_hold s)" using inv rd by (simp add: coh_str_def str_ok_def)
  then have v: "\<exists>l. on_valid (co_m s) l" "\<And>l. on_valid (co_m s) l \<Longrightarrow> \<not> on_xfer (co_m s) l" by (auto simp: read_ok_def)
  show ?thesis by (rule source_plugin.fetch_cases [OF gs [folded source_plugin_iff] v lid, of c]) auto
qed

text \<open>\<open>kaapi_dsm_acquire_data\<close> without interruption is a run of the steps \<open>acquire_pin\<close>, \<open>arrive\<close>, \<open>acquire_alloc\<close> and
  \<open>acquire_fetch\<close>. It returns unless the device never has memory.\<close>

lemma acquire_run:
  assumes r: "coh_reach ks ww s" and ms: "may_start s t lid mp" and gs: "get_source_ok gs"
    and wb: "ww \<and> mp AND KAAPI_ACCESS_MODE_W \<noteq> 0 \<longrightarrow> \<not> kaapi_memory_replica_is_xfer (co_m s) 0"
  shows "(kaapi_dsm_acquire_data gs mem lid t mp (co_m s) = None \<longleftrightarrow> \<not> kaapi_memory_replica_is_allocated (co_m s) lid \<and>
      \<not> fst mem \<and> (\<forall>cs. (True, True, cs) \<notin> set (snd mem))) \<and>
    (\<forall>e m. kaapi_dsm_acquire_data gs mem lid t mp (co_m s) = Some (e, m) \<longrightarrow>
      coh_reach ks ww (s\<lparr>co_m := m, co_hold := co_hold s @ [new_holder t lid mp]\<rparr>))"
proof -
  let ?h = "new_holder t lid mp" and ?m1 = "kaapi_memory_replica_mark_pinned (co_m s) lid"
  let ?s1 = "s\<lparr>co_m := ?m1, co_pin := co_pin s @ [?h]\<rparr>"
  have r1: "coh_reach ks ww ?s1" by (rule coh_reach.step [OF r coh_step.acquire_pin [OF ms]])
  have lid: "lid < 16" and hp: "?h \<notin> set (co_pin s)" and rd: "readers (co_hold s)"
    using ms by (auto simp: may_start_def image_iff split: if_splits dest: bspec)
  have al: "kaapi_memory_replica_is_allocated ?m1 lid = kaapi_memory_replica_is_allocated (co_m s) lid"
    "md_xfer ?m1 = md_xfer (co_m s)" by (simp_all add: replica_bits)
  have acq: "kaapi_dsm_acquire_data gs mem lid t mp (co_m s) =
    Option.bind (kaapi_dsm_allocate_replica mem lid ?m1) (acquire_fetch gs lid t mp)"
    by (auto simp: kaapi_dsm_acquire_data_def kaapi_dsm_allocate_replica_def Let_def)
  note A = allocate_run [OF r1, of ?h mem, simplified, OF lid, unfolded al]
  have fetch: "\<exists>e m. acquire_fetch gs lid t mp m2 = Some (e, m) \<and>
      coh_reach ks ww (s\<lparr>co_m := m, co_hold := co_hold s @ [?h]\<rparr>)"
    if a: "kaapi_dsm_allocate_replica mem lid ?m1 = Some m2" for m2
  proof -
    have r2: "coh_reach ks ww (?s1\<lparr>co_m := m2\<rparr>)" "kaapi_memory_replica_is_allocated m2 lid" "\<forall>l. on_xfer m2 l \<longrightarrow> on_xfer (co_m s) l"
      using A a by auto
    obtain r where "kaapi_dsm_fetch_on gs lid (Notify t) m2 = Some r"
      using fetch_returns [OF gs coh_reach_str [OF r2(1)] _ lid, of "Notify t"] rd by auto
    then obtain e m where f: "acquire_fetch gs lid t mp m2 = Some (e, m)"
      by (cases "mp AND KAAPI_ACCESS_MODE_R \<noteq> 0 \<and> \<not> kaapi_memory_replica_is_valid m2 lid"; cases r) (simp_all add: acquire_fetch_def)
    have w: "ww \<and> mp AND KAAPI_ACCESS_MODE_W \<noteq> 0 \<longrightarrow> \<not> kaapi_memory_replica_is_xfer m2 0"
      using wb r2(3) by (auto simp: replica_bits)
    have "coh_step ks ww (?s1\<lparr>co_m := m2\<rparr>) ((?s1\<lparr>co_m := m2\<rparr>)\<lparr>co_m := m, co_pin := remove1 ?h (co_pin (?s1\<lparr>co_m := m2\<rparr>)),
        co_hold := co_hold (?s1\<lparr>co_m := m2\<rparr>) @ [?h]\<rparr>)"
      by (rule coh_step.acquire_fetch [OF _ _ gs]) (use r2(2) w f in auto)
    then show ?thesis using coh_reach.step [OF r2(1)] f hp by (auto simp: remove1_append)
  qed
  show ?thesis using A fetch unfolding acq by (cases "kaapi_dsm_allocate_replica mem lid ?m1") force+
qed

lemma acquire_reach:
  assumes "coh_reach ks ww s" "may_start s t lid mp" "get_source_ok gs"
    "ww \<and> mp AND KAAPI_ACCESS_MODE_W \<noteq> 0 \<longrightarrow> \<not> kaapi_memory_replica_is_xfer (co_m s) 0"
    "kaapi_dsm_acquire_data gs mem lid t mp (co_m s) = Some (e, m)"
  shows "coh_reach ks ww (s\<lparr>co_m := m, co_hold := co_hold s @ [new_holder t lid mp]\<rparr>)"
  using acquire_run [OF assms(1-4)] assms(5) by blast

section \<open>Two runs on the host plugin\<close>

definition run_m :: "nat \<Rightarrow> nat \<Rightarrow> nat \<Rightarrow> (nat \<Rightarrow> int) \<Rightarrow> (nat \<Rightarrow> cbk list) \<Rightarrow> (nat \<Rightarrow> nat) \<Rightarrow> (nat \<times> nat) list \<Rightarrow> nat mdi" where
  "run_m a v x p c d cs = \<lparr>md_alloc = of_nat a, md_valid = of_nat v, md_xfer = of_nat x, md_wish = 0, md_pinned = p,
     md_cbk = c, md_data = d, md_copies = cs\<rparr>"

lemma run_m_data: "(run_m a v x p c d cs)\<lparr>md_data := d'\<rparr> = run_m a v x p c d' cs" "md_data (run_m a v x p c d cs) = d"
  "md_copies (run_m a v x p c d cs) = cs" "md_cbk (run_m a v x p c d cs) = c"
  by (simp_all add: run_m_def)

definition st :: "nat mdi \<Rightarrow> holder list \<Rightarrow> nat \<Rightarrow> nat coh" where
  "st m hold cur = \<lparr>co_m = m, co_pin = [], co_hold = hold, co_cur = cur\<rparr>"

abbreviation rd :: "nat \<Rightarrow> nat \<Rightarrow> holder" where "rd t lid \<equiv> new_holder t lid KAAPI_ACCESS_MODE_R"
abbreviation wr :: "nat \<Rightarrow> nat \<Rightarrow> holder" where "wr t lid \<equiv> new_holder t lid KAAPI_ACCESS_MODE_W"

definition pin1 :: "nat \<Rightarrow> int" where "pin1 = (\<lambda>_. 0)(0 := 1)"
abbreviation no_cbk :: "nat \<Rightarrow> cbk list" where "no_cbk \<equiv> \<lambda>_. []"
abbreviation plenty :: device_memory where "plenty \<equiv> (True, [])"

lemma host_ok: "get_source_ok host_get_source"
  by (simp flip: source_plugin_iff add: host.source_plugin_axioms)

lemma source_only_host: "md_valid m = 1 \<Longrightarrow> md_xfer m = 0 \<Longrightarrow> kaapi_get_source_lid gs m = Some 0"
  by (subst kaapi_get_source_lid.simps) (simp add: lid_mask_def)

lemma source_first:
  assumes "md_valid m = 2 \<or> md_valid m = 3" "md_xfer m = 0"
  shows "kaapi_get_source_lid host_get_source m = Some 1"
proof -
  have b: "host_get_source 2 0 = 1" "(3::16 word) AND NOT (lid_mask 0) = 2" "(2::16 word) AND NOT (lid_mask 0) = 2"
    "(2::16 word) AND lid_mask 1 \<noteq> 0" "(3::16 word) AND lid_mask 1 \<noteq> 0" by code_simp+
  then have v: "md_valid m AND NOT (lid_mask 0) = 2" "kaapi_memory_replica_is_valid m 1"
    using assms(1) by (auto simp: kaapi_memory_replica_is_valid_def)
  have "get_source_valid host_get_source m 2 0 = Some (Some 1)"
    by (subst get_source_valid.simps) (simp add: b(1) Let_def KAAPI_NO_LID_def v(2) [simplified])
  then show ?thesis by (subst kaapi_get_source_lid.simps) (simp add: assms(2) v(1) Let_def)
qed

lemmas run_eval = Let_def allocate_callback_def kaapi_memory_copy_async_def run_m_def pin1_def replica_bits
  kaapi_new_mdi_def lid_mask_def kaapi_dsm_acquire_data_def kaapi_dsm_allocate_replica_def acquire_fetch_def kaapi_dsm_fetch_on_def
  kaapi_dsm_release_data_def kaapi_dsm_prefetch_on_def evict_replica_def complete_copy_def callback_activate_replica_on_receive_def
  source_only_host source_first amode_defs

lemma run_acquire:
  assumes "coh_reach ks ww (st m hold cur)" "may_start (st m hold cur) t lid mp"
    "ww \<and> mp AND KAAPI_ACCESS_MODE_W \<noteq> 0 \<longrightarrow> \<not> kaapi_memory_replica_is_xfer m 0"
    "kaapi_dsm_acquire_data host_get_source plenty lid t mp m = Some (e, m')"
  shows "coh_reach ks ww (st m' (hold @ [new_holder t lid mp]) cur)"
  using acquire_reach [OF assms(1,2) host_ok, where e = e and m = m' and mem = plenty] assms(3,4) by (simp add: st_def)

lemma run_step: "coh_reach ks ww s \<Longrightarrow> coh_step ks ww s s' \<Longrightarrow> s'' = s' \<Longrightarrow> coh_reach ks ww s''"
  using coh_reach.step by blast

lemma run_arrive:
  assumes "coh_reach ks ww (st m hold cur)" "c \<in> set (md_copies m)" "complete_copy c m = Some m'"
  shows "coh_reach ks ww (st m' hold cur)"
  by (rule run_step [OF assms(1) coh_step.arrive [where c = c]]) (use assms in \<open>simp_all add: st_def\<close>)

lemma run_evict:
  assumes "coh_reach ks ww (st m hold cur)" "0 < lid" "lid < 16" "kaapi_memory_replica_is_allocated m lid"
    "ks \<longrightarrow> lid \<notin> fst ` set (md_copies m)" "evict_replica lid junk m = Some m'"
  shows "coh_reach ks ww (st m' hold cur)"
  by (rule run_step [OF assms(1) coh_step.evict [where junk = junk]]) (use assms in \<open>auto simp: st_def\<close>)

lemma run_kernel:
  assumes "coh_reach ks ww (st m [h] cur)" "ho_mode h AND KAAPI_ACCESS_MODE_W \<noteq> 0" "ready_task (ho_task h) m"
  shows "coh_reach ks ww (st (m\<lparr>md_data := (md_data m)(ho_lid h := v)\<rparr>) [h\<lparr>ho_done := True\<rparr>] v)"
  by (rule run_step [OF assms(1) coh_step.kernel [where h = h and v = v]]) (use assms in \<open>simp_all add: st_def\<close>)

lemma run_release:
  assumes "coh_reach ks ww (st m [h] cur)" "ready_task (ho_task h) m" "ho_mode h AND KAAPI_ACCESS_MODE_W \<noteq> 0 \<longrightarrow> ho_done h"
  shows "coh_reach ks ww (st (kaapi_dsm_release_data (ho_lid h) m) [] cur)"
  by (rule run_step [OF assms(1) coh_step.release [where h = h]]) (use assms in \<open>simp_all add: st_def\<close>)

lemma run_writeback:
  assumes "coh_reach ks ww (st m [rd t lid] cur)" "ready_task t m"
    "kaapi_dsm_prefetch_on host_get_source plenty 0 (Epilogue t) m = Some (e, m')"
  shows "coh_reach ks ww (st m' [rd t lid] cur)"
  by (rule run_step [OF assms(1) coh_step.writeback [where h = "rd t lid", OF _ _ _ host_ok]]) (use assms in \<open>auto simp: st_def\<close>)

lemma run_init: "coh_reach ks ww (st (run_m 1 1 0 pin1 no_cbk (\<lambda>_. 0) []) [] 0)"
proof -
  have i: "coh_init (\<lambda>_. 0) = st (run_m 1 1 0 pin1 no_cbk (\<lambda>_. 0) []) [] 0"
    by (simp add: coh_init_def st_def run_m_def kaapi_new_mdi_def pin1_def lid_mask_def)
  show ?thesis unfolding i [symmetric] by (rule coh_reach.init)
qed

text \<open>A reader on address space 1, then one on address space 2, whose source is evicted.\<close>

lemma read1: "kaapi_dsm_acquire_data host_get_source plenty 1 1 KAAPI_ACCESS_MODE_R (run_m 1 1 0 pin1 no_cbk (\<lambda>_. 0) []) =
  Some (Io_inprogress, run_m 3 1 2 (pin1(1 := 1)) (no_cbk(1 := [Notify 1])) (\<lambda>_. 0) [(0, 1)])"
  by (simp add: run_eval)

lemma read2: "complete_copy (0, 1) (run_m 3 1 2 (pin1(1 := 1)) (no_cbk(1 := [Notify 1])) (\<lambda>_. 0) [(0, 1)]) =
  Some (run_m 3 3 0 (pin1(1 := 1)) no_cbk (\<lambda>_. 0) [])"
  by (simp add: run_eval) (simp add: fun_eq_iff)

lemma read3: "kaapi_dsm_release_data 1 (run_m 3 3 0 (pin1(1 := 1)) no_cbk (\<lambda>_. 0) []) = run_m 3 3 0 pin1 no_cbk (\<lambda>_. 0) []"
  by (simp add: run_eval) (auto simp: fun_eq_iff)

lemma read4: "kaapi_dsm_acquire_data host_get_source plenty 2 2 KAAPI_ACCESS_MODE_R (run_m 3 3 0 pin1 no_cbk (\<lambda>_. 0) []) =
  Some (Io_inprogress, run_m 7 3 4 (pin1(2 := 1)) (no_cbk(2 := [Notify 2])) (\<lambda>_. 0) [(1, 2)])"
  by (simp add: run_eval)

lemma read5: "evict_replica 1 junk (run_m 7 3 4 (pin1(2 := 1)) (no_cbk(2 := [Notify 2])) (\<lambda>_. 0) [(1, 2)]) =
  Some (run_m 5 1 4 (pin1(2 := 1)) (no_cbk(2 := [Notify 2])) ((\<lambda>_. 0)(1 := junk)) [(1, 2)])"
  by (simp add: run_eval)

lemma read6: "complete_copy (1, 2) (run_m 5 1 4 (pin1(2 := 1)) (no_cbk(2 := [Notify 2])) ((\<lambda>_. 0)(1 := junk)) [(1, 2)]) =
  Some (run_m 5 5 0 (pin1(2 := 1)) no_cbk ((\<lambda>_. 0)(1 := junk, 2 := junk)) [])"
  by (simp add: run_eval) (simp add: fun_eq_iff)

lemma run_to_2:
  "coh_reach ks ww (st (run_m 3 1 2 (pin1(1 := 1)) (no_cbk(1 := [Notify 1])) (\<lambda>_. 0) [(0, 1)]) [rd 1 1] 0)"
  "coh_reach ks ww (st (run_m 3 3 0 (pin1(1 := 1)) no_cbk (\<lambda>_. 0) []) [rd 1 1] 0)"
  "coh_reach ks ww (st (run_m 7 3 4 (pin1(2 := 1)) (no_cbk(2 := [Notify 2])) (\<lambda>_. 0) [(1, 2)]) [rd 2 2] 0)"
proof -
  show 1: "coh_reach ks ww (st (run_m 3 1 2 (pin1(1 := 1)) (no_cbk(1 := [Notify 1])) (\<lambda>_. 0) [(0, 1)]) [rd 1 1] 0)"
    using run_acquire [OF run_init _ _ read1] by (simp add: may_start_def st_def)
  show 2: "coh_reach ks ww (st (run_m 3 3 0 (pin1(1 := 1)) no_cbk (\<lambda>_. 0) []) [rd 1 1] 0)"
    by (rule run_arrive [OF 1 _ read2]) (simp add: run_m_def)
  have "coh_reach ks ww (st (run_m 3 3 0 pin1 no_cbk (\<lambda>_. 0) []) [] 0)"
    using run_release [OF 2] by (simp add: read3 [simplified] ready_task_def run_m_data)
  then show "coh_reach ks ww (st (run_m 7 3 4 (pin1(2 := 1)) (no_cbk(2 := [Notify 2])) (\<lambda>_. 0) [(1, 2)]) [rd 2 2] 0)"
    using run_acquire [OF _ _ _ read4, of ks ww "[]" 0] by (simp add: may_start_def st_def)
qed

lemma run_to_race:
  "coh_reach False ww (st (run_m 5 5 0 (pin1(2 := 1)) no_cbk ((\<lambda>_. 0)(1 := junk, 2 := junk)) []) [rd 2 2] 0)"
proof -
  have 2: "coh_reach False ww (st (run_m 5 1 4 (pin1(2 := 1)) (no_cbk(2 := [Notify 2])) ((\<lambda>_. 0)(1 := junk)) [(1, 2)]) [rd 2 2] 0)"
    by (rule run_evict [OF run_to_2(3) _ _ _ _ read5]) (simp_all add: run_m_def kaapi_memory_replica_is_allocated_def lid_mask_def)
  show ?thesis by (rule run_arrive [OF 2 _ read6]) (simp add: run_m_def)
qed

text \<open>A writer on address space 1, a write-back of what it wrote, a writer on address space 2 under the copy to the host.\<close>

lemma write1: "kaapi_dsm_acquire_data host_get_source plenty 1 1 KAAPI_ACCESS_MODE_W (run_m 1 1 0 pin1 no_cbk (\<lambda>_. 0) []) =
  Some (Io_ok, run_m 3 2 0 (pin1(1 := 1)) no_cbk (\<lambda>_. 0) [])"
  by (simp add: run_eval kaapi_memory_replica_set_all_dirty_except_def)

lemma write2: "kaapi_dsm_release_data 1 (run_m 3 2 x (pin1(1 := 1)) c d cs) = run_m 3 2 x pin1 c d cs"
  by (simp add: run_eval) (auto simp: fun_eq_iff)

lemma write3: "kaapi_dsm_acquire_data host_get_source plenty 1 2 KAAPI_ACCESS_MODE_R (run_m 3 2 0 pin1 no_cbk d []) =
  Some (Io_ok, run_m 3 2 0 (pin1(1 := 1)) no_cbk d [])"
  by (simp add: run_eval)

lemma write4: "kaapi_dsm_prefetch_on host_get_source plenty 0 (Epilogue 2) (run_m 3 2 0 p no_cbk d []) =
  Some (Io_inprogress, run_m 3 2 1 p (no_cbk(0 := [Epilogue 2])) d [(1, 0)])"
  by (simp add: run_eval)

lemma write5: "kaapi_dsm_acquire_data host_get_source plenty 2 3 KAAPI_ACCESS_MODE_W (run_m 3 2 1 pin1 c d cs) =
  Some (Io_ok, run_m 7 4 1 (pin1(2 := 1)) c d cs)"
  by (simp add: run_eval kaapi_memory_replica_set_all_dirty_except_def)

lemma write6: "kaapi_dsm_release_data 2 (run_m 7 4 1 (pin1(2 := 1)) c d cs) = run_m 7 4 1 pin1 c d cs"
  by (simp add: run_eval) (auto simp: fun_eq_iff)

lemma write7: "complete_copy (1, 0) (run_m 7 4 1 p (no_cbk(0 := [Epilogue 2])) d [(1, 0)]) =
  Some (run_m 7 5 0 p no_cbk (d(0 := d 1)) [])"
  by (simp add: run_eval) (simp add: fun_eq_iff)

lemma write8: "evict_replica 2 junk (run_m 7 5 0 pin1 c d []) = Some (run_m 3 1 0 pin1 c (d(2 := junk)) [])"
  by (simp add: run_eval)

lemma run_write1:
  "coh_reach ks ww (st (run_m 3 2 0 (pin1(1 := 1)) no_cbk (\<lambda>_. 0) []) [wr 1 1] 0)"
  "coh_reach ks ww (st (run_m 3 2 0 pin1 no_cbk ((\<lambda>_. 0)(1 := v)) []) [] v)"
proof -
  show 1: "coh_reach ks ww (st (run_m 3 2 0 (pin1(1 := 1)) no_cbk (\<lambda>_. 0) []) [wr 1 1] 0)"
    using run_acquire [OF run_init _ _ write1] by (simp add: may_start_def st_def run_m_def kaapi_memory_replica_is_xfer_def)
  have 2: "coh_reach ks ww (st (run_m 3 2 0 (pin1(1 := 1)) no_cbk ((\<lambda>_. 0)(1 := v)) []) [wr 1 1\<lparr>ho_done := True\<rparr>] v)"
    using run_kernel [OF 1, of v] by (simp add: ready_task_def run_m_data)
  show "coh_reach ks ww (st (run_m 3 2 0 pin1 no_cbk ((\<lambda>_. 0)(1 := v)) []) [] v)"
    using run_release [OF 2] by (simp add: ready_task_def run_m_data write2 [simplified] new_holder_def)
qed

lemma run_posted:
  "coh_reach ks ww (st (run_m 3 2 1 pin1 (no_cbk(0 := [Epilogue 2])) ((\<lambda>_. 0)(1 := v)) [(1, 0)]) [] v)"
proof -
  have 1: "coh_reach ks ww (st (run_m 3 2 0 (pin1(1 := 1)) no_cbk ((\<lambda>_. 0)(1 := v)) []) [rd 2 1] v)"
    using run_acquire [OF run_write1(2) _ _ write3] by (simp add: may_start_def st_def)
  have "coh_reach ks ww (st (run_m 3 2 1 (pin1(1 := 1)) (no_cbk(0 := [Epilogue 2])) ((\<lambda>_. 0)(1 := v)) [(1, 0)]) [rd 2 1] v)"
    by (rule run_writeback [OF 1 _ write4]) (simp add: ready_task_def run_m_data)
  then show ?thesis using run_release [of ks ww _ "rd 2 1"] by (fastforce simp: ready_task_def run_m_data write2 [simplified])
qed

lemma run_to_lost:
  "coh_reach True False (st (run_m 3 1 0 pin1 no_cbk ((\<lambda>_. 0)(0 := v, 1 := v, 2 := junk)) []) [] w)"
proof -
  let ?c = "no_cbk(0 := [Epilogue 2])" and ?d = "(\<lambda>_ :: nat. 0 :: nat)(1 := v)"
  have 1: "coh_reach True False (st (run_m 7 4 1 (pin1(2 := 1)) ?c ?d [(1, 0)]) [wr 3 2] v)"
    using run_acquire [OF run_posted [where ks = True and ww = False and v = v] _ _ write5] by (simp add: may_start_def st_def)
  have 2: "coh_reach True False (st (run_m 7 4 1 (pin1(2 := 1)) ?c (?d(2 := w)) [(1, 0)]) [wr 3 2\<lparr>ho_done := True\<rparr>] w)"
    using run_kernel [OF 1, of w] by (simp add: ready_task_def run_m_data)
  have 3: "coh_reach True False (st (run_m 7 4 1 pin1 ?c (?d(2 := w)) [(1, 0)]) [] w)"
    using run_release [OF 2] by (simp add: ready_task_def run_m_data write6 [simplified] new_holder_def)
  have 4: "coh_reach True False (st (run_m 7 5 0 pin1 no_cbk (?d(2 := w, 0 := (?d(2 := w)) 1)) []) [] w)"
    by (rule run_arrive [OF 3 _ write7]) (simp add: run_m_data)
  have 5: "coh_reach True False (st (run_m 3 1 0 pin1 no_cbk (?d(2 := w, 0 := (?d(2 := w)) 1, 2 := junk)) []) [] w)"
    by (rule run_evict [OF 4 _ _ _ _ write8]) (simp_all add: run_m_def kaapi_memory_replica_is_allocated_def lid_mask_def)
  have "?d(2 := w, 0 := (?d(2 := w)) 1, 2 := junk) = (\<lambda>_. 0)(0 := v, 1 := v, 2 := junk)" by (auto simp: fun_eq_iff)
  then show ?thesis using 5 by simp
qed

section \<open>Service\<close>










section \<open>Values\<close>




section \<open>Properties\<close>





text \<open>C6. The code lets a writer start while a copy to the host, posted by the write-back of a value v, is under way, and the copy makes
  the host valid under the writer. For any values v and w there is a run that evicts no source of a copy and ends without tasks or
  copies, where w was written after v and the only valid replica is the host, with v: the last write is lost.\<close>

theorem writeback_race:
  "\<exists>s. coh_reach True False s \<and> co_hold s = [] \<and> co_pin s = [] \<and> md_copies (co_m s) = [] \<and>
     (\<forall>l. kaapi_memory_replica_is_valid (co_m s) l \<longleftrightarrow> l = 0) \<and> md_data (co_m s) 0 = (v :: nat) \<and> co_cur s = w"
proof -
  have "kaapi_memory_replica_is_valid (run_m 3 1 0 p c d []) l \<longleftrightarrow> l = 0" for p c d l
    by (auto simp: replica_bits run_m_def bit_1_iff)
  then show ?thesis using run_to_lost [where v = v and junk = 0 and w = w]
    by (intro exI [of _ "st (run_m 3 1 0 pin1 no_cbk ((\<lambda>_. 0)(0 := v, 1 := v, 2 := 0)) []) [] w"]) (simp add: st_def run_m_data)
qed





text \<open>C26. The code does not keep the source of a posted copy from being evicted: a state is reachable in which a
  task that may start reads bytes that were never written to the datum.\<close>

theorem evict_race:
  "\<exists>s h. coh_reach False True s \<and> h \<in> set (co_hold s) \<and> ho_mode h = KAAPI_ACCESS_MODE_R \<and> ready_task (ho_task h) (co_m s) \<and>
     kaapi_memory_replica_is_valid (co_m s) (ho_lid h) \<and> md_data (co_m s) (ho_lid h) = (7 :: nat) \<and> co_cur s = 0"
  by (rule exI [of _ "st (run_m 5 5 0 (pin1(2 := 1)) no_cbk ((\<lambda>_. 0)(1 := 7, 2 := 7)) []) [rd 2 2] 0"], rule exI [of _ "rd 2 2"])
    (use run_to_race [where ww = True and junk = 7] in \<open>simp add: st_def run_m_def ready_task_def kaapi_memory_replica_is_valid_def lid_mask_def\<close>)

end
