(* ===== verification/Linked_Lists.thy ===== *)
theory Linked_Lists
  imports XK_Prelude
begin

text \<open>
  Linked lists in a store of records: \<open>chain f x xs y\<close> says that from the pointer \<open>x\<close> the link \<open>f\<close> goes through
  the elements of \<open>xs\<close> and arrives at \<open>y\<close>. A doubly linked list is a chain of its forward link and a chain of
  its backward link over the reversed list. The null pointer is None.
\<close>

primrec chain :: "('a \<Rightarrow> 'a option) \<Rightarrow> 'a option \<Rightarrow> 'a list \<Rightarrow> 'a option \<Rightarrow> bool" where
  "chain f x [] y \<longleftrightarrow> x = y"
| "chain f x (a # as) y \<longleftrightarrow> x = Some a \<and> chain f (f a) as y"

lemma chain_append [simp]: "chain f x (as @ bs) z \<longleftrightarrow> (\<exists>y. chain f x as y \<and> chain f y bs z)"
  by (induction as arbitrary: x) auto

lemma chain_frame: "(\<And>a. a \<in> set as \<Longrightarrow> f a = g a) \<Longrightarrow> chain f x as y \<longleftrightarrow> chain g x as y"
  by (induction as arbitrary: x) auto

lemma chain_upd [simp]: "u \<notin> set as \<Longrightarrow> chain (f(u := v)) x as y \<longleftrightarrow> chain f x as y"
  by (rule chain_frame) auto

lemma chain_None [simp]: "chain f None xs y \<longleftrightarrow> xs = [] \<and> y = None"
  by (cases xs) auto

lemma chain_det: "chain f x as None \<Longrightarrow> chain f x bs None \<Longrightarrow> as = bs"
proof (induction as arbitrary: x bs)
  case Nil then show ?case by (cases bs) auto
next
  case (Cons a as)
  then obtain b bs' where "bs = b # bs'" by (cases bs) auto
  then show ?case using Cons by auto
qed

text \<open>Fields of the records of a store, as functions of the address.\<close>

lemma field_upd [simp]: "(\<lambda>a. f ((g(u := v)) a)) = (\<lambda>a. f (g a))(u := f v)"
  by auto

lemma field_same [simp]: "h u = v \<Longrightarrow> h(u := v) = h"
  by auto

end
