(* ===== verification/Device_Cache.thy ===== *)
theory Device_Cache
  imports Replica Linked_Lists "HOL-Library.Multiset"
begin

text \<open>
  The cache of a device (\<open>kaapi_memory.c\<close>): two doubly linked lists of the data that have a replica on the device, one
  for data read and one for data written, most recent first. An access moves the entry of its datum to the front of a
  list; eviction walks a list from its end and frees replicas until there is room. The entries are in an explicit
  store; a new entry, of the current bloc or of a new one, has a fresh address. A datum is a number; its metadata is the
  record of \<open>Replica\<close>. The lists are named by a truth value, true for the list of written data. The order of the locks
  makes each operation one step.
\<close>

section \<open>The code\<close>

record centry =
  ce_mdi :: nat
  ce_next :: "nat option"
  ce_prev :: "nat option"

record dcache =
  dc_beg :: "bool \<Rightarrow> nat option"
  dc_end :: "bool \<Rightarrow> nat option"
  dc_freelist :: "nat option"
  dc_fresh :: nat                           \<comment> \<open>the next entry of the blocs\<close>
  dc_entry :: "nat \<Rightarrow> centry"              \<comment> \<open>store of the entries\<close>
  dc_cacheentry :: "nat \<Rightarrow> nat option"     \<comment> \<open>\<open>cacheentry\<close> of the replica of a datum\<close>
  dc_cachelist :: "nat \<Rightarrow> bool option"     \<comment> \<open>\<open>cachelist\<close> of the replica of a datum\<close>

definition kaapi_memory_cache_init :: "(nat \<Rightarrow> centry) \<Rightarrow> dcache" where
  "kaapi_memory_cache_init es = \<lparr>dc_beg = (\<lambda>_. None), dc_end = (\<lambda>_. None), dc_freelist = None, dc_fresh = 0, dc_entry = es,
     dc_cacheentry = (\<lambda>_. None), dc_cachelist = (\<lambda>_. None)\<rparr>"

definition upd_entry :: "nat \<Rightarrow> (centry \<Rightarrow> centry) \<Rightarrow> dcache \<Rightarrow> dcache" where
  "upd_entry a f c = c\<lparr>dc_entry := (dc_entry c)(a := f (dc_entry c a))\<rparr>"

definition kaapi_memory_cache_allocate_entry :: "dcache \<Rightarrow> nat \<times> dcache" where
  "kaapi_memory_cache_allocate_entry c =
     (case dc_freelist c of
        None \<Rightarrow> (dc_fresh c, c\<lparr>dc_fresh := dc_fresh c + 1\<rparr>)
      | Some e \<Rightarrow> (e, c\<lparr>dc_freelist := ce_next (dc_entry c e)\<rparr>))"

text \<open>The neighbours of an entry, or the ends of its list, are linked to each other.\<close>

definition unlink_entry :: "bool \<Rightarrow> nat \<Rightarrow> dcache \<Rightarrow> dcache" where
  "unlink_entry b a c =
     (let e = dc_entry c a;
          c1 = (case ce_next e of Some n \<Rightarrow> upd_entry n (ce_prev_update (\<lambda>_. ce_prev e)) c
                | None \<Rightarrow> c\<lparr>dc_end := (dc_end c)(b := ce_prev e)\<rparr>)
      in case ce_prev e of Some p \<Rightarrow> upd_entry p (ce_next_update (\<lambda>_. ce_next e)) c1
         | None \<Rightarrow> c1\<lparr>dc_beg := (dc_beg c1)(b := ce_next e)\<rparr>)"

definition kaapi_memory_cache_remove_from_list :: "bool \<Rightarrow> nat \<Rightarrow> dcache \<Rightarrow> dcache" where
  "kaapi_memory_cache_remove_from_list b a c = upd_entry a (\<lambda>e. e\<lparr>ce_prev := None, ce_next := None\<rparr>) (unlink_entry b a c)"

definition kaapi_memory_cache_push_front :: "bool \<Rightarrow> nat \<Rightarrow> dcache \<Rightarrow> dcache" where
  "kaapi_memory_cache_push_front b a c =
     (let c1 = upd_entry a (\<lambda>e. e\<lparr>ce_next := dc_beg c b, ce_prev := None\<rparr>) c;
          c2 = (case dc_beg c b of None \<Rightarrow> c1\<lparr>dc_end := (dc_end c1)(b := Some a)\<rparr>
                | Some h \<Rightarrow> upd_entry h (ce_prev_update (\<lambda>_. Some a)) c1)
      in c2\<lparr>dc_beg := (dc_beg c2)(b := Some a)\<rparr>)"

text \<open>An access of datum \<open>i\<close> on address space \<open>lid\<close>; \<open>host_valid\<close> is the validity of its replica on the host. None is a null
  list.\<close>

definition kaapi_memory_cache_touch :: "nat \<Rightarrow> bool \<Rightarrow> bool \<Rightarrow> nat \<Rightarrow> dcache \<Rightarrow> dcache option" where
  "kaapi_memory_cache_touch lid write host_valid i c =
     (if lid = 0 then Some c
      else let oldlist = dc_cachelist c i;
               place = (\<lambda>(entry, c). let b = (if oldlist = Some True \<and> \<not> host_valid then True else write) in
                 (kaapi_memory_cache_push_front b entry c)\<lparr>dc_cachelist := (dc_cachelist c)(i := Some b)\<rparr>)
           in case dc_cacheentry c i of
                None \<Rightarrow> (case kaapi_memory_cache_allocate_entry c of (entry, c1) \<Rightarrow>
                  Some (place (entry, (upd_entry entry (ce_mdi_update (\<lambda>_. i)) c1)\<lparr>dc_cacheentry := (dc_cacheentry c1)(i := Some entry)\<rparr>)))
              | Some entry \<Rightarrow>
                  (case oldlist of None \<Rightarrow> None
                   | Some b \<Rightarrow> Some (place (entry, kaapi_memory_cache_remove_from_list b entry c))))"

text \<open>An entry is erased during eviction and goes to the free list.\<close>

definition erase_entry :: "bool \<Rightarrow> nat \<Rightarrow> dcache \<Rightarrow> dcache" where
  "erase_entry b a c =
     (let i = ce_mdi (dc_entry c a); c0 = c\<lparr>dc_cachelist := (dc_cachelist c)(i := None), dc_cacheentry := (dc_cacheentry c)(i := None)\<rparr>;
          c1 = unlink_entry b a c0
      in (upd_entry a (\<lambda>e. e\<lparr>ce_prev := None, ce_next := dc_freelist c1\<rparr>) c1)\<lparr>dc_freelist := Some a\<rparr>)"

text \<open>The loop of \<open>kaapi_memory_cache_evict_fromlist\<close>: the cache, the metadata, what remains of twice the size asked for
  and the data evicted, in order. \<open>Some None\<close> is the failed assertion of \<open>evict_replica\<close>.\<close>

type_synonym 'v estate = "dcache \<times> (nat \<Rightarrow> 'v mdi) \<times> nat \<times> nat list"

definition evictable :: "nat \<Rightarrow> 'v mdi \<Rightarrow> bool" where
  "evictable lid m \<longleftrightarrow> kaapi_memory_replica_is_notpinned m lid \<and> kaapi_memory_replica_is_valid_excepton m lid"

partial_function (option) evict_loop :: "nat \<Rightarrow> (nat \<Rightarrow> nat) \<Rightarrow> (nat \<Rightarrow> 'v) \<Rightarrow> bool \<Rightarrow> nat option \<Rightarrow> 'v estate \<Rightarrow> 'v estate option option" where
  "evict_loop lid view_size junk b cur s =
     (case s of (c, M, size2, ev) \<Rightarrow>
       (case cur of None \<Rightarrow> Some (Some s)
        | Some a \<Rightarrow>
            if size2 = 0 then Some (Some s)
            else let pcurr = ce_prev (dc_entry c a); i = ce_mdi (dc_entry c a) in
              if evictable lid (M i) then
                (case evict_replica lid (junk i) (M i) of None \<Rightarrow> Some None
                 | Some m \<Rightarrow> evict_loop lid view_size junk b pcurr (erase_entry b a c, M(i := m), size2 - view_size i, ev @ [i]))
              else evict_loop lid view_size junk b pcurr s))"

definition kaapi_memory_cache_evict_fromlist :: "nat \<Rightarrow> (nat \<Rightarrow> nat) \<Rightarrow> (nat \<Rightarrow> 'v) \<Rightarrow> bool \<Rightarrow> nat \<Rightarrow> dcache \<Rightarrow> (nat \<Rightarrow> 'v mdi) \<Rightarrow>
    (nat \<times> dcache \<times> (nat \<Rightarrow> 'v mdi) \<times> nat list) option option" where
  "kaapi_memory_cache_evict_fromlist lid view_size junk b sz c M =
     map_option (map_option (\<lambda>(c, M, size2, ev). (if size2 \<le> sz then 0 else size2 - sz, c, M, ev)))
       (evict_loop lid view_size junk b (dc_end c b) (c, M, 2 * sz, []))"

text \<open>\<open>kaapi_memory_cache_evict\<close>: each list at most twice, then both again, with a poll of the device (the completion of
  some copies) between two attempts. The result is 0 or ENOMEM.\<close>

definition ENOMEM :: nat where "ENOMEM = 12"

fun evict_tries :: "(nat \<Rightarrow> dcache \<Rightarrow> (nat \<Rightarrow> 'v mdi) \<Rightarrow> (nat \<times> dcache \<times> (nat \<Rightarrow> 'v mdi) \<times> nat list) option option) \<Rightarrow>
    ((nat \<Rightarrow> 'v mdi) \<Rightarrow> nat \<Rightarrow> 'v mdi) \<Rightarrow> nat \<Rightarrow> nat \<Rightarrow> dcache \<Rightarrow> (nat \<Rightarrow> 'v mdi) \<Rightarrow> (nat \<times> dcache \<times> (nat \<Rightarrow> 'v mdi)) option option" where
  "evict_tries evict poll 0 sz c M = Some (Some (sz, c, M))"
| "evict_tries evict poll (Suc n) sz c M =
     (if sz = 0 then Some (Some (sz, c, M))
      else case evict sz c M of
        Some (Some (sz1, c1, M1, ev)) \<Rightarrow> evict_tries evict poll n sz1 c1 (if sz1 = 0 then M1 else poll M1)
      | Some None \<Rightarrow> Some None | None \<Rightarrow> None)"

fun evict_lists :: "nat \<Rightarrow> (nat \<Rightarrow> nat) \<Rightarrow> (nat \<Rightarrow> 'v) \<Rightarrow> ((nat \<Rightarrow> 'v mdi) \<Rightarrow> nat \<Rightarrow> 'v mdi) \<Rightarrow> bool list \<Rightarrow> nat \<Rightarrow> dcache \<Rightarrow>
    (nat \<Rightarrow> 'v mdi) \<Rightarrow> (nat \<times> dcache \<times> (nat \<Rightarrow> 'v mdi)) option option" where
  "evict_lists lid view_size junk poll [] sz c M = Some (Some (sz, c, M))"
| "evict_lists lid view_size junk poll (b # bs) sz c M =
     (case evict_tries (kaapi_memory_cache_evict_fromlist lid view_size junk b) poll 2 sz c M of
        Some (Some (sz1, c1, M1)) \<Rightarrow> evict_lists lid view_size junk poll bs sz1 c1 M1
      | Some None \<Rightarrow> Some None | None \<Rightarrow> None)"

definition kaapi_memory_cache_evict :: "nat \<Rightarrow> (nat \<Rightarrow> nat) \<Rightarrow> (nat \<Rightarrow> 'v) \<Rightarrow> ((nat \<Rightarrow> 'v mdi) \<Rightarrow> nat \<Rightarrow> 'v mdi) \<Rightarrow> bool \<Rightarrow> nat \<Rightarrow>
    dcache \<Rightarrow> (nat \<Rightarrow> 'v mdi) \<Rightarrow> (nat \<times> dcache \<times> (nat \<Rightarrow> 'v mdi)) option option" where
  "kaapi_memory_cache_evict lid view_size junk poll rw_first sz c M =
     map_option (map_option (\<lambda>(n, c, M). (if n = 0 then 0 else ENOMEM, c, M)))
       (evict_lists lid view_size junk poll [rw_first, \<not> rw_first, rw_first, \<not> rw_first] sz c M)"

section \<open>Invariant\<close>

definition cnexts :: "dcache \<Rightarrow> nat \<Rightarrow> nat option" where "cnexts c a = ce_next (dc_entry c a)"
definition cprevs :: "dcache \<Rightarrow> nat \<Rightarrow> nat option" where "cprevs c a = ce_prev (dc_entry c a)"
definition mdis :: "dcache \<Rightarrow> nat \<Rightarrow> nat" where "mdis c a = ce_mdi (dc_entry c a)"

lemma entry_fields [simp]:
  "cnexts (upd_entry a f c) = (cnexts c)(a := ce_next (f (dc_entry c a)))"
  "cprevs (upd_entry a f c) = (cprevs c)(a := ce_prev (f (dc_entry c a)))"
  "mdis (upd_entry a f c) = (mdis c)(a := ce_mdi (f (dc_entry c a)))"
  "dc_beg (upd_entry a f c) = dc_beg c" "dc_end (upd_entry a f c) = dc_end c" "dc_freelist (upd_entry a f c) = dc_freelist c"
  "dc_fresh (upd_entry a f c) = dc_fresh c" "dc_cacheentry (upd_entry a f c) = dc_cacheentry c" "dc_cachelist (upd_entry a f c) = dc_cachelist c"
  by (auto simp: upd_entry_def cnexts_def cprevs_def mdis_def fun_eq_iff)

lemma cache_fields [simp]:
  "cnexts (c\<lparr>dc_beg := x\<rparr>) = cnexts c" "cnexts (c\<lparr>dc_end := x\<rparr>) = cnexts c" "cnexts (c\<lparr>dc_freelist := y\<rparr>) = cnexts c"
  "cnexts (c\<lparr>dc_fresh := n\<rparr>) = cnexts c" "cnexts (c\<lparr>dc_cacheentry := u\<rparr>) = cnexts c" "cnexts (c\<lparr>dc_cachelist := v\<rparr>) = cnexts c"
  "cprevs (c\<lparr>dc_beg := x\<rparr>) = cprevs c" "cprevs (c\<lparr>dc_end := x\<rparr>) = cprevs c" "cprevs (c\<lparr>dc_freelist := y\<rparr>) = cprevs c"
  "cprevs (c\<lparr>dc_fresh := n\<rparr>) = cprevs c" "cprevs (c\<lparr>dc_cacheentry := u\<rparr>) = cprevs c" "cprevs (c\<lparr>dc_cachelist := v\<rparr>) = cprevs c"
  "mdis (c\<lparr>dc_beg := x\<rparr>) = mdis c" "mdis (c\<lparr>dc_end := x\<rparr>) = mdis c" "mdis (c\<lparr>dc_freelist := y\<rparr>) = mdis c"
  "mdis (c\<lparr>dc_fresh := n\<rparr>) = mdis c" "mdis (c\<lparr>dc_cacheentry := u\<rparr>) = mdis c" "mdis (c\<lparr>dc_cachelist := v\<rparr>) = mdis c"
  by (simp_all add: cnexts_def cprevs_def mdis_def fun_eq_iff)

text \<open>The two lists \<open>L\<close> and the free entries \<open>fs\<close> of a cache.\<close>

definition lists_ok :: "dcache \<Rightarrow> (bool \<Rightarrow> nat list) \<Rightarrow> nat list \<Rightarrow> bool" where
  "lists_ok c L fs \<longleftrightarrow>
     (\<forall>b. chain (cnexts c) (dc_beg c b) (L b) None \<and> chain (cprevs c) (dc_end c b) (rev (L b)) None) \<and>
     chain (cnexts c) (dc_freelist c) fs None \<and> (\<forall>b. distinct (L b) \<and> set (L b) \<inter> set fs = {}) \<and>
     set (L True) \<inter> set (L False) = {} \<and> distinct fs \<and> (\<forall>a\<in>set (L True) \<union> set (L False) \<union> set fs. a < dc_fresh c)"

definition index_ok :: "dcache \<Rightarrow> (bool \<Rightarrow> nat list) \<Rightarrow> bool" where
  "index_ok c L \<longleftrightarrow>
     (\<forall>b. \<forall>a\<in>set (L b). dc_cacheentry c (mdis c a) = Some a \<and> dc_cachelist c (mdis c a) = Some b) \<and>
     (\<forall>i a. dc_cacheentry c i = Some a \<longrightarrow> (\<exists>b. a \<in> set (L b) \<and> mdis c a = i)) \<and>
     (\<forall>i. dc_cacheentry c i = None \<longrightarrow> dc_cachelist c i = None)"

definition cache_ok :: "dcache \<Rightarrow> (bool \<Rightarrow> nat list) \<Rightarrow> nat list \<Rightarrow> bool" where
  "cache_ok c L fs \<longleftrightarrow> lists_ok c L fs \<and> index_ok c L"

lemma init_ok: "cache_ok (kaapi_memory_cache_init es) (\<lambda>_. []) []"
  by (simp add: cache_ok_def lists_ok_def index_ok_def kaapi_memory_cache_init_def)

text \<open>Unlinking an element, in one direction.\<close>

lemma chain_unlink:
  assumes "chain f x (as @ a # bs) None" "distinct (as @ a # bs)" "q = (if as = [] then None else Some (last as))"
  shows "chain (case q of None \<Rightarrow> f | Some p \<Rightarrow> f(p := f a)) (case q of None \<Rightarrow> f a | Some p \<Rightarrow> x) (as @ bs) None"
proof (cases as rule: rev_cases)
  case Nil then show ?thesis using assms by simp
next
  case (snoc as' p)
  have d: "p \<notin> set as'" "p \<notin> set bs" "p \<noteq> a" using assms(2) snoc by auto
  have "chain f x as' (Some p)" "f p = Some a" "chain f (f a) bs None" using assms(1) snoc by auto
  then show ?thesis using assms(3) d by (simp add: snoc)
qed

lemma chain_link: "chain f x (as @ a # bs) None \<Longrightarrow> f a = (case bs of [] \<Rightarrow> None | b # _ \<Rightarrow> Some b)"
  by (cases bs) auto

lemma chain_rev_link: "chain g y (rev (as @ a # bs)) None \<Longrightarrow> g a = (if as = [] then None else Some (last as))"
  using chain_link [of g y "rev bs" a "rev as"] by (cases as rule: rev_cases) (simp_all del: chain_append)

lemma entry_unlink_fields:
  "cnexts (unlink_entry b a c) = (case cprevs c a of None \<Rightarrow> cnexts c | Some p \<Rightarrow> (cnexts c)(p := cnexts c a))"
  "cprevs (unlink_entry b a c) = (case cnexts c a of None \<Rightarrow> cprevs c | Some n \<Rightarrow> (cprevs c)(n := cprevs c a))"
  "mdis (unlink_entry b a c) = mdis c"
  "dc_beg (unlink_entry b a c) = (case cprevs c a of None \<Rightarrow> (dc_beg c)(b := cnexts c a) | Some p \<Rightarrow> dc_beg c)"
  "dc_end (unlink_entry b a c) = (case cnexts c a of None \<Rightarrow> (dc_end c)(b := cprevs c a) | Some n \<Rightarrow> dc_end c)"
  "dc_freelist (unlink_entry b a c) = dc_freelist c" "dc_fresh (unlink_entry b a c) = dc_fresh c"
  "dc_cacheentry (unlink_entry b a c) = dc_cacheentry c" "dc_cachelist (unlink_entry b a c) = dc_cachelist c"
  by (auto simp: unlink_entry_def Let_def upd_entry_def cnexts_def cprevs_def mdis_def fun_eq_iff split: option.split)

lemma lists_okD:
  assumes "lists_ok c L fs"
  shows "\<And>b. chain (cnexts c) (dc_beg c b) (L b) None" "\<And>b. chain (cprevs c) (dc_end c b) (rev (L b)) None"
    "chain (cnexts c) (dc_freelist c) fs None" "\<And>b. distinct (L b)" "\<And>b. set (L b) \<inter> set fs = {}"
    "\<And>b b'. b \<noteq> b' \<Longrightarrow> set (L b) \<inter> set (L b') = {}" "distinct fs"
    "\<And>b a. a \<in> set (L b) \<Longrightarrow> a < dc_fresh c" "\<And>a. a \<in> set fs \<Longrightarrow> a < dc_fresh c"
proof -
  show "set (L b) \<inter> set (L b') = {}" if "b \<noteq> b'" for b b' using assms that by (cases b; cases b') (auto simp: lists_ok_def)
  show "a < dc_fresh c" if "a \<in> set (L b)" for a b using assms that by (cases b) (auto simp: lists_ok_def)
qed (use assms in \<open>auto simp: lists_ok_def\<close>)

lemma entry_unlink_ok:
  assumes ok: "lists_ok c L fs" and L: "L b = as @ a # bs"
  shows "lists_ok (unlink_entry b a c) (L(b := as @ bs)) fs"
proof -
  note D = lists_okD [OF ok]
  let ?c = "unlink_entry b a c"
  have n: "cnexts c a = (case bs of [] \<Rightarrow> None | h # _ \<Rightarrow> Some h)" using chain_link D(1) [of b] unfolding L by metis
  have p: "cprevs c a = (if as = [] then None else Some (last as))" using chain_rev_link D(2) [of b] unfolding L by metis
  have d: "distinct (as @ a # bs)" using D(4) [of b] by (simp add: L)
  have n': "cnexts c a = (if rev bs = [] then None else Some (last (rev bs)))" by (cases bs) (simp_all add: n)
  have "chain (cnexts ?c) (dc_beg ?c b) (as @ bs) None"
    using chain_unlink [OF D(1) [of b, unfolded L] d p] unfolding entry_unlink_fields by (cases "cprevs c a") auto
  moreover have "chain (cprevs ?c) (dc_end ?c b) (rev (as @ bs)) None"
  proof -
    have 1: "chain (cprevs c) (dc_end c b) (rev bs @ a # rev as) None" using D(2) [of b] unfolding L by simp
    have 2: "distinct (rev bs @ a # rev as)" using d by auto
    show ?thesis using chain_unlink [OF 1 2 n'] unfolding entry_unlink_fields rev_append by (cases "cnexts c a") auto
  qed
  moreover have "chain (cnexts ?c) (dc_beg ?c b') (L b') None \<and> chain (cprevs ?c) (dc_end ?c b') (rev (L b')) None" if "b' \<noteq> b" for b'
  proof -
    have o: "set (L b') \<inter> (set as \<union> set bs) = {}" using D(6) [OF that] L by auto
    have "p \<notin> set (L b')" if "cprevs c a = Some p" for p using o that p by (auto split: if_splits)
    moreover have "m \<notin> set (L b')" if "cnexts c a = Some m" for m using o that n by (auto split: list.splits)
    ultimately show ?thesis using D(1,2) [of b'] that unfolding entry_unlink_fields by (auto split: option.split)
  qed
  moreover have "chain (cnexts ?c) (dc_freelist ?c) fs None"
  proof -
    have "p \<notin> set fs" if "cprevs c a = Some p" for p using D(5) [of b] that p by (cases as rule: rev_cases) (auto simp: L)
    then show ?thesis using D(3) unfolding entry_unlink_fields by (auto split: option.split)
  qed
  moreover have "\<forall>b'. distinct ((L(b := as @ bs)) b') \<and> set ((L(b := as @ bs)) b') \<inter> set fs = {}"
  proof
    fix b'
    show "distinct ((L(b := as @ bs)) b') \<and> set ((L(b := as @ bs)) b') \<inter> set fs = {}"
      using D(4,5) [of b'] d L by (cases "b' = b") auto
  qed
  moreover have "set ((L(b := as @ bs)) True) \<inter> set ((L(b := as @ bs)) False) = {}" using D(6) [of True False] L by (cases b) auto
  moreover have "\<forall>x\<in>set ((L(b := as @ bs)) True) \<union> set ((L(b := as @ bs)) False) \<union> set fs. x < dc_fresh ?c"

  proof -
    have "set ((L(b := as @ bs)) b') \<subseteq> set (L b')" for b' by (auto simp: L)
    then show ?thesis unfolding entry_unlink_fields using D(8,9) by blast
  qed
  ultimately show ?thesis using D(7) unfolding lists_ok_def by simp
qed

text \<open>An entry outside the lists, put at the front of one or on the free list.\<close>

definition loose :: "nat \<Rightarrow> dcache \<Rightarrow> (bool \<Rightarrow> nat list) \<Rightarrow> nat list \<Rightarrow> bool" where
  "loose a c L fs \<longleftrightarrow> a \<notin> set (L True) \<and> a \<notin> set (L False) \<and> a \<notin> set fs \<and> a < dc_fresh c"

lemma loose_list: "loose a c L fs \<Longrightarrow> a \<notin> set (L b)"
  by (cases b) (auto simp: loose_def)

lemma entry_ok:
  assumes "lists_ok c L fs" "loose a c L fs"
  shows "lists_ok (upd_entry a f c) L fs"
  using assms loose_list [OF assms(2)] by (auto simp: lists_ok_def loose_def)

lemma push_front_ok:
  assumes ok: "lists_ok c L fs" and a: "loose a c L fs"
  shows "lists_ok (kaapi_memory_cache_push_front b a c) (L(b := a # L b)) fs"
    "mdis (kaapi_memory_cache_push_front b a c) = mdis c" "dc_cacheentry (kaapi_memory_cache_push_front b a c) = dc_cacheentry c"
    "dc_cachelist (kaapi_memory_cache_push_front b a c) = dc_cachelist c"
proof -
  let ?c = "kaapi_memory_cache_push_front b a c"
  note D = lists_okD [OF ok]
  have F: "cnexts ?c = (cnexts c)(a := dc_beg c b)"
    "cprevs ?c = (case dc_beg c b of None \<Rightarrow> (cprevs c)(a := None) | Some h \<Rightarrow> (cprevs c)(a := None, h := Some a))"
    "mdis ?c = mdis c" "dc_beg ?c = (dc_beg c)(b := Some a)"
    "dc_end ?c = (case dc_beg c b of None \<Rightarrow> (dc_end c)(b := Some a) | Some h \<Rightarrow> dc_end c)" "dc_freelist ?c = dc_freelist c"
    "dc_fresh ?c = dc_fresh c" "dc_cacheentry ?c = dc_cacheentry c" "dc_cachelist ?c = dc_cachelist c"
    by (auto simp: kaapi_memory_cache_push_front_def Let_def upd_entry_def cnexts_def cprevs_def mdis_def fun_eq_iff split: option.split)
  show "mdis ?c = mdis c" "dc_cacheentry ?c = dc_cacheentry c" "dc_cachelist ?c = dc_cachelist c" by (simp_all add: F)
  have h: "dc_beg c b = (case L b of [] \<Rightarrow> None | h # _ \<Rightarrow> Some h)" using D(1) [of b] by (cases "L b") auto
  have na: "a \<notin> set (L b')" for b' by (rule loose_list [OF a])
  have "chain (cnexts ?c) (dc_beg ?c b) (a # L b) None" using D(1) [of b] na [of b] by (simp add: F)
  moreover have "chain (cprevs ?c) (dc_end ?c b) (rev (a # L b)) None"
  proof (cases "L b")
    case Nil then show ?thesis using D(2) [of b] by (simp add: F h)
  next
    case (Cons x xs)
    then have "chain (cprevs c) (dc_end c b) (rev xs) (Some x)" "x \<notin> set xs" "x \<noteq> a" "a \<notin> set xs"
      using D(2) [of b] D(4) [of b] na [of b] by auto
    then show ?thesis using Cons by (simp add: F h)
  qed
  moreover have "chain (cnexts ?c) (dc_beg ?c b') (L b') None \<and> chain (cprevs ?c) (dc_end ?c b') (rev (L b')) None" if "b' \<noteq> b" for b'
  proof -
    have "x \<notin> set (L b')" if "dc_beg c b = Some x" for x using D(6) [OF \<open>b' \<noteq> b\<close>] that h by (auto split: list.splits)
    then show ?thesis using D(1,2) [of b'] na [of b'] that by (auto simp: F split: option.split)
  qed
  moreover have "chain (cnexts ?c) (dc_freelist ?c) fs None" using D(3) a by (simp add: F loose_def)
  moreover have "\<forall>b'. distinct ((L(b := a # L b)) b') \<and> set ((L(b := a # L b)) b') \<inter> set fs = {}" using D(4,5) na a by (auto simp: loose_def)
  moreover have "set ((L(b := a # L b)) True) \<inter> set ((L(b := a # L b)) False) = {}" using D(6) [of True False] na by (cases b) auto
  moreover have "\<forall>x\<in>set ((L(b := a # L b)) True) \<union> set ((L(b := a # L b)) False) \<union> set fs. x < dc_fresh ?c"
    unfolding F using D(8,9) a by (cases b) (auto simp: loose_def)
  ultimately show "lists_ok ?c (L(b := a # L b)) fs" using D(7) unfolding lists_ok_def by simp
qed

text \<open>The abstract cache: the data of each list, most recent first. An access moves the datum to the front of a list: of
  the list of written data if it writes, or if the datum was there and the host has no valid replica.\<close>

definition data_of :: "dcache \<Rightarrow> (bool \<Rightarrow> nat list) \<Rightarrow> bool \<Rightarrow> nat list" where
  "data_of c L b = map (mdis c) (L b)"

definition touch_list :: "bool \<Rightarrow> bool \<Rightarrow> nat \<Rightarrow> (bool \<Rightarrow> nat list) \<Rightarrow> bool \<Rightarrow> nat list" where
  "touch_list write host_valid i D =
     (let b = (write \<or> i \<in> set (D True) \<and> \<not> host_valid) in
      (\<lambda>b'. (if b' = b then [i] else []) @ filter (\<lambda>j. j \<noteq> i) (D b')))"

lemma mdi_inj:
  assumes "cache_ok c L fs" "a \<in> set (L b)" "a' \<in> set (L b')" "mdis c a = mdis c a'"
  shows "a = a' \<and> b = b'"
proof -
  have "dc_cacheentry c (mdis c a) = Some a" "dc_cacheentry c (mdis c a') = Some a'" "dc_cachelist c (mdis c a) = Some b"
    "dc_cachelist c (mdis c a') = Some b'"
    using assms(1-3) unfolding cache_ok_def index_ok_def by blast+
  then show ?thesis unfolding assms(4) by simp
qed

lemma allocate_ok:
  assumes "cache_ok c L fs"
  obtains e c1 fs1 where "kaapi_memory_cache_allocate_entry c = (e, c1)" "lists_ok c1 L fs1" "loose e c1 L fs1"
    "mdis c1 = mdis c" "dc_cacheentry c1 = dc_cacheentry c" "dc_cachelist c1 = dc_cachelist c"
proof (cases fs)
  case Nil
  have l: "lists_ok c L []" using assms Nil by (simp add: cache_ok_def)
  let ?c = "c\<lparr>dc_fresh := dc_fresh c + 1\<rparr>"
  have "dc_freelist c = None" using lists_okD(3) [OF l] by simp
  then have "kaapi_memory_cache_allocate_entry c = (dc_fresh c, ?c)" by (simp add: kaapi_memory_cache_allocate_entry_def)
  moreover have "lists_ok ?c L []" using l by (auto simp: lists_ok_def intro: less_SucI)
  moreover have "loose (dc_fresh c) ?c L []" using lists_okD(8) [OF l] by (auto simp: loose_def)
  ultimately show thesis by (rule that) simp_all
next
  case (Cons e es)
  have l: "lists_ok c L (e # es)" using assms Cons by (simp add: cache_ok_def)
  note D = lists_okD [OF l]
  let ?c = "c\<lparr>dc_freelist := ce_next (dc_entry c e)\<rparr>"
  have f: "dc_freelist c = Some e" "chain (cnexts c) (cnexts c e) es None" using D(3) by simp_all
  then have "kaapi_memory_cache_allocate_entry c = (e, ?c)" by (simp add: kaapi_memory_cache_allocate_entry_def)
  moreover have "lists_ok ?c L es" using l f(2) by (auto simp: lists_ok_def cnexts_def)
  moreover have "loose e ?c L es" using D(5,7,9) by (force simp: loose_def)
  ultimately show thesis by (rule that) simp_all
qed

text \<open>The index without the entry \<open>e\<close> of datum \<open>i\<close>, which is about to be put in a list.\<close>

definition index_but :: "nat \<Rightarrow> nat \<Rightarrow> dcache \<Rightarrow> (bool \<Rightarrow> nat list) \<Rightarrow> bool" where
  "index_but i e c L \<longleftrightarrow> dc_cacheentry c i = Some e \<and> mdis c e = i \<and>
     (\<forall>b. \<forall>a\<in>set (L b). mdis c a \<noteq> i \<and> dc_cacheentry c (mdis c a) = Some a \<and> dc_cachelist c (mdis c a) = Some b) \<and>
     (\<forall>j a. j \<noteq> i \<longrightarrow> dc_cacheentry c j = Some a \<longrightarrow> (\<exists>b. a \<in> set (L b) \<and> mdis c a = j)) \<and>
     (\<forall>j. dc_cacheentry c j = None \<longrightarrow> dc_cachelist c j = None)"

lemma place_ok:
  assumes ok: "lists_ok c L fs" "loose e c L fs" and ix: "index_but i e c L"
  shows "cache_ok ((kaapi_memory_cache_push_front b e c)\<lparr>dc_cachelist := (dc_cachelist c)(i := Some b)\<rparr>) (L(b := e # L b)) fs"
    "data_of ((kaapi_memory_cache_push_front b e c)\<lparr>dc_cachelist := (dc_cachelist c)(i := Some b)\<rparr>) (L(b := e # L b)) =
      (\<lambda>b'. (if b' = b then [i] else []) @ data_of c L b')"
proof -
  note P = push_front_ok [OF ok, of b]
  let ?c = "(kaapi_memory_cache_push_front b e c)\<lparr>dc_cachelist := (dc_cachelist c)(i := Some b)\<rparr>" and ?L = "L(b := e # L b)"
  have "lists_ok ?c ?L fs" using P(1) by (simp add: lists_ok_def)
  moreover have "index_ok ?c ?L"
    unfolding index_ok_def
  proof (intro conjI allI ballI impI)
    fix b' a assume "a \<in> set (?L b')"
    then show "dc_cacheentry ?c (mdis ?c a) = Some a" "dc_cachelist ?c (mdis ?c a) = Some b'"
      using ix unfolding index_but_def by (cases "b' = b"; auto simp: P)+
  next
    fix j a assume j: "dc_cacheentry ?c j = Some a"
    show "\<exists>b'. a \<in> set (?L b') \<and> mdis ?c a = j"
    proof (cases "j = i")
      case True
      then have "a = e" "mdis c e = i" using ix j by (auto simp: index_but_def P)
      then show ?thesis using True by (intro exI [of _ b]) (simp add: P)
    next
      case False
      have "dc_cacheentry c j = Some a" using j by (simp add: P)
      then obtain b' where "a \<in> set (L b')" "mdis c a = j" using ix False unfolding index_but_def by blast
      then show ?thesis by (intro exI [of _ b']; cases "b' = b") (auto simp: P)
    qed
  next
    fix j assume "dc_cacheentry ?c j = None"
    then show "dc_cachelist ?c j = None" using ix by (auto simp: index_but_def P)
  qed
  ultimately show "cache_ok ?c ?L fs" by (simp add: cache_ok_def)
  show "data_of ?c ?L = (\<lambda>b'. (if b' = b then [i] else []) @ data_of c L b')"
    using ix by (auto simp: data_of_def fun_eq_iff P index_but_def)
qed

lemma touch_ok:
  assumes ok: "cache_ok c L fs" and lid: "lid \<noteq> 0"
  shows "\<exists>c' L' fs'. kaapi_memory_cache_touch lid write hv i c = Some c' \<and> cache_ok c' L' fs' \<and>
    data_of c' L' = touch_list write hv i (data_of c L)"
proof (cases "dc_cacheentry c i")
  case None
  obtain e c1 fs1 where e: "kaapi_memory_cache_allocate_entry c = (e, c1)" "lists_ok c1 L fs1" "loose e c1 L fs1"
    "mdis c1 = mdis c" "dc_cacheentry c1 = dc_cacheentry c" "dc_cachelist c1 = dc_cachelist c"
    using allocate_ok [OF ok] by blast
  let ?c = "(upd_entry e (ce_mdi_update (\<lambda>_. i)) c1)\<lparr>dc_cacheentry := (dc_cacheentry c1)(i := Some e)\<rparr>"
  have l: "lists_ok ?c L fs1" "loose e ?c L fs1" using entry_ok [OF e(2,3), of "ce_mdi_update (\<lambda>_. i)"] e(3) by (simp_all add: lists_ok_def loose_def)
  have cl: "dc_cachelist c i = None" using ok None by (simp add: cache_ok_def index_ok_def)
  have ni: "mdis c a \<noteq> i" if "a \<in> set (L b)" for a b using ok None that by (force simp: cache_ok_def index_ok_def)
  have ne: "a \<noteq> e" if "a \<in> set (L b)" for a b using loose_list [OF e(3), of b] that by auto
  have ix: "index_but i e ?c L"
    unfolding index_but_def
  proof (intro conjI allI ballI impI)
    fix b a assume a: "a \<in> set (L b)"
    show "mdis ?c a \<noteq> i" "dc_cacheentry ?c (mdis ?c a) = Some a" "dc_cachelist ?c (mdis ?c a) = Some b"
      using ok a ni [OF a] ne [OF a] by (simp_all add: cache_ok_def index_ok_def e)
  next
    fix j a assume j: "j \<noteq> i" "dc_cacheentry ?c j = Some a"
    then have "dc_cacheentry c j = Some a" by (simp add: e)
    then obtain b where "a \<in> set (L b)" "mdis c a = j" using ok unfolding cache_ok_def index_ok_def by blast
    then show "\<exists>b. a \<in> set (L b) \<and> mdis ?c a = j" using ne by (intro exI [of _ b]) (auto simp: e)
  next
    fix j assume "dc_cacheentry ?c j = None"
    then have "dc_cacheentry c j = None" by (simp add: e split: if_splits)
    then show "dc_cachelist ?c j = None" using ok by (simp add: cache_ok_def index_ok_def e)
  qed (simp_all add: e)
  have d: "data_of ?c L = data_of c L" using ne by (auto simp: data_of_def fun_eq_iff e)
  have i: "i \<notin> set (data_of c L b)" for b using ni by (auto simp: data_of_def)
  have f: "filter (\<lambda>j. j \<noteq> i) (data_of c L b) = data_of c L b" for b using i by (intro filter_True) auto
  have t: "touch_list write hv i (data_of c L) = (\<lambda>b'. (if b' = write then [i] else []) @ data_of c L b')"
    using i by (simp add: touch_list_def Let_def f)
  show ?thesis using place_ok [OF l ix, of "write"] lid None cl
    by (auto simp: kaapi_memory_cache_touch_def e(1) e(6) Let_def t d)
next
  case (Some e)
  obtain b0 where b0: "e \<in> set (L b0)" "mdis c e = i" "dc_cachelist c i = Some b0"
    using ok Some unfolding cache_ok_def index_ok_def by metis
  obtain as bs where L: "L b0 = as @ e # bs" using b0(1) by (meson split_list)
  have lo: "lists_ok c L fs" using ok by (simp add: cache_ok_def)
  note D = lists_okD [OF lo]
  let ?L = "L(b0 := as @ bs)" and ?c = "kaapi_memory_cache_remove_from_list b0 e c"
  have nm: "mdis ?c = mdis c" by (auto simp: kaapi_memory_cache_remove_from_list_def entry_unlink_fields fun_eq_iff)
      (simp add: mdis_def unlink_entry_def Let_def upd_entry_def split: option.split)
  have ls: "loose e (unlink_entry b0 e c) ?L fs"
    using D(4) [of b0] D(5) [of b0] D(6) [of b0 "\<not> b0"] D(8) [OF b0(1)] L unfolding loose_def entry_unlink_fields by (cases b0) auto
  have l: "lists_ok ?c ?L fs" "loose e ?c ?L fs"
    using entry_ok [OF entry_unlink_ok [OF lo L] ls] ls by (simp_all add: kaapi_memory_cache_remove_from_list_def loose_def)
  have c: "dc_cacheentry ?c = dc_cacheentry c" "dc_cachelist ?c = dc_cachelist c"
    by (simp_all add: kaapi_memory_cache_remove_from_list_def entry_unlink_fields)
  have sub: "a \<in> set (L b) \<and> a \<noteq> e" if "a \<in> set (?L b)" for a b
    using that D(4) [of b0] D(6) [of b b0] L by (cases "b = b0") auto
  have ni: "mdis c a \<noteq> i" if "a \<in> set (?L b)" for a b using mdi_inj [OF ok _ b0(1), of a b] sub [OF that] b0(2) by auto
  have ix: "index_but i e ?c ?L"
    unfolding index_but_def nm c
  proof (intro conjI allI ballI impI)
    fix b a assume a: "a \<in> set (?L b)"
    show "mdis c a \<noteq> i" "dc_cacheentry c (mdis c a) = Some a" "dc_cachelist c (mdis c a) = Some b"
      using ok ni [OF a] sub [OF a] unfolding cache_ok_def index_ok_def by blast+
  next
    fix j a assume j: "j \<noteq> i" "dc_cacheentry c j = Some a"
    then obtain b where "a \<in> set (L b)" "mdis c a = j" using ok unfolding cache_ok_def index_ok_def by blast
    then show "\<exists>b. a \<in> set (?L b) \<and> mdis c a = j" using j(1) b0(2) L by (intro exI [of _ b]) auto
  qed (use ok Some b0(2) in \<open>simp_all add: cache_ok_def index_ok_def\<close>)
  have f: "filter (\<lambda>j. j \<noteq> i) (data_of c L b) = data_of ?c ?L b" for b
  proof -
    have "filter (\<lambda>j. j \<noteq> i) (data_of ?c ?L b) = data_of ?c ?L b" using ni by (intro filter_True) (auto simp: data_of_def nm)
    moreover have "filter (\<lambda>j. j \<noteq> i) (data_of c L b) = filter (\<lambda>j. j \<noteq> i) (data_of ?c ?L b)"
      using L b0(2) by (simp add: data_of_def nm)
    ultimately show ?thesis by simp
  qed
  have rw: "i \<in> set (data_of c L True) \<longleftrightarrow> b0"
  proof
    assume "i \<in> set (data_of c L True)"
    then obtain a where "a \<in> set (L True)" "mdis c a = mdis c e" using b0(2) by (auto simp: data_of_def)
    then show b0 using mdi_inj [OF ok _ b0(1), of a True] by simp
  qed (use b0(1,2) in \<open>auto simp: data_of_def\<close>)
  let ?b = "if b0 \<and> \<not> hv then True else write"
  have t: "touch_list write hv i (data_of c L) = (\<lambda>b'. (if b' = ?b then [i] else []) @ data_of ?c ?L b')"
    by (auto simp: touch_list_def Let_def f rw fun_eq_iff)
  have o: "(Some b0 = Some True) = b0" by simp
  have "kaapi_memory_cache_touch lid write hv i c =
      Some ((kaapi_memory_cache_push_front ?b e ?c)\<lparr>dc_cachelist := (dc_cachelist ?c)(i := Some ?b)\<rparr>)"
    using lid Some b0(3) by (simp add: kaapi_memory_cache_touch_def Let_def)
  then show ?thesis using place_ok [OF l ix, of ?b] unfolding t by blast
qed

section \<open>Eviction\<close>

lemma erase_ok:
  assumes ok: "cache_ok c L fs" and L: "L b = as @ a # bs"
  shows "cache_ok (erase_entry b a c) (L(b := as @ bs)) (a # fs)" "mdis (erase_entry b a c) = mdis c"
proof -
  let ?i = "mdis c a" and ?L = "L(b := as @ bs)" and ?c = "erase_entry b a c"
  let ?d = "c\<lparr>dc_cachelist := (dc_cachelist c)(mdis c a := None), dc_cacheentry := (dc_cacheentry c)(mdis c a := None)\<rparr>"
  have lo: "lists_ok c L fs" using ok by (simp add: cache_ok_def)
  note D = lists_okD [OF lo]
  have e: "?c = (upd_entry a (\<lambda>e. e\<lparr>ce_prev := None, ce_next := dc_freelist c\<rparr>) (unlink_entry b a ?d))\<lparr>dc_freelist := Some a\<rparr>"
    by (simp add: erase_entry_def Let_def entry_unlink_fields mdis_def)
  have m: "mdis (unlink_entry b a ?d) = mdis c" by (simp add: entry_unlink_fields)
  show nm: "mdis ?c = mdis c" 
  proof -
    have "ce_mdi (dc_entry (unlink_entry b a ?d) a) = mdis c a" using fun_cong [OF m, of a] by (simp only: mdis_def)
    then show ?thesis by (simp add: e m)
  qed
  have l0: "lists_ok (unlink_entry b a ?d) ?L fs" using lo L by (intro entry_unlink_ok) (simp_all add: lists_ok_def)
  have ls: "loose a (unlink_entry b a ?d) ?L fs"
    using D(4) [of b] D(5) [of b] D(6) [of b "\<not> b"] D(8) [of a b] L unfolding loose_def entry_unlink_fields by (cases b) auto
  have l1: "lists_ok (upd_entry a (\<lambda>e. e\<lparr>ce_prev := None, ce_next := dc_freelist c\<rparr>) (unlink_entry b a ?d)) ?L fs"
    by (rule entry_ok [OF l0 ls])
  have fr: "dc_freelist (unlink_entry b a ?d) = dc_freelist c" by (simp add: entry_unlink_fields)
  have "lists_ok ?c ?L (a # fs)"
    using l1 ls loose_list [OF ls] unfolding e lists_ok_def by (auto simp: fr loose_def)
  moreover have sub: "x \<in> set (L b') \<and> x \<noteq> a" if "x \<in> set (?L b')" for x b'
    using that D(4) [of b] D(6) [of b' b] L by (cases "b' = b") auto
  have a: "a \<in> set (L b)" by (simp add: L)
  have ne: "mdis c x \<noteq> ?i" if "x \<in> set (?L b')" for x b' using mdi_inj [OF ok _ a, of x b'] sub [OF that] by auto
  have ce: "dc_cacheentry ?c = (dc_cacheentry c)(?i := None)" "dc_cachelist ?c = (dc_cachelist c)(?i := None)"
    by (simp_all add: e entry_unlink_fields)
  have "index_ok ?c ?L"
    unfolding index_ok_def nm ce
  proof (intro conjI allI ballI impI)
    fix b' x assume x: "x \<in> set (?L b')"
    have "dc_cacheentry c (mdis c x) = Some x" "dc_cachelist c (mdis c x) = Some b'"
      using ok sub [OF x] unfolding cache_ok_def index_ok_def by blast+
    then show "((dc_cacheentry c)(?i := None)) (mdis c x) = Some x" "((dc_cachelist c)(?i := None)) (mdis c x) = Some b'"
      using ne [OF x] by simp_all
  next
    fix j x assume j: "((dc_cacheentry c)(?i := None)) j = Some x"
    then have ji: "j \<noteq> ?i" "dc_cacheentry c j = Some x" by (auto split: if_splits)
    then obtain b' where x: "x \<in> set (L b')" "mdis c x = j" using ok unfolding cache_ok_def index_ok_def by blast
    then have "x \<in> set (?L b')" using ji(1) L by auto
    then show "\<exists>b. x \<in> set (?L b) \<and> mdis c x = j" using x(2) by blast
  next
    fix j assume "((dc_cacheentry c)(?i := None)) j = None"
    then show "((dc_cachelist c)(?i := None)) j = None" using ok by (auto simp: cache_ok_def index_ok_def split: if_splits)
  qed
  ultimately show "cache_ok ?c ?L (a # fs)" by (simp add: cache_ok_def)
qed

text \<open>Eviction of a list of data given from its end: what is kept, what is evicted, and what remains of the size.\<close>

fun evict_spec :: "(nat \<Rightarrow> bool) \<Rightarrow> (nat \<Rightarrow> nat) \<Rightarrow> nat list \<Rightarrow> nat \<Rightarrow> nat list \<times> nat list \<times> nat" where
  "evict_spec p sz [] n = ([], [], n)"
| "evict_spec p sz (i # is) n =
     (if n = 0 then (i # is, [], 0)
      else if p i then (case evict_spec p sz is (n - sz i) of (k, e, r) \<Rightarrow> (k, i # e, r))
      else (case evict_spec p sz is n of (k, e, r) \<Rightarrow> (i # k, e, r)))"

lemma evict_spec_cong: "(\<And>i. i \<in> set xs \<Longrightarrow> p i = q i) \<Longrightarrow> evict_spec p sz xs n = evict_spec q sz xs n"
  by (induction xs arbitrary: n) auto

text \<open>Only data that may be evicted are, and as long as room is missing all of them.\<close>

lemma evict_spec_facts:
  "evict_spec p sz xs n = (k, e, r) \<Longrightarrow> set e \<subseteq> {i \<in> set xs. p i} \<and> mset xs = mset k + mset e \<and> r = n - (\<Sum>i\<leftarrow>e. sz i) \<and>
    (0 < r \<longrightarrow> (\<forall>i\<in>set k. \<not> p i))"
proof (induction xs arbitrary: n k e r)
  case (Cons i xs)
  then show ?case by (fastforce split: if_splits prod.splits)
qed simp

definition evicted :: "nat \<Rightarrow> (nat \<Rightarrow> 'v) \<Rightarrow> (nat \<Rightarrow> 'v mdi) \<Rightarrow> nat list \<Rightarrow> nat \<Rightarrow> 'v mdi" where
  "evicted lid junk M e i = (if i \<in> set e then the (evict_replica lid (junk i) (M i)) else M i)"

lemma evict_replica_some:
  "evictable lid m \<Longrightarrow> \<not> kaapi_memory_replica_is_xfer m lid \<Longrightarrow> \<exists>m'. evict_replica lid j m = Some m'"
  by (simp add: evictable_def evict_replica_def Let_def kaapi_memory_replica_is_xfer_def kaapi_memory_replica_unset_allocated_def
      kaapi_memory_replica_unset_valid_def)

lemma data_of_upd: "mdis c' = mdis c \<Longrightarrow> data_of c' (L(b := xs)) = (data_of c L)(b := map (mdis c) xs)"
  by (auto simp: data_of_def fun_eq_iff)

lemma evict_loop_ok:
  assumes "cache_ok c L fs" "L b = as @ bs" "\<forall>i\<in>mdis c ` set as. evictable lid (M i) \<longrightarrow> \<not> kaapi_memory_replica_is_xfer (M i) lid"
    and "evict_spec (\<lambda>i. evictable lid (M i)) sz (rev (map (mdis c) as)) n = (k, e, r)"
  shows "\<exists>c' L' fs'. evict_loop lid sz junk b (if as = [] then None else Some (last as)) (c, M, n, ev) =
      Some (Some (c', evicted lid junk M e, r, ev @ e)) \<and> cache_ok c' L' fs' \<and>
    data_of c' L' = (data_of c L)(b := rev k @ map (mdis c) bs)"
  using assms
proof (induction as arbitrary: c L fs M n k e r ev bs rule: rev_induct)
  case Nil
  have "evicted lid junk M [] = M" by (simp add: evicted_def fun_eq_iff)
  then show ?case using Nil by (intro exI [of _ c] exI [of _ L] exI [of _ fs]) (auto simp: evict_loop.simps data_of_def fun_eq_iff)
next
  case (snoc a as)
  let ?i = "mdis c a"
  have L: "L b = as @ a # bs" using snoc.prems(2) by simp
  have pa: "ce_prev (dc_entry c a) = (if as = [] then None else Some (last as))" "ce_mdi (dc_entry c a) = ?i"
  proof -
    have "chain (cprevs c) (dc_end c b) (rev (as @ a # bs)) None"
      using lists_okD(2) [of c L fs b] snoc.prems(1) L by (simp add: cache_ok_def)
    then have "cprevs c a = (if as = [] then None else Some (last as))" by (rule chain_rev_link)
    then show "ce_prev (dc_entry c a) = (if as = [] then None else Some (last as))" by (simp add: cprevs_def)
  qed (simp add: mdis_def)
  consider "n = 0" | "n \<noteq> 0" "evictable lid (M ?i)" | "n \<noteq> 0" "\<not> evictable lid (M ?i)" by blast
  then show ?case
  proof cases
    case 1
    have "evicted lid junk M [] = M" by (simp add: evicted_def fun_eq_iff)
    moreover have "k = rev (map (mdis c) (as @ [a]))" "e = []" "r = 0" using snoc.prems(4) 1 by auto
    moreover have "data_of c L = (data_of c L)(b := map (mdis c) (L b))" by (simp add: data_of_def fun_eq_iff)
    ultimately show ?thesis using snoc.prems(1) 1 L
      by (intro exI [of _ c] exI [of _ L] exI [of _ fs]) (auto simp: evict_loop.simps)
  next
    case 2
    obtain m where m: "evict_replica lid (junk ?i) (M ?i) = Some m" using evict_replica_some 2(2) snoc.prems(3) by fastforce
    let ?M = "M(?i := m)" and ?c = "erase_entry b a c" and ?L = "L(b := as @ bs)"
    note E = erase_ok [OF snoc.prems(1) L]
    obtain k1 e1 r1 where s1: "evict_spec (\<lambda>i. evictable lid (M i)) sz (rev (map (mdis c) as)) (n - sz ?i) = (k1, e1, r1)"
      by (metis prod_cases3)
    then have ker: "k = k1" "e = ?i # e1" "r = r1" using snoc.prems(4) 2 by auto
    have ne: "?i \<noteq> j" if "j \<in> mdis c ` set as" for j
    proof
      assume "?i = j"
      with that obtain x where "x \<in> set as" "mdis c a = mdis c x" by blast
      then have "a = x" using mdi_inj [OF snoc.prems(1), of a b x b] L by simp
      then show False using lists_okD(4) [of c L fs b] snoc.prems(1) L \<open>x \<in> set as\<close> by (simp add: cache_ok_def)
    qed
    have nea: "mdis c x \<noteq> ?i" if "x \<in> set as" for x using ne [of "mdis c x"] that by fastforce
    have s2: "evict_spec (\<lambda>i. evictable lid (?M i)) sz (rev (map (mdis ?c) as)) (n - sz ?i) = (k1, e1, r1)"
      unfolding s1 [symmetric] E(2) by (rule evict_spec_cong) (use nea in auto)
    have nx: "\<forall>i\<in>mdis ?c ` set as. evictable lid (?M i) \<longrightarrow> \<not> kaapi_memory_replica_is_xfer (?M i) lid"
      using snoc.prems(3) nea by (auto simp: E(2))
    have Lb: "?L b = as @ bs" by simp
    obtain c' L' fs' where IH: "evict_loop lid sz junk b (if as = [] then None else Some (last as)) (?c, ?M, n - sz ?i, ev @ [?i]) =
        Some (Some (c', evicted lid junk ?M e1, r1, (ev @ [?i]) @ e1))" "cache_ok c' L' fs'"
      "data_of c' L' = (data_of ?c ?L)(b := rev k1 @ map (mdis ?c) bs)"
      using snoc.IH [OF E(1) Lb nx s2, of "ev @ [?i]"] by blast
    have mm: "evicted lid junk ?M e1 = evicted lid junk M e"
    proof
      fix j
      have "?i \<notin> set e1" using evict_spec_facts [OF s1] ne by fastforce
      then show "evicted lid junk ?M e1 j = evicted lid junk M e j" by (simp add: evicted_def ker m)
    qed
    have "evict_loop lid sz junk b (Some a) (c, M, n, ev) = Some (Some (c', evicted lid junk M e, r, ev @ e))"
      using IH(1) 2 m pa by (simp add: evict_loop.simps [of _ _ _ _ "Some a"] Let_def mm ker)
    moreover have "data_of c' L' = (data_of c L)(b := rev k @ map (mdis c) bs)"
      unfolding IH(3) data_of_upd [OF E(2)] by (simp add: E(2) ker)
    ultimately show ?thesis using IH(2) by (intro exI [of _ c'] exI [of _ L'] exI [of _ fs']) simp
  next
    case 3
    obtain k1 e1 r1 where s1: "evict_spec (\<lambda>i. evictable lid (M i)) sz (rev (map (mdis c) as)) n = (k1, e1, r1)"
      by (metis prod_cases3)
    then have ker: "k = ?i # k1" "e = e1" "r = r1" using snoc.prems(4) 3 by auto
    have nx: "\<forall>i\<in>mdis c ` set as. evictable lid (M i) \<longrightarrow> \<not> kaapi_memory_replica_is_xfer (M i) lid" using snoc.prems(3) by auto
    obtain c' L' fs' where IH: "evict_loop lid sz junk b (if as = [] then None else Some (last as)) (c, M, n, ev) =
        Some (Some (c', evicted lid junk M e1, r1, ev @ e1))" "cache_ok c' L' fs'"
      "data_of c' L' = (data_of c L)(b := rev k1 @ map (mdis c) (a # bs))"
      using snoc.IH [OF snoc.prems(1) L nx s1, of ev] by blast
    have "evict_loop lid sz junk b (Some a) (c, M, n, ev) = Some (Some (c', evicted lid junk M e, r, ev @ e))"
      using IH(1) 3 pa by (simp add: evict_loop.simps [of _ _ _ _ "Some a"] Let_def ker)
    then show ?thesis using IH(2,3) by (intro exI [of _ c'] exI [of _ L'] exI [of _ fs']) (simp add: ker)
  qed
qed

lemma evict_fromlist_ok:
  assumes "cache_ok c L fs" "\<forall>i. evictable lid (M i) \<longrightarrow> \<not> kaapi_memory_replica_is_xfer (M i) lid"
    and "evict_spec (\<lambda>i. evictable lid (M i)) view_size (rev (data_of c L b)) (2 * sz) = (k, e, r)"
  shows "\<exists>c' L' fs'. kaapi_memory_cache_evict_fromlist lid view_size junk b sz c M = Some (Some (r - sz, c', evicted lid junk M e, e)) \<and>
    cache_ok c' L' fs' \<and> data_of c' L' = (data_of c L)(b := rev k)"
proof -
  have lo: "lists_ok c L fs" using assms(1) by (simp add: cache_ok_def)
  have en: "dc_end c b = (if L b = [] then None else Some (last (L b)))"
    using lists_okD(2) [OF lo, of b] by (cases "L b" rule: rev_cases) auto
  have lb: "L b = L b @ []" by simp
  have nx: "\<forall>i\<in>mdis c ` set (L b). evictable lid (M i) \<longrightarrow> \<not> kaapi_memory_replica_is_xfer (M i) lid" using assms(2) by blast
  obtain c' L' fs' where l: "evict_loop lid view_size junk b (dc_end c b) (c, M, 2 * sz, []) = Some (Some (c', evicted lid junk M e, r, [] @ e))"
    "cache_ok c' L' fs'" "data_of c' L' = (data_of c L)(b := rev k @ map (mdis c) [])"
    using evict_loop_ok [OF assms(1) lb nx assms(3) [unfolded data_of_def], where junk = junk and ev = "[]"] unfolding en by auto
  have "(if r \<le> sz then 0 else r - sz) = r - sz" by simp
  then have "kaapi_memory_cache_evict_fromlist lid view_size junk b sz c M = Some (Some (r - sz, c', evicted lid junk M e, e))"
    by (simp add: kaapi_memory_cache_evict_fromlist_def l(1))
  then show ?thesis using l(2,3) by auto
qed

text \<open>The whole eviction keeps the cache well formed and returns, whatever the polls complete.\<close>

definition no_xfer :: "nat \<Rightarrow> (nat \<Rightarrow> 'v mdi) \<Rightarrow> bool" where
  "no_xfer lid M \<longleftrightarrow> (\<forall>i. evictable lid (M i) \<longrightarrow> \<not> kaapi_memory_replica_is_xfer (M i) lid)"

lemma evict_replica_xfer: "evict_replica lid j m = Some m' \<Longrightarrow> md_xfer m' = md_xfer m"
  by (auto simp: evict_replica_def Let_def kaapi_memory_replica_unset_allocated_def kaapi_memory_replica_unset_valid_def split: if_splits)

lemma evicted_no_xfer:
  assumes "no_xfer lid M" "\<forall>i\<in>set e. evictable lid (M i)"
  shows "no_xfer lid (evicted lid junk M e)"
  unfolding no_xfer_def
proof (intro allI impI)
  fix i assume ev: "evictable lid (evicted lid junk M e i)"
  show "\<not> kaapi_memory_replica_is_xfer (evicted lid junk M e i) lid"
  proof (cases "i \<in> set e")
    case True
    then have x: "\<not> kaapi_memory_replica_is_xfer (M i) lid" using assms by (simp add: no_xfer_def)
    obtain m where m: "evict_replica lid (junk i) (M i) = Some m" using evict_replica_some [OF bspec [OF assms(2) True] x, of "junk i"] by blast
    have "md_xfer m = md_xfer (M i)" by (rule evict_replica_xfer [OF m])
    then show ?thesis using True x by (simp add: evicted_def m kaapi_memory_replica_is_xfer_def)
  next
    case False
    then show ?thesis using ev assms(1) by (simp add: evicted_def no_xfer_def)
  qed
qed

lemma evict_tries_ok:
  assumes poll: "\<forall>M. no_xfer lid M \<longrightarrow> no_xfer lid (poll M)"
  shows "cache_ok c L fs \<Longrightarrow> no_xfer lid M \<Longrightarrow>
    \<exists>sz' c' M' L' fs'. evict_tries (kaapi_memory_cache_evict_fromlist lid view_size junk b) poll n sz c M = Some (Some (sz', c', M')) \<and>
      cache_ok c' L' fs' \<and> no_xfer lid M' \<and> sz' \<le> sz"
proof (induction n arbitrary: sz c L fs M)
  case 0 then show ?case by auto
next
  case (Suc n)
  obtain k e r where s: "evict_spec (\<lambda>i. evictable lid (M i)) view_size (rev (data_of c L b)) (2 * sz) = (k, e, r)" by (metis prod_cases3)
  have nx: "\<forall>i. evictable lid (M i) \<longrightarrow> \<not> kaapi_memory_replica_is_xfer (M i) lid" using Suc.prems(2) by (simp add: no_xfer_def)
  obtain c1 L1 fs1 where v: "kaapi_memory_cache_evict_fromlist lid view_size junk b sz c M = Some (Some (r - sz, c1, evicted lid junk M e, e))"
    "cache_ok c1 L1 fs1"
    using evict_fromlist_ok [OF Suc.prems(1) nx s] by blast
  have f: "\<forall>i\<in>set e. evictable lid (M i)" "r - sz \<le> sz" using evict_spec_facts [OF s] by auto
  let ?M = "if r - sz = 0 then evicted lid junk M e else poll (evicted lid junk M e)"
  have m: "no_xfer lid ?M" using evicted_no_xfer [OF Suc.prems(2) f(1)] poll by auto
  show ?case
  proof (cases "sz = 0")
    case True then show ?thesis using Suc.prems by auto
  next
    case False
    have e: "evict_tries (kaapi_memory_cache_evict_fromlist lid view_size junk b) poll (Suc n) sz c M =
        evict_tries (kaapi_memory_cache_evict_fromlist lid view_size junk b) poll n (r - sz) c1 ?M"
      using False by (simp only: evict_tries.simps v(1) if_False option.case prod.case)
    show ?thesis unfolding e using Suc.IH [OF v(2) m, of "r - sz"] f(2) by (meson le_trans)
  qed
qed

lemma evict_lists_ok:
  assumes poll: "\<forall>M. no_xfer lid M \<longrightarrow> no_xfer lid (poll M)"
  shows "cache_ok c L fs \<Longrightarrow> no_xfer lid M \<Longrightarrow>
    \<exists>sz' c' M' L' fs'. evict_lists lid view_size junk poll bs sz c M = Some (Some (sz', c', M')) \<and>
      cache_ok c' L' fs' \<and> no_xfer lid M' \<and> sz' \<le> sz"
proof (induction bs arbitrary: sz c L fs M)
  case Nil then show ?case by auto
next
  case (Cons b bs)
  obtain sz1 c1 M1 L1 fs1 where t: "evict_tries (kaapi_memory_cache_evict_fromlist lid view_size junk b) poll 2 sz c M = Some (Some (sz1, c1, M1))"
    "cache_ok c1 L1 fs1" "no_xfer lid M1" "sz1 \<le> sz"
    using evict_tries_ok [OF poll Cons.prems] by blast
  obtain sz2 c2 M2 L2 fs2 where u: "evict_lists lid view_size junk poll bs sz1 c1 M1 = Some (Some (sz2, c2, M2))" "cache_ok c2 L2 fs2"
    "no_xfer lid M2" "sz2 \<le> sz1"
    using Cons.IH [OF t(2,3)] by blast
  then show ?case using t(1,4) by (auto intro: le_trans)
qed

lemma cache_evict_ok:
  assumes "\<forall>M. no_xfer lid M \<longrightarrow> no_xfer lid (poll M)" "cache_ok c L fs" "no_xfer lid M"
  shows "\<exists>r c' M' L' fs'. kaapi_memory_cache_evict lid view_size junk poll rw_first sz c M = Some (Some (r, c', M')) \<and> cache_ok c' L' fs' \<and>
    r \<in> {0, ENOMEM}"
  using evict_lists_ok [OF assms, where view_size = view_size and junk = junk and bs = "[rw_first, \<not> rw_first, rw_first, \<not> rw_first]" and sz = sz]
  unfolding kaapi_memory_cache_evict_def by fastforce

section \<open>Runs\<close>

text \<open>Accesses, with the validity of the datum on the host at that time, and evictions, with the metadata at that time.
  The result of an eviction is what it returns, the data evicted and the metadata after it.\<close>

datatype 'v cache_op = Touch bool bool nat | Evict bool nat "nat \<Rightarrow> 'v mdi"

fun cache_run :: "nat \<Rightarrow> (nat \<Rightarrow> nat) \<Rightarrow> (nat \<Rightarrow> 'v) \<Rightarrow> 'v cache_op list \<Rightarrow> dcache \<Rightarrow>
    (dcache \<times> (nat \<times> nat list \<times> (nat \<Rightarrow> 'v mdi)) list) option" where
  "cache_run lid view_size junk [] c = Some (c, [])"
| "cache_run lid view_size junk (Touch w hv i # ops) c =
     (case kaapi_memory_cache_touch lid w hv i c of None \<Rightarrow> None | Some c1 \<Rightarrow> cache_run lid view_size junk ops c1)"
| "cache_run lid view_size junk (Evict b sz M # ops) c =
     (case kaapi_memory_cache_evict_fromlist lid view_size junk b sz c M of
        Some (Some (n, c1, M1, e)) \<Rightarrow> map_option (\<lambda>(c2, out). (c2, (n, e, M1) # out)) (cache_run lid view_size junk ops c1)
      | _ \<Rightarrow> None)"

fun lru_run :: "nat \<Rightarrow> (nat \<Rightarrow> nat) \<Rightarrow> (nat \<Rightarrow> 'v) \<Rightarrow> 'v cache_op list \<Rightarrow> (bool \<Rightarrow> nat list) \<Rightarrow>
    (bool \<Rightarrow> nat list) \<times> (nat \<times> nat list \<times> (nat \<Rightarrow> 'v mdi)) list" where
  "lru_run lid view_size junk [] D = (D, [])"
| "lru_run lid view_size junk (Touch w hv i # ops) D = lru_run lid view_size junk ops (touch_list w hv i D)"
| "lru_run lid view_size junk (Evict b sz M # ops) D =
     (case evict_spec (\<lambda>i. evictable lid (M i)) view_size (rev (D b)) (2 * sz) of (k, e, r) \<Rightarrow>
        case lru_run lid view_size junk ops (D(b := rev k)) of (D2, out) \<Rightarrow> (D2, (r - sz, e, evicted lid junk M e) # out))"

definition no_transfer :: "nat \<Rightarrow> 'v cache_op list \<Rightarrow> bool" where
  "no_transfer lid ops \<longleftrightarrow> (\<forall>b sz M. Evict b sz M \<in> set ops \<longrightarrow>
     (\<forall>i. evictable lid (M i) \<longrightarrow> \<not> kaapi_memory_replica_is_xfer (M i) lid))"

lemma cache_run_ok:
  "cache_ok c L fs \<Longrightarrow> lid \<noteq> 0 \<Longrightarrow> no_transfer lid ops \<Longrightarrow>
   \<exists>c' L' fs'. cache_run lid view_size junk ops c = Some (c', snd (lru_run lid view_size junk ops (data_of c L))) \<and>
     cache_ok c' L' fs' \<and> data_of c' L' = fst (lru_run lid view_size junk ops (data_of c L))"
proof (induction ops arbitrary: c L fs)
  case Nil then show ?case by auto
next
  case (Cons op ops)
  have nt: "no_transfer lid ops" using Cons.prems(3) by (simp add: no_transfer_def)
  show ?case
  proof (cases op)
    case (Touch w hv i)
    obtain c1 L1 fs1 where t: "kaapi_memory_cache_touch lid w hv i c = Some c1" "cache_ok c1 L1 fs1"
      "data_of c1 L1 = touch_list w hv i (data_of c L)"
      using touch_ok [OF Cons.prems(1,2)] by blast
    show ?thesis using Cons.IH [OF t(2) Cons.prems(2) nt] by (simp add: Touch t(1,3))
  next
    case (Evict b sz M)
    have x: "\<forall>i. evictable lid (M i) \<longrightarrow> \<not> kaapi_memory_replica_is_xfer (M i) lid"
      using Cons.prems(3) Evict by (simp add: no_transfer_def)
    obtain k e r where s: "evict_spec (\<lambda>i. evictable lid (M i)) view_size (rev (data_of c L b)) (2 * sz) = (k, e, r)" by (metis prod_cases3)
    obtain c1 L1 fs1 where v: "kaapi_memory_cache_evict_fromlist lid view_size junk b sz c M = Some (Some (r - sz, c1, evicted lid junk M e, e))"
      "cache_ok c1 L1 fs1" "data_of c1 L1 = (data_of c L)(b := rev k)"
      using evict_fromlist_ok [OF Cons.prems(1) x s] by blast
    obtain c2 L2 fs2 where i: "cache_run lid view_size junk ops c1 = Some (c2, snd (lru_run lid view_size junk ops ((data_of c L)(b := rev k))))"
      "cache_ok c2 L2 fs2" "data_of c2 L2 = fst (lru_run lid view_size junk ops ((data_of c L)(b := rev k)))"
      using Cons.IH [OF v(2) Cons.prems(2) nt] unfolding v(3) by blast
    show ?thesis using i by (intro exI [of _ c2] exI [of _ L2] exI [of _ fs2]) (simp add: Evict v(1) s split: prod.split)
  qed
qed

section \<open>Property\<close>

text \<open>C29. The cache of a device is two lists ordered by last use. After any sequence of accesses and evictions on a new
  cache, in which no replica is both under transfer and eligible for eviction, every operation has returned, the pointers
  form two well-formed lists with the data of the abstract ones, each replica knows its entry and its list, and each
  eviction has evicted and returned what the abstract one does: from the end of the list, the data that are not pinned and
  valid elsewhere, until twice the size asked for has been freed.\<close>

theorem cache_lru:
  assumes "lid \<noteq> 0" "no_transfer lid ops"
  shows "\<exists>c L fs out D. cache_run lid view_size junk ops (kaapi_memory_cache_init es) = Some (c, out) \<and> cache_ok c L fs \<and>
    lru_run lid view_size junk ops (\<lambda>_. []) = (D, out) \<and> D = data_of c L"
proof -
  have d: "data_of (kaapi_memory_cache_init es) (\<lambda>_. []) = (\<lambda>_. [])" by (simp add: data_of_def fun_eq_iff)
  show ?thesis using cache_run_ok [OF init_ok assms, of view_size junk es] unfolding d by (metis prod.collapse)
qed

definition host_and_1 :: "nat \<Rightarrow> unit mdi" where
  "host_and_1 i = \<lparr>md_alloc = 3, md_valid = 3, md_xfer = 0, md_wish = 0, md_pinned = (\<lambda>_. if i = 7 then 1 else 0), md_cbk = (\<lambda>_. []),
     md_data = (\<lambda>_. ()), md_copies = []\<rparr>"

definition cache_ops :: "unit cache_op list" where
  "cache_ops = [Touch False True 7, Touch False True 8, Touch False True 9, Touch False True 7, Touch True True 8, Evict False 3 host_and_1]"

text \<open>Datum 8 has moved to the list of written data, 7 is pinned: 9 is evicted, and one of the 3 bytes asked for is missing.\<close>

lemma cache_lru_witness:
  "\<exists>c L M. cache_run 1 (\<lambda>_. 2) (\<lambda>_. ()) cache_ops (kaapi_memory_cache_init (\<lambda>_. \<lparr>ce_mdi = 0, ce_next = None, ce_prev = None\<rparr>)) =
      Some (c, [(1, [9], M)]) \<and> data_of c L False = [7] \<and> data_of c L True = [8]"
proof -
  have nt: "no_transfer 1 cache_ops" by (simp add: no_transfer_def cache_ops_def kaapi_memory_replica_is_xfer_def host_and_1_def)
  have ev: "evictable 1 (host_and_1 i) \<longleftrightarrow> i \<noteq> 7" for i
    by (simp add: evictable_def kaapi_memory_replica_is_notpinned_def kaapi_memory_replica_is_valid_excepton_def host_and_1_def lid_mask_def)
  obtain c L fs out D where r: "cache_run 1 (\<lambda>_. 2) (\<lambda>_. ()) cache_ops (kaapi_memory_cache_init (\<lambda>_. \<lparr>ce_mdi = 0, ce_next = None, ce_prev = None\<rparr>)) =
      Some (c, out)" "lru_run 1 (\<lambda>_. 2) (\<lambda>_. ()) cache_ops (\<lambda>_. []) = (D, out)" "D = data_of c L"
    using cache_lru [of 1 cache_ops "\<lambda>_. 2" "\<lambda>_. ()" "\<lambda>_. \<lparr>ce_mdi = 0, ce_next = None, ce_prev = None\<rparr>"] nt by auto
  have "\<exists>M. out = [(1, [9], M)]" "D False = [7]" "D True = [8]"
    using r(2) by (auto simp: cache_ops_def touch_list_def Let_def ev [simplified])
  then show ?thesis using r(1,3) by auto
qed

end
