(* ===== verification/Device_Heap.thy ===== *)
theory Device_Heap
  imports Linked_Lists
begin

unbundle bit_operations_syntax

text \<open>
  The allocator of device memory (\<open>kaapi_memory_alloc\<close> and \<open>kaapi_memory_free\<close> of \<open>kaapi_memory.c\<close>), as compiled
  (\<open>KAAPI_HEAP_BEST_FIT\<close>): chunks kept on the host, doubly linked by increasing device address, the free ones
  linked by \<open>freelink\<close>. The store of the chunks is explicit; \<open>malloc\<close> returns a fresh address. The size of a
  request is a \<open>size_t\<close>; the sizes of the chunks are numbers that add up to the device memory, below \<open>2^64\<close>.
\<close>

section \<open>Data\<close>

record chunk =
  ck_size :: nat
  ck_state :: "32 word"
  ck_device_ptr :: nat
  ck_prev :: "nat option"
  ck_next :: "nat option"
  ck_freelink :: "nat option"

definition MAIN_STATE :: "32 word" where "MAIN_STATE = 2"
definition FREE_STATE :: "32 word" where "FREE_STATE = 1"

record heap =
  hp_chunk :: "nat \<Rightarrow> chunk"
  hp_fresh :: nat                \<comment> \<open>the address of the next \<open>malloc\<close>\<close>
  hp_free :: "nat option"        \<comment> \<open>\<open>free_chunk_list\<close>\<close>
  hp_main :: "nat option"        \<comment> \<open>\<open>main_chunk\<close>\<close>

definition sizeof_chunk :: nat where "sizeof_chunk = 48"

definition chunk_free :: "chunk \<Rightarrow> bool" where "chunk_free c \<longleftrightarrow> ck_state c AND FREE_STATE \<noteq> 0"

abbreviation upd_chunk :: "nat \<Rightarrow> (chunk \<Rightarrow> chunk) \<Rightarrow> heap \<Rightarrow> heap" where
  "upd_chunk c f H \<equiv> H\<lparr>hp_chunk := (hp_chunk H)(c := f (hp_chunk H c))\<rparr>"

section \<open>Allocation\<close>

definition request_size :: "64 word \<Rightarrow> nat" where
  "request_size sz = (let sz = (sz + 7) AND NOT 7 in if unat sz < sizeof_chunk then sizeof_chunk else unat sz)"

text \<open>The first allocation reserves the memory of the device; \<open>main_chunk\<close> is a copy that is only tested.\<close>

definition init_main_chunk :: "nat \<Rightarrow> 64 word \<Rightarrow> heap \<Rightarrow> heap" where
  "init_main_chunk base mem_info H =
     (if hp_free H = None \<and> hp_main H = None then
        let chunk0 = \<lparr>ck_size = unat (mem_info AND NOT 7), ck_state = FREE_STATE OR MAIN_STATE, ck_device_ptr = base,
                      ck_prev = None, ck_next = None, ck_freelink = None\<rparr>; c = hp_fresh H in
        H\<lparr>hp_chunk := (hp_chunk H)(c := chunk0, Suc c := chunk0), hp_fresh := Suc (Suc c), hp_free := Some c, hp_main := Some (Suc c)\<rparr>
      else H)"

partial_function (option) best_fit ::
  "(nat \<Rightarrow> chunk) \<Rightarrow> nat \<Rightarrow> nat option \<Rightarrow> nat option \<Rightarrow> (nat \<times> nat \<times> nat option) option \<Rightarrow> (nat \<times> nat \<times> nat option) option option" where
  "best_fit ch sz cur prevfree best =
     (case cur of None \<Rightarrow> Some best
      | Some c \<Rightarrow> best_fit ch sz (ck_freelink (ch c)) (Some c)
          (if sz \<le> ck_size (ch c) then Some (ck_size (ch c), c, prevfree) else best))"

definition split_chunk :: "nat \<Rightarrow> nat \<Rightarrow> heap \<Rightarrow> heap" where
  "split_chunk cur sz H =
     (let r = hp_fresh H; C = hp_chunk H cur;
          remainder = \<lparr>ck_size = ck_size C - sz, ck_state = FREE_STATE, ck_device_ptr = sz + ck_device_ptr C,
                       ck_prev = Some cur, ck_next = ck_next C, ck_freelink = ck_freelink C\<rparr>;
          H1 = H\<lparr>hp_chunk := (hp_chunk H)(r := remainder), hp_fresh := Suc r\<rparr>;
          H2 = (case ck_next C of Some n \<Rightarrow> upd_chunk n (\<lambda>c. c\<lparr>ck_prev := Some r\<rparr>) H1 | None \<Rightarrow> H1)
      in upd_chunk cur (\<lambda>c. c\<lparr>ck_next := Some r, ck_size := sz, ck_freelink := Some r\<rparr>) H2)"

definition unlink_free :: "nat option \<Rightarrow> nat \<Rightarrow> heap \<Rightarrow> heap" where
  "unlink_free prevfree c H =
     (let link = ck_freelink (hp_chunk H c);
          H1 = (case prevfree of Some p \<Rightarrow> upd_chunk p (\<lambda>c. c\<lparr>ck_freelink := link\<rparr>) H | None \<Rightarrow> H\<lparr>hp_free := link\<rparr>)
      in upd_chunk c (\<lambda>c. c\<lparr>ck_state := ck_state c AND NOT FREE_STATE, ck_freelink := None\<rparr>) H1)"

text \<open>The test of a split is \<open>min_size - size >= 0.5*size\<close>. The result pairs the device address and the chunk.\<close>

definition kaapi_memory_alloc :: "nat \<Rightarrow> 64 word \<Rightarrow> 64 word \<Rightarrow> heap \<Rightarrow> ((nat \<times> nat) option \<times> heap) option" where
  "kaapi_memory_alloc base mem_info size0 H0 =
     (let sz = request_size size0; H = init_main_chunk base mem_info H0 in
      Option.bind (best_fit (hp_chunk H) sz (hp_free H) None None) (\<lambda>best. case best of
          None \<Rightarrow> Some (None, H)
        | Some (min_size, c, prevfree) \<Rightarrow>
            let H1 = (if sz \<le> 2 * (min_size - sz) then split_chunk c sz H else H);
                H2 = unlink_free prevfree c H1
            in Some (Some (ck_device_ptr (hp_chunk H2 c), c), H2)))"

section \<open>Release\<close>

partial_function (option) prev_free :: "(nat \<Rightarrow> chunk) \<Rightarrow> nat option \<Rightarrow> nat option option" where
  "prev_free ch cur =
     (case cur of None \<Rightarrow> Some None
      | Some p \<Rightarrow> if chunk_free (ch p) then Some (Some p) else prev_free ch (ck_prev (ch p)))"

definition merge_next :: "nat \<Rightarrow> nat \<Rightarrow> heap \<Rightarrow> heap" where
  "merge_next chunk n H =
     (let C = hp_chunk H chunk;
          H1 = upd_chunk n (\<lambda>c. c\<lparr>ck_prev := ck_prev C\<rparr>) H;
          H2 = (case ck_prev C of Some p \<Rightarrow> upd_chunk p (\<lambda>c. c\<lparr>ck_next := Some n\<rparr>) H1 | None \<Rightarrow> H1)
      in upd_chunk n (\<lambda>c. c\<lparr>ck_size := ck_size c + ck_size C, ck_device_ptr := ck_device_ptr C\<rparr>) H2)"

definition set_prev_of :: "nat option \<Rightarrow> nat \<Rightarrow> heap \<Rightarrow> heap" where
  "set_prev_of n p H = (case n of Some n \<Rightarrow> upd_chunk n (\<lambda>c. c\<lparr>ck_prev := Some p\<rparr>) H | None \<Rightarrow> H)"

text \<open>\<open>p\<close> is the free chunk before, and \<open>k\<close> the chunk that it absorbs: the next one, when it has just absorbed the
  freed chunk, or the freed chunk.\<close>

definition merge_prev_next :: "nat \<Rightarrow> nat \<Rightarrow> heap \<Rightarrow> heap" where
  "merge_prev_next p k H =
     (let K = hp_chunk H k;
          H1 = upd_chunk p (\<lambda>c. c\<lparr>ck_size := ck_size c + ck_size K, ck_next := ck_next K\<rparr>) H
      in upd_chunk p (\<lambda>c. c\<lparr>ck_freelink := ck_freelink K\<rparr>) (set_prev_of (ck_next K) p H1))"

definition merge_prev :: "nat \<Rightarrow> nat \<Rightarrow> heap \<Rightarrow> heap" where
  "merge_prev p chunk H =
     (let C = hp_chunk H chunk;
          H1 = upd_chunk p (\<lambda>c. c\<lparr>ck_next := ck_next C\<rparr>) H
      in upd_chunk p (\<lambda>c. c\<lparr>ck_size := ck_size c + ck_size C\<rparr>) (set_prev_of (ck_next C) p H1))"

definition push_free :: "nat \<Rightarrow> heap \<Rightarrow> heap" where
  "push_free chunk H = (upd_chunk chunk (\<lambda>c. c\<lparr>ck_freelink := hp_free H\<rparr>) H)\<lparr>hp_free := Some chunk\<rparr>"

definition link_after :: "nat \<Rightarrow> nat \<Rightarrow> heap \<Rightarrow> heap" where
  "link_after p chunk H =
     upd_chunk p (\<lambda>c. c\<lparr>ck_freelink := Some chunk\<rparr>) (upd_chunk chunk (\<lambda>c. c\<lparr>ck_freelink := ck_freelink (hp_chunk H p)\<rparr>) H)"

definition kaapi_memory_free :: "(nat \<times> nat) option \<Rightarrow> heap \<Rightarrow> heap option" where
  "kaapi_memory_free ptr H0 = (case ptr of None \<Rightarrow> Some H0 | Some (_, chunk) \<Rightarrow>
     let H = upd_chunk chunk (\<lambda>c. c\<lparr>ck_state := ck_state c OR FREE_STATE\<rparr>) H0;
         next_chunk = ck_next (hp_chunk H chunk);
         todel = (case next_chunk of Some n \<Rightarrow> chunk_free (hp_chunk H n) | None \<Rightarrow> False);
         H1 = (if todel then merge_next chunk (the next_chunk) H else H)
     in case ck_prev (hp_chunk H1 chunk) of
         Some p \<Rightarrow>
           if chunk_free (hp_chunk H1 p) then
             Some (if todel then merge_prev_next p (the next_chunk) H1 else merge_prev p chunk H1)
           else if todel then Some H1
           else map_option (\<lambda>q. case q of None \<Rightarrow> push_free chunk H1 | Some q \<Rightarrow> link_after q chunk H1)
             (prev_free (hp_chunk H1) (Some p))
       | None \<Rightarrow> Some (if todel then H1 else push_free chunk H1))"

section \<open>Well-formed heaps\<close>

definition nxt :: "heap \<Rightarrow> nat \<Rightarrow> nat option" where "nxt H c = ck_next (hp_chunk H c)"
definition prv :: "heap \<Rightarrow> nat \<Rightarrow> nat option" where "prv H c = ck_prev (hp_chunk H c)"
definition flk :: "heap \<Rightarrow> nat \<Rightarrow> nat option" where "flk H c = ck_freelink (hp_chunk H c)"
definition stt :: "heap \<Rightarrow> nat \<Rightarrow> 32 word" where "stt H c = ck_state (hp_chunk H c)"
definition szs :: "heap \<Rightarrow> nat \<Rightarrow> nat" where "szs H c = ck_size (hp_chunk H c)"
definition dpt :: "heap \<Rightarrow> nat \<Rightarrow> nat" where "dpt H c = ck_device_ptr (hp_chunk H c)"

lemmas fields = nxt_def prv_def flk_def stt_def szs_def dpt_def

primrec tiled :: "(nat \<Rightarrow> nat) \<Rightarrow> (nat \<Rightarrow> nat) \<Rightarrow> nat \<Rightarrow> nat list \<Rightarrow> nat \<Rightarrow> bool" where
  "tiled d s b [] e \<longleftrightarrow> b = e"
| "tiled d s b (c # cs) e \<longleftrightarrow> d c = b \<and> 0 < s c \<and> tiled d s (b + s c) cs e"

definition is_free :: "32 word \<Rightarrow> bool" where "is_free st \<longleftrightarrow> st AND FREE_STATE \<noteq> 0"

definition free_ids :: "(nat \<Rightarrow> 32 word) \<Rightarrow> nat list \<Rightarrow> nat list" where
  "free_ids st xs = filter (\<lambda>c. is_free (st c)) xs"

definition coalesced :: "(nat \<Rightarrow> 32 word) \<Rightarrow> nat list \<Rightarrow> bool" where
  "coalesced st xs \<longleftrightarrow> successively (\<lambda>a b. \<not> (is_free (st a) \<and> is_free (st b))) xs"

definition heap_wf :: "nat \<Rightarrow> nat \<Rightarrow> nat list \<Rightarrow> heap \<Rightarrow> bool" where
  "heap_wf b e xs H \<longleftrightarrow> distinct xs \<and> (\<forall>c\<in>set xs. c < hp_fresh H) \<and>
     (\<exists>x. chain (nxt H) x xs None) \<and> (\<exists>x. chain (prv H) x (rev xs) None) \<and>
     chain (flk H) (hp_free H) (free_ids (stt H) xs) None \<and>
     tiled (dpt H) (szs H) b xs e \<and> (\<forall>c\<in>set xs. 8 dvd szs H c)"

definition heap_ok :: "nat \<Rightarrow> nat \<Rightarrow> nat list \<Rightarrow> heap \<Rightarrow> bool" where
  "heap_ok b e xs H \<longleftrightarrow> heap_wf b e xs H \<and> coalesced (stt H) xs \<and> xs \<noteq> [] \<and> hp_main H \<noteq> None"

lemma free_state [simp]:
  "is_free (s OR FREE_STATE)" "\<not> is_free (s AND NOT FREE_STATE)" "is_free FREE_STATE"
proof -
  have b: "bit FREE_STATE 0" by (simp add: FREE_STATE_def)
  have "bit ((s OR FREE_STATE) AND FREE_STATE) 0" using b by (simp add: bit_and_iff bit_or_iff)
  then show "is_free (s OR FREE_STATE)" unfolding is_free_def by (metis bit_0_eq bot_apply bot_bool_def)
  have "(s AND NOT FREE_STATE) AND FREE_STATE = s AND (NOT FREE_STATE AND FREE_STATE)" by (rule and.assoc)
  then show "\<not> is_free (s AND NOT FREE_STATE)" unfolding is_free_def by simp
qed (simp add: FREE_STATE_def is_free_def)

lemma chunk_free_stt: "chunk_free (hp_chunk H c) \<longleftrightarrow> is_free (stt H c)"
  by (simp add: chunk_free_def is_free_def fields)

lemma tiled_append [simp]: "tiled d s b (xs @ ys) e \<longleftrightarrow> (\<exists>m. tiled d s b xs m \<and> tiled d s m ys e)"
  by (induction xs arbitrary: b) auto

lemma tiled_upd [simp]:
  "c \<notin> set xs \<Longrightarrow> tiled (d(c := v)) s b xs e \<longleftrightarrow> tiled d s b xs e"
  "c \<notin> set xs \<Longrightarrow> tiled d (s(c := v)) b xs e \<longleftrightarrow> tiled d s b xs e"
  by (induction xs arbitrary: b) auto

lemma free_ids_simps [simp]:
  "free_ids st [] = []" "free_ids st (xs @ ys) = free_ids st xs @ free_ids st ys"
  "free_ids st (c # xs) = (if is_free (st c) then c # free_ids st xs else free_ids st xs)"
  "c \<notin> set xs \<Longrightarrow> free_ids (st(c := v)) xs = free_ids st xs"
  by (auto simp: free_ids_def intro: filter_cong)

lemma notin_free_ids [simp]: "c \<notin> set xs \<Longrightarrow> c \<notin> set (free_ids st xs)"
  by (simp add: free_ids_def)

lemma free_ids_split:
  assumes "free_ids st xs = us @ c # vs"
  obtains as bs where "xs = as @ c # bs" "us = free_ids st as" "vs = free_ids st bs" "is_free (st c)"
  using assms
proof (induction xs arbitrary: us thesis)
  case (Cons x xs)
  show ?case
  proof (cases "is_free (st x) \<and> us = []")
    case True
    then show ?thesis using Cons(3) by (intro Cons(2) [of "[]"]) auto
  next
    case False
    obtain us' where us': "free_ids st xs = us' @ c # vs" "us = (if is_free (st x) then x # us' else us')"
      using Cons(3) False by (cases us) (auto split: if_splits)
    show ?thesis
      by (rule Cons(1) [OF _ us'(1)], rule Cons(2) [of "x # _"]) (use us'(2) in auto)
  qed
qed simp

section \<open>Allocation keeps the heap well formed\<close>

lemma best_fit_result:
  "chain (\<lambda>c. ck_freelink (ch c)) x ys None \<Longrightarrow>
   \<exists>r. best_fit ch sz x pf best = Some r \<and>
     ((r = best \<and> (\<forall>y\<in>set ys. ck_size (ch y) < sz)) \<or>
      (\<exists>us c vs. ys = us @ c # vs \<and> sz \<le> ck_size (ch c) \<and> (\<forall>y\<in>set vs. ck_size (ch y) < sz) \<and>
         r = Some (ck_size (ch c), c, if us = [] then pf else Some (last us))))"
proof (induction ys arbitrary: x pf best)
  case Nil
  then show ?case by (subst best_fit.simps) simp
next
  case (Cons y ys)
  then have x: "x = Some y" and ch: "chain (\<lambda>c. ck_freelink (ch c)) (ck_freelink (ch y)) ys None" by auto
  let ?best = "if sz \<le> ck_size (ch y) then Some (ck_size (ch y), y, pf) else best"
  obtain r where r: "best_fit ch sz (ck_freelink (ch y)) (Some y) ?best = Some r"
    "(r = ?best \<and> (\<forall>z\<in>set ys. ck_size (ch z) < sz)) \<or>
      (\<exists>us c vs. ys = us @ c # vs \<and> sz \<le> ck_size (ch c) \<and> (\<forall>z\<in>set vs. ck_size (ch z) < sz) \<and>
         r = Some (ck_size (ch c), c, if us = [] then Some y else Some (last us)))"
    using Cons(1) [OF ch, of "Some y" ?best] by blast
  have e: "best_fit ch sz x pf best = Some r" unfolding x using r(1) by (subst best_fit.simps) simp
  from r(2) show ?case
  proof (elim disjE exE conjE)
    assume "r = ?best" "\<forall>z\<in>set ys. ck_size (ch z) < sz"
    then show ?thesis using e
      by (intro exI [of _ r] conjI) (auto split: if_splits intro!: exI [of _ "[]"])
  next
    fix us c vs
    assume "ys = us @ c # vs" "sz \<le> ck_size (ch c)" "\<forall>z\<in>set vs. ck_size (ch z) < sz"
      "r = Some (ck_size (ch c), c, if us = [] then Some y else Some (last us))"
    then show ?thesis using e
      by (intro exI [of _ r] conjI disjI2 exI [of _ "y # us"] exI [of _ c] exI [of _ vs]) auto
  qed
qed

lemma split_fields:
  assumes "c < hp_fresh H" "\<forall>n. nxt H c = Some n \<longrightarrow> n < hp_fresh H \<and> n \<noteq> c"
  shows "nxt (split_chunk c sz H) =
      (nxt H)(hp_fresh H := nxt H c, c := Some (hp_fresh H))"
    "prv (split_chunk c sz H) = (case nxt H c of
        None \<Rightarrow> (prv H)(hp_fresh H := Some c)
      | Some n \<Rightarrow> (prv H)(hp_fresh H := Some c, n := Some (hp_fresh H)))"
    "flk (split_chunk c sz H) =
      (flk H)(hp_fresh H := flk H c, c := Some (hp_fresh H))"
    "stt (split_chunk c sz H) = (stt H)(hp_fresh H := FREE_STATE)"
    "szs (split_chunk c sz H) =
      (szs H)(hp_fresh H := szs H c - sz, c := sz)"
    "dpt (split_chunk c sz H) =
      (dpt H)(hp_fresh H := sz + dpt H c)"
    "hp_free (split_chunk c sz H) = hp_free H" "hp_main (split_chunk c sz H) = hp_main H"
    "hp_fresh (split_chunk c sz H) = Suc (hp_fresh H)"
  using assms by (auto simp: split_chunk_def Let_def fun_eq_iff fields split: option.split)

lemma split_wf:
  assumes wf: "heap_wf b e (as @ c # bs) H" and free: "is_free (stt H c)"
    and sz: "0 < sz" "sz < szs H c" "8 dvd sz"
  shows "heap_wf b e (as @ c # hp_fresh H # bs) (split_chunk c sz H)"
proof -
  let ?r = "hp_fresh H" and ?H = "split_chunk c sz H"
  note W = wf [unfolded heap_wf_def]
  have d: "distinct (as @ c # bs)" and lt: "\<forall>a\<in>set (as @ c # bs). a < ?r" using W by blast+
  then have r: "?r \<notin> set as" "?r \<notin> set bs" "?r \<noteq> c" and c: "c < ?r" by auto
  obtain x where nx: "chain (nxt H) x as (Some c)" "chain (nxt H) (nxt H c) bs None" using W by auto
  obtain z where pv: "chain (prv H) z (rev bs) (Some c)" "chain (prv H) (prv H c) (rev as) None" using W by auto
  have n: "\<forall>n. nxt H c = Some n \<longrightarrow> n < ?r \<and> n \<noteq> c" using nx(2) d lt by (cases bs) auto
  note F = split_fields [OF c n, where sz = sz]
  have "distinct (as @ c # ?r # bs)" "\<forall>a\<in>set (as @ c # ?r # bs). a < hp_fresh ?H"
    using d lt r c by (auto simp: F intro: less_SucI)
  moreover have "\<exists>x. chain (nxt ?H) x (as @ c # ?r # bs) None" using nx r d unfolding F by auto
  moreover have "\<exists>x. chain (prv ?H) x (rev (as @ c # ?r # bs)) None"
    using nx pv r d unfolding F by (cases bs) auto
  moreover have "chain (flk ?H) (hp_free ?H) (free_ids (stt ?H) (as @ c # ?r # bs)) None"
    using W free r d unfolding F by auto
  moreover have "tiled (dpt ?H) (szs ?H) b (as @ c # ?r # bs) e"
    using W r d sz unfolding F by auto
  moreover have "\<forall>a\<in>set (as @ c # ?r # bs). 8 dvd szs ?H a"
    using W sz r unfolding F by (auto intro: dvd_diff_nat)
  ultimately show "heap_wf b e (as @ c # ?r # bs) ?H" unfolding heap_wf_def by blast
qed

lemma unlink_fields:
  assumes "prevfree \<noteq> Some c"
  shows "nxt (unlink_free prevfree c H) = nxt H" "prv (unlink_free prevfree c H) = prv H"
    "dpt (unlink_free prevfree c H) = dpt H" "szs (unlink_free prevfree c H) = szs H"
    "stt (unlink_free prevfree c H) = (stt H)(c := stt H c AND NOT FREE_STATE)"
    "flk (unlink_free prevfree c H) = (case prevfree of None \<Rightarrow> (flk H)(c := None) | Some p \<Rightarrow> (flk H)(p := flk H c, c := None))"
    "hp_free (unlink_free prevfree c H) = (case prevfree of None \<Rightarrow> flk H c | Some p \<Rightarrow> hp_free H)"
    "hp_fresh (unlink_free prevfree c H) = hp_fresh H" "hp_main (unlink_free prevfree c H) = hp_main H"
  using assms by (auto simp: unlink_free_def Let_def fun_eq_iff fields split: option.split)

lemma unlink_wf:
  assumes wf: "heap_wf b e (as @ c # bs) H" and free: "is_free (stt H c)"
    and pf: "prevfree = (if free_ids (stt H) as = [] then None else Some (last (free_ids (stt H) as)))"
  shows "prevfree \<noteq> Some c" "heap_wf b e (as @ c # bs) (unlink_free prevfree c H)"
proof -
  note W = wf [unfolded heap_wf_def]
  have d: "distinct (as @ c # bs)" using W by blast
  have sub: "set (free_ids (stt H) xs) \<subseteq> set xs" for xs by (auto simp: free_ids_def)
  have dist: "distinct (free_ids (stt H) as)" using d by (simp add: free_ids_def)
  show ne: "prevfree \<noteq> Some c"
  proof
    assume "prevfree = Some c"
    then have "c \<in> set (free_ids (stt H) as)" using pf by (metis last_in_set option.distinct(1) option.inject)
    then show False using sub [of as] d by auto
  qed
  have ch: "chain (flk H) (hp_free H) (free_ids (stt H) as) (Some c)" "chain (flk H) (flk H c) (free_ids (stt H) bs) None"
    using W free by auto
  let ?H = "unlink_free prevfree c H"
  note F = unlink_fields [OF ne, of H]
  have "chain (flk ?H) (hp_free ?H) (free_ids (stt ?H) (as @ c # bs)) None"
  proof (cases "free_ids (stt H) as" rule: rev_cases)
    case Nil
    then show ?thesis unfolding F using ch d pf by simp
  next
    case (snoc us p)
    then have p: "p \<in> set as" "p \<notin> set us" using sub [of as] dist by auto
    then have "p \<noteq> c" "p \<notin> set bs" using d by auto
    moreover have "c \<notin> set us" using sub [of as] snoc d by auto
    ultimately show ?thesis unfolding F using ch d pf p snoc by simp
  qed
  then show "heap_wf b e (as @ c # bs) ?H" using W unfolding heap_wf_def F by blast
qed

lemma coalesced_append:
  "coalesced st (xs @ ys) \<longleftrightarrow> coalesced st xs \<and> coalesced st ys \<and>
     (xs \<noteq> [] \<and> ys \<noteq> [] \<longrightarrow> \<not> (is_free (st (last xs)) \<and> is_free (st (hd ys))))"
  by (auto simp: coalesced_def successively_append_iff)

lemma coalesced_Cons:
  "coalesced st (x # ys) \<longleftrightarrow> coalesced st ys \<and> (ys \<noteq> [] \<longrightarrow> \<not> (is_free (st x) \<and> is_free (st (hd ys))))"
  by (cases ys) (auto simp: coalesced_def)

lemma coalesced_Nil [simp]: "coalesced st []"
  by (simp add: coalesced_def)

lemma coalesced_frame: "c \<notin> set xs \<Longrightarrow> coalesced (st(c := v)) xs \<longleftrightarrow> coalesced st xs"
  unfolding coalesced_def by (rule successively_cong) auto

lemma align8: "unat (x AND - 8 :: 64 word) = 8 * (unat x div 8)"
proof -
  have m: "(- 8 :: 64 word) = NOT (mask 3)" by (simp add: mask_eq_exp_minus_1)
  have "x AND - 8 = push_bit 3 (drop_bit 3 x)"
    unfolding m by (rule bit_word_eqI) (auto simp: bit_and_iff bit_not_iff bit_push_bit_iff bit_drop_bit_eq bit_mask_iff)
  then have "unat (x AND - 8) = (8 * (unat x div 8)) mod 2 ^ 64"
    by (simp add: push_bit_eq_mult drop_bit_eq_div mult.commute unat_word_ariths unat_div) (simp add: mod_mult_right_eq)
  moreover have "8 * (unat x div 8) \<le> unat x" by simp
  moreover have "unat x < 2 ^ 64" using unsigned_less [of x, where ?'a = nat] by simp
  ultimately show ?thesis by simp
qed

lemma request_size_ok: "0 < request_size x" "8 dvd request_size x" "unat x \<le> 2 ^ 64 - 8 \<Longrightarrow> unat x \<le> request_size x"
proof -
  show "0 < request_size x" by (simp add: request_size_def Let_def sizeof_chunk_def)
  show "8 dvd request_size x" by (simp add: request_size_def Let_def sizeof_chunk_def align8)
  assume "unat x \<le> 2 ^ 64 - 8"
  then have "unat (x + 7) = unat x + 7" by (subst unat_add_lem [THEN iffD1]) auto
  then have "unat ((x + 7) AND - 8) = 8 * ((unat x + 7) div 8)" by (simp add: align8)
  moreover have "unat x \<le> 8 * ((unat x + 7) div 8)" by presburger
  ultimately show "unat x \<le> request_size x" unfolding request_size_def Let_def by simp
qed

lemma best_fit_alt:
  assumes "chain (flk H) (hp_free H) ys None"
  obtains (none) "best_fit (hp_chunk H) sz (hp_free H) None None = Some None" "\<forall>y\<in>set ys. szs H y < sz"
  | (fit) us c vs where "ys = us @ c # vs" "sz \<le> szs H c" "best_fit (hp_chunk H) sz (hp_free H) None None =
      Some (Some (szs H c, c, if us = [] then None else Some (last us)))"
proof -
  have "flk H = (\<lambda>c. ck_freelink (hp_chunk H c))" by (simp add: fun_eq_iff flk_def)
  then have "chain (\<lambda>c. ck_freelink (hp_chunk H c)) (hp_free H) ys None" using assms by simp
  from best_fit_result [OF this, of sz None None] show thesis
    using none fit by (auto simp: szs_def)
qed

text \<open>The effect of an allocation on a well-formed heap: nothing when no free chunk is large enough; otherwise a free
  chunk is taken, whole or split.\<close>

definition alloc_list :: "nat \<Rightarrow> nat \<Rightarrow> heap \<Rightarrow> nat list" where
  "alloc_list c sz H = (if sz \<le> 2 * (szs H c - sz) then [c, hp_fresh H] else [c])"

lemma alloc_cases:
  assumes ok: "heap_ok b e xs H"
  obtains (fail) "kaapi_memory_alloc base mem rq H = Some (None, H)"
      "\<forall>c\<in>set xs. is_free (stt H c) \<longrightarrow> szs H c < request_size rq"
    | (taken) as c bs H' where "xs = as @ c # bs" "is_free (stt H c)" "request_size rq \<le> szs H c"
      "kaapi_memory_alloc base mem rq H = Some (Some (dpt H c, c), H')"
      "heap_ok b e (as @ alloc_list c (request_size rq) H @ bs) H'"
      "stt H' c = stt H c AND NOT FREE_STATE" "dpt H' c = dpt H c"
      "szs H' c = (if request_size rq \<le> 2 * (szs H c - request_size rq) then request_size rq else szs H c)"
      "\<forall>a\<in>set as \<union> set bs. stt H' a = stt H a \<and> dpt H' a = dpt H a \<and> szs H' a = szs H a"
      "c \<notin> set as \<union> set bs" "hp_fresh H \<notin> set xs" "stt H' (hp_fresh H) = FREE_STATE \<or> alloc_list c (request_size rq) H = [c]"
proof -
  let ?sz = "request_size rq"
  have wf: "heap_wf b e xs H" and co: "coalesced (stt H) xs" and main: "hp_main H \<noteq> None" and lt: "\<forall>a\<in>set xs. a < hp_fresh H"
    using ok by (simp_all add: heap_ok_def heap_wf_def)
  have i: "init_main_chunk base mem H = H" using main by (auto simp: init_main_chunk_def)
  have "chain (flk H) (hp_free H) (free_ids (stt H) xs) None" using wf by (simp add: heap_wf_def)
  then show thesis
  proof (cases rule: best_fit_alt [where sz = ?sz])
    case none
    then show ?thesis
      by (intro fail) (auto simp: kaapi_memory_alloc_def i Let_def free_ids_def)
  next
    case (fit us c vs)
    obtain as bs where xs: "xs = as @ c # bs" and us: "us = free_ids (stt H) as" and free: "is_free (stt H c)"
      using free_ids_split [OF fit(1)] by metis
    let ?pf = "if us = [] then None else Some (last us)" and ?split = "?sz \<le> 2 * (szs H c - ?sz)"
    let ?H1 = "if ?split then split_chunk c ?sz H else H" and ?ys = "as @ alloc_list c ?sz H @ bs"
    let ?H' = "unlink_free ?pf c ?H1"
    have d: "distinct (as @ c # bs)" using wf xs by (simp add: heap_wf_def)
    have r: "hp_fresh H \<notin> set xs" using lt by blast
    then have rc: "hp_fresh H \<noteq> c" "hp_fresh H \<notin> set as" "hp_fresh H \<notin> set bs" using xs by auto
    have nxt_lt: "\<forall>n. nxt H c = Some n \<longrightarrow> n < hp_fresh H \<and> n \<noteq> c"
      using wf d lt unfolding xs by (cases bs) (auto simp: heap_wf_def)
    have "c < hp_fresh H" using lt xs by simp
    note F = split_fields [OF this nxt_lt, of ?sz]
    obtain tl where ys: "?ys = as @ c # tl" by (cases ?split) (auto simp: alloc_list_def)
    have wf1: "heap_wf b e ?ys ?H1"
    proof (cases ?split)
      case True
      have "?sz < szs H c" using True request_size_ok(1) [of rq] fit(2) by linarith
      then show ?thesis using True split_wf [OF wf [unfolded xs] free, of ?sz] request_size_ok(1,2) by (simp add: alloc_list_def)
    next
      case False then show ?thesis using wf xs by (simp add: alloc_list_def)
    qed
    have f1: "is_free (stt ?H1 c)" using free rc by (simp add: F)
    have fa: "free_ids (stt ?H1) as = us" using rc by (simp add: F us)
    have pf: "?pf = (if free_ids (stt ?H1) as = [] then None else Some (last (free_ids (stt ?H1) as)))" by (simp add: fa)
    note U = unlink_wf [OF wf1 [unfolded ys] f1 pf]
    note G = unlink_fields [OF U(1), of ?H1]
    have co': "coalesced (stt ?H') ?ys"
    proof -
      have c1: "coalesced (stt H) as" "coalesced (stt H) bs" and nb: "bs \<noteq> [] \<Longrightarrow> \<not> is_free (stt H (hd bs))"
        using co free unfolding xs by (auto simp: coalesced_append coalesced_Cons)
      have hb: "bs \<noteq> [] \<Longrightarrow> hd bs \<in> set bs" by simp
      have st: "stt ?H' = (if ?split then (stt H)(hp_fresh H := FREE_STATE) else stt H)(c := stt H c AND NOT FREE_STATE)"
        using rc by (simp add: G F)
      have "coalesced (stt ?H') as" "coalesced (stt ?H') bs" unfolding st using c1 d rc by (simp_all add: coalesced_frame)
      moreover have "\<not> is_free (stt ?H' c)" unfolding st by simp
      moreover have "bs \<noteq> [] \<Longrightarrow> \<not> is_free (stt ?H' (hd bs))" unfolding st using nb hb d rc by (cases bs) auto
      ultimately show ?thesis by (auto simp: alloc_list_def coalesced_append coalesced_Cons)
    qed
    have "kaapi_memory_alloc base mem rq H = Some (Some (ck_device_ptr (hp_chunk ?H' c), c), ?H')"
      using fit(3) by (simp add: kaapi_memory_alloc_def i Let_def)
    moreover have "ck_device_ptr (hp_chunk ?H' c) = dpt ?H' c" by (simp add: fields)
    moreover have dp: "dpt ?H' c = dpt H c" using rc by (simp add: G F)
    ultimately show ?thesis
      using U(2) [folded ys] co' main fit(2) d rc
      by (intro taken [OF xs free, of ?H']) (auto simp: heap_ok_def G F r alloc_list_def)
  qed
qed

section \<open>Release keeps the heap well formed\<close>

definition heap_dll :: "nat \<Rightarrow> nat \<Rightarrow> nat list \<Rightarrow> heap \<Rightarrow> bool" where
  "heap_dll b e xs H \<longleftrightarrow> distinct xs \<and> (\<forall>c\<in>set xs. c < hp_fresh H) \<and>
     (\<exists>x. chain (nxt H) x xs None) \<and> (\<exists>x. chain (prv H) x (rev xs) None) \<and>
     tiled (dpt H) (szs H) b xs e \<and> (\<forall>c\<in>set xs. 8 dvd szs H c)"

lemma heap_wf_dll: "heap_wf b e xs H \<longleftrightarrow> heap_dll b e xs H \<and> chain (flk H) (hp_free H) (free_ids (stt H) xs) None"
  unfolding heap_wf_def heap_dll_def by blast

lemma merge_next_fields:
  assumes "n \<noteq> c" "prv H c \<noteq> Some c" "prv H c \<noteq> Some n"
  shows "nxt (merge_next c n H) = (case prv H c of None \<Rightarrow> nxt H | Some p \<Rightarrow> (nxt H)(p := Some n))"
    "prv (merge_next c n H) = (prv H)(n := prv H c)" "szs (merge_next c n H) = (szs H)(n := szs H n + szs H c)"
    "dpt (merge_next c n H) = (dpt H)(n := dpt H c)" "flk (merge_next c n H) = flk H" "stt (merge_next c n H) = stt H"
    "hp_free (merge_next c n H) = hp_free H" "hp_fresh (merge_next c n H) = hp_fresh H" "hp_main (merge_next c n H) = hp_main H"
  using assms by (auto simp: merge_next_def Let_def fun_eq_iff fields split: option.split)

lemma merge_prev_fields:
  assumes "nxt H k \<noteq> Some p" "k \<noteq> p"
  shows "nxt (merge_prev p k H) = (nxt H)(p := nxt H k)"
    "prv (merge_prev p k H) = (case nxt H k of None \<Rightarrow> prv H | Some m \<Rightarrow> (prv H)(m := Some p))"
    "szs (merge_prev p k H) = (szs H)(p := szs H p + szs H k)" "dpt (merge_prev p k H) = dpt H"
    "flk (merge_prev p k H) = flk H" "stt (merge_prev p k H) = stt H"
    "hp_free (merge_prev p k H) = hp_free H" "hp_fresh (merge_prev p k H) = hp_fresh H" "hp_main (merge_prev p k H) = hp_main H"
  using assms by (auto simp: merge_prev_def set_prev_of_def Let_def fun_eq_iff fields split: option.split)

lemma merge_prev_next_fields:
  assumes "nxt H k \<noteq> Some p" "k \<noteq> p"
  shows "nxt (merge_prev_next p k H) = (nxt H)(p := nxt H k)"
    "prv (merge_prev_next p k H) = (case nxt H k of None \<Rightarrow> prv H | Some m \<Rightarrow> (prv H)(m := Some p))"
    "szs (merge_prev_next p k H) = (szs H)(p := szs H p + szs H k)" "dpt (merge_prev_next p k H) = dpt H"
    "flk (merge_prev_next p k H) = (flk H)(p := flk H k)" "stt (merge_prev_next p k H) = stt H"
    "hp_free (merge_prev_next p k H) = hp_free H" "hp_fresh (merge_prev_next p k H) = hp_fresh H"
    "hp_main (merge_prev_next p k H) = hp_main H"
  using assms by (auto simp: merge_prev_next_def set_prev_of_def Let_def fun_eq_iff fields split: option.split)

lemma merge_next_dll:
  assumes dl: "heap_dll b e (as @ c # n # bs) H"
  shows "n \<noteq> c" "prv H c \<noteq> Some c" "prv H c \<noteq> Some n" "heap_dll b e (as @ n # bs) (merge_next c n H)"
proof -
  note D = dl [unfolded heap_dll_def]
  have d: "distinct (as @ c # n # bs)" using D by blast
  have pv: "chain (prv H) (prv H c) (rev as) None" using D by auto
  then have p: "prv H c = (if as = [] then None else Some (last as))" by (cases as rule: rev_cases) auto
  show ne: "n \<noteq> c" "prv H c \<noteq> Some c" "prv H c \<noteq> Some n" using d p by auto
  note F = merge_next_fields [OF ne]
  show "heap_dll b e (as @ n # bs) (merge_next c n H)"
    using D p unfolding heap_dll_def F by (cases as rule: rev_cases) (auto simp: add.commute add.left_commute)
qed

lemma absorb_dll:
  assumes dl: "heap_dll b e (as @ p # k # bs) H"
  shows "nxt H k \<noteq> Some p" "k \<noteq> p" "heap_dll b e (as @ p # bs) (merge_prev p k H)"
    "heap_dll b e (as @ p # bs) (merge_prev_next p k H)"
proof -
  note D = dl [unfolded heap_dll_def]
  have d: "distinct (as @ p # k # bs)" using D by blast
  have nx: "chain (nxt H) (nxt H k) bs None" using D by auto
  then have n: "nxt H k = (case bs of [] \<Rightarrow> None | m # _ \<Rightarrow> Some m)" by (cases bs) auto
  show ne: "nxt H k \<noteq> Some p" "k \<noteq> p" using d n by (cases bs; auto)+
  note F = merge_prev_fields [OF ne] and G = merge_prev_next_fields [OF ne]
  show "heap_dll b e (as @ p # bs) (merge_prev p k H)" using D n unfolding heap_dll_def F
    by (cases bs) (auto simp: add.commute add.left_commute)
  show "heap_dll b e (as @ p # bs) (merge_prev_next p k H)" using D n unfolding heap_dll_def G
    by (cases bs) (auto simp: add.commute add.left_commute)
qed

lemma prev_free_result:
  "chain (prv H) x (rev as) None \<Longrightarrow>
   prev_free (hp_chunk H) x = Some (if free_ids (stt H) as = [] then None else Some (last (free_ids (stt H) as)))"
proof (induction as arbitrary: x rule: rev_induct)
  case Nil then show ?case by (subst prev_free.simps) simp
next
  case (snoc a as)
  then have x: "x = Some a" and ch: "chain (prv H) (prv H a) (rev as) None" by auto
  show ?case using snoc(1) [OF ch] unfolding x by (subst prev_free.simps) (simp add: chunk_free_stt flip: prv_def)
qed

lemma push_free_fields:
  "nxt (push_free c H) = nxt H" "prv (push_free c H) = prv H" "szs (push_free c H) = szs H" "dpt (push_free c H) = dpt H"
  "flk (push_free c H) = (flk H)(c := hp_free H)" "stt (push_free c H) = stt H" "hp_free (push_free c H) = Some c"
  "hp_fresh (push_free c H) = hp_fresh H" "hp_main (push_free c H) = hp_main H"
  by (auto simp: push_free_def fun_eq_iff fields)

lemma link_after_fields:
  "nxt (link_after q c H) = nxt H" "prv (link_after q c H) = prv H" "szs (link_after q c H) = szs H" "dpt (link_after q c H) = dpt H"
  "flk (link_after q c H) = (flk H)(c := flk H q, q := Some c)" "stt (link_after q c H) = stt H"
  "hp_free (link_after q c H) = hp_free H" "hp_fresh (link_after q c H) = hp_fresh H" "hp_main (link_after q c H) = hp_main H"
  by (auto simp: link_after_def fun_eq_iff fields)

definition set_free :: "nat \<Rightarrow> heap \<Rightarrow> heap" where
  "set_free c H = upd_chunk c (\<lambda>k. k\<lparr>ck_state := ck_state k OR FREE_STATE\<rparr>) H"

lemma set_free_fields:
  "nxt (set_free c H) = nxt H" "prv (set_free c H) = prv H" "szs (set_free c H) = szs H" "dpt (set_free c H) = dpt H"
  "flk (set_free c H) = flk H" "stt (set_free c H) = (stt H)(c := stt H c OR FREE_STATE)" "hp_free (set_free c H) = hp_free H"
  "hp_fresh (set_free c H) = hp_fresh H" "hp_main (set_free c H) = hp_main H"
  by (auto simp: set_free_def fun_eq_iff fields)

text \<open>The four cases of a release: which chunks are left, and in which heap.\<close>

lemma free_alt:
  "kaapi_memory_free (Some (d, c)) H =
     (let H1 = set_free c H; todel = (case nxt H1 c of Some n \<Rightarrow> is_free (stt H1 n) | None \<Rightarrow> False);
          n = the (nxt H1 c); H2 = (if todel then merge_next c n H1 else H1)
      in case prv H2 c of
          Some p \<Rightarrow> if is_free (stt H2 p) then Some (if todel then merge_prev_next p n H2 else merge_prev p c H2)
            else if todel then Some H2
            else map_option (\<lambda>q. case q of None \<Rightarrow> push_free c H2 | Some q \<Rightarrow> link_after q c H2) (prev_free (hp_chunk H2) (Some p))
        | None \<Rightarrow> Some (if todel then H2 else push_free c H2))"
  unfolding kaapi_memory_free_def set_free_def [symmetric] chunk_free_stt nxt_def [symmetric] prv_def [symmetric]
  by (simp only: option.case prod.case Let_def)

definition same_blocks :: "nat list \<Rightarrow> heap \<Rightarrow> heap \<Rightarrow> bool" where
  "same_blocks xs H H' \<longleftrightarrow> (\<forall>a\<in>set xs. \<not> is_free (stt H a) \<longrightarrow> \<not> is_free (stt H' a) \<and> dpt H' a = dpt H a \<and> szs H' a = szs H a)"

lemma free_ok:
  assumes ok: "heap_ok b e (as @ c # bs) H" and used: "\<not> is_free (stt H c)"
  shows "\<exists>xs' H'. kaapi_memory_free (Some (d, c)) H = Some H' \<and> heap_ok b e xs' H' \<and> set xs' \<subseteq> set (as @ c # bs) \<and>
    {a \<in> set xs'. \<not> is_free (stt H' a)} = {a \<in> set (as @ bs). \<not> is_free (stt H a)} \<and> same_blocks (as @ bs) H H'"
proof -
  let ?H1 = "set_free c H"
  have wf: "heap_wf b e (as @ c # bs) H" and co: "coalesced (stt H) (as @ c # bs)" and main: "hp_main H \<noteq> None"
    using ok by (simp_all add: heap_ok_def)
  have dl: "heap_dll b e (as @ c # bs) H" and fl: "chain (flk H) (hp_free H) (free_ids (stt H) as @ free_ids (stt H) bs) None"
    using wf used by (auto simp: heap_wf_dll)
  have d: "distinct (as @ c # bs)" using dl by (simp add: heap_dll_def)
  have dl1: "heap_dll b e (as @ c # bs) ?H1" using dl by (simp add: heap_dll_def set_free_fields)
  have pv: "chain (prv H) (prv H c) (rev as) None" and nx: "chain (nxt H) (nxt H c) bs None"
    using dl by (auto simp: heap_dll_def)
  have nxc: "nxt ?H1 c = (case bs of [] \<Rightarrow> None | n # _ \<Rightarrow> Some n)" using nx by (cases bs) (auto simp: set_free_fields)
  have prc: "prv ?H1 c = (if as = [] then None else Some (last as))" using pv by (cases as rule: rev_cases) (auto simp: set_free_fields)
  have c1: "coalesced (stt H) as" "coalesced (stt H) bs" using co by (auto simp: coalesced_append coalesced_Cons)
  note S = set_free_fields [of c H]
  show ?thesis
  proof (cases "\<exists>n ns. bs = n # ns \<and> is_free (stt H n)")
    case True
    then obtain n ns where bs: "bs = n # ns" and n: "is_free (stt H n)" by blast
    let ?H2 = "merge_next c n ?H1"
    note M = merge_next_dll [OF dl1 [unfolded bs]]
    note F = merge_next_fields [OF M(1-3)]
    have todel: "(case nxt ?H1 c of Some n \<Rightarrow> is_free (stt ?H1 n) | None \<Rightarrow> False) = True" "the (nxt ?H1 c) = n"
      unfolding nxc bs using n d bs by (simp_all add: S)
    have p2: "prv ?H2 c = (if as = [] then None else Some (last as))" using prc M(1) by (simp add: F)
    have nn: "ns \<noteq> [] \<Longrightarrow> \<not> is_free (stt H (hd ns))" using co n unfolding bs by (auto simp: coalesced_append coalesced_Cons)
    show ?thesis
    proof (cases "as \<noteq> [] \<and> is_free (stt H (last as))")
      case True
      then obtain as' p where as: "as = as' @ [p]" and p: "is_free (stt H p)" by (cases as rule: rev_cases) auto
      let ?H3 = "merge_prev_next p n ?H2"
      have dl2: "heap_dll b e (as' @ p # n # ns) ?H2" using M(4) as by simp
      note A = absorb_dll [OF dl2]
      note G = merge_prev_next_fields [OF A(1,2)]
      have "heap_wf b e (as' @ p # ns) ?H3"
        unfolding heap_wf_dll using A(4) fl d n p by (auto simp: G F S as bs)
      moreover have "coalesced (stt ?H3) (as' @ p # ns)"
      proof -
        have "coalesced (stt H) (as' @ p # ns)" using co nn unfolding as bs by (auto simp: coalesced_append coalesced_Cons)
        then show ?thesis unfolding G F S using d by (subst coalesced_frame) (auto simp: as bs)
      qed
      ultimately have "heap_ok b e (as' @ p # ns) ?H3" using main by (simp add: heap_ok_def G F S)
      moreover have "kaapi_memory_free (Some (d', c)) H = Some ?H3" for d'
        unfolding free_alt Let_def todel if_True p2 using as p d by (simp add: F S)
      ultimately show ?thesis
        using d n p used by (intro exI [of _ "as' @ p # ns"] exI [of _ ?H3]) (auto simp: as bs same_blocks_def G F S)
    next
      case False
      have "heap_wf b e (as @ n # ns) ?H2" unfolding heap_wf_dll using M(4) fl d n by (auto simp: F S bs)
      moreover have "coalesced (stt ?H2) (as @ n # ns)"
      proof -
        have "coalesced (stt H) (as @ n # ns)" using co nn False unfolding bs by (auto simp: coalesced_append coalesced_Cons)
        then show ?thesis unfolding F S using d by (subst coalesced_frame) (auto simp: bs)
      qed
      ultimately have "heap_ok b e (as @ n # ns) ?H2" using main by (simp add: heap_ok_def F S)
      moreover have "kaapi_memory_free (Some (d', c)) H = Some ?H2" for d'
        unfolding free_alt Let_def todel if_True p2 using False d by (auto simp: F S)
      ultimately show ?thesis
        using d n used by (intro exI [of _ "as @ n # ns"] exI [of _ ?H2]) (auto simp: bs same_blocks_def F S)
    qed
  next
    case nodel: False
    have todel: "(case nxt ?H1 c of Some n \<Rightarrow> is_free (stt ?H1 n) | None \<Rightarrow> False) = False"
      unfolding nxc using nodel d by (cases bs) (auto simp: S)
    have hb: "bs \<noteq> [] \<Longrightarrow> \<not> is_free (stt H (hd bs))" using nodel by (cases bs) auto
    show ?thesis
    proof (cases "as \<noteq> [] \<and> is_free (stt H (last as))")
      case True
      then obtain as' p where as: "as = as' @ [p]" and p: "is_free (stt H p)" by (cases as rule: rev_cases) auto
      let ?H3 = "merge_prev p c ?H1"
      note A = absorb_dll [of b e as' p c bs ?H1, OF dl1 [unfolded as append_assoc append.simps]]
      note G = merge_prev_fields [OF A(1,2)]
      have "heap_wf b e (as' @ p # bs) ?H3"
        unfolding heap_wf_dll using A(3) fl d p by (auto simp: G S as)
      moreover have "coalesced (stt ?H3) (as' @ p # bs)"
      proof -
        have "coalesced (stt H) (as' @ p # bs)" using co hb unfolding as by (auto simp: coalesced_append coalesced_Cons)
        then show ?thesis unfolding G S using d by (subst coalesced_frame) (auto simp: as)
      qed
      ultimately have "heap_ok b e (as' @ p # bs) ?H3" using main by (simp add: heap_ok_def G S)
      moreover have "kaapi_memory_free (Some (d', c)) H = Some ?H3" for d'
        unfolding free_alt Let_def todel if_False prc using as p d by (simp add: S)
      ultimately show ?thesis
        using d p used by (intro exI [of _ "as' @ p # bs"] exI [of _ ?H3]) (auto simp: as same_blocks_def G S)
    next
      case False
      let ?us = "free_ids (stt H) as"
      let ?H3 = "if ?us = [] then push_free c ?H1 else link_after (last ?us) c ?H1"
      have sub: "set ?us \<subseteq> set as" by (auto simp: free_ids_def)
      have st3: "stt ?H3 = (stt H)(c := stt H c OR FREE_STATE)" "hp_main ?H3 = hp_main H"
        by (simp_all add: push_free_fields link_after_fields S)
      have pf: "prev_free (hp_chunk ?H1) (prv ?H1 c) = Some (if ?us = [] then None else Some (last ?us))"
        using prev_free_result [of ?H1 "prv ?H1 c" as] pv d by (simp add: S)
      have "heap_dll b e (as @ c # bs) ?H3" using dl1 by (simp add: heap_dll_def push_free_fields link_after_fields)
      moreover have "chain (flk ?H3) (hp_free ?H3) (free_ids (stt ?H3) (as @ c # bs)) None"
      proof (cases ?us rule: rev_cases)
        case Nil
        then show ?thesis using fl d unfolding st3 by (simp add: push_free_fields S)
      next
        case (snoc us q)
        then have "q \<in> set as" "c \<notin> set us" "q \<noteq> c" "q \<notin> set bs" using sub d by auto
        moreover have "distinct (us @ [q])" using d snoc by (metis distinct_append distinct_filter free_ids_def)
        ultimately show ?thesis using fl d snoc unfolding st3 by (simp add: link_after_fields S)
      qed
      ultimately have "heap_wf b e (as @ c # bs) ?H3" unfolding heap_wf_dll ..
      moreover have "coalesced (stt ?H3) (as @ c # bs)"
      proof -
        have "coalesced (stt ?H3) as" "coalesced (stt ?H3) bs" unfolding st3 using c1 d by (simp_all add: coalesced_frame)
        moreover have "bs \<noteq> [] \<Longrightarrow> \<not> is_free (stt ?H3 (hd bs))" unfolding st3 using hb d by (cases bs) auto
        moreover have "as \<noteq> [] \<Longrightarrow> \<not> is_free (stt ?H3 (last as))"
          unfolding st3 using False d by (cases as rule: rev_cases) auto
        ultimately show ?thesis by (auto simp: coalesced_append coalesced_Cons)
      qed
      ultimately have "heap_ok b e (as @ c # bs) ?H3" using main by (simp add: heap_ok_def st3)
      moreover have "kaapi_memory_free (Some (d', c)) H = Some ?H3" for d'
      proof (cases "as = []")
        case True
        then show ?thesis unfolding free_alt Let_def todel if_False prc by simp
      next
        case ne: False
        then have "prv ?H1 c = Some (last as)" "\<not> is_free (stt ?H1 (last as))" using prc False d by (auto simp: S)
        then show ?thesis unfolding free_alt Let_def todel if_False using pf by simp
      qed
      ultimately show ?thesis
        using d used by (intro exI [of _ "as @ c # bs"] exI [of _ ?H3])
          (auto simp: same_blocks_def st3 push_free_fields link_after_fields S)
    qed
  qed
qed

section \<open>Every sequence of allocations and releases\<close>

text \<open>The ghost set holds the blocks that the clients own: chunk, device address, size asked for.\<close>

inductive heap_reach :: "nat \<Rightarrow> 64 word \<Rightarrow> heap \<Rightarrow> (nat \<times> nat \<times> nat) set \<Rightarrow> bool" for base mem where
  start: "hp_free H = None \<Longrightarrow> hp_main H = None \<Longrightarrow> heap_reach base mem H {}"
| alloc: "heap_reach base mem H L \<Longrightarrow> kaapi_memory_alloc base mem sz H = Some (Some (d, c), H') \<Longrightarrow>
    heap_reach base mem H' (insert (c, d, request_size sz) L)"
| fail: "heap_reach base mem H L \<Longrightarrow> kaapi_memory_alloc base mem sz H = Some (None, H') \<Longrightarrow> heap_reach base mem H' L"
| free: "heap_reach base mem H L \<Longrightarrow> (c, d, n) \<in> L \<Longrightarrow> kaapi_memory_free (Some (d, c)) H = Some H' \<Longrightarrow>
    heap_reach base mem H' (L - {(c, d, n)})"

definition owned :: "nat list \<Rightarrow> heap \<Rightarrow> (nat \<times> nat \<times> nat) set \<Rightarrow> bool" where
  "owned xs H L \<longleftrightarrow> (\<forall>(c, d, n)\<in>L. c \<in> set xs \<and> \<not> is_free (stt H c) \<and> d = dpt H c \<and> n \<le> szs H c) \<and>
     (\<forall>a\<in>set xs. \<not> is_free (stt H a) \<longrightarrow> (\<exists>!dn. (a, dn) \<in> L))"

lemma init_main_ok:
  assumes "hp_free H = None" "hp_main H = None" "8 \<le> unat mem"
  shows "heap_ok base (base + unat (mem AND - 8)) [hp_fresh H] (init_main_chunk base mem H)"
    "owned [hp_fresh H] (init_main_chunk base mem H) {}"
    "kaapi_memory_alloc base mem sz H = kaapi_memory_alloc base mem sz (init_main_chunk base mem H)"
proof -
  let ?H = "init_main_chunk base mem H"
  have F: "nxt ?H (hp_fresh H) = None" "prv ?H (hp_fresh H) = None" "flk ?H (hp_fresh H) = None" "dpt ?H (hp_fresh H) = base"
    "szs ?H (hp_fresh H) = unat (mem AND - 8)" "stt ?H (hp_fresh H) = FREE_STATE OR MAIN_STATE" "hp_free ?H = Some (hp_fresh H)"
    "hp_main ?H = Some (Suc (hp_fresh H))" "hp_fresh ?H = Suc (Suc (hp_fresh H))"
    using assms by (simp_all add: init_main_chunk_def Let_def fields)
  have fr: "is_free (FREE_STATE OR MAIN_STATE)" by (simp add: is_free_def FREE_STATE_def MAIN_STATE_def)
  have "0 < unat (mem AND - 8)" "8 dvd unat (mem AND - 8)" using assms(3) by (simp_all add: align8)
  then show "heap_ok base (base + unat (mem AND - 8)) [hp_fresh H] ?H"
    by (simp add: heap_ok_def heap_wf_def F fr coalesced_def)
  show "owned [hp_fresh H] ?H {}" by (simp add: owned_def F fr)
  show "kaapi_memory_alloc base mem sz H = kaapi_memory_alloc base mem sz ?H"
    using F(8) by (simp add: kaapi_memory_alloc_def init_main_chunk_def [of base mem ?H])
qed

lemma owned_alloc:
  assumes ok: "heap_ok b e xs H" and ow: "owned xs H L" and al: "kaapi_memory_alloc base mem sz H = Some (r, H')"
  shows "\<exists>xs'. heap_ok b e xs' H' \<and> owned xs' H' (case r of None \<Rightarrow> L | Some (d, c) \<Rightarrow> insert (c, d, request_size sz) L)"
  using ok
proof (cases rule: alloc_cases [where base = base and mem = mem and rq = sz])
  case fail
  then show ?thesis using ok ow al by auto
next
  case (taken as c bs H2)
  have r: "r = Some (dpt H c, c)" "H' = H2" using al taken(4) by auto
  have nc: "\<And>dn. (c, dn) \<notin> L" using ow taken(2) by (auto simp: owned_def)
  have "owned (as @ alloc_list c (request_size sz) H @ bs) H2 (insert (c, dpt H c, request_size sz) L)"
    using ow taken nc unfolding owned_def by (auto simp: alloc_list_def)
  then show ?thesis using taken(5) r by auto
qed

lemma owned_free:
  assumes ok: "heap_ok b e xs H" and ow: "owned xs H L" and L: "(c, d, n) \<in> L"
  shows "\<exists>xs' H'. kaapi_memory_free (Some (d, c)) H = Some H' \<and> heap_ok b e xs' H' \<and> owned xs' H' (L - {(c, d, n)})"
proof -
  have c: "c \<in> set xs" "\<not> is_free (stt H c)" using ow L by (auto simp: owned_def)
  obtain as bs where xs: "xs = as @ c # bs" using c(1) by (auto simp: in_set_conv_decomp)
  obtain xs' H' where H': "kaapi_memory_free (Some (d, c)) H = Some H'" "heap_ok b e xs' H'"
    "{a \<in> set xs'. \<not> is_free (stt H' a)} = {a \<in> set (as @ bs). \<not> is_free (stt H a)}" "same_blocks (as @ bs) H H'"
    using free_ok [OF ok [unfolded xs] c(2), of d] by blast
  have used: "a \<in> set xs' \<and> \<not> is_free (stt H' a) \<longleftrightarrow> a \<in> set (as @ bs) \<and> \<not> is_free (stt H a)" for a using H'(3) by blast
  have same: "dpt H' a = dpt H a \<and> szs H' a = szs H a" if "a \<in> set (as @ bs)" "\<not> is_free (stt H a)" for a
    using H'(4) that by (auto simp: same_blocks_def)
  have u: "dn = (d, n)" if "(c, dn) \<in> L" for dn using ow L that c unfolding owned_def by blast
  have ne: "a \<in> set (as @ bs)" if "(a, dn) \<in> L" "(a, dn) \<noteq> (c, d, n)" for a dn
    using ow that u xs by (auto simp: owned_def)
  have d: "c \<notin> set (as @ bs)" using ok xs by (auto simp: heap_ok_def heap_wf_def)
  have "a \<in> set xs' \<and> \<not> is_free (stt H' a) \<and> da = dpt H' a \<and> na \<le> szs H' a" if "(a, da, na) \<in> L - {(c, d, n)}" for a da na
  proof -
    have "\<not> is_free (stt H a)" "da = dpt H a" "na \<le> szs H a" using ow that by (auto simp: owned_def)
    then show ?thesis using ne [of a "(da, na)"] that used [of a] same [of a] by auto
  qed
  moreover have "\<exists>!dn. (a, dn) \<in> L - {(c, d, n)}" if "a \<in> set xs'" "\<not> is_free (stt H' a)" for a
  proof -
    have a: "a \<in> set (as @ bs)" "\<not> is_free (stt H a)" using used that by blast+
    then have "a \<noteq> c" using d by blast
    moreover have "\<exists>!dn. (a, dn) \<in> L" using ow a xs by (auto simp: owned_def)
    ultimately show ?thesis by auto
  qed
  ultimately have "owned xs' H' (L - {(c, d, n)})" unfolding owned_def by auto
  then show ?thesis using H'(1,2) by blast
qed

definition heap_inv :: "nat \<Rightarrow> 64 word \<Rightarrow> heap \<Rightarrow> (nat \<times> nat \<times> nat) set \<Rightarrow> bool" where
  "heap_inv base mem H L \<longleftrightarrow> hp_free H = None \<and> hp_main H = None \<and> L = {} \<or>
     (\<exists>xs. heap_ok base (base + unat (mem AND - 8)) xs H \<and> owned xs H L)"

lemma heap_inv_alloc:
  assumes mem: "8 \<le> unat mem" and inv: "heap_inv base mem H L" and al: "kaapi_memory_alloc base mem sz H = Some (r, H')"
  shows "\<exists>xs. heap_ok base (base + unat (mem AND - 8)) xs H' \<and>
    owned xs H' (case r of None \<Rightarrow> L | Some (d, c) \<Rightarrow> insert (c, d, request_size sz) L)"
  using inv unfolding heap_inv_def
proof (elim disjE exE conjE)
  assume z: "hp_free H = None" "hp_main H = None" "L = {}"
  note I = init_main_ok [OF z(1,2) mem, of base]
  show ?thesis unfolding z(3) by (rule owned_alloc [OF I(1,2) al [unfolded I(3)]])
qed (rule owned_alloc [OF _ _ al])

lemma heap_reach_inv: "heap_reach base mem H L \<Longrightarrow> 8 \<le> unat mem \<Longrightarrow> heap_inv base mem H L"
proof (induction rule: heap_reach.induct)
  case (start H) then show ?case by (simp add: heap_inv_def)
next
  case (alloc H L sz d c H')
  then show ?case using heap_inv_alloc [OF alloc(4) alloc(3) [OF alloc(4)] alloc(2)] by (simp add: heap_inv_def)
next
  case (fail H L sz H')
  then show ?case using heap_inv_alloc [OF fail(4) fail(3) [OF fail(4)] fail(2)] by (simp add: heap_inv_def)
next
  case (free H L c d n H')
  then obtain xs where xs: "heap_ok base (base + unat (mem AND - 8)) xs H" "owned xs H L" by (auto simp: heap_inv_def)
  obtain xs' where "heap_ok base (base + unat (mem AND - 8)) xs' H'" "owned xs' H' (L - {(c, d, n)})"
    using owned_free [OF xs free(2)] free(3) by auto
  then show ?case unfolding heap_inv_def by blast
qed

lemma tiled_in: "tiled d s b xs e \<Longrightarrow> c \<in> set xs \<Longrightarrow> b \<le> d c \<and> d c + s c \<le> e"
proof (induction xs arbitrary: b)
  case (Cons x xs)
  have "b + s x \<le> e" using Cons(2) by (induction xs arbitrary: b x) force+
  then show ?case using Cons by force
qed simp

lemma tiled_apart: "tiled d s b xs e \<Longrightarrow> c \<in> set xs \<Longrightarrow> c' \<in> set xs \<Longrightarrow> c \<noteq> c' \<Longrightarrow> d c + s c \<le> d c' \<or> d c' + s c' \<le> d c"
proof (induction xs arbitrary: b)
  case (Cons x xs)
  then show ?case using tiled_in [of d s "b + s x" xs e] by auto
qed simp

lemma tiled_aligned:
  "tiled d s b xs e \<Longrightarrow> \<forall>c\<in>set xs. (8::nat) dvd s c \<Longrightarrow> c \<in> set xs \<Longrightarrow> 8 dvd (d c - b)"
proof (induction xs arbitrary: b)
  case (Cons x xs)
  show ?case
  proof (cases "c = x")
    case True then show ?thesis using Cons(2) by simp
  next
    case False
    then have c: "c \<in> set xs" and t: "tiled d s (b + s x) xs e" using Cons by auto
    have "8 dvd (d c - (b + s x))" using Cons(1) [OF t _ c] Cons(3) by simp
    moreover have "b + s x \<le> d c" using tiled_in [OF t c] by blast
    then have "d c - b = (d c - (b + s x)) + s x" by simp
    ultimately show ?thesis using Cons(3) by simp
  qed
qed simp

lemma owned_blocks:
  assumes mem: "8 \<le> unat mem" and r: "heap_reach base mem H L" and 1: "(c, d, n) \<in> L"
  shows "base \<le> d \<and> d + n \<le> base + unat mem \<and> 8 dvd (d - base)"
    and "(c', d', n') \<in> L \<Longrightarrow> (c', d', n') \<noteq> (c, d, n) \<Longrightarrow> d + n \<le> d' \<or> d' + n' \<le> d"
proof -
  obtain xs where ok: "heap_ok base (base + unat (mem AND - 8)) xs H" and ow: "owned xs H L"
    using heap_reach_inv [OF r mem] 1 by (auto simp: heap_inv_def)
  have t: "tiled (dpt H) (szs H) base xs (base + unat (mem AND - 8))" and e: "\<forall>c\<in>set xs. 8 dvd szs H c"
    using ok by (auto simp: heap_ok_def heap_wf_def)
  have c: "c \<in> set xs" "d = dpt H c" "n \<le> szs H c" "\<not> is_free (stt H c)" using ow 1 by (auto simp: owned_def)
  have "unat (mem AND - 8) \<le> unat mem" by (simp add: align8)
  then show "base \<le> d \<and> d + n \<le> base + unat mem \<and> 8 dvd (d - base)"
    using tiled_in [OF t c(1)] tiled_aligned [OF t e c(1)] c by auto
  assume 2: "(c', d', n') \<in> L" "(c', d', n') \<noteq> (c, d, n)"
  have c': "c' \<in> set xs" "d' = dpt H c'" "n' \<le> szs H c'" using ow 2 by (auto simp: owned_def)
  have "c \<noteq> c'"
  proof
    assume "c = c'"
    then have "(d', n') = (d, n)" using ow c(1,4) 1 2(1) unfolding owned_def by blast
    then show False using 2(2) \<open>c = c'\<close> by simp
  qed
  then show "d + n \<le> d' \<or> d' + n' \<le> d" using tiled_apart [OF t c(1) c'(1)] c(2,3) c'(2,3) by auto
qed

lemma empty_one_chunk:
  assumes ok: "heap_ok b e xs H" and ow: "owned xs H {}"
  obtains c where "xs = [c]" "is_free (stt H c)" "szs H c = e - b"
proof (cases xs)
  case Nil then show ?thesis using ok by (simp add: heap_ok_def)
next
  case (Cons c ys)
  have fr: "\<forall>a\<in>set xs. is_free (stt H a)" using ow by (auto simp: owned_def)
  have "ys = []" using ok fr unfolding Cons by (cases ys) (auto simp: heap_ok_def coalesced_def)
  then show ?thesis using that [of c] ok fr Cons by (auto simp: heap_ok_def heap_wf_def)
qed

lemma alloc_whole:
  assumes mem: "8 \<le> unat mem" and r: "heap_reach base mem H {}" and sz: "request_size sz \<le> unat (mem AND - 8)"
  shows "\<exists>p H'. kaapi_memory_alloc base mem sz H = Some (Some p, H')"
proof -
  have *: "\<exists>p H'. kaapi_memory_alloc base mem sz H = Some (Some p, H')"
    if ok: "heap_ok base (base + unat (mem AND - 8)) xs H" and ow: "owned xs H {}" for xs H
  proof -
    obtain c where c: "xs = [c]" "is_free (stt H c)" "szs H c = unat (mem AND - 8)" using empty_one_chunk [OF ok ow] by auto
    show ?thesis by (rule alloc_cases [OF ok, of base mem sz]) (use c sz in auto)
  qed
  have "heap_inv base mem H {}" by (rule heap_reach_inv [OF r mem])
  then show ?thesis unfolding heap_inv_def
  proof (elim disjE exE conjE)
    assume z: "hp_free H = None" "hp_main H = None"
    show ?thesis unfolding init_main_ok(3) [OF z mem] by (rule * [OF init_main_ok(1,2) [OF z mem]])
  qed (rule *)
qed

lemma alloc_returns:
  assumes mem: "8 \<le> unat mem" and r: "heap_reach base mem H L"
  shows "\<exists>r. kaapi_memory_alloc base mem sz H = Some r"
proof -
  have *: "\<exists>r. kaapi_memory_alloc base mem sz H = Some r" if "heap_ok b e xs H" for b e xs H
    by (rule alloc_cases [OF that, of base mem sz]) auto
  have "heap_inv base mem H L" by (rule heap_reach_inv [OF r mem])
  then show ?thesis unfolding heap_inv_def
  proof (elim disjE exE conjE)
    assume z: "hp_free H = None" "hp_main H = None"
    show ?thesis unfolding init_main_ok(3) [OF z mem] by (rule * [OF init_main_ok(1) [OF z mem]])
  qed (rule *)
qed

definition heap0 :: heap where
  "heap0 = \<lparr>hp_chunk = (\<lambda>_. \<lparr>ck_size = 0, ck_state = 0, ck_device_ptr = 0, ck_prev = None, ck_next = None, ck_freelink = None\<rparr>),
     hp_fresh = 0, hp_free = None, hp_main = None\<rparr>"

lemma heap0_start: "heap_reach base mem heap0 {}"
  by (rule heap_reach.start) (simp_all add: heap0_def)

lemma best_fit_steps:
  "best_fit ch sz None pf best = Some best"
  "best_fit ch sz (Some c) pf best = best_fit ch sz (ck_freelink (ch c)) (Some c)
     (if sz \<le> ck_size (ch c) then Some (ck_size (ch c), c, pf) else best)"
  by (subst best_fit.simps; simp)+

lemmas heap_eval = kaapi_memory_alloc_def init_main_chunk_def request_size_def best_fit_steps split_chunk_def unlink_free_def
  Let_def sizeof_chunk_def heap0_def FREE_STATE_def MAIN_STATE_def

lemma heap0_run:
  obtains H1 H2 where "kaapi_memory_alloc 4096 1024 100 heap0 = Some (Some (4096, 0), H1)"
    "kaapi_memory_alloc 4096 1024 64 H1 = Some (Some (4200, 2), H2)"
proof -
  let ?H1 = "unlink_free None 0 (split_chunk 0 104 (init_main_chunk 4096 1024 heap0))"
  have 1: "kaapi_memory_alloc 4096 1024 100 heap0 = Some (Some (4096, 0), ?H1)" by (simp add: heap_eval)
  have "\<exists>H2. kaapi_memory_alloc 4096 1024 64 ?H1 = Some (Some (4200, 2), H2)" by (simp add: heap_eval)
  with 1 show thesis using that by blast
qed

section \<open>Properties\<close>

text \<open>C27. The device heap never gives overlapping memory: after any sequence of allocations and releases, a block
  that a client owns lies inside the reserved memory, starts at a multiple of 8 from its base, and has no byte in common with another owned
  block.\<close>

theorem heap_blocks_apart:
  assumes "8 \<le> unat mem" "heap_reach base mem H L" "(c, d, n) \<in> L" "(c', d', n') \<in> L" "(c', d', n') \<noteq> (c, d, n)"
  shows "base \<le> d \<and> d + n \<le> base + unat mem \<and> 8 dvd (d - base) \<and> (d + n \<le> d' \<or> d' + n' \<le> d)"
  using owned_blocks(1) [OF assms(1-3)] owned_blocks(2) [OF assms(1-3) assms(4,5)] by blast

lemma heap_blocks_apart_witness:
  "\<exists>H L. heap_reach 4096 1024 H L \<and> {(0, 4096, 104), (2, 4200, 64)} \<subseteq> L \<and> (4096 :: nat) + 104 \<le> 4200"
proof -
  obtain H1 H2 where a: "kaapi_memory_alloc 4096 1024 100 heap0 = Some (Some (4096, 0), H1)"
    "kaapi_memory_alloc 4096 1024 64 H1 = Some (Some (4200, 2), H2)" by (rule heap0_run)
  note 1 = heap_reach.alloc [OF heap0_start a(1)]
  note 2 = heap_reach.alloc [OF 1 a(2)]
  have sz: "request_size 100 = 104" "request_size 64 = 64" by (simp_all add: request_size_def sizeof_chunk_def Let_def)
  have "4096 + 104 \<le> (4200 :: nat) \<or> 4200 + 64 \<le> (4096 :: nat)"
    using heap_blocks_apart [OF _ 2, of 0 4096 104 2 4200 64] by (simp add: sz)
  then show ?thesis using 2 by (intro exI [of _ H2] exI) (auto simp: sz)
qed

text \<open>C28. Allocation and release always return, and nothing is lost to fragmentation: when every block has been
  released, the free chunks have merged again and a request of any size up to the reserved memory succeeds.\<close>

theorem heap_recovers:
  assumes "8 \<le> unat mem" "heap_reach base mem H L"
  shows "(\<exists>r. kaapi_memory_alloc base mem sz H = Some r) \<and> (\<forall>(c, d, n)\<in>L. \<exists>H'. kaapi_memory_free (Some (d, c)) H = Some H') \<and>
    (L = {} \<and> request_size sz \<le> unat (mem AND NOT 7) \<longrightarrow> (\<exists>p H'. kaapi_memory_alloc base mem sz H = Some (Some p, H')))"
proof -
  have "\<exists>H'. kaapi_memory_free (Some (d, c)) H = Some H'" if L: "(c, d, n) \<in> L" for c d n
  proof -
    obtain xs where "heap_ok base (base + unat (mem AND - 8)) xs H" "owned xs H L"
      using heap_reach_inv [OF assms(2,1)] L by (auto simp: heap_inv_def)
    then show ?thesis using owned_free [OF _ _ L] by blast
  qed
  moreover have "\<exists>p H'. kaapi_memory_alloc base mem sz H = Some (Some p, H')"
    if "L = {} \<and> request_size sz \<le> unat (mem AND NOT 7)"
    by (rule alloc_whole [OF assms(1)]) (use assms(2) that in auto)
  ultimately show ?thesis using alloc_returns [OF assms, of sz] by blast
qed

lemma heap_recovers_witness:
  "\<exists>H1 H3. kaapi_memory_alloc 4096 1024 100 heap0 = Some (Some (4096, 0), H1) \<and>
     kaapi_memory_free (Some (4096, 0)) H1 = Some H3 \<and> (\<exists>p H'. kaapi_memory_alloc 4096 1024 1000 H3 = Some (Some p, H'))"
proof -
  obtain H1 H2 where a: "kaapi_memory_alloc 4096 1024 100 heap0 = Some (Some (4096, 0), H1)"
    "kaapi_memory_alloc 4096 1024 64 H1 = Some (Some (4200, 2), H2)" by (rule heap0_run)
  note 1 = heap_reach.alloc [OF heap0_start a(1)]
  obtain H3 where f: "kaapi_memory_free (Some (4096, 0)) H1 = Some H3" using heap_recovers [OF _ 1] by auto
  have 3: "heap_reach 4096 1024 H3 {}" using heap_reach.free [OF 1 _ f, of "request_size 100"] by simp
  have "\<exists>p H'. kaapi_memory_alloc 4096 1024 1000 H3 = Some (Some p, H')"
    using heap_recovers [OF _ 3, of 1000] by (simp add: request_size_def sizeof_chunk_def Let_def)
  then show ?thesis using a(1) f by blast
qed

end
