(* ===== verification/Hash_Map.thy ===== *)
theory Hash_Map
  imports Linked_Lists
begin

unbundle bit_operations_syntax

text \<open>
  The hash table from pointers to entries (\<open>kaapi_hashmap.c\<close>, \<open>kaapi_hashmap.h\<close>): chained buckets whose entries are
  taken from blocs of 2048. Entries are addressed by bloc and index; the store of entries and blocs is explicit,
  \<open>malloc\<close> returns a fresh bloc. The value of an entry is its two words. The locale \<open>find_insert\<close> is what the
  runtime relies on when it keys handles and metadata by address; the table is its interpretation.
\<close>

section \<open>Data\<close>

definition KAAPI_BLOCENTRIES_SIZE :: nat where "KAAPI_BLOCENTRIES_SIZE = 2048"

type_synonym eaddr = "nat \<times> nat"

record hentry =
  he_key :: "64 word"
  he_next :: "eaddr option"
  he_u :: "64 word \<times> 64 word"

record hbloc =
  hb_pos :: nat
  hb_next :: "nat option"

record hashmap =
  hm_entries :: "nat \<Rightarrow> eaddr option"
  hm_mask :: "64 word"
  hm_currentbloc :: "nat option"
  hm_freebloc :: "nat option"
  hm_allallocatedbloc :: "nat option"
  hm_entry :: "eaddr \<Rightarrow> hentry"      \<comment> \<open>store of the entries\<close>
  hm_bloc :: "nat \<Rightarrow> hbloc"          \<comment> \<open>store of the blocs\<close>
  hm_fresh :: nat                    \<comment> \<open>the address of the next \<open>malloc\<close>\<close>

section \<open>Hash functions\<close>

definition kaapi_hash_ulong :: "64 word \<Rightarrow> 32 word" where
  "kaapi_hash_ulong v =
     (let v = v XOR drop_bit 32 v; v = v XOR drop_bit 17 v; v = v XOR drop_bit 8 v in ucast v)"

definition kaapi_hash_ulong7 :: "64 word \<Rightarrow> 32 word" where
  "kaapi_hash_ulong7 v =
     (let v = v XOR drop_bit 32 v; v = v XOR drop_bit 16 v; v = v XOR drop_bit 8 v;
          v = (if v AND 0x80 \<noteq> 0 then v XOR 9 else v) in ucast (v AND 0x7F))"

definition kaapi_hash_ulong6 :: "64 word \<Rightarrow> 32 word" where
  "kaapi_hash_ulong6 v =
     (let v = v XOR drop_bit 32 v; v = v XOR drop_bit 16 v; v = v XOR drop_bit 8 v;
          v = (if v AND 0x40 \<noteq> 0 then v XOR 3 else v); v = (if v AND 0x80 \<noteq> 0 then v XOR 6 else v) in ucast (v AND 0x3F))"

definition kaapi_hash_ulong5 :: "64 word \<Rightarrow> 32 word" where
  "kaapi_hash_ulong5 v =
     (let v = v XOR drop_bit 32 v; v = v XOR drop_bit 16 v; v = v XOR drop_bit 8 v;
          v = (if v AND 0x20 \<noteq> 0 then v XOR 5 else v); v = (if v AND 0x40 \<noteq> 0 then v XOR 0xA else v);
          v = (if v AND 0x80 \<noteq> 0 then v XOR 0x14 else v) in ucast (v AND 0x1F))"

text \<open>\<open>char\<close> is signed on the targets of the library.\<close>

fun hash_bytes :: "8 word list \<Rightarrow> 32 word \<Rightarrow> 32 word" where
  "hash_bytes [] h = h"
| "hash_bytes (c # cs) h =
     (let h = h + scast c; h = h + push_bit 10 h; h = h XOR drop_bit 6 h in hash_bytes cs h)"

definition kaapi_hash_value_len :: "8 word list \<Rightarrow> nat \<Rightarrow> 32 word" where
  "kaapi_hash_value_len s len =
     (let h = hash_bytes (take len s) 0; h = h + push_bit 3 h; h = h XOR drop_bit 11 h in h + push_bit 15 h)"

definition kaapi_hash_value :: "8 word list \<Rightarrow> 32 word" where
  "kaapi_hash_value s = (if s = [] then 0 else kaapi_hash_value_len s (length s))"

section \<open>Operations\<close>

definition kaapi_hashmap_init :: "nat \<Rightarrow> nat option \<Rightarrow> hashmap \<Rightarrow> hashmap" where
  "kaapi_hashmap_init powsize initbloc khm =
     khm\<lparr>hm_entries := (\<lambda>_. None), hm_mask := push_bit powsize 1 - 1, hm_currentbloc := initbloc, hm_freebloc := None,
       hm_allallocatedbloc := None,
       hm_bloc := (case initbloc of Some b \<Rightarrow> (hm_bloc khm)(b := (hm_bloc khm b)\<lparr>hb_pos := 0\<rparr>) | None \<Rightarrow> hm_bloc khm)\<rparr>"

definition kaapi_hashmap_clear :: "hashmap \<Rightarrow> hashmap" where
  "kaapi_hashmap_clear khm =
     khm\<lparr>hm_bloc := (case hm_currentbloc khm of Some b \<Rightarrow> (hm_bloc khm)(b := (hm_bloc khm b)\<lparr>hb_pos := 0\<rparr>) | None \<Rightarrow> hm_bloc khm),
       hm_freebloc := (if hm_allallocatedbloc khm \<noteq> None then hm_allallocatedbloc khm else hm_freebloc khm),
       hm_allallocatedbloc := None, hm_currentbloc := None, hm_entries := (\<lambda>_. None)\<rparr>"

definition kaapi_hashmap_allocate_bloc :: "hashmap \<Rightarrow> nat \<times> hashmap" where
  "kaapi_hashmap_allocate_bloc khm =
     (case hm_freebloc khm of
        None \<Rightarrow> let b = hm_fresh khm in
          (b, khm\<lparr>hm_currentbloc := Some b, hm_allallocatedbloc := Some b, hm_fresh := Suc b,
            hm_bloc := (hm_bloc khm)(b := \<lparr>hb_pos = 0, hb_next = hm_allallocatedbloc khm\<rparr>)\<rparr>)
      | Some b \<Rightarrow>
          (b, khm\<lparr>hm_currentbloc := Some b, hm_freebloc := hb_next (hm_bloc khm b),
            hm_bloc := (hm_bloc khm)(b := (hm_bloc khm b)\<lparr>hb_pos := 0\<rparr>)\<rparr>))"

partial_function (option) hashmap_find_loop :: "(eaddr \<Rightarrow> hentry) \<Rightarrow> eaddr option \<Rightarrow> 64 word \<Rightarrow> eaddr option option" where
  "hashmap_find_loop es entry ptr =
     (case entry of None \<Rightarrow> Some None
      | Some a \<Rightarrow> if he_key (es a) = ptr then Some (Some a) else hashmap_find_loop es (he_next (es a)) ptr)"

definition hash_key :: "hashmap \<Rightarrow> 64 word \<Rightarrow> nat" where
  "hash_key khm ptr = unat (ucast (kaapi_hash_ulong ptr) AND hm_mask khm)"

definition kaapi_hashmap_find :: "hashmap \<Rightarrow> 64 word \<Rightarrow> eaddr option option" where
  "kaapi_hashmap_find khm ptr = hashmap_find_loop (hm_entry khm) (hm_entries khm (hash_key khm ptr)) ptr"

definition kaapi_hashmap_insert :: "hashmap \<Rightarrow> 64 word \<Rightarrow> eaddr \<times> hashmap" where
  "kaapi_hashmap_insert khm0 ptr =
     (let hkey = hash_key khm0 ptr; list_hash = hm_entries khm0 hkey;
          (b, khm) = (case hm_currentbloc khm0 of None \<Rightarrow> kaapi_hashmap_allocate_bloc khm0 | Some b \<Rightarrow> (b, khm0));
          pos = hb_pos (hm_bloc khm b); entry = (b, pos)
      in (entry, khm\<lparr>hm_bloc := (hm_bloc khm)(b := (hm_bloc khm b)\<lparr>hb_pos := pos + 1\<rparr>),
            hm_currentbloc := (if pos + 1 = KAAPI_BLOCENTRIES_SIZE then None else hm_currentbloc khm),
            hm_entry := (hm_entry khm)(entry := \<lparr>he_key = ptr, he_next = list_hash, he_u = (0, 0)\<rparr>),
            hm_entries := (hm_entries khm)(hkey := Some entry)\<rparr>))"

definition kaapi_hashmap_findinsert :: "hashmap \<Rightarrow> 64 word \<Rightarrow> (eaddr \<times> hashmap) option" where
  "kaapi_hashmap_findinsert khm ptr =
     map_option (\<lambda>r. case r of Some entry \<Rightarrow> (entry, khm) | None \<Rightarrow> kaapi_hashmap_insert khm ptr) (kaapi_hashmap_find khm ptr)"

section \<open>What a client relies on\<close>

text \<open>A sequence of calls, with the addresses they return.\<close>

fun findinsert_all :: "('m \<Rightarrow> 'k \<Rightarrow> ('a \<times> 'm) option) \<Rightarrow> 'm \<Rightarrow> 'k list \<Rightarrow> ('a list \<times> 'm) option" where
  "findinsert_all f m [] = Some ([], m)"
| "findinsert_all f m (k # ks) = Option.bind (f m k) (\<lambda>(a, m). map_option (\<lambda>(as, m). (a # as, m)) (findinsert_all f m ks))"

locale find_insert =
  fixes find :: "'m \<Rightarrow> 'k \<Rightarrow> 'a option option"
    and findinsert :: "'m \<Rightarrow> 'k \<Rightarrow> ('a \<times> 'm) option"
    and inv :: "'m \<Rightarrow> bool"
  assumes find_returns: "inv m \<Longrightarrow> \<exists>r. find m k = Some r"
    and hit: "inv m \<Longrightarrow> find m k = Some (Some a) \<Longrightarrow> findinsert m k = Some (a, m)"
    and miss: "inv m \<Longrightarrow> find m k = Some None \<Longrightarrow>
      \<exists>a m'. findinsert m k = Some (a, m') \<and> inv m' \<and> find m' k = Some (Some a) \<and>
        (\<forall>k'. k' \<noteq> k \<longrightarrow> find m' k' = find m k') \<and> (\<forall>k'. find m k' \<noteq> Some (Some a))"
    and injective: "inv m \<Longrightarrow> find m k = Some (Some a) \<Longrightarrow> find m k' = Some (Some a) \<Longrightarrow> k' = k"
begin

text \<open>One call: the key is found afterwards at the address returned, and no other key moves.\<close>

lemma call:
  assumes "inv m"
  obtains a m' where "findinsert m k = Some (a, m')" "inv m'" "find m' k = Some (Some a)"
    "\<And>k' b. find m k' = Some (Some b) \<Longrightarrow> find m' k' = Some (Some b)"
proof -
  obtain r where r: "find m k = Some r" using find_returns [OF assms] by blast
  show thesis
  proof (cases r)
    case None
    then obtain a m' where "findinsert m k = Some (a, m')" "inv m'" "find m' k = Some (Some a)"
      "\<forall>k'. k' \<noteq> k \<longrightarrow> find m' k' = find m k'"
      using miss [OF assms, of k] r by auto
    then show thesis using r None by (intro that [of a m']) (metis option.distinct(1) option.inject)+
  next
    case (Some a)
    then show thesis using hit [OF assms, of k a] r assms by (intro that [of a m]) auto
  qed
qed

lemma all_calls:
  "inv m \<Longrightarrow> \<exists>as m'. findinsert_all findinsert m ks = Some (as, m') \<and> inv m' \<and> list_all2 (\<lambda>k a. find m' k = Some (Some a)) ks as \<and>
     (\<forall>k b. find m k = Some (Some b) \<longrightarrow> find m' k = Some (Some b))"
proof (induction ks arbitrary: m)
  case (Cons k ks)
  obtain a m1 where 1: "findinsert m k = Some (a, m1)" "inv m1" "find m1 k = Some (Some a)"
    "\<And>k' b. find m k' = Some (Some b) \<Longrightarrow> find m1 k' = Some (Some b)"
    using call [OF Cons(2), of k] by metis
  obtain as m' where 2: "findinsert_all findinsert m1 ks = Some (as, m')" "inv m'" "list_all2 (\<lambda>k a. find m' k = Some (Some a)) ks as"
    "\<forall>k b. find m1 k = Some (Some b) \<longrightarrow> find m' k = Some (Some b)"
    using Cons(1) [OF 1(2)] by blast
  then show ?case using 1 by (intro exI [of _ "a # as"] exI [of _ m']) auto
qed simp

text \<open>Equal keys get the same address, different keys different ones.\<close>

lemma addresses_identify:
  assumes "inv m"
  shows "\<exists>as m'. findinsert_all findinsert m ks = Some (as, m') \<and> length as = length ks \<and>
    (\<forall>i<length ks. \<forall>j<length ks. as ! i = as ! j \<longleftrightarrow> ks ! i = ks ! j)"
proof -
  obtain as m' where 1: "findinsert_all findinsert m ks = Some (as, m')" "inv m'" "list_all2 (\<lambda>k a. find m' k = Some (Some a)) ks as"
    using all_calls [OF assms] by blast
  then have len: "length as = length ks" by (simp add: list_all2_lengthD)
  have f: "find m' (ks ! i) = Some (Some (as ! i))" if "i < length ks" for i using 1(3) that by (simp add: list_all2_conv_all_nth)
  have "as ! i = as ! j \<longleftrightarrow> ks ! i = ks ! j" if "i < length ks" "j < length ks" for i j
    using f [OF that(1)] f [OF that(2)] injective [OF 1(2)] by (metis option.inject)
  then show ?thesis using 1(1) len by blast
qed

end

section \<open>The table\<close>

definition nexts :: "hashmap \<Rightarrow> eaddr \<Rightarrow> eaddr option" where "nexts khm a = he_next (hm_entry khm a)"
definition keys :: "hashmap \<Rightarrow> eaddr \<Rightarrow> 64 word" where "keys khm a = he_key (hm_entry khm a)"
definition bnexts :: "hashmap \<Rightarrow> nat \<Rightarrow> nat option" where "bnexts khm b = hb_next (hm_bloc khm b)"
definition poss :: "hashmap \<Rightarrow> nat \<Rightarrow> nat" where "poss khm b = hb_pos (hm_bloc khm b)"

text \<open>The bucket lists \<open>bs\<close>, the free blocs \<open>fs\<close> and the blocs allocated since the last clear \<open>al\<close>. An entry in use
  is not in a free bloc and, in the current bloc, lies below the next position.\<close>

definition buckets_ok :: "hashmap \<Rightarrow> (nat \<Rightarrow> eaddr list) \<Rightarrow> bool" where
  "buckets_ok khm bs \<longleftrightarrow> (\<forall>i. chain (nexts khm) (hm_entries khm i) (bs i) None \<and>
     (\<forall>a\<in>set (bs i). hash_key khm (keys khm a) = i) \<and> distinct (map (keys khm) (bs i)))"

definition blocs_ok :: "hashmap \<Rightarrow> (nat \<Rightarrow> eaddr list) \<Rightarrow> nat list \<Rightarrow> nat list \<Rightarrow> bool" where
  "blocs_ok khm bs fs al \<longleftrightarrow>
     chain (bnexts khm) (hm_freebloc khm) fs None \<and> chain (bnexts khm) (hm_allallocatedbloc khm) al None \<and>
     distinct fs \<and> distinct al \<and> (\<forall>b\<in>set fs \<union> set al. b < hm_fresh khm) \<and>
     (\<forall>b. hm_currentbloc khm = Some b \<longrightarrow> b < hm_fresh khm \<and> b \<notin> set fs \<and> poss khm b < KAAPI_BLOCENTRIES_SIZE) \<and>
     (\<forall>i. \<forall>(b, j)\<in>set (bs i). b < hm_fresh khm \<and> b \<notin> set fs \<and> j < KAAPI_BLOCENTRIES_SIZE \<and>
        (hm_currentbloc khm = Some b \<longrightarrow> j < poss khm b))"

definition hashmap_inv :: "hashmap \<Rightarrow> bool" where
  "hashmap_inv khm \<longleftrightarrow> (\<exists>bs fs al. buckets_ok khm bs \<and> blocs_ok khm bs fs al)"

lemma hash_key_bound: "hash_key khm ptr \<le> unat (hm_mask khm)"
proof -
  have "x AND m \<le> m" for x m :: "64 word" by (rule word_and_le1)
  then show ?thesis by (simp add: hash_key_def word_le_nat_alt)
qed

lemma find_loop:
  "chain (\<lambda>a. he_next (es a)) x as None \<Longrightarrow>
   hashmap_find_loop es x ptr = Some (find (\<lambda>a. he_key (es a) = ptr) as)"
proof (induction as arbitrary: x)
  case Nil then show ?case by (subst hashmap_find_loop.simps) simp
next
  case (Cons a as) then show ?case by (subst hashmap_find_loop.simps) simp
qed

lemma find_bucket:
  assumes "buckets_ok khm bs"
  shows "kaapi_hashmap_find khm ptr = Some (find (\<lambda>a. keys khm a = ptr) (bs (hash_key khm ptr)))"
proof -
  have "nexts khm = (\<lambda>a. he_next (hm_entry khm a))" by (simp add: fun_eq_iff nexts_def)
  then have "chain (\<lambda>a. he_next (hm_entry khm a)) (hm_entries khm (hash_key khm ptr)) (bs (hash_key khm ptr)) None"
    using assms by (simp add: buckets_ok_def)
  then show ?thesis by (simp add: kaapi_hashmap_find_def find_loop keys_def)
qed

lemma found_iff:
  assumes "buckets_ok khm bs"
  shows "kaapi_hashmap_find khm ptr = Some (Some a) \<longleftrightarrow> a \<in> set (bs (hash_key khm ptr)) \<and> keys khm a = ptr"
proof
  assume "kaapi_hashmap_find khm ptr = Some (Some a)"
  then show "a \<in> set (bs (hash_key khm ptr)) \<and> keys khm a = ptr" by (auto simp: find_bucket [OF assms] find_Some_iff)
next
  assume a: "a \<in> set (bs (hash_key khm ptr)) \<and> keys khm a = ptr"
  have d: "inj_on (keys khm) (set (bs (hash_key khm ptr)))" using assms by (simp add: buckets_ok_def distinct_map)
  have "find (\<lambda>a. keys khm a = ptr) (bs (hash_key khm ptr)) \<noteq> None"
    unfolding find_None_iff using a by blast
  then obtain a' where a': "find (\<lambda>a. keys khm a = ptr) (bs (hash_key khm ptr)) = Some a'" by blast
  then have "a' \<in> set (bs (hash_key khm ptr))" "keys khm a' = ptr" by (auto simp: find_Some_iff)
  then have "a' = a" using d a by (auto dest: inj_onD)
  then show "kaapi_hashmap_find khm ptr = Some (Some a)" by (simp add: find_bucket [OF assms] a')
qed

lemma allocate_bloc_ok:
  assumes ok: "blocs_ok khm bs fs al" and cur: "hm_currentbloc khm = None"
  shows "\<exists>b khm' fs' al'. kaapi_hashmap_allocate_bloc khm = (b, khm') \<and> blocs_ok khm' bs fs' al' \<and> hm_currentbloc khm' = Some b \<and>
    hm_entries khm' = hm_entries khm \<and> hm_entry khm' = hm_entry khm \<and> hm_mask khm' = hm_mask khm"
proof (cases "hm_freebloc khm")
  case None
  let ?k = "snd (kaapi_hashmap_allocate_bloc khm)" and ?b = "hm_fresh khm"
  have a: "kaapi_hashmap_allocate_bloc khm = (?b, ?k)" using None by (simp add: kaapi_hashmap_allocate_bloc_def Let_def)
  have F: "bnexts ?k = (bnexts khm)(?b := hm_allallocatedbloc khm)" "poss ?k = (poss khm)(?b := 0)" "hm_currentbloc ?k = Some ?b"
    "hm_freebloc ?k = None" "hm_allallocatedbloc ?k = Some ?b" "hm_fresh ?k = Suc ?b" "hm_entries ?k = hm_entries khm"
    "hm_entry ?k = hm_entry khm" "hm_mask ?k = hm_mask khm"
    using None by (auto simp: kaapi_hashmap_allocate_bloc_def Let_def bnexts_def poss_def fun_eq_iff)
  have "blocs_ok ?k bs [] (?b # al)"
    using ok None unfolding blocs_ok_def F by (fastforce simp: KAAPI_BLOCENTRIES_SIZE_def)
  then show ?thesis using a F by blast
next
  case (Some b)
  let ?k = "snd (kaapi_hashmap_allocate_bloc khm)"
  have a: "kaapi_hashmap_allocate_bloc khm = (b, ?k)" using Some by (simp add: kaapi_hashmap_allocate_bloc_def)
  have F: "bnexts ?k = bnexts khm" "poss ?k = (poss khm)(b := 0)" "hm_currentbloc ?k = Some b"
    "hm_freebloc ?k = bnexts khm b" "hm_allallocatedbloc ?k = hm_allallocatedbloc khm" "hm_fresh ?k = hm_fresh khm"
    "hm_entries ?k = hm_entries khm" "hm_entry ?k = hm_entry khm" "hm_mask ?k = hm_mask khm"
    using Some by (auto simp: kaapi_hashmap_allocate_bloc_def bnexts_def poss_def fun_eq_iff)
  obtain fs' where fs: "fs = b # fs'" using ok Some by (cases fs) (auto simp: blocs_ok_def)
  have "blocs_ok ?k bs fs' al"
    using ok Some unfolding blocs_ok_def F fs by (fastforce simp: KAAPI_BLOCENTRIES_SIZE_def)
  then show ?thesis using a F by blast
qed

lemma insert_ok:
  assumes inv: "hashmap_inv khm" and new: "kaapi_hashmap_find khm ptr = Some None"
  shows "\<exists>a khm'. kaapi_hashmap_insert khm ptr = (a, khm') \<and> hashmap_inv khm' \<and> kaapi_hashmap_find khm' ptr = Some (Some a) \<and>
    he_u (hm_entry khm' a) = (0, 0) \<and> snd a < KAAPI_BLOCENTRIES_SIZE \<and>
    (\<forall>k. k \<noteq> ptr \<longrightarrow> kaapi_hashmap_find khm' k = kaapi_hashmap_find khm k) \<and>
    (\<forall>k b. kaapi_hashmap_find khm k = Some (Some b) \<longrightarrow> b \<noteq> a \<and> hm_entry khm' b = hm_entry khm b)"
proof -
  obtain bs fs0 al0 where bk: "buckets_ok khm bs" and bl0: "blocs_ok khm bs fs0 al0" using inv by (auto simp: hashmap_inv_def)
  obtain b khm1 fs al where k1: "(case hm_currentbloc khm of None \<Rightarrow> kaapi_hashmap_allocate_bloc khm | Some b \<Rightarrow> (b, khm)) = (b, khm1)"
    and bl: "blocs_ok khm1 bs fs al" and cur: "hm_currentbloc khm1 = Some b"
    and same: "hm_entries khm1 = hm_entries khm" "hm_entry khm1 = hm_entry khm" "hm_mask khm1 = hm_mask khm"
    using allocate_bloc_ok [OF bl0] bl0 by (cases "hm_currentbloc khm") auto
  let ?h = "hash_key khm ptr" and ?a = "(b, poss khm1 b)"
  let ?k = "snd (kaapi_hashmap_insert khm ptr)" and ?bs = "bs(hash_key khm ptr := (b, poss khm1 b) # bs (hash_key khm ptr))"
  have ins: "kaapi_hashmap_insert khm ptr = (?a, ?k)" using k1 by (simp add: kaapi_hashmap_insert_def Let_def poss_def)
  have F: "nexts ?k = (nexts khm)(?a := hm_entries khm ?h)" "keys ?k = (keys khm)(?a := ptr)"
    "hm_entries ?k = (hm_entries khm)(?h := Some ?a)" "bnexts ?k = bnexts khm1" "poss ?k = (poss khm1)(b := poss khm1 b + 1)"
    "hm_freebloc ?k = hm_freebloc khm1" "hm_allallocatedbloc ?k = hm_allallocatedbloc khm1" "hm_fresh ?k = hm_fresh khm1"
    "hm_currentbloc ?k = (if poss khm1 b + 1 = KAAPI_BLOCENTRIES_SIZE then None else Some b)" "hm_mask ?k = hm_mask khm"
    "hm_entry ?k = (hm_entry khm)(?a := \<lparr>he_key = ptr, he_next = hm_entries khm ?h, he_u = (0, 0)\<rparr>)"
    using k1 cur same by (auto simp: kaapi_hashmap_insert_def Let_def poss_def nexts_def keys_def bnexts_def fun_eq_iff)
  have hk: "hash_key ?k = hash_key khm" by (simp add: fun_eq_iff hash_key_def F)
  have pos: "poss khm1 b < KAAPI_BLOCENTRIES_SIZE" using bl cur unfolding blocs_ok_def by blast
  have na: "?a \<notin> set (bs i)" for i using bl cur unfolding blocs_ok_def by blast
  have nk: "ptr \<notin> keys khm ` set (bs ?h)"
  proof
    assume "ptr \<in> keys khm ` set (bs ?h)"
    then show False using found_iff [OF bk, of ptr] new by auto
  qed
  have kb: "map (keys ?k) (bs i) = map (keys khm) (bs i)" for i using na [of i] by (auto simp: F)
  have bk': "buckets_ok ?k ?bs"
    using bk na nk unfolding buckets_ok_def hk by (auto simp: F kb simp del: map_eq_conv)
  have "blocs_ok ?k ?bs fs al"
    using bl cur pos unfolding blocs_ok_def F by (auto split: if_splits; force)
  then have "hashmap_inv ?k" using bk' unfolding hashmap_inv_def by blast
  moreover have "kaapi_hashmap_find ?k ptr = Some (Some ?a)" unfolding found_iff [OF bk'] hk by (simp add: F)
  moreover have "kaapi_hashmap_find ?k k = kaapi_hashmap_find khm k" if "k \<noteq> ptr" for k
  proof -
    have "find (\<lambda>a. keys ?k a = k) (bs i) = find (\<lambda>a. keys khm a = k) (bs i)" for i
      using na [of i] by (intro find_cong) (auto simp: F)
    then show ?thesis using that by (simp add: find_bucket [OF bk'] find_bucket [OF bk] hk F)
  qed
  moreover have "c \<noteq> ?a \<and> hm_entry ?k c = hm_entry khm c" if "kaapi_hashmap_find khm k = Some (Some c)" for k c
    using that na unfolding found_iff [OF bk] by (auto simp: F)
  ultimately show ?thesis using ins pos by (intro exI [of _ ?a] exI [of _ ?k]) (simp add: F)
qed

interpretation hashmap: find_insert kaapi_hashmap_find kaapi_hashmap_findinsert hashmap_inv
proof unfold_locales
  fix m :: hashmap and k k' a
  assume inv: "hashmap_inv m"
  then obtain bs where bk: "buckets_ok m bs" by (auto simp: hashmap_inv_def)
  show "\<exists>r. kaapi_hashmap_find m k = Some r" by (simp add: find_bucket [OF bk])
  show "kaapi_hashmap_find m k = Some (Some a) \<Longrightarrow> kaapi_hashmap_findinsert m k = Some (a, m)"
    by (simp add: kaapi_hashmap_findinsert_def)
  show "kaapi_hashmap_find m k = Some (Some a) \<Longrightarrow> kaapi_hashmap_find m k' = Some (Some a) \<Longrightarrow> k' = k"
    by (simp add: found_iff [OF bk])
  assume new: "kaapi_hashmap_find m k = Some None"
  then show "\<exists>a m'. kaapi_hashmap_findinsert m k = Some (a, m') \<and> hashmap_inv m' \<and> kaapi_hashmap_find m' k = Some (Some a) \<and>
      (\<forall>k'. k' \<noteq> k \<longrightarrow> kaapi_hashmap_find m' k' = kaapi_hashmap_find m k') \<and> (\<forall>k'. kaapi_hashmap_find m k' \<noteq> Some (Some a))"
  proof -
    obtain a m' where 1: "kaapi_hashmap_insert m k = (a, m')" "hashmap_inv m'" "kaapi_hashmap_find m' k = Some (Some a)"
      "\<forall>k'. k' \<noteq> k \<longrightarrow> kaapi_hashmap_find m' k' = kaapi_hashmap_find m k'"
      "\<forall>k' b. kaapi_hashmap_find m k' = Some (Some b) \<longrightarrow> b \<noteq> a \<and> hm_entry m' b = hm_entry m b"
      using insert_ok [OF inv new] by metis
    have "kaapi_hashmap_findinsert m k = Some (a, m')" using new 1(1) by (simp add: kaapi_hashmap_findinsert_def)
    then show ?thesis using 1(2-5) by blast
  qed
qed

lemma init_inv: "initbloc = None \<or> initbloc = Some b \<and> b < hm_fresh khm \<Longrightarrow> hashmap_inv (kaapi_hashmap_init powsize initbloc khm)"
  unfolding hashmap_inv_def
  by (rule exI [of _ "\<lambda>_. []"], rule exI [of _ "[]"], rule exI [of _ "[]"])
    (auto simp: buckets_ok_def blocs_ok_def kaapi_hashmap_init_def poss_def KAAPI_BLOCENTRIES_SIZE_def)

lemma clear_inv:
  assumes "hashmap_inv khm"
  shows "hashmap_inv (kaapi_hashmap_clear khm)" "kaapi_hashmap_find (kaapi_hashmap_clear khm) k = Some None"
proof -
  obtain bs fs al where bl: "blocs_ok khm bs fs al" using assms by (auto simp: hashmap_inv_def)
  let ?k = "kaapi_hashmap_clear khm"
  have n: "bnexts ?k = bnexts khm" by (auto simp: kaapi_hashmap_clear_def bnexts_def fun_eq_iff split: option.split)
  have bk: "buckets_ok ?k (\<lambda>_. [])" by (simp add: buckets_ok_def kaapi_hashmap_clear_def)
  have "blocs_ok ?k (\<lambda>_. []) (if hm_allallocatedbloc khm \<noteq> None then al else fs) []"
    using bl by (auto simp: blocs_ok_def n) (auto simp: kaapi_hashmap_clear_def)
  then show "hashmap_inv ?k" using bk unfolding hashmap_inv_def by blast
  show "kaapi_hashmap_find ?k k = Some None" by (simp add: find_bucket [OF bk])
qed

section \<open>Properties\<close>

text \<open>C31. \<open>kaapi_hashmap_findinsert\<close> refines a map from pointers to addresses, whatever the collisions and the
  number of blocs: it returns; a known pointer keeps its address and the table is unchanged; a new pointer gets an
  address inside its bloc that no other pointer has, with a zeroed value, and the entries of all other pointers
  keep their address and their value.\<close>

theorem findinsert_map:
  assumes "hashmap_inv khm"
  shows "\<exists>entry khm'. kaapi_hashmap_findinsert khm ptr = Some (entry, khm') \<and> hashmap_inv khm' \<and>
    kaapi_hashmap_find khm' ptr = Some (Some entry) \<and>
    (if kaapi_hashmap_find khm ptr = Some None
     then he_u (hm_entry khm' entry) = (0, 0) \<and> snd entry < KAAPI_BLOCENTRIES_SIZE \<and>
       (\<forall>k. k \<noteq> ptr \<longrightarrow> kaapi_hashmap_find khm' k = kaapi_hashmap_find khm k) \<and>
       (\<forall>k b. kaapi_hashmap_find khm k = Some (Some b) \<longrightarrow> b \<noteq> entry \<and> hm_entry khm' b = hm_entry khm b)
     else khm' = khm)"
proof -
  obtain r where r: "kaapi_hashmap_find khm ptr = Some r" using hashmap.find_returns [OF assms] by blast
  show ?thesis
  proof (cases r)
    case None
    then show ?thesis using insert_ok [OF assms, of ptr] r by (auto simp: kaapi_hashmap_findinsert_def)
  next
    case (Some a)
    then show ?thesis using hashmap.hit [OF assms, of ptr a] r assms by simp
  qed
qed

definition map0 :: hashmap where
  "map0 = kaapi_hashmap_init 2 None \<lparr>hm_entries = (\<lambda>_. None), hm_mask = 0, hm_currentbloc = None, hm_freebloc = None,
     hm_allallocatedbloc = None, hm_entry = (\<lambda>_. \<lparr>he_key = 0, he_next = None, he_u = (7, 7)\<rparr>),
     hm_bloc = (\<lambda>_. \<lparr>hb_pos = 0, hb_next = None\<rparr>), hm_fresh = 5\<rparr>"

lemma findinsert_map_witness:
  "\<exists>entry khm'. kaapi_hashmap_findinsert map0 0x1000 = Some (entry, khm') \<and> hashmap_inv khm' \<and> he_u (hm_entry khm' entry) = (0, 0)"
proof -
  have i: "hashmap_inv map0" unfolding map0_def by (rule init_inv) simp
  have "kaapi_hashmap_find map0 0x1000 = Some None"
    by (simp add: kaapi_hashmap_find_def map0_def kaapi_hashmap_init_def hashmap_find_loop.simps)
  then show ?thesis using findinsert_map [OF i, where ptr = "0x1000"] by auto
qed

text \<open>The addresses identify the pointers: in a sequence of calls of \<open>kaapi_hashmap_findinsert\<close>, two calls return
  the same entry exactly when they were given the same pointer.\<close>

theorem findinsert_identifies:
  assumes "hashmap_inv khm"
  shows "\<exists>es khm'. findinsert_all kaapi_hashmap_findinsert khm ptrs = Some (es, khm') \<and> length es = length ptrs \<and>
    (\<forall>i<length ptrs. \<forall>j<length ptrs. es ! i = es ! j \<longleftrightarrow> ptrs ! i = ptrs ! j)"
  by (rule hashmap.addresses_identify [OF assms])

lemma findinsert_identifies_witness:
  "\<exists>a b khm'. findinsert_all kaapi_hashmap_findinsert map0 [0x1000, 0x2000, 0x1000] = Some ([a, b, a], khm') \<and> a \<noteq> b"
proof -
  have i: "hashmap_inv map0" unfolding map0_def by (rule init_inv) simp
  obtain es khm' where 1: "findinsert_all kaapi_hashmap_findinsert map0 [0x1000, 0x2000, 0x1000] = Some (es, khm')" "length es = 3"
    and 2: "\<forall>i<3. \<forall>j<3. es ! i = es ! j \<longleftrightarrow> [0x1000, 0x2000, 0x1000 :: 64 word] ! i = [0x1000, 0x2000, 0x1000] ! j"
    using findinsert_identifies [OF i, of "[0x1000, 0x2000, 0x1000]"] by auto
  obtain a b c where es: "es = [a, b, c]" using 1(2) by (auto simp: numeral_3_eq_3 length_Suc_conv)
  have "es ! 0 = es ! 2" "es ! 0 \<noteq> es ! 1" using 2 by simp_all
  then show ?thesis using 1(1) es by auto
qed

end
