(* ===== verification/Fifo_Queue.thy ===== *)
theory Fifo_Queue
  imports LocalityDomain Get_Source "HOL-Library.Multiset"
begin

unbundle bit_operations_syntax

text \<open>
  The ready queues of the locality domains (\<open>kaapi_ld.c\<close>) and the affinity of a task with a domain
  (\<open>kaapi_task.c\<close>). A queue is an array used as a ring between the indices H and T; each operation holds its lock
  from end to end, so it is one step. C's \<open>int32_t\<close> indices are integers; an increment past their range, an index
  outside the array and the wait of a full queue are results. Callbacks and condition signals do not change the
  queue and are left out. The locale \<open>conserving\<close> is what the scheduler needs of a queue: tasks are neither lost
  nor duplicated.
\<close>

section \<open>Affinity\<close>

datatype score = Score (score0: nat) (score1: nat) (score2: nat) (score3: nat)

definition is_maxscore :: "score \<Rightarrow> score \<Rightarrow> bool" where
  "is_maxscore a b =
     (if score0 a > score0 b then True else if score0 a < score0 b then False
      else if score1 a > score1 b then True else if score1 a < score1 b then False
      else if score2 a > score2 b then True else if score2 a < score2 b then False
      else score3 a > score3 b)"

text \<open>Scores are ordered lexicographically; \<open>is_maxscore\<close> is the strict order.\<close>

instantiation score :: linorder
begin

definition less_score :: "score \<Rightarrow> score \<Rightarrow> bool" where "less_score a b \<longleftrightarrow> is_maxscore b a"

definition less_eq_score :: "score \<Rightarrow> score \<Rightarrow> bool" where "less_eq_score a b \<longleftrightarrow> \<not> is_maxscore a b"

instance
proof
  fix a b c :: score
  show "(a < b) = (a \<le> b \<and> \<not> b \<le> a)" by (auto simp: less_score_def less_eq_score_def is_maxscore_def split: if_splits)
  show "a \<le> a" by (simp add: less_eq_score_def is_maxscore_def)
  show "a \<le> b \<Longrightarrow> b \<le> c \<Longrightarrow> a \<le> c" by (auto simp: less_eq_score_def is_maxscore_def split: if_splits)
  show "a \<le> b \<Longrightarrow> b \<le> a \<Longrightarrow> a = b"
    by (cases a; cases b) (auto simp: less_eq_score_def is_maxscore_def split: if_splits)
  show "a \<le> b \<or> b \<le> a" by (auto simp: less_eq_score_def is_maxscore_def split: if_splits)
qed

end

lemma is_maxscore_less: "is_maxscore a b \<longleftrightarrow> b < a"
  by (simp add: less_score_def)

text \<open>A parameter of a task: its mode, the valid replicas of its metadata (None: no metadata) and the size of the
  view of each replica. \<open>KAAPI_ACCESS_MASK_MODE\<close> keeps all the bits of the modes used here.\<close>

record tparam =
  tp_mode :: amode
  tp_mdi :: "(16 word \<times> (nat \<Rightarrow> nat)) option"

record rtask =
  rt_id :: nat
  rt_unstealable :: bool
  rt_params :: "tparam list"

text \<open>The code compares types with \<open>ld_target->type\<close>: when no domain has the identifier \<open>ldid\<close>, it reads through a null pointer;
  here the replica then adds nothing. No property depends on the scores computed.\<close>

definition add_score :: "ldreg \<Rightarrow> nat \<Rightarrow> nat \<Rightarrow> nat \<Rightarrow> score \<times> bool \<Rightarrow> score \<times> bool" where
  "add_score R ldid lid sz r =
     (case (kaapi_localitydomain_get (lid + 1) R, kaapi_localitydomain_get ldid R) of
        (Some (Some ld), Some (Some target)) \<Rightarrow>
          (case fst r of Score a b c d \<Rightarrow>
             (if ld = target then Score (a + sz) b c d
              else if ldm_type (lr_obj R ld) = ldm_type (lr_obj R target) then Score a (b + sz) c d
              else Score a b c (d + sz), True))
      | _ \<Rightarrow> r)"

definition param_score :: "ldreg \<Rightarrow> nat \<Rightarrow> tparam \<Rightarrow> score \<times> bool \<Rightarrow> score \<times> bool" where
  "param_score R ldid p r =
     (if tp_mode p AND KAAPI_ACCESS_MODE_V \<noteq> 0 then r
      else case tp_mdi p of None \<Rightarrow> r
      | Some (valid, view_size) \<Rightarrow>
          fold (\<lambda>lid r. if bit valid lid then
              add_score R ldid lid (if tp_mode p = KAAPI_ACCESS_MODE_RW then view_size lid * 2 else view_size lid) r
            else r) [0..<16] r)"

definition score_level :: "nat \<Rightarrow> score \<Rightarrow> bool" where
  "score_level level s \<longleftrightarrow> (\<exists>i\<in>set [0..<level]. 0 < [score0 s, score1 s, score2 s, score3 s] ! i)"

text \<open>For a level from 1 to 4, which the code asserts.\<close>

definition kaapi_compute_affinity_score :: "ldreg \<Rightarrow> nat \<Rightarrow> rtask \<Rightarrow> nat \<Rightarrow> bool \<times> score" where
  "kaapi_compute_affinity_score R ldid task level =
     (let s = fst (fold (param_score R ldid) (rt_params task) (Score 0 0 0 0, False)) in (score_level level s, s))"

section \<open>The queue\<close>

definition QUEUE_DEFAULT_SIZE :: int where "QUEUE_DEFAULT_SIZE = 16384"
definition INT32_MAX :: int where "INT32_MAX = 2147483647"
definition MAX_HISTORY :: nat where "MAX_HISTORY = 16"

record fifo =
  fq_T :: int
  fq_H :: int
  fq_size :: int
  fq_push_count :: "64 word"
  fq_pop_count :: "64 word"
  fq_data :: "(int \<Rightarrow> rtask option) option"    \<comment> \<open>None: not allocated yet\<close>
  fq_waiter_push :: bool

datatype 'a fq = Fq_waits fifo | Fq_out_of_bounds int | Fq_overflow | Fq_ok 'a

text \<open>C's remainder.\<close>

definition c_mod :: "int \<Rightarrow> int \<Rightarrow> int" where
  "c_mod a b = (if 0 \<le> a then a mod b else - ((- a) mod b))"

definition fq_index :: "fifo \<Rightarrow> int \<Rightarrow> int option" where
  "fq_index q i = (let idx = c_mod i (fq_size q) in if 0 \<le> idx \<and> idx < fq_size q then Some idx else None)"

definition fq_get :: "fifo \<Rightarrow> int \<Rightarrow> rtask option" where
  "fq_get q idx = (case fq_data q of None \<Rightarrow> None | Some d \<Rightarrow> d idx)"

definition fq_put :: "int \<Rightarrow> rtask option \<Rightarrow> fifo \<Rightarrow> fifo" where
  "fq_put idx t q = q\<lparr>fq_data := map_option (\<lambda>d. d(idx := t)) (fq_data q)\<rparr>"

definition kaapi_fifo_queue_init :: fifo where
  "kaapi_fifo_queue_init = \<lparr>fq_T = 0, fq_H = 0, fq_size = 0, fq_push_count = 0, fq_pop_count = 0, fq_data = None, fq_waiter_push = False\<rparr>"

definition kaapi_fifo_queue_alloc :: "fifo \<Rightarrow> fifo" where
  "kaapi_fifo_queue_alloc q =
     (if fq_data q = None then q\<lparr>fq_size := QUEUE_DEFAULT_SIZE, fq_data := Some (\<lambda>_. None),
        fq_T := QUEUE_DEFAULT_SIZE div 2, fq_H := QUEUE_DEFAULT_SIZE div 2\<rparr> else q)"

definition kaapi_fifo_queue_push :: "rtask \<Rightarrow> fifo \<Rightarrow> (int \<times> fifo) fq" where
  "kaapi_fifo_queue_push task q0 =
     (let q = kaapi_fifo_queue_alloc q0; T = fq_T q in
      if fq_size q \<le> T - fq_H q then Fq_waits (q\<lparr>fq_waiter_push := True\<rparr>)
      else if T = INT32_MAX then Fq_overflow
      else case fq_index q T of
        None \<Rightarrow> Fq_out_of_bounds (c_mod T (fq_size q))
      | Some idx \<Rightarrow> Fq_ok (T, (fq_put idx (Some task) q)\<lparr>fq_waiter_push := False, fq_T := T + 1, fq_push_count := fq_push_count q + 1\<rparr>))"

definition kaapi_fifo_queue_owner_push :: "rtask \<Rightarrow> fifo \<Rightarrow> (int \<times> fifo) fq" where
  "kaapi_fifo_queue_owner_push task q0 =
     (let q = kaapi_fifo_queue_alloc q0; H = fq_H q - 1 in
      if fq_size q \<le> fq_T q - fq_H q then Fq_waits (q\<lparr>fq_waiter_push := True\<rparr>)
      else case fq_index q H of
        None \<Rightarrow> Fq_out_of_bounds (c_mod H (fq_size q))
      | Some idx \<Rightarrow> Fq_ok (H, (fq_put idx (Some task) q)\<lparr>fq_waiter_push := False, fq_H := H, fq_push_count := fq_push_count q + 1\<rparr>))"

definition kaapi_fifo_queue_pop :: "fifo \<Rightarrow> (rtask option \<times> fifo) fq" where
  "kaapi_fifo_queue_pop q =
     (if fq_H q \<ge> fq_T q then Fq_ok (None, q)
      else case fq_index q (fq_H q) of
        None \<Rightarrow> Fq_out_of_bounds (c_mod (fq_H q) (fq_size q))
      | Some idx \<Rightarrow> let task = fq_get q idx in
          Fq_ok (task, (fq_put idx None q)\<lparr>fq_H := fq_H q + 1,
            fq_pop_count := (if task \<noteq> None then fq_pop_count q + 1 else fq_pop_count q)\<rparr>))"

text \<open>The scan of \<open>kaapi_fifo_queue_steal\<close> from the index \<open>H + n - 1\<close> down to H; \<open>task\<close> is the variable of the code.
  The result is its last value and the index where the loop was left.\<close>

fun steal_scan :: "fifo \<Rightarrow> nat \<Rightarrow> rtask option \<Rightarrow> (rtask option \<times> int option) fq" where
  "steal_scan q 0 task = Fq_ok (task, None)"
| "steal_scan q (Suc n) task =
     (let i = fq_H q + int n in
      case fq_index q i of
        None \<Rightarrow> Fq_out_of_bounds (c_mod i (fq_size q))
      | Some idx \<Rightarrow>
          (case fq_get q idx of
             None \<Rightarrow> steal_scan q n None
           | Some t \<Rightarrow> if rt_unstealable t then steal_scan q n (Some t) else Fq_ok (Some t, Some i)))"

text \<open>The task at the index \<open>i\<close> is taken; the last entry is given back.\<close>

definition take_stolen :: "int \<Rightarrow> fifo \<Rightarrow> fifo" where
  "take_stolen i q =
     (fq_put (c_mod i (fq_size q)) None q)\<lparr>fq_pop_count := fq_pop_count q + 1, fq_T := (if 1 + i = fq_T q then fq_T q - 1 else fq_T q)\<rparr>"

definition kaapi_fifo_queue_steal :: "fifo \<Rightarrow> (rtask option \<times> fifo) fq" where
  "kaapi_fifo_queue_steal q =
     (if fq_T q \<le> fq_H q \<or> fq_size q = 0 then Fq_ok (None, q)
      else case steal_scan q (nat (fq_T q - fq_H q)) None of
        Fq_ok (task, Some i) \<Rightarrow> Fq_ok (task, take_stolen i q)
      | Fq_ok (task, None) \<Rightarrow> Fq_ok (task, q)
      | Fq_waits q \<Rightarrow> Fq_waits q | Fq_out_of_bounds i \<Rightarrow> Fq_out_of_bounds i | Fq_overflow \<Rightarrow> Fq_overflow)"

text \<open>\<open>_kaapi_update_score\<close>: the new maximum, if the task improves it.\<close>

definition kaapi_update_score :: "(rtask \<Rightarrow> bool \<times> score) \<Rightarrow> rtask \<Rightarrow> score \<Rightarrow> score option" where
  "kaapi_update_score aff task score_max =
     (let (r, s) = aff task in if r \<and> is_maxscore s score_max then Some s else None)"

fun steal_best :: "(rtask \<Rightarrow> bool \<times> score) \<Rightarrow> fifo \<Rightarrow> nat \<Rightarrow> score \<Rightarrow> nat \<Rightarrow> int option \<Rightarrow> int option fq" where
  "steal_best aff q 0 score_max nscore ibest = Fq_ok ibest"
| "steal_best aff q (Suc n) score_max nscore ibest =
     (let i = fq_H q + int n in
      case fq_index q i of
        None \<Rightarrow> Fq_out_of_bounds (c_mod i (fq_size q))
      | Some idx \<Rightarrow>
          (case fq_get q idx of
             None \<Rightarrow> steal_best aff q n score_max nscore ibest
           | Some t \<Rightarrow>
               if rt_unstealable t then steal_best aff q n score_max nscore ibest
               else case kaapi_update_score aff t score_max of
                 None \<Rightarrow> steal_best aff q n score_max nscore ibest
               | Some s \<Rightarrow> if nscore + 1 = MAX_HISTORY then Fq_ok (Some i) else steal_best aff q n s (nscore + 1) (Some i)))"

definition kaapi_fifo_queue_steal_with_affinity :: "(rtask \<Rightarrow> bool \<times> score) \<Rightarrow> fifo \<Rightarrow> (rtask option \<times> fifo) fq" where
  "kaapi_fifo_queue_steal_with_affinity aff q =
     (if fq_T q \<le> fq_H q \<or> fq_size q = 0 then Fq_ok (None, q)
      else case steal_best aff q (nat (fq_T q - fq_H q)) (Score 0 0 0 0) 0 None of
        Fq_ok (Some i) \<Rightarrow> Fq_ok (fq_get q (c_mod i (fq_size q)), take_stolen i q)
      | Fq_ok None \<Rightarrow> Fq_ok (None, q)
      | Fq_waits q \<Rightarrow> Fq_waits q | Fq_out_of_bounds i \<Rightarrow> Fq_out_of_bounds i | Fq_overflow \<Rightarrow> Fq_overflow)"

fun pop_best :: "(rtask \<Rightarrow> bool \<times> score) \<Rightarrow> fifo \<Rightarrow> nat \<Rightarrow> int fq" where
  "pop_best aff q 0 = Fq_ok (fq_H q)"
| "pop_best aff q (Suc n) =
     (let i = fq_T q - int (Suc n) in
      case fq_index q i of
        None \<Rightarrow> Fq_out_of_bounds (c_mod i (fq_size q))
      | Some idx \<Rightarrow>
          (case fq_get q idx of
             None \<Rightarrow> pop_best aff q n
           | Some t \<Rightarrow> (case kaapi_update_score aff t (Score 0 0 0 0) of None \<Rightarrow> pop_best aff q n | Some s \<Rightarrow> Fq_ok i)))"

definition kaapi_fifo_queue_pop_with_affinity :: "(rtask \<Rightarrow> bool \<times> score) \<Rightarrow> fifo \<Rightarrow> (rtask option \<times> fifo) fq" where
  "kaapi_fifo_queue_pop_with_affinity aff q =
     (if fq_T q \<le> fq_H q \<or> fq_size q = 0 then Fq_ok (None, q)
      else case pop_best aff q (nat (fq_T q - fq_H q)) of
        Fq_ok i \<Rightarrow> Fq_ok (fq_get q (c_mod i (fq_size q)),
          (fq_put (c_mod i (fq_size q)) None q)\<lparr>fq_pop_count := fq_pop_count q + 1,
             fq_H := (if i = fq_H q then fq_H q + 1 else fq_H q)\<rparr>)
      | Fq_waits q \<Rightarrow> Fq_waits q | Fq_out_of_bounds i \<Rightarrow> Fq_out_of_bounds i | Fq_overflow \<Rightarrow> Fq_overflow)"

section \<open>The tasks of a queue\<close>

text \<open>The window from H to T as a list; a hole is a task taken out of order.\<close>

definition slot :: "fifo \<Rightarrow> int \<Rightarrow> rtask option" where "slot q i = fq_get q (i mod fq_size q)"

definition fq_list :: "fifo \<Rightarrow> rtask option list" where "fq_list q = List.map (slot q) [fq_H q..fq_T q - 1]"

definition holds :: "rtask option list \<Rightarrow> rtask multiset" where
  "holds xs = mset (List.map_filter id xs)"

definition fifo_inv :: "fifo \<Rightarrow> bool" where
  "fifo_inv q \<longleftrightarrow> (if fq_data q = None then fq_T q = 0 \<and> fq_H q = 0 \<and> fq_size q = 0
     else fq_size q = QUEUE_DEFAULT_SIZE \<and> 0 \<le> fq_H q \<and> fq_H q \<le> fq_T q \<and> fq_T q \<le> INT32_MAX \<and>
       fq_T q - fq_H q \<le> fq_size q)"

lemma holds_simps [simp]:
  "holds [] = {#}" "holds (None # xs) = holds xs" "holds (Some t # xs) = add_mset t (holds xs)"
  "holds (xs @ ys) = holds xs + holds ys"
  by (simp_all add: holds_def map_filter_def)

lemma mod_window: "i mod s = j mod s \<Longrightarrow> \<bar>i - j\<bar> < s \<Longrightarrow> i = j" for i j s :: int
  by (metis abs_zero mod_eq_dvd_iff dvd_imp_le_int eq_iff_diff_eq_0 abs_of_pos linorder_not_less zero_less_abs_iff order_le_less_trans abs_ge_zero)

lemma fq_index_window: "0 \<le> i \<Longrightarrow> 0 < fq_size q \<Longrightarrow> fq_index q i = Some (i mod fq_size q)"
  by (simp add: fq_index_def c_mod_def Let_def)

lemma c_mod_nonneg: "0 \<le> i \<Longrightarrow> c_mod i s = i mod s"
  by (simp add: c_mod_def)

lemma fq_put_simps [simp]:
  "fq_H (fq_put k t q) = fq_H q" "fq_T (fq_put k t q) = fq_T q" "fq_size (fq_put k t q) = fq_size q"
  "fq_data (fq_put k t q) = None \<longleftrightarrow> fq_data q = None"
  by (simp_all add: fq_put_def)

lemma slot_simps [simp]:
  "slot (q\<lparr>fq_T := a\<rparr>) = slot q" "slot (q\<lparr>fq_H := a\<rparr>) = slot q" "slot (q\<lparr>fq_push_count := n\<rparr>) = slot q"
  "slot (q\<lparr>fq_pop_count := n\<rparr>) = slot q" "slot (q\<lparr>fq_waiter_push := w\<rparr>) = slot q"
  by (simp_all add: fun_eq_iff slot_def fq_get_def)

lemma slot_put:
  assumes "fq_data q \<noteq> None" "\<bar>i - j\<bar> < fq_size q"
  shows "slot (fq_put (i mod fq_size q) t q) j = (if j = i then t else slot q j)"
  using assms mod_window [of i "fq_size q" j] by (auto simp: slot_def fq_get_def fq_put_def)

text \<open>A change of one slot of the window.\<close>

lemma window_split: "a \<le> i \<Longrightarrow> i \<le> b \<Longrightarrow> [a..b] = [a..i - 1] @ i # [i + 1..b]" for a b i :: int
  by (metis upto_split3)

lemma fq_list_put:
  assumes "fq_data q \<noteq> None" "fq_T q - fq_H q \<le> fq_size q" "fq_H q \<le> i" "i < fq_T q"
  shows "fq_list (fq_put (i mod fq_size q) t q) =
    List.map (slot q) [fq_H q..i - 1] @ t # List.map (slot q) [i + 1..fq_T q - 1]"
    "fq_list q = List.map (slot q) [fq_H q..i - 1] @ slot q i # List.map (slot q) [i + 1..fq_T q - 1]"
proof -
  have s: "slot (fq_put (i mod fq_size q) t q) j = (if j = i then t else slot q j)" if "fq_H q \<le> j" "j < fq_T q" for j
    by (rule slot_put) (use assms that in auto)
  have w: "[fq_H q..fq_T q - 1] = [fq_H q..i - 1] @ i # [i + 1..fq_T q - 1]" using assms by (intro window_split) auto
  show "fq_list q = List.map (slot q) [fq_H q..i - 1] @ slot q i # List.map (slot q) [i + 1..fq_T q - 1]"
    by (simp add: fq_list_def w)
  show "fq_list (fq_put (i mod fq_size q) t q) = List.map (slot q) [fq_H q..i - 1] @ t # List.map (slot q) [i + 1..fq_T q - 1]"
    using assms by (simp add: fq_list_def w s)
qed

section \<open>Runs\<close>

text \<open>The operations of the scheduler, with the affinity of the tasks at the time of the call (the replicas move
  between two calls). A push that waits releases the lock: it is a step that puts nothing in the queue, and is
  tried again later. The result of a step is the task put in, the task taken out and the queue.\<close>

datatype fq_op =
    Push rtask | Owner_push rtask | Pop
  | Pop_affinity "rtask \<Rightarrow> bool \<times> score" | Steal_affinity "rtask \<Rightarrow> bool \<times> score"

fun fq_put_result :: "rtask \<Rightarrow> (int \<times> fifo) fq \<Rightarrow> (rtask option \<times> rtask option \<times> fifo) fq" where
  "fq_put_result t (Fq_ok (i, q)) = Fq_ok (Some t, None, q)"
| "fq_put_result t (Fq_waits q) = Fq_ok (None, None, q)"
| "fq_put_result t (Fq_out_of_bounds i) = Fq_out_of_bounds i"
| "fq_put_result t Fq_overflow = Fq_overflow"

fun fq_take_result :: "(rtask option \<times> fifo) fq \<Rightarrow> (rtask option \<times> rtask option \<times> fifo) fq" where
  "fq_take_result (Fq_ok (r, q)) = Fq_ok (None, r, q)"
| "fq_take_result (Fq_waits q) = Fq_waits q"
| "fq_take_result (Fq_out_of_bounds i) = Fq_out_of_bounds i"
| "fq_take_result Fq_overflow = Fq_overflow"

fun fq_step :: "fq_op \<Rightarrow> fifo \<Rightarrow> (rtask option \<times> rtask option \<times> fifo) fq" where
  "fq_step (Push t) q = fq_put_result t (kaapi_fifo_queue_push t q)"
| "fq_step (Owner_push t) q = fq_put_result t (kaapi_fifo_queue_owner_push t q)"
| "fq_step Pop q = fq_take_result (kaapi_fifo_queue_pop q)"
| "fq_step (Pop_affinity aff) q = fq_take_result (kaapi_fifo_queue_pop_with_affinity aff q)"
| "fq_step (Steal_affinity aff) q = fq_take_result (kaapi_fifo_queue_steal_with_affinity aff q)"

text \<open>What the operations do to the list: push and owner push add at the ends, pop takes the head whatever it is, a
  choice by affinity leaves a hole unless the task is at the end of its side, a thief takes no task that must not be
  stolen.\<close>

inductive deque_step :: "fq_op \<Rightarrow> rtask option list \<Rightarrow> rtask option \<Rightarrow> rtask option \<Rightarrow> rtask option list \<Rightarrow> bool" where
  ds_push: "int (length xs) < QUEUE_DEFAULT_SIZE \<Longrightarrow> deque_step (Push t) xs (Some t) None (xs @ [Some t])"
| ds_owner: "int (length xs) < QUEUE_DEFAULT_SIZE \<Longrightarrow> deque_step (Owner_push t) xs (Some t) None (Some t # xs)"
| ds_push_waits: "int (length xs) = QUEUE_DEFAULT_SIZE \<Longrightarrow> deque_step (Push t) xs None None xs"
| ds_owner_waits: "int (length xs) = QUEUE_DEFAULT_SIZE \<Longrightarrow> deque_step (Owner_push t) xs None None xs"
| ds_pop: "deque_step Pop (x # xs) None x xs"
| ds_pop_empty: "deque_step Pop [] None None []"
| ds_pop_aff: "deque_step (Pop_affinity aff) (ys @ x # zs) None x (if ys = [] then zs else ys @ None # zs)"
| ds_pop_aff_empty: "deque_step (Pop_affinity aff) [] None None []"
| ds_steal: "\<not> rt_unstealable t \<Longrightarrow>
    deque_step (Steal_affinity aff) (ys @ Some t # zs) None (Some t) (if zs = [] then ys else ys @ None # zs)"
| ds_steal_none: "deque_step (Steal_affinity aff) xs None None xs"

definition opt_mset :: "'a option \<Rightarrow> 'a multiset" where
  "opt_mset r = (case r of None \<Rightarrow> {#} | Some t \<Rightarrow> {#t#})"

lemma deque_step_holds: "deque_step op xs put got xs' \<Longrightarrow> holds xs' + opt_mset got = holds xs + opt_mset put"
proof (induction rule: deque_step.induct)
  case (ds_pop x xs) then show ?case by (cases x) (simp_all add: opt_mset_def)
next
  case (ds_pop_aff aff ys x zs) then show ?case by (cases x) (simp_all add: opt_mset_def)
qed (simp_all add: opt_mset_def)

section \<open>The operations on the list\<close>

lemma fifo_inv_data: "fifo_inv q \<Longrightarrow> fq_data q \<noteq> None \<Longrightarrow>
    fq_size q = QUEUE_DEFAULT_SIZE \<and> 0 \<le> fq_H q \<and> fq_H q \<le> fq_T q \<and> fq_T q \<le> INT32_MAX \<and> fq_T q - fq_H q \<le> fq_size q"
  by (simp add: fifo_inv_def)

lemma empty_list: "fq_T q \<le> fq_H q \<Longrightarrow> fq_list q = []"
  by (simp add: fq_list_def)

lemma fifo_alloc_list:
  assumes "fifo_inv q"
  shows "fifo_inv (kaapi_fifo_queue_alloc q)" "fq_list (kaapi_fifo_queue_alloc q) = fq_list q"
    "fq_data (kaapi_fifo_queue_alloc q) \<noteq> None"
proof (atomize (full), cases "fq_data q")
  case None
  then have "fq_list q = []" "fq_list (kaapi_fifo_queue_alloc q) = []"
    using assms by (auto intro!: empty_list simp: kaapi_fifo_queue_alloc_def fifo_inv_def)
  moreover have "fifo_inv (kaapi_fifo_queue_alloc q)"
    by (simp add: None fifo_inv_def kaapi_fifo_queue_alloc_def QUEUE_DEFAULT_SIZE_def INT32_MAX_def)
  ultimately show "fifo_inv (kaapi_fifo_queue_alloc q) \<and> fq_list (kaapi_fifo_queue_alloc q) = fq_list q \<and>
      fq_data (kaapi_fifo_queue_alloc q) \<noteq> None"
    by (simp add: None kaapi_fifo_queue_alloc_def)
next
  case (Some d)
  then have "kaapi_fifo_queue_alloc q = q" by (simp add: kaapi_fifo_queue_alloc_def)
  then show "fifo_inv (kaapi_fifo_queue_alloc q) \<and> fq_list (kaapi_fifo_queue_alloc q) = fq_list q \<and>
      fq_data (kaapi_fifo_queue_alloc q) \<noteq> None"
    using assms Some by simp
qed

lemma fq_length: "fifo_inv q \<Longrightarrow> int (length (fq_list q)) = fq_T q - fq_H q"
  by (auto simp: fq_list_def fifo_inv_def split: if_splits)

lemma list_add:
  assumes "fq_data q \<noteq> None" "fq_H q \<le> fq_T q" "fq_T q - fq_H q < fq_size q"
  shows "List.map (slot (fq_put (fq_T q mod fq_size q) t q)) [fq_H q..fq_T q] = fq_list q @ [t]"
    "List.map (slot (fq_put ((fq_H q - 1) mod fq_size q) t q)) [fq_H q - 1..fq_T q - 1] = t # fq_list q"
proof -
  have "slot (fq_put (fq_T q mod fq_size q) t q) j = (if j = fq_T q then t else slot q j)" if "fq_H q \<le> j" "j \<le> fq_T q" for j
    by (rule slot_put [OF assms(1)]) (use assms(3) that in auto)
  then show "List.map (slot (fq_put (fq_T q mod fq_size q) t q)) [fq_H q..fq_T q] = fq_list q @ [t]"
    using assms(2) by (simp add: fq_list_def upto_rec2)
  have "slot (fq_put ((fq_H q - 1) mod fq_size q) t q) j = (if j = fq_H q - 1 then t else slot q j)"
    if "fq_H q - 1 \<le> j" "j < fq_T q" for j
    by (rule slot_put [OF assms(1)]) (use assms(3) that in auto)
  then show "List.map (slot (fq_put ((fq_H q - 1) mod fq_size q) t q)) [fq_H q - 1..fq_T q - 1] = t # fq_list q"
    using assms(2) by (simp add: fq_list_def upto_rec1)
qed

lemma push_step:
  assumes inv: "fifo_inv q0" and r: "kaapi_fifo_queue_push t q0 = r"
  shows "case r of Fq_waits q \<Rightarrow> fifo_inv q \<and> fq_list q = fq_list q0 \<and> int (length (fq_list q0)) = QUEUE_DEFAULT_SIZE
    | Fq_ok (i, q) \<Rightarrow> fifo_inv q \<and> fq_list q = fq_list q0 @ [Some t] \<and> int (length (fq_list q0)) < QUEUE_DEFAULT_SIZE
    | Fq_out_of_bounds i \<Rightarrow> False | Fq_overflow \<Rightarrow> fq_T (kaapi_fifo_queue_alloc q0) = INT32_MAX"
proof -
  let ?q = "kaapi_fifo_queue_alloc q0"
  note a = fifo_alloc_list [OF inv]
  note i = fifo_inv_data [OF a(1) a(3)]
  show ?thesis
  proof (cases "fq_size ?q \<le> fq_T ?q - fq_H ?q")
    case True
    let ?w = "?q\<lparr>fq_waiter_push := True\<rparr>"
    have "r = Fq_waits ?w" using r True by (simp add: kaapi_fifo_queue_push_def Let_def)
    moreover have "fq_list ?w = fq_list ?q" by (simp add: fq_list_def)
    moreover have "fifo_inv ?w" using i a(3) by (auto simp: fifo_inv_def)
    moreover have "int (length (fq_list q0)) = QUEUE_DEFAULT_SIZE" using True i fq_length [OF a(1)] a(2) by simp
    ultimately show ?thesis using a(2) by simp
  next
    case False
    show ?thesis
    proof (cases "fq_T ?q = INT32_MAX")
      case True then show ?thesis using r False by (simp add: kaapi_fifo_queue_push_def Let_def)
    next
      case max: False
      let ?T = "fq_T ?q" and ?p = "fq_put (fq_T ?q mod fq_size ?q) (Some t) ?q"
      let ?k = "?p\<lparr>fq_waiter_push := False, fq_T := ?T + 1, fq_push_count := fq_push_count ?q + 1\<rparr>"
      have r': "r = Fq_ok (?T, ?k)" using r False max i by (simp add: kaapi_fifo_queue_push_def Let_def fq_index_window)
      have "fq_list ?k = List.map (slot ?p) [fq_H ?q..?T]" by (simp add: fq_list_def)
      also have "\<dots> = fq_list ?q @ [Some t]" by (rule list_add(1)) (use i a(3) False in auto)
      finally have "fq_list ?k = fq_list q0 @ [Some t]" using a(2) by simp
      moreover have "fifo_inv ?k" using i a(3) False max by (auto simp: fifo_inv_def)
      moreover have "int (length (fq_list q0)) < QUEUE_DEFAULT_SIZE" using False i fq_length [OF a(1)] a(2) by simp
      ultimately show ?thesis using r' by simp
    qed
  qed
qed

lemma fq_index_back: "fq_size q = QUEUE_DEFAULT_SIZE \<Longrightarrow> 0 \<le> H \<Longrightarrow>
    fq_index q (H - 1) = (if H = 0 then None else Some ((H - 1) mod fq_size q))"
  by (auto simp: fq_index_def c_mod_def Let_def QUEUE_DEFAULT_SIZE_def)

lemma owner_push_step:
  assumes inv: "fifo_inv q0" and r: "kaapi_fifo_queue_owner_push t q0 = r"
  shows "case r of Fq_waits q \<Rightarrow> fifo_inv q \<and> fq_list q = fq_list q0 \<and> int (length (fq_list q0)) = QUEUE_DEFAULT_SIZE
    | Fq_ok (i, q) \<Rightarrow> fifo_inv q \<and> fq_list q = Some t # fq_list q0 \<and> int (length (fq_list q0)) < QUEUE_DEFAULT_SIZE
    | Fq_out_of_bounds i \<Rightarrow> fq_H (kaapi_fifo_queue_alloc q0) = 0 \<and> i = -1 | Fq_overflow \<Rightarrow> False"
proof -
  let ?q = "kaapi_fifo_queue_alloc q0"
  note a = fifo_alloc_list [OF inv]
  note i = fifo_inv_data [OF a(1) a(3)]
  show ?thesis
  proof (cases "fq_size ?q \<le> fq_T ?q - fq_H ?q")
    case True
    let ?w = "?q\<lparr>fq_waiter_push := True\<rparr>"
    have "r = Fq_waits ?w" using r True by (simp add: kaapi_fifo_queue_owner_push_def Let_def)
    moreover have "fq_list ?w = fq_list ?q" by (simp add: fq_list_def)
    moreover have "fifo_inv ?w" using i a(3) by (auto simp: fifo_inv_def)
    moreover have "int (length (fq_list q0)) = QUEUE_DEFAULT_SIZE" using True i fq_length [OF a(1)] a(2) by simp
    ultimately show ?thesis using a(2) by simp
  next
    case False
    note ix = fq_index_back [of ?q "fq_H ?q"]
    show ?thesis
    proof (cases "fq_H ?q = 0")
      case True then show ?thesis using r False ix i
        by (auto simp: kaapi_fifo_queue_owner_push_def Let_def c_mod_def QUEUE_DEFAULT_SIZE_def)
    next
      case pos: False
      let ?H = "fq_H ?q - 1" and ?p = "fq_put ((fq_H ?q - 1) mod fq_size ?q) (Some t) ?q"
      let ?k = "?p\<lparr>fq_waiter_push := False, fq_H := ?H, fq_push_count := fq_push_count ?q + 1\<rparr>"
      have r': "r = Fq_ok (?H, ?k)" using r False pos i ix by (simp add: kaapi_fifo_queue_owner_push_def Let_def)
      have "fq_list ?k = List.map (slot ?p) [?H..fq_T ?q - 1]" by (simp add: fq_list_def)
      also have "\<dots> = Some t # fq_list ?q" by (rule list_add(2)) (use i a(3) False in auto)
      finally have "fq_list ?k = Some t # fq_list q0" using a(2) by simp
      moreover have "fifo_inv ?k" using i a(3) False pos by (auto simp: fifo_inv_def)
      moreover have "int (length (fq_list q0)) < QUEUE_DEFAULT_SIZE" using False i fq_length [OF a(1)] a(2) by simp
      ultimately show ?thesis using r' by simp
    qed
  qed
qed

text \<open>A queue that is not empty is allocated; its window is a part of the array.\<close>

lemma nonempty_data: "fifo_inv q \<Longrightarrow> fq_H q < fq_T q \<Longrightarrow> fq_data q \<noteq> None"
  by (cases "fq_data q") (auto simp: fifo_inv_def)

lemma window_index:
  assumes "fifo_inv q" "fq_H q \<le> i" "i < fq_T q"
  shows "fq_index q i = Some (i mod fq_size q)" "c_mod i (fq_size q) = i mod fq_size q" "fq_get q (i mod fq_size q) = slot q i"
proof -
  have "fq_data q \<noteq> None" using nonempty_data [OF assms(1)] assms(2,3) by simp
  then have "0 \<le> i" "0 < fq_size q" using fifo_inv_data [OF assms(1)] assms(2) by (auto simp: QUEUE_DEFAULT_SIZE_def)
  then show "fq_index q i = Some (i mod fq_size q)" "c_mod i (fq_size q) = i mod fq_size q"
    by (simp_all add: fq_index_window c_mod_nonneg)
  show "fq_get q (i mod fq_size q) = slot q i" by (simp add: slot_def)
qed

lemma take_list:
  assumes inv: "fifo_inv q" and i: "fq_H q \<le> i" "i < fq_T q"
  obtains ys zs where "fq_list q = ys @ slot q i # zs" "fq_list (fq_put (i mod fq_size q) None q) = ys @ None # zs"
    "ys = [] \<longleftrightarrow> i = fq_H q" "zs = [] \<longleftrightarrow> i + 1 = fq_T q"
    "i = fq_H q \<Longrightarrow> fq_list ((fq_put (i mod fq_size q) None q)\<lparr>fq_H := fq_H q + 1\<rparr>) = zs"
    "i + 1 = fq_T q \<Longrightarrow> fq_list ((fq_put (i mod fq_size q) None q)\<lparr>fq_T := fq_T q - 1\<rparr>) = ys"
proof -
  have d: "fq_data q \<noteq> None" using nonempty_data [OF inv] i by simp
  have w: "fq_T q - fq_H q \<le> fq_size q" using fifo_inv_data [OF inv d] by simp
  let ?p = "fq_put (i mod fq_size q) None q" and ?ys = "List.map (slot q) [fq_H q..i - 1]" and ?zs = "List.map (slot q) [i + 1..fq_T q - 1]"
  have s: "slot ?p j = (if j = i then None else slot q j)" if "fq_H q \<le> j" "j < fq_T q" for j
    by (rule slot_put [OF d]) (use w i that in auto)
  have "fq_list (?p\<lparr>fq_H := fq_H q + 1\<rparr>) = ?zs" if "i = fq_H q" using that s by (simp add: fq_list_def)
  moreover have "fq_list (?p\<lparr>fq_T := fq_T q - 1\<rparr>) = ?ys" if "i + 1 = fq_T q"
  proof -
    have "fq_T q - 1 - 1 = i - 1" using that by simp
    moreover have "List.map (slot ?p) [fq_H q..i - 1] = ?ys" using s i by (intro List.map_cong) auto
    ultimately show ?thesis by (simp add: fq_list_def)
  qed
  moreover have "?ys = [] \<longleftrightarrow> i = fq_H q" "?zs = [] \<longleftrightarrow> i + 1 = fq_T q" using i by auto
  ultimately show thesis using that [OF fq_list_put(2) [OF d w i] fq_list_put(1) [OF d w i]] by blast
qed

text \<open>The queue left by a removal at the head, in the middle or at the tail.\<close>

lemma take_inv:
  assumes "fifo_inv q" "fq_H q < fq_T q"
  shows "fifo_inv ((fq_put k None q)\<lparr>fq_H := fq_H q + 1, fq_pop_count := n\<rparr>)"
    "fifo_inv ((fq_put k None q)\<lparr>fq_pop_count := n, fq_H := (if b then fq_H q + 1 else fq_H q)\<rparr>)"
    "fifo_inv ((fq_put k None q)\<lparr>fq_pop_count := n, fq_T := (if b then fq_T q - 1 else fq_T q)\<rparr>)"
proof -
  have d: "fq_data q \<noteq> None" using nonempty_data assms by blast
  note i = fifo_inv_data [OF assms(1) d]
  show "fifo_inv ((fq_put k None q)\<lparr>fq_H := fq_H q + 1, fq_pop_count := n\<rparr>)" using i d assms(2) by (auto simp: fifo_inv_def)
  show "fifo_inv ((fq_put k None q)\<lparr>fq_pop_count := n, fq_H := (if b then fq_H q + 1 else fq_H q)\<rparr>)"
    using i d assms(2) by (auto simp: fifo_inv_def)
  show "fifo_inv ((fq_put k None q)\<lparr>fq_pop_count := n, fq_T := (if b then fq_T q - 1 else fq_T q)\<rparr>)"
    using i d assms(2) by (auto simp: fifo_inv_def)
qed

lemma fq_list_counts [simp]:
  "fq_list (q\<lparr>fq_pop_count := n\<rparr>) = fq_list q" "fq_list (q\<lparr>fq_H := a, fq_pop_count := n\<rparr>) = fq_list (q\<lparr>fq_H := a\<rparr>)"
  "fq_list (q\<lparr>fq_pop_count := n, fq_H := a\<rparr>) = fq_list (q\<lparr>fq_H := a\<rparr>)"
  "fq_list (q\<lparr>fq_pop_count := n, fq_T := a\<rparr>) = fq_list (q\<lparr>fq_T := a\<rparr>)"
  by (simp_all add: fq_list_def)

lemma pop_step:
  assumes "fifo_inv q"
  shows "\<exists>r q'. kaapi_fifo_queue_pop q = Fq_ok (r, q') \<and> fifo_inv q' \<and> deque_step Pop (fq_list q) None r (fq_list q')"
proof (cases "fq_H q \<ge> fq_T q")
  case True
  then show ?thesis using assms ds_pop_empty by (auto simp: kaapi_fifo_queue_pop_def empty_list)
next
  case False
  then have l: "fq_H q < fq_T q" by simp
  note ix = window_index [OF assms order_refl l]
  obtain ys zs where z: "fq_list q = ys @ slot q (fq_H q) # zs" "ys = [] \<longleftrightarrow> fq_H q = fq_H q"
    "fq_H q = fq_H q \<Longrightarrow> fq_list ((fq_put (fq_H q mod fq_size q) None q)\<lparr>fq_H := fq_H q + 1\<rparr>) = zs"
    using take_list [OF assms order_refl l] by metis
  show ?thesis
    using False ix take_inv(1) [OF assms l] z ds_pop [of "slot q (fq_H q)" zs]
    by (auto simp: kaapi_fifo_queue_pop_def Let_def)
qed

text \<open>The scans return an index of the window.\<close>

lemma pop_best_window:
  assumes inv: "fifo_inv q" and l: "fq_H q < fq_T q" and n: "int n \<le> fq_T q - fq_H q"
  shows "\<exists>i. pop_best aff q n = Fq_ok i \<and> fq_H q \<le> i \<and> i < fq_T q"
  using n
proof (induction n)
  case 0 then show ?case using l by simp
next
  case (Suc n)
  have w: "fq_index q (fq_T q - int (Suc n)) = Some ((fq_T q - int (Suc n)) mod fq_size q)"
    using window_index(1) [OF inv, of "fq_T q - int (Suc n)"] Suc.prems by simp
  show ?case using Suc w by (auto simp: Let_def split: option.split)
qed

lemma steal_best_window:
  assumes inv: "fifo_inv q"
  shows "int n \<le> fq_T q - fq_H q \<Longrightarrow>
    (\<forall>i. ib = Some i \<longrightarrow> fq_H q \<le> i \<and> i < fq_T q \<and> (\<exists>t. slot q i = Some t \<and> \<not> rt_unstealable t)) \<Longrightarrow>
    \<exists>r. steal_best aff q n sm ns ib = Fq_ok r \<and>
      (\<forall>i. r = Some i \<longrightarrow> fq_H q \<le> i \<and> i < fq_T q \<and> (\<exists>t. slot q i = Some t \<and> \<not> rt_unstealable t))"
proof (induction n arbitrary: sm ns ib)
  case 0 then show ?case by simp
next
  case (Suc n)
  let ?i = "fq_H q + int n"
  have w: "fq_index q ?i = Some (?i mod fq_size q)" "fq_get q (?i mod fq_size q) = slot q ?i"
    using window_index(1,3) [OF inv, of ?i] Suc.prems(1) by simp_all
  have n: "int n \<le> fq_T q - fq_H q" using Suc.prems(1) by simp
  note IH = Suc.IH [OF n]
  show ?case
  proof (cases "\<exists>t s. slot q ?i = Some t \<and> \<not> rt_unstealable t \<and> kaapi_update_score aff t sm = Some s")
    case True
    then obtain t s where t: "slot q ?i = Some t" "\<not> rt_unstealable t" "kaapi_update_score aff t sm = Some s" by blast
    have "\<exists>r. steal_best aff q n s (ns + 1) (Some ?i) = Fq_ok r \<and>
        (\<forall>i. r = Some i \<longrightarrow> fq_H q \<le> i \<and> i < fq_T q \<and> (\<exists>t. slot q i = Some t \<and> \<not> rt_unstealable t))"
      by (rule IH) (use t Suc.prems(1) in auto)
    then show ?thesis using t w Suc.prems(1) by (auto simp: Let_def)
  next
    case False
    then have "steal_best aff q (Suc n) sm ns ib = steal_best aff q n sm ns ib"
      using w by (auto simp: Let_def split: option.split)
    then show ?thesis using IH [OF Suc.prems(2)] by simp
  qed
qed

lemma pop_affinity_step:
  assumes "fifo_inv q"
  shows "\<exists>r q'. kaapi_fifo_queue_pop_with_affinity aff q = Fq_ok (r, q') \<and> fifo_inv q' \<and>
    deque_step (Pop_affinity aff) (fq_list q) None r (fq_list q')"
proof (cases "fq_T q \<le> fq_H q \<or> fq_size q = 0")
  case True
  then have "fq_T q \<le> fq_H q" using assms by (auto simp: fifo_inv_def QUEUE_DEFAULT_SIZE_def split: if_splits)
  then show ?thesis using assms ds_pop_aff_empty by (auto simp: kaapi_fifo_queue_pop_with_affinity_def empty_list)
next
  case False
  then have l: "fq_H q < fq_T q" by simp
  obtain i where i: "pop_best aff q (nat (fq_T q - fq_H q)) = Fq_ok i" "fq_H q \<le> i" "i < fq_T q"
    using pop_best_window [OF assms l, of "nat (fq_T q - fq_H q)" aff] l by auto
  note ix = window_index [OF assms i(2,3)]
  obtain ys zs where z: "fq_list q = ys @ slot q i # zs" "fq_list (fq_put (i mod fq_size q) None q) = ys @ None # zs"
    "ys = [] \<longleftrightarrow> i = fq_H q" "i = fq_H q \<Longrightarrow> fq_list ((fq_put (i mod fq_size q) None q)\<lparr>fq_H := fq_H q + 1\<rparr>) = zs"
    using take_list [OF assms i(2,3)] by metis
  let ?q' = "(fq_put (i mod fq_size q) None q)\<lparr>fq_pop_count := fq_pop_count q + 1, fq_H := (if i = fq_H q then fq_H q + 1 else fq_H q)\<rparr>"
  have r: "kaapi_fifo_queue_pop_with_affinity aff q = Fq_ok (slot q i, ?q')"
    using False i(1) ix by (simp add: kaapi_fifo_queue_pop_with_affinity_def)
  have lst: "fq_list ?q' = (if ys = [] then zs else ys @ None # zs)"
  proof (cases "i = fq_H q")
    case False
    have "fq_list ?q' = fq_list (fq_put (i mod fq_size q) None q)" using False by (simp add: fq_list_def)
    then show ?thesis using z False by simp
  qed (use z in simp)
  have "fifo_inv ?q'" by (rule take_inv(2) [OF assms l])
  moreover have "deque_step (Pop_affinity aff) (fq_list q) None (slot q i) (fq_list ?q')"
    unfolding z(1) lst by (rule ds_pop_aff)
  ultimately show ?thesis using r by blast
qed

lemma steal_affinity_step:
  assumes "fifo_inv q"
  shows "\<exists>r q'. kaapi_fifo_queue_steal_with_affinity aff q = Fq_ok (r, q') \<and> fifo_inv q' \<and>
    deque_step (Steal_affinity aff) (fq_list q) None r (fq_list q')"
proof (cases "fq_T q \<le> fq_H q \<or> fq_size q = 0")
  case True
  then show ?thesis using assms ds_steal_none by (auto simp: kaapi_fifo_queue_steal_with_affinity_def)
next
  case False
  then have l: "fq_H q < fq_T q" by simp
  obtain r where r: "steal_best aff q (nat (fq_T q - fq_H q)) (Score 0 0 0 0) 0 None = Fq_ok r"
    and w: "\<And>i. r = Some i \<Longrightarrow> fq_H q \<le> i \<and> i < fq_T q \<and> (\<exists>t. slot q i = Some t \<and> \<not> rt_unstealable t)"
    using steal_best_window [OF assms, of "nat (fq_T q - fq_H q)" None aff "Score 0 0 0 0" 0] l by auto
  show ?thesis
  proof (cases r)
    case None
    then show ?thesis using False r assms ds_steal_none by (auto simp: kaapi_fifo_queue_steal_with_affinity_def)
  next
    case (Some i)
    then obtain t where i: "fq_H q \<le> i" "i < fq_T q" and t: "slot q i = Some t" "\<not> rt_unstealable t" using w by blast
    note ix = window_index [OF assms i]
    obtain ys zs where z: "fq_list q = ys @ slot q i # zs" "fq_list (fq_put (i mod fq_size q) None q) = ys @ None # zs"
      "zs = [] \<longleftrightarrow> i + 1 = fq_T q" "i + 1 = fq_T q \<Longrightarrow> fq_list ((fq_put (i mod fq_size q) None q)\<lparr>fq_T := fq_T q - 1\<rparr>) = ys"
      using take_list [OF assms i] by metis
    let ?p = "fq_put (i mod fq_size q) None q" and ?q' = "take_stolen i q"
    have q': "?q' = ?p\<lparr>fq_pop_count := fq_pop_count q + 1, fq_T := (if i + 1 = fq_T q then fq_T q - 1 else fq_T q)\<rparr>"
      by (simp add: take_stolen_def ix add.commute)
    have r': "kaapi_fifo_queue_steal_with_affinity aff q = Fq_ok (Some t, ?q')"
      using False r Some ix t by (simp add: kaapi_fifo_queue_steal_with_affinity_def)
    have lst: "fq_list ?q' = (if zs = [] then ys else ys @ None # zs)"
    proof (cases "i + 1 = fq_T q")
      case False
      have "fq_list ?q' = fq_list ?p" using False by (simp add: q' fq_list_def)
      then show ?thesis using z False by simp
    qed (use z q' in simp)
    have "fifo_inv ?q'" unfolding q' by (rule take_inv(3) [OF assms l])
    moreover have "deque_step (Steal_affinity aff) (fq_list q) None (Some t) (fq_list ?q')"
      unfolding z(1) lst t(1) by (rule ds_steal [OF t(2)])
    ultimately show ?thesis using r' by blast
  qed
qed

text \<open>Every step, with the cases where it fails.\<close>

lemma fq_step_cases:
  assumes "fifo_inv q"
  shows "case fq_step op q of Fq_ok (put, got, q') \<Rightarrow> fifo_inv q' \<and> deque_step op (fq_list q) put got (fq_list q')
    | Fq_waits q' \<Rightarrow> False
    | Fq_out_of_bounds i \<Rightarrow> i = -1 \<and> (\<exists>t. op = Owner_push t) \<and> fq_H (kaapi_fifo_queue_alloc q) = 0
    | Fq_overflow \<Rightarrow> (\<exists>t. op = Push t) \<and> fq_T (kaapi_fifo_queue_alloc q) = INT32_MAX"
proof (cases op)
  case (Push t)
  show ?thesis using push_step [OF assms refl, of t] unfolding Push
    by (auto split: fq.splits intro: ds_push ds_push_waits)
next
  case (Owner_push t)
  show ?thesis using owner_push_step [OF assms refl, of t] unfolding Owner_push
    by (auto split: fq.splits intro: ds_owner ds_owner_waits)
next
  case Pop then show ?thesis using pop_step [OF assms] by auto
next
  case (Pop_affinity aff) then show ?thesis using pop_affinity_step [OF assms, of aff] by auto
next
  case (Steal_affinity aff) then show ?thesis using steal_affinity_step [OF assms, of aff] by auto
qed

section \<open>What the scheduler relies on\<close>

text \<open>A run of a container: the tasks put in and the tasks taken out, in order.\<close>

fun run_ops :: "('o \<Rightarrow> 's \<Rightarrow> ('t option \<times> 't option \<times> 's) option) \<Rightarrow> 'o list \<Rightarrow> 's \<Rightarrow> ('t list \<times> 't list \<times> 's) option" where
  "run_ops step [] s = Some ([], [], s)"
| "run_ops step (op # ops) s =
     (case step op s of None \<Rightarrow> None
      | Some (put, got, s1) \<Rightarrow>
          (case run_ops step ops s1 of None \<Rightarrow> None
           | Some (puts, gots, s2) \<Rightarrow> Some (case_option [] (\<lambda>t. [t]) put @ puts, case_option [] (\<lambda>t. [t]) got @ gots, s2)))"

locale conserving =
  fixes step :: "'o \<Rightarrow> 's \<Rightarrow> ('t option \<times> 't option \<times> 's) option"
    and contents :: "'s \<Rightarrow> 't multiset"
    and inv :: "'s \<Rightarrow> bool"
  assumes keep: "inv s \<Longrightarrow> step op s = Some (put, got, s') \<Longrightarrow> inv s' \<and> contents s' + opt_mset got = contents s + opt_mset put"
begin

lemma run_conserves:
  "inv s \<Longrightarrow> run_ops step ops s = Some (puts, gots, s') \<Longrightarrow> inv s' \<and> contents s' + mset gots = contents s + mset puts"
proof (induction ops arbitrary: s puts gots)
  case Nil then show ?case by simp
next
  case (Cons op ops)
  obtain put got s1 puts1 gots1 where 1: "step op s = Some (put, got, s1)" "run_ops step ops s1 = Some (puts1, gots1, s')"
    and p: "puts = case_option [] (\<lambda>t. [t]) put @ puts1" "gots = case_option [] (\<lambda>t. [t]) got @ gots1"
    using Cons.prems(2) by (auto split: option.splits)
  have m: "mset puts = opt_mset put + mset puts1" "mset gots = opt_mset got + mset gots1"
    by (auto simp: p opt_mset_def split: option.split)
  have k: "inv s1" "contents s1 + opt_mset got = contents s + opt_mset put" using keep [OF Cons.prems(1) 1(1)] by simp_all
  have i: "inv s'" "contents s' + mset gots1 = contents s1 + mset puts1" using Cons.IH [OF k(1) 1(2)] by simp_all
  have "contents s' + mset gots = contents s1 + mset puts1 + opt_mset got" using i(2) by (simp add: m ac_simps)
  also have "\<dots> = contents s + mset puts" using k(2) by (simp add: m ac_simps)
  finally show ?case using i(1) by simp
qed

text \<open>From an empty container no task is given to two takers.\<close>

lemma no_task_twice:
  assumes "inv s" "contents s = {#}" "run_ops step ops s = Some (puts, gots, s')" "distinct puts"
  shows "distinct gots"
proof -
  have "contents s' + mset gots = mset puts" using run_conserves [OF assms(1,3)] assms(2) by simp
  then have "mset puts = mset gots + contents s'" by (simp add: add.commute)
  then have le: "count (mset gots) t \<le> count (mset puts) t" for t by simp
  have one: "count (mset puts) t \<le> 1" for t using assms(4) by (simp add: distinct_count_atmost_1)
  have "count (mset gots) t = (if t \<in> set gots then 1 else 0)" for t
  proof (cases "t \<in> set gots")
    case True
    then have "0 < count (mset gots) t" by simp
    then have "count (mset gots) t = 1" using le [of t] one [of t] by linarith
    then show ?thesis using True by simp
  qed (simp add: count_eq_zero_iff)
  then show ?thesis by (simp add: distinct_count_atmost_1)
qed

end

definition fq_event :: "fq_op \<Rightarrow> fifo \<Rightarrow> (rtask option \<times> rtask option \<times> fifo) option" where
  "fq_event op q = (case fq_step op q of Fq_ok r \<Rightarrow> Some r | _ \<Rightarrow> None)"

definition contents :: "fifo \<Rightarrow> rtask multiset" where "contents q = holds (fq_list q)"

lemma fq_event_step: "fq_event op q = Some r \<longleftrightarrow> fq_step op q = Fq_ok r"
  by (cases "fq_step op q") (simp_all add: fq_event_def)

interpretation ready_queue: conserving fq_event contents fifo_inv
proof unfold_locales
  fix q op put got q'
  assume "fifo_inv q" "fq_event op q = Some (put, got, q')"
  then have "fifo_inv q' \<and> deque_step op (fq_list q) put got (fq_list q')"
    using fq_step_cases [of q op] by (simp add: fq_event_step)
  then show "fifo_inv q' \<and> contents q' + opt_mset got = contents q + opt_mset put"
    using deque_step_holds by (auto simp: contents_def)
qed

lemma fifo_init [simp]: "fifo_inv kaapi_fifo_queue_init" "contents kaapi_fifo_queue_init = {#}" "fq_list kaapi_fifo_queue_init = []"
  by (simp_all add: fifo_inv_def contents_def fq_list_def kaapi_fifo_queue_init_def)

section \<open>Properties\<close>

text \<open>How far a step moves the ends of the window; an idle queue counts from the middle of the array.\<close>

definition fq_head :: "fifo \<Rightarrow> int" where "fq_head q = fq_H (kaapi_fifo_queue_alloc q)"
definition fq_tail :: "fifo \<Rightarrow> int" where "fq_tail q = fq_T (kaapi_fifo_queue_alloc q)"

definition is_owner_push :: "fq_op \<Rightarrow> bool" where
  "is_owner_push op \<longleftrightarrow> (case op of Owner_push t \<Rightarrow> True | _ \<Rightarrow> False)"

lemma alloc_ends [simp]:
  "fq_data q \<noteq> None \<Longrightarrow> kaapi_fifo_queue_alloc q = q" "fq_data (kaapi_fifo_queue_alloc q) \<noteq> None"
  by (auto simp: kaapi_fifo_queue_alloc_def)

lemma fq_data_upd [simp]:
  "fq_data (take_stolen i q) = None \<longleftrightarrow> fq_data q = None"
  by (simp add: take_stolen_def)

lemma step_ends:
  assumes "fifo_inv q" "fq_step op q = Fq_ok (put, got, q')"
  shows "fq_head q - (if is_owner_push op then 1 else 0) \<le> fq_head q' \<and> fq_tail q' \<le> fq_tail q + 1"
proof (cases op)
  case (Push t)
  then show ?thesis using assms(2)
    by (auto simp: kaapi_fifo_queue_push_def Let_def fq_head_def fq_tail_def is_owner_push_def split: if_splits option.splits)
next
  case (Owner_push t)
  then show ?thesis using assms(2)
    by (auto simp: kaapi_fifo_queue_owner_push_def Let_def fq_head_def fq_tail_def is_owner_push_def split: if_splits option.splits)
next
  case Pop
  have "fq_data q \<noteq> None" if "fq_H q < fq_T q" using that assms(1) by (auto simp: fifo_inv_def split: if_splits)
  then show ?thesis using assms(2) unfolding Pop
    by (cases "fq_H q < fq_T q") (auto simp: kaapi_fifo_queue_pop_def Let_def fq_head_def fq_tail_def is_owner_push_def split: option.splits)
next
  case (Pop_affinity aff)
  have "fq_data q \<noteq> None" if "fq_H q < fq_T q" using that assms(1) by (auto simp: fifo_inv_def split: if_splits)
  then show ?thesis using assms(2) unfolding Pop_affinity
    by (cases "fq_H q < fq_T q")
       (auto simp: kaapi_fifo_queue_pop_with_affinity_def Let_def fq_head_def fq_tail_def is_owner_push_def split: if_splits fq.splits)
next
  case (Steal_affinity aff)
  have a: "kaapi_fifo_queue_alloc q = q" "kaapi_fifo_queue_alloc (take_stolen i q) = take_stolen i q" if "fq_H q < fq_T q" for i
    using that assms(1) by (auto simp: fifo_inv_def split: if_splits)
  have t: "fq_H (take_stolen i q) = fq_H q" "fq_T (take_stolen i q) \<le> fq_T q + 1" for i by (simp_all add: take_stolen_def)
  show ?thesis using assms(2) a t unfolding Steal_affinity
    by (cases "fq_H q < fq_T q")
       (auto simp: kaapi_fifo_queue_steal_with_affinity_def Let_def fq_head_def fq_tail_def is_owner_push_def
          split: if_splits fq.splits option.splits)
qed

lemma run_returns:
  "fifo_inv q \<Longrightarrow> int (length (filter is_owner_push ops)) \<le> fq_head q \<Longrightarrow> fq_tail q + int (length ops) \<le> INT32_MAX \<Longrightarrow>
   run_ops fq_event ops q \<noteq> None"
proof (induction ops arbitrary: q)
  case Nil then show ?case by simp
next
  case (Cons op ops)
  have r: "\<exists>put got q'. fq_step op q = Fq_ok (put, got, q') \<and> fifo_inv q'"
  proof (cases "fq_step op q")
    case (Fq_out_of_bounds i)
    then obtain t where "op = Owner_push t" "fq_head q = 0"
      using fq_step_cases [OF Cons.prems(1), of op] by (auto simp: fq_head_def)
    then show ?thesis using Cons.prems(2) by (simp add: is_owner_push_def)
  next
    case Fq_overflow
    then have "fq_tail q = INT32_MAX" using fq_step_cases [OF Cons.prems(1), of op] by (auto simp: fq_tail_def)
    then show ?thesis using Cons.prems(3) by simp
  qed (use fq_step_cases [OF Cons.prems(1), of op] in auto)
  then obtain put got q' where s: "fq_step op q = Fq_ok (put, got, q')" "fifo_inv q'" by blast
  have "run_ops fq_event ops q' \<noteq> None"
    by (rule Cons.IH [OF s(2)]) (use Cons.prems(2,3) step_ends [OF Cons.prems(1) s(1)] in \<open>auto split: if_splits\<close>)
  moreover have "fq_event op q = Some (put, got, q')" using s(1) by (simp add: fq_event_step)
  ultimately show ?case by auto
qed

text \<open>C32. The ready queues lose no task and give none twice. After any sequence of pushes at both ends (those that wait
  and are tried again included), pops, pops by affinity and steals by affinity on a new queue, whatever the affinities
  were at each call, the tasks taken out and the tasks still in the queue are the tasks put in, and if these are distinct,
  no task has been given to two takers, as long as no push has left the array or overflowed the tail (C34). Sequences with
  at most 8192 owner pushes and at most 2147475455 operations in all never do. The steal without affinity, which the
  scheduler does not call, is not among the operations (C36).\<close>

theorem fifo_conserves:
  "(\<forall>puts gots q. run_ops fq_event ops kaapi_fifo_queue_init = Some (puts, gots, q) \<longrightarrow>
      holds (fq_list q) + mset gots = mset puts \<and> (distinct puts \<longrightarrow> distinct gots)) \<and>
   (length (filter is_owner_push ops) \<le> 8192 \<and> int (length ops) \<le> 2147475455 \<longrightarrow>
      run_ops fq_event ops kaapi_fifo_queue_init \<noteq> None)"
proof (intro conjI allI impI)
  fix puts gots q assume r: "run_ops fq_event ops kaapi_fifo_queue_init = Some (puts, gots, q)"
  show "holds (fq_list q) + mset gots = mset puts" "distinct puts \<Longrightarrow> distinct gots"
    using ready_queue.run_conserves [OF fifo_init(1) r] ready_queue.no_task_twice [OF fifo_init(1,2) r]
    by (simp_all add: contents_def [symmetric])
next
  assume "length (filter is_owner_push ops) \<le> 8192 \<and> int (length ops) \<le> 2147475455"
  then show "run_ops fq_event ops kaapi_fifo_queue_init \<noteq> None"
    by (intro run_returns fifo_init(1)) (simp_all add: fq_head_def fq_tail_def kaapi_fifo_queue_alloc_def
        kaapi_fifo_queue_init_def QUEUE_DEFAULT_SIZE_def INT32_MAX_def)
qed

definition task0 :: rtask where "task0 = \<lparr>rt_id = 0, rt_unstealable = False, rt_params = []\<rparr>"
definition task1 :: rtask where "task1 = \<lparr>rt_id = 1, rt_unstealable = True, rt_params = []\<rparr>"
definition aff0 :: "rtask \<Rightarrow> bool \<times> score" where "aff0 t = (True, Score 0 8 0 0)"

lemmas fq_eval = fq_event_def kaapi_fifo_queue_push_def kaapi_fifo_queue_owner_push_def kaapi_fifo_queue_pop_def
  kaapi_fifo_queue_steal_def kaapi_fifo_queue_steal_with_affinity_def kaapi_fifo_queue_alloc_def kaapi_fifo_queue_init_def
  QUEUE_DEFAULT_SIZE_def INT32_MAX_def MAX_HISTORY_def fq_index_def fq_put_def fq_get_def c_mod_def take_stolen_def
  kaapi_update_score_def is_maxscore_def aff0_def task0_def task1_def

lemma run_example:
  "\<exists>q. run_ops fq_event [Push task1, Push task0, Steal_affinity aff0, Pop] kaapi_fifo_queue_init = Some ([task1, task0], [task0, task1], q)"
  by (simp add: fq_eval Let_def numeral_2_eq_2)

lemma fifo_conserves_witness:
  "\<exists>q. run_ops fq_event [Push task1, Push task0, Steal_affinity aff0, Pop] kaapi_fifo_queue_init = Some ([task1, task0], [task0, task1], q) \<and>
     holds (fq_list q) = {#} \<and> distinct [task0, task1]"
proof -
  obtain q where r: "run_ops fq_event [Push task1, Push task0, Steal_affinity aff0, Pop] kaapi_fifo_queue_init = Some ([task1, task0], [task0, task1], q)"
    using run_example by blast
  have d: "distinct [task1, task0]" by (simp add: task0_def task1_def)
  have "holds (fq_list q) + mset [task0, task1] = mset [task1, task0]" "distinct [task0, task1]"
    using fifo_conserves [of "[Push task1, Push task0, Steal_affinity aff0, Pop]"] r d by blast+
  then show ?thesis using r by (auto simp: add_mset_commute)
qed

text \<open>C33. The operations implement a double-ended list with holes, on which a push adds at the tail, an owner push at the
  head, a pop takes the head, and a choice by affinity takes any task from the list, for a thief one that may be stolen,
  leaving a hole unless it is at its end; a push waits exactly when the list has 16384 entries.\<close>

theorem fifo_refines:
  assumes "fifo_inv q" "fq_step op q = Fq_ok (put, got, q')"
  shows "fifo_inv q' \<and> deque_step op (fq_list q) put got (fq_list q')"
  using fq_step_cases [OF assms(1), of op] assms(2) by simp

lemma fifo_refines_witness:
  "\<exists>q. fq_step (Owner_push task0) kaapi_fifo_queue_init = Fq_ok (Some task0, None, q) \<and> fifo_inv q \<and>
     deque_step (Owner_push task0) [] (Some task0) None (fq_list q)"
proof -
  obtain q where r: "fq_step (Owner_push task0) kaapi_fifo_queue_init = Fq_ok (Some task0, None, q)"
    by (simp add: fq_eval Let_def)
  then show ?thesis using fifo_refines [OF fifo_init(1) r] by auto
qed

text \<open>C34. The queue is well formed after every step (the indices are ordered, at most 16384 apart, not negative and in
  range of \<open>int32_t\<close>), and no step reads or writes outside the array, with two exceptions: an owner push when H is 0,
  which writes \<open>data[-1]\<close>, and a push when T is the largest \<open>int32_t\<close>, which overflows it.\<close>

theorem fifo_well_formed:
  assumes "fifo_inv q"
  shows "(\<exists>put got q'. fq_step op q = Fq_ok (put, got, q') \<and> fifo_inv q') \<or>
    fq_step op q = Fq_out_of_bounds (-1) \<and> (\<exists>t. op = Owner_push t) \<and> fq_H (kaapi_fifo_queue_alloc q) = 0 \<or>
    fq_step op q = Fq_overflow \<and> (\<exists>t. op = Push t) \<and> fq_T (kaapi_fifo_queue_alloc q) = INT32_MAX"
  using fq_step_cases [OF assms, of op] by (cases "fq_step op q") auto

lemma fifo_well_formed_witness: "\<exists>put got q'. fq_step (Push task0) kaapi_fifo_queue_init = Fq_ok (put, got, q') \<and> fifo_inv q'"
  using fifo_well_formed [OF fifo_init(1), of "Push task0"]
  by (simp add: kaapi_fifo_queue_alloc_def kaapi_fifo_queue_init_def INT32_MAX_def QUEUE_DEFAULT_SIZE_def)

lemma owner_push_head:
  assumes "fq_data q \<noteq> None" "fq_size q = QUEUE_DEFAULT_SIZE" "0 < fq_H q" "fq_T q - fq_H q < QUEUE_DEFAULT_SIZE"
  shows "\<exists>q'. kaapi_fifo_queue_owner_push t q = Fq_ok (fq_H q - 1, q') \<and> fq_data q' \<noteq> None \<and> fq_size q' = QUEUE_DEFAULT_SIZE \<and>
    fq_H q' = fq_H q - 1 \<and> fq_T q' = fq_T q"
  using assms fq_index_back [of q "fq_H q"] by (auto simp: kaapi_fifo_queue_owner_push_def kaapi_fifo_queue_alloc_def Let_def fq_put_def)

lemma owner_pushes:
  "fq_data q \<noteq> None \<Longrightarrow> fq_size q = QUEUE_DEFAULT_SIZE \<Longrightarrow> int (length ts) \<le> fq_H q \<Longrightarrow>
   fq_T q - fq_H q + int (length ts) \<le> QUEUE_DEFAULT_SIZE \<Longrightarrow>
   \<exists>q'. run_ops fq_event (List.map Owner_push ts) q = Some (ts, [], q') \<and> fq_data q' \<noteq> None \<and> fq_size q' = QUEUE_DEFAULT_SIZE \<and>
     fq_H q' = fq_H q - int (length ts) \<and> fq_T q' = fq_T q"
proof (induction ts arbitrary: q)
  case Nil then show ?case by simp
next
  case (Cons t ts)
  obtain q1 where q1: "kaapi_fifo_queue_owner_push t q = Fq_ok (fq_H q - 1, q1)" "fq_data q1 \<noteq> None" "fq_size q1 = QUEUE_DEFAULT_SIZE"
    "fq_H q1 = fq_H q - 1" "fq_T q1 = fq_T q"
    using owner_push_head [of q t] Cons.prems by auto
  obtain q' where "run_ops fq_event (List.map Owner_push ts) q1 = Some (ts, [], q')" "fq_data q' \<noteq> None"
      "fq_size q' = QUEUE_DEFAULT_SIZE" "fq_H q' = fq_H q1 - int (length ts)" "fq_T q' = fq_T q1"
    using Cons.IH [OF q1(2,3)] Cons.prems q1 by auto
  moreover have "fq_event (Owner_push t) q = Some (Some t, None, q1)" using q1(1) by (simp add: fq_event_def)
  ultimately show ?case using q1 by (intro exI [of _ q']) simp
qed

lemma alloc_alloc: "kaapi_fifo_queue_alloc (kaapi_fifo_queue_alloc q) = kaapi_fifo_queue_alloc q"
  by (simp add: kaapi_fifo_queue_alloc_def)

lemma owner_push_alloc: "kaapi_fifo_queue_owner_push t (kaapi_fifo_queue_alloc q) = kaapi_fifo_queue_owner_push t q"
  by (simp add: kaapi_fifo_queue_owner_push_def alloc_alloc)

text \<open>C35. A thread that only pushes on its own queue writes outside the array: H starts in the middle, and C's remainder of
  a negative number is negative. The first 8192 owner pushes are accepted, the next one writes \<open>data[-1]\<close> although half
  of the array is free.\<close>

theorem owner_push_out_of_bounds:
  assumes "length ts = 8192"
  shows "\<exists>q. run_ops fq_event (List.map Owner_push ts) kaapi_fifo_queue_init = Some (ts, [], q) \<and>
    fq_T q - fq_H q = 8192 \<and> fq_size q = 16384 \<and> kaapi_fifo_queue_owner_push t q = Fq_out_of_bounds (-1)"
proof -
  let ?a = "kaapi_fifo_queue_alloc kaapi_fifo_queue_init"
  have a: "fq_data ?a \<noteq> None" "fq_size ?a = QUEUE_DEFAULT_SIZE" "fq_H ?a = 8192" "fq_T ?a = 8192"
    by (simp_all add: kaapi_fifo_queue_alloc_def kaapi_fifo_queue_init_def QUEUE_DEFAULT_SIZE_def)
  obtain q where q: "run_ops fq_event (List.map Owner_push ts) ?a = Some (ts, [], q)" "fq_data q \<noteq> None"
    "fq_size q = QUEUE_DEFAULT_SIZE" "fq_H q = fq_H ?a - int (length ts)" "fq_T q = fq_T ?a"
    using owner_pushes [OF a(1,2), of ts] assms a(3,4) unfolding QUEUE_DEFAULT_SIZE_def by auto
  obtain t1 ts1 where ts: "ts = t1 # ts1" using assms by (cases ts) auto
  have e: "fq_event (Owner_push t1) ?a = fq_event (Owner_push t1) kaapi_fifo_queue_init"
    by (simp add: fq_event_def owner_push_alloc)
  have "run_ops fq_event (List.map Owner_push ts) kaapi_fifo_queue_init = Some (ts, [], q)"
    using q(1) by (simp only: ts list.map run_ops.simps e)
  moreover have h: "fq_H q = 0" "fq_T q = 8192" "fq_size q = 16384" using q assms a by (simp_all add: QUEUE_DEFAULT_SIZE_def)
  moreover have "kaapi_fifo_queue_owner_push t q = Fq_out_of_bounds (-1)"
    using q(2) h by (auto simp: kaapi_fifo_queue_owner_push_def kaapi_fifo_queue_alloc_def fq_index_def c_mod_def Let_def)
  ultimately show ?thesis by auto
qed

lemma owner_push_out_of_bounds_witness:
  "\<exists>q. run_ops fq_event (List.map Owner_push (replicate 8192 task0)) kaapi_fifo_queue_init = Some (replicate 8192 task0, [], q) \<and>
     kaapi_fifo_queue_owner_push task1 q = Fq_out_of_bounds (-1)"
proof -
  have "length (replicate 8192 task0) = 8192" by (rule length_replicate)
  then show ?thesis using owner_push_out_of_bounds [of "replicate 8192 task0" task1] by blast
qed

text \<open>The plain steal, which is not a step of the runs above.\<close>

lemma steal_scan_unstealable:
  assumes "fifo_inv q" "fq_H q < fq_T q" "slot q (fq_H q) = Some t"
    and all: "\<forall>i u. fq_H q \<le> i \<longrightarrow> i < fq_T q \<longrightarrow> slot q i = Some u \<longrightarrow> rt_unstealable u"
  shows "0 < n \<Longrightarrow> int n \<le> fq_T q - fq_H q \<Longrightarrow> steal_scan q n task = Fq_ok (Some t, None)"
proof (induction n arbitrary: task)
  case 0 then show ?case by simp
next
  case (Suc n)
  let ?i = "fq_H q + int n"
  have w: "fq_index q ?i = Some (?i mod fq_size q)" "fq_get q (?i mod fq_size q) = slot q ?i"
    using window_index(1,3) [OF assms(1), of ?i] Suc.prems by simp_all
  have u: "rt_unstealable u" if "slot q ?i = Some u" for u using all [rule_format, OF _ _ that] Suc.prems by simp
  show ?case
  proof (cases "n = 0")
    case True then show ?thesis using w u assms(3) by (simp add: Let_def)
  next
    case False
    then have "steal_scan q n r = Fq_ok (Some t, None)" for r using Suc.IH Suc.prems by simp
    then show ?thesis using w u by (auto simp: Let_def split: option.split)
  qed
qed

text \<open>C36. \<open>kaapi_fifo_queue_steal\<close> gives away tasks that must not be stolen, and keeps them: when the head of the queue
  holds a task and no task of the queue may be stolen, the thief gets the task of the head, the queue is unchanged, and
  the next pop gives the same task again. The only call of the function, in \<open>kaapi_offload_device.c\<close>, is compiled out
  (\<open>#if 0\<close>).\<close>

theorem fifo_steal_duplicates:
  assumes "fifo_inv q" "fq_list q = Some t # xs" "\<forall>u. Some u \<in> set (fq_list q) \<longrightarrow> rt_unstealable u"
  shows "kaapi_fifo_queue_steal q = Fq_ok (Some t, q) \<and> (\<exists>q'. kaapi_fifo_queue_pop q = Fq_ok (Some t, q'))"
proof -
  have l: "fq_H q < fq_T q" using assms(2) by (cases "fq_H q < fq_T q") (simp_all add: empty_list)
  have d: "0 < fq_size q" using fifo_inv_data [OF assms(1) nonempty_data [OF assms(1) l]] by (simp add: QUEUE_DEFAULT_SIZE_def)
  have s: "slot q (fq_H q) = Some t" using assms(2) l by (simp add: fq_list_def upto_rec1)
  have all: "\<forall>i u. fq_H q \<le> i \<longrightarrow> i < fq_T q \<longrightarrow> slot q i = Some u \<longrightarrow> rt_unstealable u"
    using assms(3) by (force simp: fq_list_def)
  have "steal_scan q (nat (fq_T q - fq_H q)) None = Fq_ok (Some t, None)"
    by (rule steal_scan_unstealable [OF assms(1) l s all]) (use l in auto)
  then have "kaapi_fifo_queue_steal q = Fq_ok (Some t, q)" using l d by (simp add: kaapi_fifo_queue_steal_def)
  moreover have "\<exists>q'. kaapi_fifo_queue_pop q = Fq_ok (Some t, q')"
    using l window_index [OF assms(1) order_refl l] s by (simp add: kaapi_fifo_queue_pop_def Let_def)
  ultimately show ?thesis by blast
qed

lemma fifo_steal_duplicates_witness:
  "\<exists>q. run_ops fq_event [Push task1] kaapi_fifo_queue_init = Some ([task1], [], q) \<and> kaapi_fifo_queue_steal q = Fq_ok (Some task1, q)"
proof -
  obtain q where r: "fq_step (Push task1) kaapi_fifo_queue_init = Fq_ok (Some task1, None, q)"
    by (simp add: fq_eval Let_def)
  then have i: "fifo_inv q" "deque_step (Push task1) [] (Some task1) None (fq_list q)"
    using fq_step_cases [OF fifo_init(1), of "Push task1"] by simp_all
  then have "fq_list q = [Some task1]" by (auto elim: deque_step.cases)
  then have "kaapi_fifo_queue_steal q = Fq_ok (Some task1, q)" using fifo_steal_duplicates [OF i(1)] by (simp add: task1_def)
  then show ?thesis using r by (auto simp: fq_event_def)
qed

end
