(* ===== verification/Task_Push.thy ===== *)
theory Task_Push
  imports Fifo_Queue Mapping_Gpu
begin

unbundle bit_operations_syntax

text \<open>
  Where a ready task goes: the domain bound to a task (\<open>kaapi_task_set_ld\<close>, \<open>kaapi_task_get_ld\<close>, \<open>kaapi.h\<close>) and
  \<open>kaapi_thread_push\<close> (\<open>kaapi_task.c\<close>), which puts a task in the ready queue of a locality domain: the one it is
  bound to, the one of a replica of a parameter, or the next GPU in turn. A domain has one queue; the state is the
  registry, the queues by domain and the thread's counter, domain and seed. \<open>rand_r\<close> and the address space of the
  host are arguments.
\<close>

section \<open>The domain of a task\<close>

definition KAAPI_TASK_LD_MASK_PARAM :: nat where "KAAPI_TASK_LD_MASK_PARAM = 4096"
definition KAAPI_TASK_LD_MAX :: nat where "KAAPI_TASK_LD_MAX = 4095"
definition KAAPI_TASK_LD_BOUND :: nat where "KAAPI_TASK_LD_BOUND = 0"
definition KAAPI_TASK_OCR_PARAM :: nat where "KAAPI_TASK_OCR_PARAM = 1"

text \<open>A task with its domain (13 bits), the flag that says that it is set, and for each parameter the valid and wish bits
  of its metadata, if there is any.\<close>

record ptask =
  pt_task :: rtask
  pt_ld :: nat
  pt_ld_bound :: bool
  pt_mdis :: "(16 word \<times> 16 word) option list"

definition kaapi_task_set_ld :: "nat \<Rightarrow> nat \<Rightarrow> ptask \<Rightarrow> nat \<times> ptask" where
  "kaapi_task_set_ld subtype ldid task =
     (if ldid \<ge> KAAPI_TASK_LD_MAX then (EINVAL, task)
      else if subtype div 2 \<noteq> 0 then (EINVAL, task)
      else (0, task\<lparr>pt_ld := (if subtype = 1 then ldid OR KAAPI_TASK_LD_MASK_PARAM else ldid), pt_ld_bound := True\<rparr>))"

text \<open>None is \<open>(kaapi_ldid_t)-1\<close>.\<close>

definition kaapi_task_get_ld :: "ptask \<Rightarrow> nat option" where
  "kaapi_task_get_ld task = (if pt_ld_bound task then Some (pt_ld task) else None)"

section \<open>Pushing a task\<close>

text \<open>A new domain for the device of address space \<open>lid\<close>, with an empty queue; the allocation succeeds.\<close>

definition kaapi_localitydomain_init :: "nat \<Rightarrow> nat \<Rightarrow> ldreg \<Rightarrow> (nat \<Rightarrow> fifo) \<Rightarrow> ldreg \<times> (nat \<Rightarrow> fifo)" where
  "kaapi_localitydomain_init ld lid R Q =
     (R\<lparr>lr_obj := (lr_obj R)(ld := (lr_obj R ld)\<lparr>ldm_parent := None, ldm_subld := [], ldm_lid := lid\<rparr>)\<rparr>,
      Q(ld := kaapi_fifo_queue_init))"

lemma new_domain_queues: "\<forall>d. fifo_inv (Q d) \<Longrightarrow> \<forall>d. fifo_inv (snd (kaapi_localitydomain_init ld lid R Q) d)"
  by (simp add: kaapi_localitydomain_init_def)

record 's pctx =
  pc_ld :: nat            \<comment> \<open>the domain of the thread\<close>
  pc_last_ldid :: nat
  pc_seed :: 's

text \<open>The domain of a replica of a parameter: a valid one outside the host, at random, else one that is wished. The
  outer None is a read of an entry of the table of domains that was never written.\<close>

definition ocr_domain :: "('s \<Rightarrow> nat \<times> 's) \<Rightarrow> nat \<Rightarrow> ldreg \<Rightarrow> 16 word \<times> 16 word \<Rightarrow> 's pctx \<Rightarrow> (nat option \<times> 's pctx) option" where
  "ocr_domain rand_r local_lid R mdi ctxt =
     (case mdi of (valid, wish) \<Rightarrow>
        let b = valid AND NOT (lid_mask local_lid);
            (r, ctxt1) = (if b = 0 then (Some None, ctxt)
              else let (lid, seed) = kaapi_get_random_bit1 rand_r b (pc_seed ctxt) in
                (kaapi_localitydomain_get (lid - 1) R, ctxt\<lparr>pc_seed := seed\<rparr>)) in
        case r of None \<Rightarrow> None
        | Some (Some ld) \<Rightarrow> Some (Some ld, ctxt1)
        | Some None \<Rightarrow>
            if wish = 0 then Some (None, ctxt1)
            else map_option (\<lambda>ld. (ld, ctxt1)) (kaapi_localitydomain_get (KAAPI_MEMORY_FFS wish - 1) R))"

text \<open>The domain asked for: None for a failed assertion (a parameter that does not exist or has no metadata).\<close>

definition asked_domain :: "('s \<Rightarrow> nat \<times> 's) \<Rightarrow> nat \<Rightarrow> ldreg \<Rightarrow> 's pctx \<Rightarrow> ptask \<Rightarrow> (nat option \<times> 's pctx) option" where
  "asked_domain rand_r local_lid R ctxt task =
     (case kaapi_task_get_ld task of
        None \<Rightarrow> Some (None, ctxt)
      | Some ldid \<Rightarrow>
          if ldid AND KAAPI_TASK_LD_MASK_PARAM \<noteq> 0 then
            (let ith = ldid - KAAPI_TASK_LD_MASK_PARAM in
             if ith < length (pt_mdis task) then
               (case pt_mdis task ! ith of None \<Rightarrow> None | Some mdi \<Rightarrow> ocr_domain rand_r local_lid R mdi ctxt)
             else None)
          else map_option (\<lambda>ld. (ld, ctxt)) (kaapi_localitydomain_get ldid R))"

text \<open>The next GPU in turn. The count is an \<open>int\<close>: \<open>(unsigned int)-1\<close> is read as -1.\<close>

definition next_gpu :: "ldreg \<Rightarrow> 's pctx \<Rightarrow> (nat option \<times> 's pctx) option" where
  "next_gpu R ctxt =
     (case (kaapi_localitydomain_get_bytype KAAPI_LD_GPU (pc_last_ldid ctxt) R, kaapi_localitydomain_count KAAPI_LD_GPU R) of
        (Some ld, Some c) \<Rightarrow>
          let last = pc_last_ldid ctxt + 1; count = (if c = UINT_MAX1 then -1 else int c) in
          Some (ld, ctxt\<lparr>pc_last_ldid := (if int last \<ge> count then 0 else last)\<rparr>)
      | _ \<Rightarrow> None)"

text \<open>None: a failed assertion, a read of an entry never written, or a null domain.\<close>

definition kaapi_thread_push :: "('s \<Rightarrow> nat \<times> 's) \<Rightarrow> nat \<Rightarrow> ldreg \<Rightarrow> (nat \<Rightarrow> fifo) \<Rightarrow> 's pctx \<Rightarrow> ptask \<Rightarrow>
    (nat \<times> 's pctx \<times> (int \<times> fifo) fq) option" where
  "kaapi_thread_push rand_r local_lid R Q ctxt0 task =
     Option.bind (asked_domain rand_r local_lid R ctxt0 task) (\<lambda>(asked, ctxt1).
       Option.bind (case asked of Some ld \<Rightarrow> Some (Some ld, ctxt1) | None \<Rightarrow> next_gpu R ctxt1) (\<lambda>(target, ctxt).
         case target of None \<Rightarrow> None
         | Some ld \<Rightarrow>
             Some (ld, ctxt, if ld = pc_ld ctxt then kaapi_fifo_queue_owner_push (pt_task task) (Q ld)
                             else kaapi_fifo_queue_push (pt_task task) (Q ld))))"

section \<open>The domain chosen\<close>

lemma next_gpu_registered:
  assumes "gpus_registered R KAAPI_LD_GPU c f" "pc_last_ldid ctxt < c" "c < UINT_MAX1"
  obtains ld where "next_gpu R ctxt = Some (Some ld, ctxt\<lparr>pc_last_ldid := (pc_last_ldid ctxt + 1) mod c\<rparr>)"
    "kaapi_localitydomain_get_bytype KAAPI_LD_GPU (pc_last_ldid ctxt) R = Some (Some ld)" "ldm_ldid (lr_obj R ld) = f (pc_last_ldid ctxt)"
proof -
  obtain ld where ld: "kaapi_localitydomain_get_bytype KAAPI_LD_GPU (pc_last_ldid ctxt) R = Some (Some ld)"
    "ldm_ldid (lr_obj R ld) = f (pc_last_ldid ctxt)" "kaapi_localitydomain_count KAAPI_LD_GPU R = Some c"
    using assms(1,2) by (auto simp: gpus_registered_def)
  have m: "(pc_last_ldid ctxt + 1) mod c = (if c \<le> pc_last_ldid ctxt + 1 then 0 else pc_last_ldid ctxt + 1)"
    using assms(2) by (cases "pc_last_ldid ctxt + 1 = c") auto
  have "next_gpu R ctxt = Some (Some ld, ctxt\<lparr>pc_last_ldid := (pc_last_ldid ctxt + 1) mod c\<rparr>)"
    unfolding m using assms(3) by (simp add: next_gpu_def ld Let_def)
  then show thesis using that ld by blast
qed

lemma small_not_param: "ldid < KAAPI_TASK_LD_MAX \<Longrightarrow> ldid AND KAAPI_TASK_LD_MASK_PARAM = 0" for ldid :: nat
proof -
  assume "ldid < KAAPI_TASK_LD_MAX"
  then have "ldid < 2 ^ 12" by (simp add: KAAPI_TASK_LD_MAX_def)
  then have "take_bit 12 ldid = ldid" by (simp add: take_bit_nat_eq_self_iff)
  then have "\<not> bit ldid 12" by (metis bit_take_bit_iff less_irrefl)
  then have "ldid AND 2 ^ 12 = 0" using and_exp_eq_0_iff_not_bit [of ldid 12] by blast
  then show ?thesis by (simp add: KAAPI_TASK_LD_MASK_PARAM_def)
qed

lemma bound_domain:
  assumes "kaapi_task_set_ld KAAPI_TASK_LD_BOUND ldid task = (e, task')" "\<not> pt_ld_bound task"
  shows "e = 0 \<longleftrightarrow> ldid < KAAPI_TASK_LD_MAX" "pt_task task' = pt_task task"
    "asked_domain rand_r local_lid R ctxt task' =
      (if ldid < KAAPI_TASK_LD_MAX then map_option (\<lambda>ld. (ld, ctxt)) (kaapi_localitydomain_get ldid R) else Some (None, ctxt))"
proof -
  have "task' = (if ldid < KAAPI_TASK_LD_MAX then task\<lparr>pt_ld := ldid, pt_ld_bound := True\<rparr> else task)"
    "e = (if ldid < KAAPI_TASK_LD_MAX then 0 else EINVAL)"
    using assms(1) by (auto simp: kaapi_task_set_ld_def KAAPI_TASK_LD_BOUND_def split: if_splits)
  then show "e = 0 \<longleftrightarrow> ldid < KAAPI_TASK_LD_MAX" "pt_task task' = pt_task task"
    "asked_domain rand_r local_lid R ctxt task' =
      (if ldid < KAAPI_TASK_LD_MAX then map_option (\<lambda>ld. (ld, ctxt)) (kaapi_localitydomain_get ldid R) else Some (None, ctxt))"
    using assms(2) by (auto simp: EINVAL_def asked_domain_def kaapi_task_get_ld_def small_not_param)
qed

section \<open>Properties\<close>

text \<open>What a push leaves in the queue of the domain.\<close>

definition queue_pushed :: "bool \<Rightarrow> rtask \<Rightarrow> fifo \<Rightarrow> (int \<times> fifo) fq \<Rightarrow> bool" where
  "queue_pushed own t q r =
     (case r of
        Fq_ok (i, q') \<Rightarrow> fifo_inv q' \<and> fq_list q' = (if own then Some t # fq_list q else fq_list q @ [Some t])
      | Fq_waits q' \<Rightarrow> fifo_inv q' \<and> fq_list q' = fq_list q \<and> int (length (fq_list q)) = QUEUE_DEFAULT_SIZE
      | Fq_out_of_bounds i \<Rightarrow> own \<and> fq_H (kaapi_fifo_queue_alloc q) = 0
      | Fq_overflow \<Rightarrow> \<not> own \<and> fq_T (kaapi_fifo_queue_alloc q) = INT32_MAX)"

lemma queue_pushed_ok:
  assumes "fifo_inv q"
  shows "queue_pushed own t q (if own then kaapi_fifo_queue_owner_push t q else kaapi_fifo_queue_push t q)"
proof (cases own)
  case True
  then show ?thesis using owner_push_step [OF assms refl, of t] by (auto simp: queue_pushed_def split: fq.splits)
next
  case False
  then show ?thesis using push_step [OF assms refl, of t] by (auto simp: queue_pushed_def split: fq.splits)
qed

text \<open>Without owner-computes scheduling (and for trmm tasks): the task goes to the domain of its tile if the placement gave
  one that is registered and fits the 12 bits of the field, else to the GPU whose turn it is, and the turn passes to the
  next of the \<open>c\<close> GPUs.\<close>

lemma thread_push_bound:
  assumes "gpus_registered R KAAPI_LD_GPU c f" "c < UINT_MAX1" "pc_last_ldid ctxt < c"
    and "\<not> pt_ld_bound task" "kaapi_task_set_ld KAAPI_TASK_LD_BOUND ldid task = (e, task')"
    and "kaapi_localitydomain_get ldid R = Some d" "\<forall>ld. fifo_inv (Q ld)"
  shows "\<exists>ld ctxt' r. kaapi_thread_push rand_r local_lid R Q ctxt task' = Some (ld, ctxt', r) \<and>
    queue_pushed (ld = pc_ld ctxt) (pt_task task) (Q ld) r \<and>
    (if e = 0 \<and> d \<noteq> None then d = Some ld \<and> ctxt' = ctxt
     else kaapi_localitydomain_get_bytype KAAPI_LD_GPU (pc_last_ldid ctxt) R = Some (Some ld) \<and>
       ctxt' = ctxt\<lparr>pc_last_ldid := (pc_last_ldid ctxt + 1) mod c\<rparr>)"
proof -
  note b = bound_domain [OF assms(5,4)]
  obtain g where g: "next_gpu R ctxt = Some (Some g, ctxt\<lparr>pc_last_ldid := (pc_last_ldid ctxt + 1) mod c\<rparr>)"
    "kaapi_localitydomain_get_bytype KAAPI_LD_GPU (pc_last_ldid ctxt) R = Some (Some g)"
    using next_gpu_registered [OF assms(1,3,2)] by blast
  have q: "queue_pushed True (pt_task task) (Q ld) (kaapi_fifo_queue_owner_push (pt_task task) (Q ld))"
    "queue_pushed False (pt_task task) (Q ld) (kaapi_fifo_queue_push (pt_task task) (Q ld))" for ld
    using queue_pushed_ok [of "Q ld" True] queue_pushed_ok [of "Q ld" False] assms(7) by simp_all
  show ?thesis
  proof (cases "e = 0 \<and> d \<noteq> None")
    case True
    then obtain ld where "d = Some ld" by blast
    then have "asked_domain rand_r local_lid R ctxt task' = Some (Some ld, ctxt)" using True b(1) assms(6) by (simp add: b(3))
    then show ?thesis using True \<open>d = Some ld\<close> q by (simp add: kaapi_thread_push_def b(2))
  next
    case False
    have "asked_domain rand_r local_lid R ctxt task' = Some (None, ctxt)" using False b(1) assms(6) by (auto simp: b(3))
    then show ?thesis unfolding if_not_P [OF False] using g q by (simp add: kaapi_thread_push_def b(2))
  qed
qed

lemma param_bits: "ith < KAAPI_TASK_LD_MAX \<Longrightarrow> ith OR KAAPI_TASK_LD_MASK_PARAM = ith + KAAPI_TASK_LD_MASK_PARAM"
    "(ith OR KAAPI_TASK_LD_MASK_PARAM) AND KAAPI_TASK_LD_MASK_PARAM \<noteq> 0" for ith :: nat
proof -
  assume "ith < KAAPI_TASK_LD_MAX"
  then show "ith OR KAAPI_TASK_LD_MASK_PARAM = ith + KAAPI_TASK_LD_MASK_PARAM"
    using disjunctive_add_eq_or [OF small_not_param [of ith]] by simp
next
  have "(ith OR KAAPI_TASK_LD_MASK_PARAM) AND KAAPI_TASK_LD_MASK_PARAM = KAAPI_TASK_LD_MASK_PARAM"
    by (rule bit_eqI) (auto simp: bit_simps)
  then show "(ith OR KAAPI_TASK_LD_MASK_PARAM) AND KAAPI_TASK_LD_MASK_PARAM \<noteq> 0" by (simp add: KAAPI_TASK_LD_MASK_PARAM_def)
qed

text \<open>The domains of the address spaces in a mask are registered.\<close>

definition spaces_registered :: "ldreg \<Rightarrow> (nat \<Rightarrow> nat) \<Rightarrow> 16 word \<Rightarrow> bool" where
  "spaces_registered R ldof w \<longleftrightarrow> (\<forall>lid. bit w lid \<longrightarrow> kaapi_localitydomain_get lid R = Some (Some (ldof lid)))"

lemma ocr_asked:
  assumes "kaapi_task_set_ld KAAPI_TASK_OCR_PARAM ith task = (e, task')" "ith < KAAPI_TASK_LD_MAX"
    and "ith < length (pt_mdis task)" "pt_mdis task ! ith = Some mdi"
  shows "pt_task task' = pt_task task" "asked_domain rand_r local_lid R ctxt task' = ocr_domain rand_r local_lid R mdi ctxt"
proof -
  have t: "task' = task\<lparr>pt_ld := ith OR KAAPI_TASK_LD_MASK_PARAM, pt_ld_bound := True\<rparr>"
    using assms(1,2) by (simp add: kaapi_task_set_ld_def KAAPI_TASK_OCR_PARAM_def)
  then show "pt_task task' = pt_task task" by simp
  have "(ith OR KAAPI_TASK_LD_MASK_PARAM) - KAAPI_TASK_LD_MASK_PARAM = ith" using param_bits(1) [OF assms(2)] by simp
  then show "asked_domain rand_r local_lid R ctxt task' = ocr_domain rand_r local_lid R mdi ctxt"
    using param_bits(2) [of ith] assms(3,4) by (simp add: t asked_domain_def kaapi_task_get_ld_def Let_def)
qed

lemma ocr_domain_ok:
  assumes "spaces_registered R ldof (valid AND NOT (lid_mask local_lid))" "spaces_registered R ldof wish"
  shows "\<exists>asked ctxt'. ocr_domain rand_r local_lid R (valid, wish) ctxt = Some (asked, ctxt') \<and> pc_last_ldid ctxt' = pc_last_ldid ctxt \<and>
    pc_ld ctxt' = pc_ld ctxt \<and>
    (if valid AND NOT (lid_mask local_lid) \<noteq> 0 then \<exists>lid. bit valid lid \<and> lid \<noteq> local_lid \<and> asked = Some (ldof lid)
     else if wish \<noteq> 0 then \<exists>lid. bit wish lid \<and> asked = Some (ldof lid) else asked = None)"
proof (cases "valid AND NOT (lid_mask local_lid) = 0")
  case True
  show ?thesis
  proof (cases "wish = 0")
    case False
    then have "bit wish (KAAPI_MEMORY_FFS wish - Suc 0)" by (rule ffs_bit)
    then show ?thesis using True False assms(2) by (auto simp: ocr_domain_def Let_def spaces_registered_def simp del: mask_bits(4))
  qed (simp add: True ocr_domain_def Let_def del: mask_bits(4))
next
  case False
  let ?b = "valid AND NOT (lid_mask local_lid)"
  obtain lid seed where l: "kaapi_get_random_bit1 rand_r ?b (pc_seed ctxt) = (lid, seed)" by fastforce
  have b: "bit ?b (lid - Suc 0)" using random_bit_ok(2) [OF False, of rand_r "pc_seed ctxt"] by (simp add: l)
  then have "kaapi_localitydomain_get (lid - Suc 0) R = Some (Some (ldof (lid - Suc 0)))" using assms(1) by (simp add: spaces_registered_def)
  moreover have "bit valid (lid - Suc 0)" "lid - Suc 0 \<noteq> local_lid" using b by (auto simp: bit_simps)
  ultimately show ?thesis using False by (auto simp: ocr_domain_def l Let_def simp del: mask_bits(4))
qed

text \<open>C37. With owner-computes scheduling, a ready task goes to the queue of exactly one registered domain, whatever the
  random numbers: the domain of an address space that holds a valid replica of the parameter it is bound to, other than
  the host; if there is none, one that the placement wished; if there is none, the GPU whose turn it is, and the turn
  passes to the next of the \<open>c\<close> GPUs. The task is put at the head if the queue is the thread's own, else at the tail.\<close>

theorem thread_push_target:
  assumes "gpus_registered R KAAPI_LD_GPU c f" "c < UINT_MAX1" "pc_last_ldid ctxt < c" "\<forall>ld. fifo_inv (Q ld)"
    and "kaapi_task_set_ld KAAPI_TASK_OCR_PARAM ith task = (e, task')" "ith < KAAPI_TASK_LD_MAX"
    and "ith < length (pt_mdis task)" "pt_mdis task ! ith = Some (valid, wish)"
    and "spaces_registered R ldof (valid AND NOT (lid_mask local_lid))" "spaces_registered R ldof wish"
  shows "\<exists>ld ctxt' r. kaapi_thread_push rand_r local_lid R Q ctxt task' = Some (ld, ctxt', r) \<and>
    queue_pushed (ld = pc_ld ctxt) (pt_task task) (Q ld) r \<and>
    (if valid AND NOT (lid_mask local_lid) \<noteq> 0 then \<exists>lid. bit valid lid \<and> lid \<noteq> local_lid \<and> ld = ldof lid
     else if wish \<noteq> 0 then \<exists>lid. bit wish lid \<and> ld = ldof lid
     else kaapi_localitydomain_get_bytype KAAPI_LD_GPU (pc_last_ldid ctxt) R = Some (Some ld)) \<and>
    pc_last_ldid ctxt' = (if valid AND NOT (lid_mask local_lid) = 0 \<and> wish = 0 then (pc_last_ldid ctxt + 1) mod c else pc_last_ldid ctxt)"
proof -
  note t = ocr_asked [OF assms(5-8)]
  obtain asked ctxt1 where o: "ocr_domain rand_r local_lid R (valid, wish) ctxt = Some (asked, ctxt1)" "pc_last_ldid ctxt1 = pc_last_ldid ctxt"
    "pc_ld ctxt1 = pc_ld ctxt" and asked: "if valid AND NOT (lid_mask local_lid) \<noteq> 0 then \<exists>lid. bit valid lid \<and> lid \<noteq> local_lid \<and> asked = Some (ldof lid)
     else if wish \<noteq> 0 then \<exists>lid. bit wish lid \<and> asked = Some (ldof lid) else asked = None"
    using ocr_domain_ok [OF assms(9,10), of rand_r ctxt] by blast
  have q: "queue_pushed True (pt_task task) (Q ld) (kaapi_fifo_queue_owner_push (pt_task task) (Q ld))"
    "queue_pushed False (pt_task task) (Q ld) (kaapi_fifo_queue_push (pt_task task) (Q ld))" for ld
    using queue_pushed_ok [of "Q ld" True] queue_pushed_ok [of "Q ld" False] assms(4) by simp_all
  have l: "pc_last_ldid ctxt1 < c" using assms(3) o(2) by simp
  obtain g where g: "next_gpu R ctxt1 = Some (Some g, ctxt1\<lparr>pc_last_ldid := (pc_last_ldid ctxt1 + 1) mod c\<rparr>)"
    "kaapi_localitydomain_get_bytype KAAPI_LD_GPU (pc_last_ldid ctxt1) R = Some (Some g)"
    using next_gpu_registered [OF assms(1) l assms(2)] by blast
  show ?thesis
  proof (cases asked)
    case None
    then show ?thesis using asked o g q by (auto simp: kaapi_thread_push_def t split: if_splits)
  next
    case (Some ld)
    then show ?thesis using asked o q by (auto simp: kaapi_thread_push_def t split: if_splits)
  qed
qed

definition ptask0 :: "16 word \<Rightarrow> ptask" where
  "ptask0 valid = \<lparr>pt_task = task0, pt_ld = 0, pt_ld_bound = False, pt_mdis = [None, None, Some (valid, 2)]\<rparr>"

lemma thread_push_target_witness:
  "\<exists>ld ctxt' r. kaapi_thread_push (\<lambda>s. (s, s)) 0 one_gpu_reg (\<lambda>_. kaapi_fifo_queue_init) \<lparr>pc_ld = 0, pc_last_ldid = 0, pc_seed = 3\<rparr>
      ((ptask0 1)\<lparr>pt_ld := 4098, pt_ld_bound := True\<rparr>) = Some (ld, ctxt', r) \<and> ld = 1 \<and> queue_pushed False task0 kaapi_fifo_queue_init r"
proof -
  have s: "kaapi_task_set_ld KAAPI_TASK_OCR_PARAM 2 (ptask0 1) = (0, (ptask0 1)\<lparr>pt_ld := 4098, pt_ld_bound := True\<rparr>)"
    by (simp add: kaapi_task_set_ld_def KAAPI_TASK_OCR_PARAM_def KAAPI_TASK_LD_MAX_def KAAPI_TASK_LD_MASK_PARAM_def)
  have z: "(1 :: 16 word) AND NOT (lid_mask 0) = 0" by (simp add: lid_mask_def)
  have r: "spaces_registered one_gpu_reg id ((1 :: 16 word) AND NOT (lid_mask 0))" by (simp add: z spaces_registered_def)
  have "(2 :: 16 word) = lid_mask 1" by (simp add: lid_mask_def)
  then have b: "lid = 1" if "bit (2 :: 16 word) lid" for lid using that bit_lid_mask [of 1 lid] by metis
  have w: "spaces_registered one_gpu_reg id (2 :: 16 word)"
    unfolding spaces_registered_def
  proof (intro allI impI)
    fix lid assume "bit (2 :: 16 word) lid"
    then have "lid = 1" by (rule b)
    then show "kaapi_localitydomain_get lid one_gpu_reg = Some (Some (id lid))"
      by (simp add: kaapi_localitydomain_get_def one_gpu_reg_def)
  qed
  let ?c = "\<lparr>pc_ld = 0, pc_last_ldid = 0, pc_seed = 3\<rparr>"
  obtain ld ctxt' r where k: "kaapi_thread_push (\<lambda>s. (s, s)) 0 one_gpu_reg (\<lambda>_. kaapi_fifo_queue_init) ?c
      ((ptask0 1)\<lparr>pt_ld := 4098, pt_ld_bound := True\<rparr>) = Some (ld, ctxt', r)" "queue_pushed (ld = 0) task0 kaapi_fifo_queue_init r"
    "\<exists>lid. bit (2 :: 16 word) lid \<and> ld = id lid"
    using thread_push_target [OF one_gpu_registered _ _ _ s _ _ _ r w, where rand_r = "\<lambda>s. (s, s)"
        and Q = "\<lambda>_. kaapi_fifo_queue_init" and ctxt = ?c] z
    by (auto simp: UINT_MAX1_def ptask0_def KAAPI_TASK_LD_MAX_def simp del: mask_bits(4))
  obtain lid where "bit (2 :: 16 word) lid" "ld = id lid" using k(3) by blast
  then have "ld = 1" using b by simp
  then show ?thesis using k(1,2) by auto
qed

end
