(* ===== verification/Barrier.thy ===== *)
theory Barrier
  imports XK_Prelude
begin

text \<open>
  The barrier of a team of threads (\<open>kaapi_barrier.c\<close>): \<open>kaapi_team_barrier_wait\<close> as a step relation with one step
  per atomic operation, for threads that call it again and again. A failed test of the waiting loop changes nothing and
  is not a step. The memory is sequentially consistent; the counters stay below the number of threads. The flag
  \<open>WAITEXIT\<close>, whose two debug assertions exclude each other, the assertion that the team has threads, the work a thread does before
  it arrives (\<open>sync\<close>) and while it waits (\<open>sched_idle\<close>) are left out.
\<close>

section \<open>The code\<close>

definition KAAPI_BAR_CYCLES :: nat where "KAAPI_BAR_CYCLES = 3"

record barrier =
  br_cycle :: nat
  br_count :: "nat \<Rightarrow> nat"

definition kaapi_barrier_init :: barrier where
  "kaapi_barrier_init = \<lparr>br_cycle = 0, br_count = (\<lambda>_. 0)\<rparr>"

text \<open>Where a thread is: outside; with \<open>current_cycle\<close> read; the last one, before and after it has cleaned a counter;
  in the waiting loop.\<close>

datatype bpc = Outside | Called nat | Last nat | Cleaned nat | Spinning nat

text \<open>The next atomic operation of a thread; None if it waits.\<close>

fun kaapi_team_barrier_wait :: "nat \<Rightarrow> bpc \<Rightarrow> barrier \<Rightarrow> (bpc \<times> barrier) option" where
  "kaapi_team_barrier_wait count Outside b = Some (Called (br_cycle b), b)"
| "kaapi_team_barrier_wait count (Called current_cycle) b =
     (let nb_arrived = br_count b current_cycle + 1 in
      Some (if nb_arrived = count then Last current_cycle else Spinning current_cycle,
            b\<lparr>br_count := (br_count b)(current_cycle := nb_arrived)\<rparr>))"
| "kaapi_team_barrier_wait count (Last current_cycle) b =
     (let next_cycle = (current_cycle + 1) mod KAAPI_BAR_CYCLES; cycle_to_clean = (next_cycle + 1) mod KAAPI_BAR_CYCLES in
      Some (Cleaned current_cycle, b\<lparr>br_count := (br_count b)(cycle_to_clean := 0)\<rparr>))"
| "kaapi_team_barrier_wait count (Cleaned current_cycle) b =
     Some (Outside, b\<lparr>br_cycle := (current_cycle + 1) mod KAAPI_BAR_CYCLES\<rparr>)"
| "kaapi_team_barrier_wait count (Spinning current_cycle) b =
     (if br_cycle b = (current_cycle + 1) mod KAAPI_BAR_CYCLES then Some (Outside, b) else None)"

section \<open>Runs\<close>

text \<open>The team, with the number of barriers each thread has passed. Each thread calls the barrier \<open>R\<close> times.\<close>

record team =
  tm_bar :: barrier
  tm_pc :: "nat \<Rightarrow> bpc"
  tm_passed :: "nat \<Rightarrow> nat"

definition team_init :: team where
  "team_init = \<lparr>tm_bar = kaapi_barrier_init, tm_pc = (\<lambda>_. Outside), tm_passed = (\<lambda>_. 0)\<rparr>"

inductive team_step :: "nat \<Rightarrow> nat \<Rightarrow> team \<Rightarrow> nat \<Rightarrow> team \<Rightarrow> bool" for N R where
  ts: "i < N \<Longrightarrow> tm_pc s i = Outside \<longrightarrow> tm_passed s i < R \<Longrightarrow>
    kaapi_team_barrier_wait N (tm_pc s i) (tm_bar s) = Some (pc, b) \<Longrightarrow>
    team_step N R s i (s\<lparr>tm_bar := b, tm_pc := (tm_pc s)(i := pc),
      tm_passed := (if pc = Outside then (tm_passed s)(i := tm_passed s i + 1) else tm_passed s)\<rparr>)"

inductive team_run :: "nat \<Rightarrow> nat \<Rightarrow> nat list \<Rightarrow> team \<Rightarrow> bool" for N R where
  tr_init: "team_run N R [] team_init"
| tr_step: "team_run N R xs s \<Longrightarrow> team_step N R s i s' \<Longrightarrow> team_run N R (xs @ [i]) s'"

inductive_simps team_step_iff: "team_step N R s i s'"

definition inside :: "bpc \<Rightarrow> bool" where
  "inside pc = (case pc of Outside \<Rightarrow> False | Called c \<Rightarrow> False | _ \<Rightarrow> True)"

definition finisher :: "bpc \<Rightarrow> bool" where
  "finisher pc = (case pc of Last c \<Rightarrow> True | Cleaned c \<Rightarrow> True | _ \<Rightarrow> False)"

definition arrivals :: "team \<Rightarrow> nat \<Rightarrow> nat" where
  "arrivals s i = tm_passed s i + (if inside (tm_pc s i) then 1 else 0)"

lemmas pc_defs = inside_def finisher_def

section \<open>Invariant\<close>

text \<open>In round \<open>r\<close>, a thread is outside with \<open>r\<close> barriers passed, or has arrived at the next one, or has not yet left
  the loop of the previous one.\<close>

definition thread_ok :: "nat \<Rightarrow> nat \<Rightarrow> bpc \<Rightarrow> nat \<Rightarrow> bool" where
  "thread_ok R r pc p =
     (case pc of
        Outside \<Rightarrow> p = r \<and> p \<le> R
      | Called c \<Rightarrow> p = r \<and> c = r mod 3 \<and> p < R
      | Last c \<Rightarrow> p = r \<and> c = r mod 3 \<and> p < R
      | Cleaned c \<Rightarrow> p = r \<and> c = r mod 3 \<and> p < R
      | Spinning c \<Rightarrow> (p = r \<or> p + 1 = r) \<and> c = p mod 3 \<and> p < R)"

definition arrived_at :: "nat \<Rightarrow> nat \<Rightarrow> team \<Rightarrow> nat set" where
  "arrived_at N r s = {i \<in> {..<N}. inside (tm_pc s i) \<and> tm_passed s i = r}"

definition counters_ok :: "nat \<Rightarrow> nat \<Rightarrow> team \<Rightarrow> bool" where
  "counters_ok N r s \<longleftrightarrow> br_cycle (tm_bar s) = r mod 3 \<and> br_count (tm_bar s) (r mod 3) = card (arrived_at N r s) \<and>
     br_count (tm_bar s) ((r + 1) mod 3) = 0 \<and>
     ((\<exists>i<N. \<exists>c. tm_pc s i = Cleaned c) \<longrightarrow> br_count (tm_bar s) ((r + 2) mod 3) = 0)"

definition finishers_ok :: "nat \<Rightarrow> nat \<Rightarrow> team \<Rightarrow> bool" where
  "finishers_ok N r s \<longleftrightarrow> (arrived_at N r s = {..<N} \<longleftrightarrow> (\<exists>i<N. finisher (tm_pc s i))) \<and>
     (\<forall>i<N. \<forall>j<N. finisher (tm_pc s i) \<longrightarrow> finisher (tm_pc s j) \<longrightarrow> i = j)"

definition team_inv :: "nat \<Rightarrow> nat \<Rightarrow> nat \<Rightarrow> team \<Rightarrow> bool" where
  "team_inv N R r s \<longleftrightarrow> (\<forall>i<N. thread_ok R r (tm_pc s i) (tm_passed s i)) \<and> counters_ok N r s \<and> finishers_ok N r s"

lemma mod3: "(Suc r) mod 3 \<noteq> r mod 3" "(r + 2) mod 3 \<noteq> r mod 3" "(r + 2) mod 3 \<noteq> Suc r mod 3" for r :: nat
  by presburger+

lemma team_init_inv: "0 < N \<Longrightarrow> team_inv N R 0 team_init"
  by (auto simp: team_inv_def team_init_def thread_ok_def counters_ok_def finishers_ok_def arrived_at_def pc_defs kaapi_barrier_init_def)

lemma finite_arrived_at: "finite (arrived_at N r s)"
  by (simp add: arrived_at_def)

lemma arrived_card: "card (arrived_at N r s) = N \<longleftrightarrow> arrived_at N r s = {..<N}"
proof
  assume "card (arrived_at N r s) = N"
  then show "arrived_at N r s = {..<N}" by (intro card_subset_eq) (auto simp: arrived_at_def)
qed simp

lemma team_invD:
  assumes "team_inv N R r s"
  shows "\<And>i. i < N \<Longrightarrow> thread_ok R r (tm_pc s i) (tm_passed s i)" "br_cycle (tm_bar s) = r mod 3"
    "br_count (tm_bar s) (r mod 3) = card (arrived_at N r s)" "br_count (tm_bar s) (Suc r mod 3) = 0"
    "\<And>i c. i < N \<Longrightarrow> tm_pc s i = Cleaned c \<Longrightarrow> br_count (tm_bar s) ((r + 2) mod 3) = 0"
    "arrived_at N r s = {..<N} \<longleftrightarrow> (\<exists>i<N. finisher (tm_pc s i))"
    "\<And>i j. i < N \<Longrightarrow> j < N \<Longrightarrow> finisher (tm_pc s i) \<Longrightarrow> finisher (tm_pc s j) \<Longrightarrow> i = j"
  using assms by (auto simp: team_inv_def counters_ok_def finishers_ok_def)

text \<open>A thread enters, or leaves the loop of the previous round: nobody arrives.\<close>

lemma quiet_inv:
  assumes inv: "team_inv N R r s" and ok: "thread_ok R r pc p" "\<not> inside pc"
    and old: "i < N" "i \<notin> arrived_at N r s"
  shows "team_inv N R r (s\<lparr>tm_pc := (tm_pc s)(i := pc), tm_passed := (tm_passed s)(i := p)\<rparr>)"
proof -
  let ?s = "s\<lparr>tm_pc := (tm_pc s)(i := pc), tm_passed := (tm_passed s)(i := p)\<rparr>"
  note D = team_invD [OF inv]
  have a: "arrived_at N r ?s = arrived_at N r s" using ok(2) old by (auto simp: arrived_at_def)
  have nf: "\<not> finisher pc" using ok(2) by (cases pc) (simp_all add: pc_defs)
  have "arrived_at N r s \<noteq> {..<N}" using old by auto
  then have no: "\<not> finisher (tm_pc s j)" if "j < N" for j using D(6) that by blast
  have "counters_ok N r ?s" using D nf unfolding counters_ok_def a by (auto simp: finisher_def)
  moreover have "finishers_ok N r ?s" using no nf old by (auto simp: finishers_ok_def a)
  moreover have "\<forall>j<N. thread_ok R r (tm_pc ?s j) (tm_passed ?s j)" using D(1) ok(1) by simp
  ultimately show ?thesis by (simp add: team_inv_def)
qed

lemma bar_arrive_inv:
  assumes inv: "team_inv N R r s" and i: "i < N" "tm_pc s i = Called c"
  shows "team_inv N R r (s\<lparr>tm_bar := (tm_bar s)\<lparr>br_count := (br_count (tm_bar s))(c := br_count (tm_bar s) c + 1)\<rparr>,
    tm_pc := (tm_pc s)(i := if br_count (tm_bar s) c + 1 = N then Last c else Spinning c)\<rparr>)"
    (is "team_inv N R r ?s")
proof -
  note D = team_invD [OF inv]
  have c: "c = r mod 3" "tm_passed s i = r" "r < R" using D(1) [OF i(1)] i(2) by (simp_all add: thread_ok_def)
  have out: "i \<notin> arrived_at N r s" using i(2) by (simp add: arrived_at_def inside_def)
  then have no: "\<not> finisher (tm_pc s j)" if "j < N" for j using D(6) that i(1) by (metis lessThan_iff)
  have a: "arrived_at N r ?s = insert i (arrived_at N r s)" using i(1) c(2) by (auto simp: arrived_at_def inside_def)
  have card: "card (arrived_at N r ?s) = br_count (tm_bar s) c + 1" unfolding a using out D(3) c(1) finite_arrived_at [of N r s] by simp
  have "counters_ok N r ?s" using D card no mod3 c(1) unfolding counters_ok_def
    by (auto simp: finisher_def split: if_splits)
  moreover have "finishers_ok N r ?s"
    using no card i(1) unfolding finishers_ok_def arrived_card [symmetric] by (auto simp: finisher_def)
  moreover have "\<forall>j<N. thread_ok R r (tm_pc ?s j) (tm_passed ?s j)" using D(1) c by (simp add: thread_ok_def)
  ultimately show ?thesis by (simp add: team_inv_def)
qed

lemma bar_clean_inv:
  assumes inv: "team_inv N R r s" and i: "i < N" "tm_pc s i = Last c"
  shows "team_inv N R r (s\<lparr>tm_bar := (tm_bar s)\<lparr>br_count := (br_count (tm_bar s))(((c + 1) mod 3 + 1) mod 3 := 0)\<rparr>,
    tm_pc := (tm_pc s)(i := Cleaned c)\<rparr>)"
    (is "team_inv N R r ?s")
proof -
  note D = team_invD [OF inv]
  have c: "c = r mod 3" "tm_passed s i = r" "r < R" using D(1) [OF i(1)] i(2) by (simp_all add: thread_ok_def)
  have k: "((c + 1) mod 3 + 1) mod 3 = (r + 2) mod 3" unfolding c(1) by presburger
  have a: "arrived_at N r ?s = arrived_at N r s" using i by (auto simp: arrived_at_def inside_def)
  have f: "finisher (tm_pc ?s j) = finisher (tm_pc s j)" for j using i(2) by (simp add: finisher_def)
  have "counters_ok N r ?s" unfolding counters_ok_def a using D(2-4) mod3 [of r] by (auto simp: k [simplified])
  moreover have "finishers_ok N r ?s" unfolding finishers_ok_def a f using D(6,7) by blast
  moreover have "\<forall>j<N. thread_ok R r (tm_pc ?s j) (tm_passed ?s j)" using D(1) c by (simp add: thread_ok_def)
  ultimately show ?thesis by (simp add: team_inv_def)
qed

lemma bar_release_inv:
  assumes inv: "team_inv N R r s" and i: "i < N" "tm_pc s i = Cleaned c"
  shows "team_inv N R (r + 1) (s\<lparr>tm_bar := (tm_bar s)\<lparr>br_cycle := (c + 1) mod 3\<rparr>, tm_pc := (tm_pc s)(i := Outside),
    tm_passed := (tm_passed s)(i := tm_passed s i + 1)\<rparr>)"
    (is "team_inv N R _ ?s")
proof -
  note D = team_invD [OF inv]
  have c: "c = r mod 3" "tm_passed s i = r" "r < R" using D(1) [OF i(1)] i(2) by (simp_all add: thread_ok_def)
  have fi: "finisher (tm_pc s i)" using i(2) by (simp add: finisher_def)
  have all: "arrived_at N r s = {..<N}" using D(6) i(1) fi by blast
  have sp: "\<exists>c. tm_pc s j = Spinning c \<and> c = r mod 3 \<and> tm_passed s j = r" if "j < N" "j \<noteq> i" for j
  proof -
    have "j \<in> arrived_at N r s" using all that by simp
    then have j: "inside (tm_pc s j)" "tm_passed s j = r" by (simp_all add: arrived_at_def)
    moreover have "\<not> finisher (tm_pc s j)" using D(7) [OF that(1) i(1) _ fi] that(2) by blast
    ultimately show ?thesis using D(1) [OF that(1)] by (cases "tm_pc s j") (auto simp: pc_defs thread_ok_def)
  qed
  have a: "arrived_at N (r + 1) ?s = {}" using sp by (force simp: arrived_at_def inside_def)
  have nf: "\<not> finisher (tm_pc ?s j)" if "j < N" for j using sp [OF that] by (cases "j = i") (auto simp: finisher_def)
  have m: "(c + 1) mod 3 = Suc r mod 3" "(r + 1 + 1) mod 3 = (r + 2) mod 3" unfolding c(1) by presburger+
  have nc: "\<not> (\<exists>j<N. \<exists>c. tm_pc ?s j = Cleaned c)" using nf by (force simp: finisher_def)
  have "br_cycle (tm_bar ?s) = (r + 1) mod 3" "br_count (tm_bar ?s) ((r + 1) mod 3) = 0" "br_count (tm_bar ?s) ((r + 1 + 1) mod 3) = 0"
    using D(4) D(5) [OF i] m by simp_all
  then have "counters_ok N (r + 1) ?s" unfolding counters_ok_def a card.empty using nc by blast
  moreover have "finishers_ok N (r + 1) ?s" 
  proof -
    have "{} \<noteq> {..<N}" using i(1) by auto
    then show ?thesis unfolding finishers_ok_def a using nf by blast
  qed
  moreover have "thread_ok R (r + 1) (tm_pc ?s j) (tm_passed ?s j)" if "j < N" for j
    using sp [OF that] c by (cases "j = i") (auto simp: thread_ok_def)
  ultimately show ?thesis by (simp add: team_inv_def)
qed

text \<open>A step, and the round after it: only the write of the cycle starts a new one.\<close>

lemma step_inv:
  assumes inv: "team_inv N R r s" and st: "team_step N R s i s'"
  shows "\<exists>r'. team_inv N R r' s'"
proof -
  obtain pc b where i: "i < N" and en: "tm_pc s i = Outside \<longrightarrow> tm_passed s i < R"
    and m: "kaapi_team_barrier_wait N (tm_pc s i) (tm_bar s) = Some (pc, b)"
    and s': "s' = s\<lparr>tm_bar := b, tm_pc := (tm_pc s)(i := pc),
      tm_passed := (if pc = Outside then (tm_passed s)(i := tm_passed s i + 1) else tm_passed s)\<rparr>"
    using st by (auto simp: team_step_iff)
  note D = team_invD [OF inv] and ok = team_invD(1) [OF inv i]
  show ?thesis
  proof (cases "tm_pc s i")
    case Outside
    have p: "tm_passed s i = r" "i \<notin> arrived_at N r s" using ok Outside by (simp_all add: thread_ok_def arrived_at_def inside_def)
    have "s' = s\<lparr>tm_pc := (tm_pc s)(i := Called (r mod 3)), tm_passed := (tm_passed s)(i := r)\<rparr>"
      using m Outside p D(2) by (auto simp: s' fun_upd_idem)
    moreover have "team_inv N R r \<dots>" using quiet_inv [OF inv _ _ i p(2)] en Outside p(1) by (simp add: thread_ok_def inside_def)
    ultimately show ?thesis by metis
  next
    case (Called c)
    then have "s' = s\<lparr>tm_bar := (tm_bar s)\<lparr>br_count := (br_count (tm_bar s))(c := br_count (tm_bar s) c + 1)\<rparr>,
        tm_pc := (tm_pc s)(i := if br_count (tm_bar s) c + 1 = N then Last c else Spinning c)\<rparr>"
      using m by (auto simp: s' Let_def split: if_splits)
    then show ?thesis using bar_arrive_inv [OF inv i Called] by metis
  next
    case (Last c)
    then have "s' = s\<lparr>tm_bar := (tm_bar s)\<lparr>br_count := (br_count (tm_bar s))(((c + 1) mod 3 + 1) mod 3 := 0)\<rparr>,
        tm_pc := (tm_pc s)(i := Cleaned c)\<rparr>"
      using m by (auto simp: s' Let_def KAAPI_BAR_CYCLES_def)
    then show ?thesis using bar_clean_inv [OF inv i Last] by metis
  next
    case (Cleaned c)
    then have "s' = s\<lparr>tm_bar := (tm_bar s)\<lparr>br_cycle := (c + 1) mod 3\<rparr>, tm_pc := (tm_pc s)(i := Outside),
        tm_passed := (tm_passed s)(i := tm_passed s i + 1)\<rparr>"
      using m by (auto simp: s' KAAPI_BAR_CYCLES_def)
    then show ?thesis using bar_release_inv [OF inv i Cleaned] by metis
  next
    case (Spinning c)
    then have c: "br_cycle (tm_bar s) = (c + 1) mod 3" "pc = Outside" "b = tm_bar s"
      using m by (auto simp: KAAPI_BAR_CYCLES_def split: if_splits)
    have p: "c = tm_passed s i mod 3" "tm_passed s i < R" "tm_passed s i = r \<or> tm_passed s i + 1 = r"
      using ok Spinning by (simp_all add: thread_ok_def)
    have "tm_passed s i \<noteq> r"
    proof
      assume "tm_passed s i = r"
      then have "r mod 3 = (r + 1) mod 3" using c(1) D(2) p(1) by (metis mod_add_left_eq)
      then show False using mod3(1) [of r] by simp
    qed
    then have q: "tm_passed s i + 1 = r" using p(3) by simp
    then have "i \<notin> arrived_at N r s" by (simp add: arrived_at_def)
    then have "team_inv N R r (s\<lparr>tm_pc := (tm_pc s)(i := Outside), tm_passed := (tm_passed s)(i := r)\<rparr>)"
      using p(2) q by (intro quiet_inv [OF inv _ _ i]) (simp_all add: thread_ok_def inside_def)
    moreover have "s' = s\<lparr>tm_pc := (tm_pc s)(i := Outside), tm_passed := (tm_passed s)(i := r)\<rparr>" using c q by (simp add: s')
    ultimately show ?thesis by metis
  qed
qed

lemma run_inv: "team_run N R xs s \<Longrightarrow> 0 < N \<Longrightarrow> \<exists>r. team_inv N R r s"
proof (induction rule: team_run.induct)
  case tr_init then show ?case using team_init_inv by blast
next
  case (tr_step xs s i s') then show ?case using step_inv by blast
qed

section \<open>Progress\<close>

definition weight :: "bpc \<Rightarrow> nat" where
  "weight pc = (case pc of Outside \<Rightarrow> 0 | Called c \<Rightarrow> 1 | Last c \<Rightarrow> 2 | Cleaned c \<Rightarrow> 3 | Spinning c \<Rightarrow> 2)"

definition progress_made :: "nat \<Rightarrow> team \<Rightarrow> nat" where
  "progress_made N s = (\<Sum>i<N. 4 * tm_passed s i + weight (tm_pc s i))"

lemma step_weight:
  assumes "team_step N R s i s'"
  shows "progress_made N s < progress_made N s'"
proof -
  obtain pc b where i: "i < N" and m: "kaapi_team_barrier_wait N (tm_pc s i) (tm_bar s) = Some (pc, b)"
    and s': "s' = s\<lparr>tm_bar := b, tm_pc := (tm_pc s)(i := pc),
      tm_passed := (if pc = Outside then (tm_passed s)(i := tm_passed s i + 1) else tm_passed s)\<rparr>"
    using assms by (auto simp: team_step_iff)
  have "4 * tm_passed s i + weight (tm_pc s i) < 4 * tm_passed s' i + weight (tm_pc s' i)"
    using m by (cases "tm_pc s i") (auto simp: s' weight_def Let_def split: if_splits)
  moreover have "\<forall>j\<in>{..<N}. 4 * tm_passed s j + weight (tm_pc s j) \<le> 4 * tm_passed s' j + weight (tm_pc s' j)"
    using calculation by (auto simp: s')
  ultimately show ?thesis unfolding progress_made_def using i by (intro sum_strict_mono_ex1) auto
qed

lemma run_weight: "team_run N R xs s \<Longrightarrow> length xs \<le> progress_made N s"
proof (induction rule: team_run.induct)
  case (tr_step xs s i s') then show ?case using step_weight [OF tr_step(2)] by simp
qed simp

lemma weight_bound:
  assumes "team_inv N R r s"
  shows "progress_made N s \<le> 4 * N * R"
proof -
  have "progress_made N s \<le> (\<Sum>i<N. 4 * R)"
    unfolding progress_made_def
  proof (rule sum_mono)
    fix i assume "i \<in> {..<N}"
    then show "4 * tm_passed s i + weight (tm_pc s i) \<le> 4 * R"
      using team_invD(1) [OF assms, of i] by (cases "tm_pc s i") (auto simp: thread_ok_def weight_def)
  qed
  then show ?thesis by simp
qed

lemma stuck_done:
  assumes inv: "team_inv N R r s" and stuck: "\<forall>i s'. \<not> team_step N R s i s'" and i: "i < N"
  shows "tm_pc s i = Outside \<and> tm_passed s i = R"
proof -
  note D = team_invD [OF inv]
  have en: "kaapi_team_barrier_wait N (tm_pc s j) (tm_bar s) = None \<or> tm_pc s j = Outside \<and> \<not> tm_passed s j < R" if "j < N" for j
    using stuck ts [OF that, of s R] by (cases "kaapi_team_barrier_wait N (tm_pc s j) (tm_bar s)") auto
  have form: "tm_pc s j = Outside \<and> tm_passed s j = r \<and> r = R \<or> (\<exists>c. tm_pc s j = Spinning c) \<and> tm_passed s j = r \<and> r < R" if "j < N" for j
  proof (cases "tm_pc s j")
    case (Spinning c)
    have p: "tm_passed s j = r \<or> tm_passed s j + 1 = r" "c = tm_passed s j mod 3" "tm_passed s j < R"
      using D(1) [OF that] Spinning by (simp_all add: thread_ok_def)
    have "tm_passed s j + 1 \<noteq> r"
    proof
      assume "tm_passed s j + 1 = r"
      then have "br_cycle (tm_bar s) = (c + 1) mod 3" using D(2) p(2) by (metis mod_add_left_eq)
      then show False using en [OF that] Spinning by (simp add: KAAPI_BAR_CYCLES_def)
    qed
    then show ?thesis using p Spinning by auto
  next
    case Outside
    then show ?thesis using en [OF that] D(1) [OF that] by (auto simp: thread_ok_def)
  qed (use en [OF that] in \<open>auto simp: Let_def\<close>)
  show ?thesis
  proof (rule ccontr)
    assume "\<not> ?thesis"
    then have "r < R" using form [OF i] by auto
    then have sp: "\<exists>c. tm_pc s j = Spinning c" "tm_passed s j = r" if "j < N" for j using form [OF that] by auto
    then have "arrived_at N r s = {..<N}" by (force simp: arrived_at_def inside_def)
    then obtain j where "j < N" "finisher (tm_pc s j)" using D(6) by blast
    then show False using sp(1) [of j] by (auto simp: finisher_def)
  qed
qed

section \<open>Properties\<close>

text \<open>C38. The barrier separates the rounds, in every interleaving of the atomic operations of any number of threads that
  call it again and again: a thread that has passed the barrier \<open>p\<close> times knows that every thread has arrived at it
  \<open>p\<close> times, and no thread is more than one round ahead. In particular the three counters are enough.\<close>

theorem barrier_separates:
  assumes "team_run N R xs s" "i < N" "j < N"
  shows "tm_passed s i \<le> arrivals s j \<and> tm_passed s i \<le> tm_passed s j + 1"
proof -
  obtain r where inv: "team_inv N R r s" using run_inv [OF assms(1)] assms(2) by auto
  have "tm_passed s i \<le> r" using team_invD(1) [OF inv assms(2)] by (cases "tm_pc s i") (auto simp: thread_ok_def)
  moreover have "r \<le> arrivals s j \<and> r \<le> tm_passed s j + 1"
    using team_invD(1) [OF inv assms(3)] by (cases "tm_pc s j") (auto simp: thread_ok_def arrivals_def inside_def)
  ultimately show ?thesis by linarith
qed

text \<open>The step as a function, and a schedule.\<close>

definition team_do :: "nat \<Rightarrow> nat \<Rightarrow> nat \<Rightarrow> team \<Rightarrow> team option" where
  "team_do N R i s =
     (if i < N \<and> (tm_pc s i = Outside \<longrightarrow> tm_passed s i < R) then
        map_option (\<lambda>(pc, b). s\<lparr>tm_bar := b, tm_pc := (tm_pc s)(i := pc),
          tm_passed := (if pc = Outside then (tm_passed s)(i := tm_passed s i + 1) else tm_passed s)\<rparr>)
          (kaapi_team_barrier_wait N (tm_pc s i) (tm_bar s))
      else None)"

fun team_sched :: "nat \<Rightarrow> nat \<Rightarrow> nat list \<Rightarrow> team \<Rightarrow> team option" where
  "team_sched N R [] s = Some s"
| "team_sched N R (i # xs) s = Option.bind (team_do N R i s) (team_sched N R xs)"

lemma team_do_step: "team_do N R i s = Some s' \<Longrightarrow> team_step N R s i s'"
  by (auto simp: team_do_def team_step_iff split: if_splits)

lemma team_sched_run: "team_run N R ys s \<Longrightarrow> team_sched N R xs s = Some s' \<Longrightarrow> team_run N R (ys @ xs) s'"
proof (induction xs arbitrary: ys s)
  case (Cons i xs)
  obtain s1 where "team_do N R i s = Some s1" "team_sched N R xs s1 = Some s'" using Cons.prems(2) by (auto simp: bind_eq_Some_conv)
  then show ?case using Cons.IH [OF tr_step [OF Cons.prems(1) team_do_step]] by simp
qed simp

text \<open>Two threads, one round: thread 1 arrives last and leaves before thread 0 has seen the new cycle.\<close>

definition team2 :: "nat \<Rightarrow> team" where
  "team2 k = the (team_sched 2 1 (take k [0, 1, 0, 1, 1, 1, 0]) team_init)"

lemmas team2_eval = team2_def team_do_def team_init_def kaapi_barrier_init_def Let_def KAAPI_BAR_CYCLES_def

lemma team2_run: "team_run 2 1 [0, 1, 0, 1, 1, 1] (team2 6)" "team_run 2 1 [0, 1, 0, 1, 1, 1, 0] (team2 7)"
  by (rule team_sched_run [OF tr_init, simplified]; simp add: team2_eval)+

lemma barrier_separates_witness: "tm_passed (team2 6) 1 = 1 \<and> tm_passed (team2 6) 0 = 0 \<and> 1 \<le> arrivals (team2 6) 0"
proof -
  have "tm_passed (team2 6) 1 = 1" "tm_passed (team2 6) 0 = 0" by (simp_all add: team2_eval)
  then show ?thesis using barrier_separates [OF team2_run(1), of 1 0] by simp
qed

text \<open>C39. The barrier lets everybody through: when \<open>N\<close> threads call it \<open>R\<close> times each, every run is finite (at most
  \<open>4 * N * R\<close> atomic operations that change the state) and a run that cannot be continued is one where every thread has
  passed the barrier \<open>R\<close> times and is out of it.\<close>

theorem barrier_ends:
  assumes "team_run N R xs s" "0 < N"
  shows "length xs \<le> 4 * N * R \<and>
    ((\<forall>i s'. \<not> team_step N R s i s') \<longrightarrow> (\<forall>i<N. tm_pc s i = Outside \<and> tm_passed s i = R))"
proof -
  obtain r where inv: "team_inv N R r s" using run_inv [OF assms] by blast
  have "length xs \<le> 4 * N * R" using run_weight [OF assms(1)] weight_bound [OF inv] by linarith
  then show ?thesis using stuck_done [OF inv] by blast
qed

lemma barrier_ends_witness: "tm_passed (team2 7) 0 = 1 \<and> tm_pc (team2 7) 0 = Outside \<and> tm_passed (team2 7) 1 = 1 \<and> tm_pc (team2 7) 1 = Outside"
proof -
  have "\<not> team_step 2 1 (team2 7) i s'" for i s' by (auto simp: team_step_iff team2_eval less_2_cases_iff)
  then show ?thesis using barrier_ends [OF team2_run(2)] by simp
qed

end
