(* ===== verification/Spec2Isabelle.thy ===== *)
theory Spec2Isabelle
  imports LocalityDomain Gemmt Rank_2K Symm_Hemm Trmm Trsm Gemm_Run Coherence_Run Device_Cache Device_Heap Hash_Map Task_Push Barrier
begin

text \<open>
  A verification library for XKBlas: BLAS level-3 routines cut in tiles (\<open>src/blas\<close>) and run as tasks on
  GPUs by the Kaapi runtime (\<open>src/kaapi\<close>).

  \<^bold>\<open>The program.\<close> An entry point such as \<open>xkblas_zgemm_async\<close> checks its arguments, cuts each matrix in tiles with a
  handle for each, binds the tiles of the result to GPUs and inserts one task for each kernel call on tiles. Inserting
  a task links its accesses to the handles into a data-flow graph. \<open>xkblas_sync\<close> starts the graph; a ready task is
  pushed to the queue of a locality domain, taken by a device thread, which brings the data of the task to the device
  (coherence of replicas, device memory), runs the kernel and activates the successors of the task.

  \<^bold>\<open>Theories and sources.\<close>
  \<^item> \<open>XK_Prelude\<close>: outcomes of a call, C integers, loops, sums over tiles. \<open>Linked_Lists\<close>: lists in a store.
  \<^item> \<open>Tiling\<close> (\<open>common.gen\<close>, \<open>xkblas.c\<close>): descriptors, handles, tile addresses, the flat memory of the matrices.
    \<open>Mapping_Gpu\<close> (\<open>xkblas.c\<close>): automatic tile size and the placement of tiles. \<open>LocalityDomain\<close> (\<open>kaapi_ld.c\<close>):
    the registry of domains.
  \<^item> \<open>Blas_Tasks\<close> (\<open>ztask_*.c\<close>): the tasks, their declared accesses and their GPU bodies. \<open>Tile_Exec\<close>: execution of task
    lists, one entry of the result at a time. \<open>Triangular\<close>: the same for the in-place routines, as Hoare triples.
    \<open>Operands\<close>: the prologue of the entry points.
  \<^item> \<open>Gemm\<close>, \<open>Gemmt\<close>, \<open>Rank_K\<close> (zsyrk, zherk), \<open>Rank_2K\<close> (zsyr2k, zher2k), \<open>Symm_Hemm\<close>, \<open>Trmm\<close>, \<open>Trsm\<close>
    (\<open>z*.c\<close>): argument checks and task generation of the routines, every branch.
  \<^item> \<open>Dataflow\<close>, \<open>Dataflow_Run\<close> (\<open>kaapi_task.c\<close>): \<open>kaapi_update_dependencies\<close>, commit, activation, start, in an
    explicit store of accesses. \<open>Task_Order\<close>, \<open>Schedule\<close>: order independence of the results.
    \<open>Gemm_Run\<close>: the tasks of zgemm meet the conditions of \<open>Schedule\<close>.
  \<^item> \<open>Fifo_Queue\<close> (\<open>kaapi_ld.c\<close>, \<open>kaapi_task.c\<close>): ready queues and affinity scores. \<open>Task_Push\<close> (\<open>kaapi_task.c\<close>,
    \<open>kaapi.h\<close>): the queue a ready task goes to.
  \<^item> \<open>Get_Source\<close> (\<open>kaapi_memory.h\<close>, the plugins), \<open>Replica\<close> (\<open>kaapi_memory.c\<close>): replicas of a datum, fetches, callbacks,
    acquire, release, prefetch, eviction. \<open>Coherence\<close>, \<open>Coherence_Inv\<close>, \<open>Coherence_Run\<close> (the same and \<open>xkblas.c\<close>): the runs of
    the tasks, write-backs and evictions on one datum, two invariants, their consequences and two counterexamples. \<open>Device_Cache\<close> (\<open>kaapi_memory.c\<close>): the
    cache lists of a device.
  \<^item> \<open>Device_Heap\<close> (\<open>kaapi_memory.c\<close>): the allocator of device memory. \<open>Hash_Map\<close> (\<open>kaapi_hashmap.c\<close>): the table from
    pointers to entries. \<open>Barrier\<close> (\<open>kaapi_barrier.c\<close>): the barrier of a team.

  \<^bold>\<open>How state and code correspond.\<close> A C structure is a record with the fields the code uses, a global table a field of
  the state that each function takes and returns. Pointers are addresses into an explicit store where the code shares
  or relinks objects (accesses, chunks, hash entries), and names elsewhere. Bit fields are \<open>16 word\<close>, hash values
  \<open>32 word\<close>, addresses and \<open>size_t\<close> requests \<open>64 word\<close>; other C integers are numbers with the conversions and the
  overflows that matter written out (\<open>size_of_int\<close>, \<open>Fq_overflow\<close>). A failed \<open>kaapi_assert\<close>, a call of
  \<open>kaapi_error\<close>, a null pointer dereferenced, an index outside an array and a division by zero are values. Functions
  that hold a lock from end to end are one step; so is \<open>kaapi_dsm_fetch_on\<close>, which posts its copy after its locks. An
  acquisition is three steps, a write-back two (the request, the arrival of the copy). Arithmetic on matrix entries is exact.

  \<^bold>\<open>What the lemmas show.\<close>
  \<^item> Each routine: the tasks of an accepted call, run in the order of insertion, compute the BLAS result and touch
    nothing else (C3, C9 to C17), under the documented contracts of the kernels; C15 leaves out one branch of zher2k, which reads B with the leading dimension of A (C18).
  \<^item> The scheduler: a task runs after the earlier ones it conflicts with, none is lost (C24, C25), and therefore every
    run gives the sequential result (C2), which for zgemm composes from the entry point to \<open>xkblas_sync\<close> (C1);
    C40 is a task the scheduler never runs.
  \<^item> Placement and queues: C19 to C23, C37 for tiles, domains and pushes; C32 to C34 for the queues, a refinement of a
    list with holes; C35 and C36 are two ways in which they fail, the second one in a function whose only call is compiled out.
  \<^item> Memory: in every run a task that may read finds a valid replica (C4), waiting tasks are served (C5), some replica is valid
    (C7), the assertions hold (C8), a source is found (C30). The replicas hold the last value written (C4, C7) in the runs that
    evict no source of a posted copy and let no writer fetch during a copy to the host. The code enforces neither
    condition, and C26 and C6 are runs without the one and without the other that go wrong. The blocks of the device allocator are disjoint and its memory is recovered
    (C27, C28); the cache of a device is a pair of lists ordered by last use (C29); the hash table is a map (C31).
  \<^item> The barrier separates the rounds and lets everybody through (C38, C39).

  \<^bold>\<open>Interfaces.\<close> \<open>commuting_tasks\<close> and \<open>footprint_tasks\<close> (\<open>Task_Order\<close>) are interpreted on the tile tasks in \<open>Schedule\<close>;
  \<open>source_plugin\<close> (\<open>Get_Source\<close>) on the three plugins; \<open>find_insert\<close> (\<open>Hash_Map\<close>) on the table; \<open>conserving\<close>
  (\<open>Fifo_Queue\<close>) on the ready queues.

  \<^bold>\<open>Parameters.\<close> The kernels of the vendor BLAS (\<open>K\<close>) with their documented contracts \<open>gemm_ok\<close> to \<open>trsm_ok\<close>, shown to hold
  of the functions \<open>ref_blas\<close>; what fresh device memory holds (\<open>J\<close>); \<open>rand_r\<close>; the plugin that chooses the source of
  a copy, under the contract \<open>source_plugin\<close>; what the device allocator, the eviction and the poll of the device answer to the
  allocation of a replica (\<open>device_memory\<close>); the affinity of a task at each call of a queue operation.

  \<^bold>\<open>Bounds and termination.\<close> No fuel is used. Loops over indices are structural; of the two \<open>redo\<close> loops of the
  tile size one is unrolled and one descends with its divisor; the walks along linked lists (\<open>best_fit\<close>, \<open>prev_free\<close>,
  \<open>hashmap_find_loop\<close>, \<open>activate_list\<close>) and the retries of \<open>kaapi_get_source_lid\<close> are partial functions that are proved
  to return on well-formed states. The loop of \<open>_kaapi_dsm_allocate_replica\<close> runs on the list of its turns and returns if one of them
  finds memory (C8). Runs of
  step relations are bounded where this is the claim (C28, C39).

  \<^bold>\<open>Not modelled.\<close> The CPU bodies of the tasks, the synchronous and Fortran wrappers and the single-precision and real
  variants generated from the same sources; \<open>zcopyscale\<close> and \<open>zswap\<close>, whose tasks write two tiles or run a CUDA kernel
  of their own; \<open>zpotrf\<close> and \<open>zgetrf\<close>, which the build leaves out; the invalidation
  of the device caches at synchronisation points and the lookup of metadata by address and address space; work stealing
  between host threads and stack allocation, since library tasks go to the queues of the domains; streams, events and
  plugins beyond \<open>f_get_source\<close>, which are calls to the device drivers; the wait for the master at the end of the barrier;
  tracing, debugging, start-up and the interposition of the host BLAS. The memory of threads is sequentially consistent.
\<close>

section \<open>A call of zgemm on the runtime\<close>

text \<open>C1. An accepted call of \<open>xkblas_zgemm_async\<close> followed by \<open>xkblas_sync\<close> computes
  \<open>alpha*op(A)*op(B) + beta*C\<close> in \<open>C\<close> and changes nothing else, whatever order the runtime takes the ready tasks in:
  with any list of handles that has those of the inserted tasks, the data-flow graph starts, some run of it comes to
  its end, and every run that cannot be continued leaves this memory.\<close>

theorem zgemm_any_run:
  assumes "gemm_ok K" "blas_local K" and "zgemm_args ta tb M N Kd LDA LDB LDC = None" and "0 < Kd \<or> be = 1"
    and "LDA \<in> {0..<2 ^ 31}" "LDB \<in> {0..<2 ^ 31}" "LDC \<in> {0..<2 ^ 31}" "M < 2 ^ 31" "N < 2 ^ 31" "Kd < 2 ^ 31"
    and "unregistered ctxt A" "unregistered ctxt B" "unregistered ctxt C"
    and "gemm_operands_apart ta tb M N Kd A LDA B LDB C LDC"
    and "0 < xc_ngpus ctxt" "gpus_registered R KAAPI_LD_GPU c f"
  shows "\<exists>ts ctxt'. xkblas_zgemm_async ta tb M N Kd al A LDA B LDB be C LDC R ctxt = Returned (ts, ctxt') \<and>
    (\<forall>hs. (\<forall>t\<in>set ts. fst ` set (task_accesses t) \<subseteq> set hs) \<longrightarrow>
      (\<exists>st. graph_start hs ts ac tk = Some st \<and> (\<exists>xs st'. dfg_run st xs st' \<and> (\<forall>t st''. \<not> dfg_step st' t st'')) \<and>
        (\<forall>xs st'. dfg_run st xs st' \<longrightarrow> (\<forall>t st''. \<not> dfg_step st' t st'') \<longrightarrow>
           run_tasks K J ts xs mem = store_block C (nat LDC) (nat M) (nat N)
             (gemm_val ta tb (nat Kd) al (view mem A (nat LDA)) (view mem B (nat LDB)) be (view mem C (nat LDC))) mem)))"
proof -
  obtain ts ctxt' where call: "xkblas_zgemm_async ta tb M N Kd al A LDA B LDB be C LDC R ctxt = Returned (ts, ctxt')"
    and ex: "exec_tasks K J ts mem = store_block C (nat LDC) (nat M) (nat N)
      (gemm_val ta tb (nat Kd) al (view mem A (nat LDA)) (view mem B (nat LDB)) be (view mem C (nat LDC))) mem"
    and form: "ts = [] \<or> (\<exists>NB Ah Bh Ch. ts = zgemm_tasks ta tb (nat M) (nat N) (nat (op_rows ta M Kd)) (nat (op_cols ta M Kd)) al
        Ah (nat LDA) Bh (nat LDB) be Ch (nat LDC) \<and>
      gemm_layout ta tb (nat M) (nat N) (nat Kd) NB Ah A (nat LDA) Bh B (nat LDB) Ch C (nat LDC))"
    using zgemm_async_run [OF assms(1,3-), of al J mem] by blast
  have abc: "distinct [A, B, C]" using assms(14) by (simp add: gemm_operands_apart_def)
  have op: "nat (op_rows ta M Kd) = (if ta = CblasNoTrans then nat M else nat Kd)"
    "nat (op_cols ta M Kd) = (if ta = CblasNoTrans then nat Kd else nat M)" by (simp_all add: op_rows_def op_cols_def)
  have ap: "tiles_apart ts"
    using form zgemm_tiles_apart unfolding op by (elim disjE exE conjE; force simp: no_tasks)
  have dec: "tasks_declared hs ts" if "\<forall>t\<in>set ts. fst ` set (task_accesses t) \<subseteq> set hs" for hs
    using form zgemm_tasks_declared [OF _ abc that] unfolding op by (elim disjE exE conjE; force simp: no_tasks)
  show ?thesis
    using call runtime_result [OF assms(2) dec ap, where ac = ac and tk = tk and J = J and mem = mem] unfolding ex by blast
qed

theorem zgemm_any_run_witness:
  "\<forall>ac tk. \<exists>ts ctxt'. xkblas_zgemm_async 111 112 3 2 2 2 16 3 1000 2 5 2000 4 one_gpu_reg (empty_ctx 2) = Returned (ts, ctxt') \<and>
    (\<exists>hs st xs st'. graph_start hs ts ac tk = Some st \<and> dfg_run st xs st' \<and>
      run_tasks (ref_blas (\<lambda>_ _ _ _ _ _ _ _ B. B)) (\<lambda>_ _ _. 7) ts xs (\<lambda>_. 1) = store_block 2000 4 3 2
        (gemm_val 111 112 2 2 (view (\<lambda>_. 1) 16 3) (view (\<lambda>_. 1) 1000 2) 5 (view (\<lambda>_. 1) 2000 4)) (\<lambda>_. 1))"
proof (intro allI)
  fix ac tk
  let ?K = "ref_blas (\<lambda>_ _ _ _ _ _ _ _ B. B)"
  have "blas_local ?K" by (rule ref_blas_local [OF no_solver_local])
  then obtain ts ctxt' where c: "xkblas_zgemm_async 111 112 3 2 2 2 16 3 1000 2 5 2000 4 one_gpu_reg (empty_ctx 2) = Returned (ts, ctxt')"
    and r: "\<forall>hs. (\<forall>t\<in>set ts. fst ` set (task_accesses t) \<subseteq> set hs) \<longrightarrow>
      (\<exists>st. graph_start hs ts ac tk = Some st \<and> (\<exists>xs st'. dfg_run st xs st' \<and> (\<forall>t st''. \<not> dfg_step st' t st'')) \<and>
        (\<forall>xs st'. dfg_run st xs st' \<longrightarrow> (\<forall>t st''. \<not> dfg_step st' t st'') \<longrightarrow>
           run_tasks ?K (\<lambda>_ _ _. 7) ts xs (\<lambda>_. 1) = store_block 2000 4 3 2
             (gemm_val 111 112 2 2 (view (\<lambda>_. 1) 16 3) (view (\<lambda>_. 1) 1000 2) 5 (view (\<lambda>_. 1) 2000 4)) (\<lambda>_. 1)))"
    using zgemm_any_run [of ?K 111 112 3 2 2 3 2 4 5 "empty_ctx 2" 16 1000 2000 one_gpu_reg 1 "\<lambda>_. 1" 2 ac tk "\<lambda>_ _ _. 7" "\<lambda>_. 1"]
    by (auto simp: zgemm_args_def ld_too_small_def size_of_int_def SIZE_MOD_def op_rows_def op_cols_def
        enum_simps gemm_operands_apart_def arrays_disjoint_ranges ELTSIZE_def one_gpu_registered [simplified])
  let ?hs = "concat (map (\<lambda>t. map fst (task_accesses t)) ts)"
  have "\<forall>t\<in>set ts. fst ` set (task_accesses t) \<subseteq> set ?hs" by auto
  with r c show "\<exists>ts ctxt'. xkblas_zgemm_async 111 112 3 2 2 2 16 3 1000 2 5 2000 4 one_gpu_reg (empty_ctx 2) = Returned (ts, ctxt') \<and>
    (\<exists>hs st xs st'. graph_start hs ts ac tk = Some st \<and> dfg_run st xs st' \<and>
      run_tasks ?K (\<lambda>_ _ _. 7) ts xs (\<lambda>_. 1) = store_block 2000 4 3 2
        (gemm_val 111 112 2 2 (view (\<lambda>_. 1) 16 3) (view (\<lambda>_. 1) 1000 2) 5 (view (\<lambda>_. 1) 2000 4)) (\<lambda>_. 1))"
    by metis
qed

end
